(* ===== verification/Mosaic_Prelude.thy ===== *)
theory Mosaic_Prelude
  imports Main "HOL-Library.Multiset"
begin

text \<open>
  The shared prelude: the Python exceptions the modelled code raises and the result type that
  carries them, the lemma collections of the development, 64-bit wrap-around as
  \<^verbatim>\<open>torch\<close> integer tensors have it, half-open byte intervals, and generic lemmas on lists,
  sorting and rounding that the component theories share.
\<close>

section \<open>Lemma collections\<close>

named_theorems result_simps \<open>equations of the result type\<close>
named_theorems interval_simps \<open>facts on half-open byte intervals\<close>

section \<open>Exceptions as values\<close>

datatype py_error =
    ValueError
  | RuntimeError
  | IndexError
  | KeyError
  | TypeError
  | AssertionError
  | NameError
  | NotImplementedError
  | ZeroDivisionError
  | AttributeError

type_synonym 'a result = "py_error + 'a"

definition bind_res :: "'a result \<Rightarrow> ('a \<Rightarrow> 'b result) \<Rightarrow> 'b result" where
  "bind_res r f = (case r of Inl e \<Rightarrow> Inl e | Inr x \<Rightarrow> f x)"

lemma bind_res_Inl [simp, result_simps]: "bind_res (Inl e) f = Inl e"
  by (simp add: bind_res_def)

lemma bind_res_Inr [simp, result_simps]: "bind_res (Inr x) f = f x"
  by (simp add: bind_res_def)

lemma bind_res_eq_Inr [result_simps]:
  "bind_res r f = Inr y \<longleftrightarrow> (\<exists>x. r = Inr x \<and> f x = Inr y)"
  by (cases r) auto

lemma bind_res_eq_Inl [result_simps]:
  "bind_res r f = Inl e \<longleftrightarrow> r = Inl e \<or> (\<exists>x. r = Inr x \<and> f x = Inl e)"
  by (cases r) auto

lemma bind_res_cong [fundef_cong]:
  "r = r' \<Longrightarrow> (\<And>x. r' = Inr x \<Longrightarrow> f x = f' x) \<Longrightarrow> bind_res r f = bind_res r' f'"
  by (cases r') (auto simp: bind_res_def)

text \<open>A loop whose body may raise: the first exception ends it.\<close>

fun foldM :: "('a \<Rightarrow> 's \<Rightarrow> 's result) \<Rightarrow> 'a list \<Rightarrow> 's \<Rightarrow> 's result" where
  "foldM f [] s = Inr s"
| "foldM f (x # xs) s = bind_res (f x s) (foldM f xs)"

lemma foldM_append: "foldM f (xs @ ys) s = bind_res (foldM f xs s) (foldM f ys)"
  by (induction xs arbitrary: s) (auto simp: bind_res_def split: sum.splits)

lemma foldM_snoc: "foldM f (xs @ [x]) s = bind_res (foldM f xs s) (f x)"
  by (simp add: foldM_append bind_res_def split: sum.splits)

text \<open>Invariant rule for such loops: what the body keeps along every prefix holds at the end.\<close>

lemma foldM_invariant:
  assumes "foldM f xs s = Inr s'" and "P [] s"
    and "\<And>ps x qs t t'. xs = ps @ x # qs \<Longrightarrow> P ps t \<Longrightarrow> f x t = Inr t' \<Longrightarrow> P (ps @ [x]) t'"
  shows "P xs s'"
proof -
  have "foldM f ps s = Inr t \<Longrightarrow> \<exists>qs. xs = ps @ qs \<Longrightarrow> P ps t" for ps t
  proof (induction ps arbitrary: t rule: rev_induct)
    case Nil
    then show ?case using assms(2) by simp
  next
    case (snoc x ps)
    from snoc.prems(1) obtain u where u: "foldM f ps s = Inr u" "f x u = Inr t"
      by (auto simp: foldM_snoc bind_res_eq_Inr)
    from snoc.prems(2) obtain qs where qs: "xs = ps @ x # qs" by auto
    then have "P ps u" using snoc.IH u(1) by auto
    with assms(3) qs u(2) show ?case by blast
  qed
  then show ?thesis using assms(1) by blast
qed

lemma foldM_no_raise:
  assumes "\<And>x s. x \<in> set xs \<Longrightarrow> \<exists>s'. f x s = Inr s'"
  shows "\<exists>s'. foldM f xs s = Inr s'"
  using assms
proof (induction xs arbitrary: s)
  case (Cons x xs)
  from Cons.prems obtain u where "f x s = Inr u" by force
  moreover have "\<exists>s'. foldM f xs u = Inr s'" using Cons by simp
  ultimately show ?case by simp
qed simp

text \<open>The total form: when the body never raises on states that satisfy the invariant.\<close>

lemma foldM_total_invariant:
  assumes "P [] s"
    and "\<And>ps x qs t. xs = ps @ x # qs \<Longrightarrow> P ps t \<Longrightarrow> \<exists>t'. f x t = Inr t' \<and> P (ps @ [x]) t'"
  shows "\<exists>s'. foldM f xs s = Inr s' \<and> P xs s'"
proof -
  have "\<exists>t. foldM f ps s = Inr t \<and> P ps t" if "\<exists>qs. xs = ps @ qs" for ps
    using that
  proof (induction ps rule: rev_induct)
    case Nil
    then show ?case using assms(1) by simp
  next
    case (snoc x ps)
    then obtain t qs where t: "foldM f ps s = Inr t" "P ps t" "xs = ps @ x # qs" by auto
    then obtain t' where "f x t = Inr t'" "P (ps @ [x]) t'" using assms(2) by blast
    then show ?case using t by (auto simp: foldM_snoc)
  qed
  then show ?thesis by blast
qed

definition is_ok :: "'a result \<Rightarrow> bool" where
  "is_ok r = (case r of Inl _ \<Rightarrow> False | Inr _ \<Rightarrow> True)"

lemma is_ok_simps [simp]: "is_ok (Inr x)" "\<not> is_ok (Inl e)"
  by (simp_all add: is_ok_def)

section \<open>64-bit tensor arithmetic\<close>

definition wrap64 :: "int \<Rightarrow> int" where
  "wrap64 x = (x + 2 ^ 63) mod 2 ^ 64 - 2 ^ 63"

lemma wrap64_id: "- (2 ^ 63) \<le> x \<Longrightarrow> x < 2 ^ 63 \<Longrightarrow> wrap64 x = x"
  by (simp add: wrap64_def)

lemma wrap64_range: "- (2 ^ 63) \<le> wrap64 x \<and> wrap64 x < 2 ^ 63"
proof -
  have "0 \<le> (x + 2 ^ 63) mod 2 ^ 64" "(x + 2 ^ 63) mod 2 ^ 64 < (2 ^ 64 :: int)"
    by simp_all
  then show ?thesis by (simp add: wrap64_def)
qed

section \<open>Rounding up\<close>

definition ceil_div :: "int \<Rightarrow> int \<Rightarrow> int" where
  "ceil_div a b = (a + b - 1) div b"

lemma ceil_div_lower: "0 < b \<Longrightarrow> a \<le> b * ceil_div a b"
proof -
  assume b: "0 < b"
  have "(a + b - 1) mod b < b" using b by simp
  moreover have "b * ((a + b - 1) div b) + (a + b - 1) mod b = a + b - 1"
    by (rule mult_div_mod_eq)
  ultimately show ?thesis unfolding ceil_div_def by linarith
qed

lemma ceil_div_upper: "0 < b \<Longrightarrow> b * ceil_div a b < a + b"
proof -
  assume b: "0 < b"
  have "0 \<le> (a + b - 1) mod b" using b by simp
  moreover have "b * ((a + b - 1) div b) + (a + b - 1) mod b = a + b - 1"
    by (rule mult_div_mod_eq)
  ultimately show ?thesis unfolding ceil_div_def by linarith
qed

lemma ceil_div_nonneg: "0 < b \<Longrightarrow> 0 \<le> a \<Longrightarrow> 0 \<le> ceil_div a b"
  by (simp add: ceil_div_def pos_imp_zdiv_nonneg_iff)

lemma ceil_div_pos: "0 < b \<Longrightarrow> 0 < a \<Longrightarrow> 0 < ceil_div a b"
  by (simp add: ceil_div_def pos_imp_zdiv_pos_iff)

lemma ceil_div_le: "0 < b \<Longrightarrow> 0 \<le> a \<Longrightarrow> ceil_div a b \<le> a"
proof (rule ccontr)
  assume b: "0 < b" and a: "0 \<le> a" and "\<not> ceil_div a b \<le> a"
  then have "a + 1 \<le> ceil_div a b" by simp
  then have "b * (a + 1) \<le> b * ceil_div a b" using b by (intro mult_left_mono) auto
  also have "\<dots> < a + b" using b by (rule ceil_div_upper)
  finally have "b * a < a" by (simp add: algebra_simps)
  moreover have "1 * a \<le> b * a" using a b by (intro mult_right_mono) auto
  ultimately show False by simp
qed

lemma ceil_div_one [simp]: "ceil_div a 1 = a"
  by (simp add: ceil_div_def)

section \<open>Half-open intervals\<close>

definition disjoint_iv :: "int \<Rightarrow> int \<Rightarrow> int \<Rightarrow> int \<Rightarrow> bool" where
  "disjoint_iv s1 e1 s2 e2 \<longleftrightarrow> e1 \<le> s2 \<or> e2 \<le> s1"

lemma disjoint_iv_sym [interval_simps]: "disjoint_iv s1 e1 s2 e2 = disjoint_iv s2 e2 s1 e1"
  by (auto simp: disjoint_iv_def)

lemma disjoint_iv_no_common:
  "disjoint_iv s1 e1 s2 e2 \<Longrightarrow> s1 \<le> k \<Longrightarrow> k < e1 \<Longrightarrow> \<not> (s2 \<le> k \<and> k < e2)"
  by (auto simp: disjoint_iv_def)

section \<open>Lists\<close>

lemma sorted_wrt_nth_mono:
  "sorted_wrt P xs \<Longrightarrow> i < j \<Longrightarrow> j < length xs \<Longrightarrow> P (xs ! i) (xs ! j)"
  by (simp add: sorted_wrt_iff_nth_less)

lemma sorted_wrt_by_key:
  fixes f :: "'a \<Rightarrow> 'k::linorder"
  assumes "sorted_wrt R xs" and "sorted_wrt (\<lambda>a b. f a < f b) xs"
    and "x \<in> set xs" and "y \<in> set xs" and "f x < f y"
  shows "R x y"
proof -
  from assms(3,4) obtain i j where ij: "i < length xs" "x = xs ! i" "j < length xs" "y = xs ! j"
    by (auto simp: in_set_conv_nth)
  have "i < j"
  proof (rule ccontr)
    assume "\<not> i < j"
    then have "j < i \<or> j = i" by auto
    then show False
      using sorted_wrt_nth_mono [OF assms(2), of j i] ij assms(5) by auto
  qed
  then show ?thesis using sorted_wrt_nth_mono [OF assms(1)] ij by blast
qed

lemma enumerate_snoc: "enumerate n (xs @ [x]) = enumerate n xs @ [(n + length xs, x)]"
  by (simp add: enumerate_append_eq)

end
