(* ===== verification/Compute_Graph.thy ===== *)
theory Compute_Graph
  imports Mosaic_Prelude
begin

text \<open>
  The computation-graph framework of \<^verbatim>\<open>vllm/v1/worker/graph_builder.py\<close>, part 1:
  \<^verbatim>\<open>TensorSpec\<close>, \<^verbatim>\<open>OpNode\<close> and \<^verbatim>\<open>CustomGraph\<close> with \<^verbatim>\<open>add_op\<close> and
  \<^verbatim>\<open>add_alias\<close>. The dictionaries are maps, the execution order is a list, a raised
  \<^verbatim>\<open>ValueError\<close> is an error value. The invariant \<open>wf_graph\<close> says that the dictionary of
  nodes and the execution order describe the same tensors and that aliases never grow.
\<close>

section \<open>Tensor metadata\<close>

text \<open>What the code reads of a \<^verbatim>\<open>torch.dtype\<close>: whether it is floating point and the number
  of bits \<^verbatim>\<open>torch.finfo\<close> or \<^verbatim>\<open>torch.iinfo\<close> reports for it.\<close>

record torch_dtype =
  is_floating_point :: bool
  dtype_bits :: int

definition bfloat16 :: torch_dtype where
  "bfloat16 = \<lparr>is_floating_point = True, dtype_bits = 16\<rparr>"

definition int8 :: torch_dtype where
  "int8 = \<lparr>is_floating_point = False, dtype_bits = 8\<rparr>"

record tensor_spec =
  ts_shape :: "int list"
  ts_dtype :: torch_dtype
  size_bytes :: int

text \<open>
  The number of elements is the product of an \<^verbatim>\<open>int64\<close> tensor, which wraps around; the
  multiplication by the element width is on Python integers. A dimension outside
  \<^verbatim>\<open>int64\<close> cannot be stored in that tensor.
\<close>

definition in_int64 :: "int \<Rightarrow> bool" where
  "in_int64 x \<longleftrightarrow> - (2 ^ 63) \<le> x \<and> x < 2 ^ 63"

definition prod_int64 :: "int list \<Rightarrow> int" where
  "prod_int64 xs = wrap64 (prod_list xs)"

definition TensorSpec :: "int list \<Rightarrow> torch_dtype \<Rightarrow> tensor_spec result" where
  "TensorSpec shp dt =
     (let bytes_per_element =
            (if is_floating_point dt then dtype_bits dt div 8 else dtype_bits dt div 8)
      in if list_all in_int64 shp
         then Inr \<lparr>ts_shape = shp, ts_dtype = dt, size_bytes = prod_int64 shp * bytes_per_element\<rparr>
         else Inl RuntimeError)"

section \<open>Nodes and graphs\<close>

record op_node =
  op_type :: string
  output_name :: string
  output_spec :: tensor_spec
  input_names :: "string list"

record custom_graph =
  nodes :: "string \<rightharpoonup> op_node"
  execution_order :: "op_node list"
  aliases :: "string \<rightharpoonup> string"

definition CustomGraph :: custom_graph where
  "CustomGraph = \<lparr>nodes = Map.empty, execution_order = [], aliases = Map.empty\<rparr>"

definition add_op ::
  "string \<Rightarrow> string \<Rightarrow> string list \<Rightarrow> int list \<Rightarrow> torch_dtype \<Rightarrow> custom_graph \<Rightarrow> custom_graph result"
where
  "add_op out op ins shp dt g =
     (if nodes g out \<noteq> None then Inl ValueError
      else bind_res (TensorSpec shp dt) (\<lambda>spec.
        let node = \<lparr>op_type = op, output_name = out, output_spec = spec, input_names = ins\<rparr>
        in Inr (g\<lparr>nodes := (nodes g)(out \<mapsto> node),
                  execution_order := execution_order g @ [node]\<rparr>)))"

definition add_alias :: "string \<Rightarrow> string \<Rightarrow> custom_graph \<Rightarrow> custom_graph result" where
  "add_alias source target g =
     (case (nodes g source, nodes g target) of
        (Some ns, Some nt) \<Rightarrow>
          if size_bytes (output_spec ns) > size_bytes (output_spec nt) then Inl ValueError
          else Inr (g\<lparr>aliases := (aliases g)(source \<mapsto> target)\<rparr>)
      | _ \<Rightarrow> Inl ValueError)"

text \<open>A graph is built by a straight-line sequence of such calls on a fresh graph.\<close>

datatype graph_cmd =
    AddOp string string "string list" "int list" torch_dtype
  | AddAlias string string

fun run_cmd :: "graph_cmd \<Rightarrow> custom_graph \<Rightarrow> custom_graph result" where
  "run_cmd (AddOp out op ins shp dt) g = add_op out op ins shp dt g"
| "run_cmd (AddAlias s t) g = add_alias s t g"

definition build_graph :: "graph_cmd list \<Rightarrow> custom_graph result" where
  "build_graph cmds = foldM run_cmd cmds CustomGraph"

section \<open>The graph invariant\<close>

abbreviation names_of :: "op_node list \<Rightarrow> string list" where
  "names_of ns \<equiv> map output_name ns"

lemma in_names_conv: "k \<in> set (names_of ns) \<longleftrightarrow> (\<exists>i < length ns. k = output_name (ns ! i))"
  by (force simp: in_set_conv_nth)

lemma names_nth_neq:
  "k \<notin> set (names_of ns) \<Longrightarrow> i < length ns \<Longrightarrow> output_name (ns ! i) \<noteq> k"
  unfolding in_names_conv by auto

definition wf_graph :: "custom_graph \<Rightarrow> bool" where
  "wf_graph g \<longleftrightarrow>
     distinct (names_of (execution_order g)) \<and>
     nodes g = map_of (map (\<lambda>n. (output_name n, n)) (execution_order g)) \<and>
     (\<forall>s t. aliases g s = Some t \<longrightarrow>
        (\<exists>ns nt. nodes g s = Some ns \<and> nodes g t = Some nt \<and>
           size_bytes (output_spec ns) \<le> size_bytes (output_spec nt)))"

lemma wf_graph_empty: "wf_graph CustomGraph"
  by (simp add: wf_graph_def CustomGraph_def)

lemma dom_map_of_nodes:
  "dom (map_of (map (\<lambda>n. (output_name n, n)) ns)) = set (names_of ns)"
  by (simp add: dom_map_of_conv_image_fst image_image)

lemma map_add_fresh: "k \<notin> dom m \<Longrightarrow> [k \<mapsto> v] ++ m = m(k \<mapsto> v)"
  by (rule ext) (auto simp: map_add_def dom_def split: option.splits)

lemma add_op_cases:
  assumes "add_op out op ins shp dt g = Inr g'"
  obtains spec where "TensorSpec shp dt = Inr spec" "out \<notin> dom (nodes g)"
    "g' = g\<lparr>nodes := (nodes g)(out \<mapsto>
               \<lparr>op_type = op, output_name = out, output_spec = spec, input_names = ins\<rparr>),
            execution_order := execution_order g @
               [\<lparr>op_type = op, output_name = out, output_spec = spec, input_names = ins\<rparr>]\<rparr>"
  using assms by (auto simp: add_op_def bind_res_eq_Inr Let_def dom_def split: if_splits)

lemma add_alias_cases:
  assumes "add_alias s t g = Inr g'"
  obtains ns nt where "nodes g s = Some ns" "nodes g t = Some nt"
    "size_bytes (output_spec ns) \<le> size_bytes (output_spec nt)"
    "g' = g\<lparr>aliases := (aliases g)(s \<mapsto> t)\<rparr>"
  using assms by (auto simp: add_alias_def split: if_splits option.splits)

lemma add_op_wf:
  assumes wf: "wf_graph g" and ok: "add_op out op ins shp dt g = Inr g'"
  shows "wf_graph g'"
proof -
  from ok obtain spec where fresh: "out \<notin> dom (nodes g)"
    and g': "g' = g\<lparr>nodes := (nodes g)(out \<mapsto>
               \<lparr>op_type = op, output_name = out, output_spec = spec, input_names = ins\<rparr>),
            execution_order := execution_order g @
               [\<lparr>op_type = op, output_name = out, output_spec = spec, input_names = ins\<rparr>]\<rparr>"
    by (rule add_op_cases)
  have nds: "nodes g = map_of (map (\<lambda>n. (output_name n, n)) (execution_order g))"
    using wf by (simp add: wf_graph_def)
  then have notin: "out \<notin> set (names_of (execution_order g))"
    using fresh dom_map_of_nodes by metis
  have al: "\<exists>ns nt. (nodes g') s = Some ns \<and> (nodes g') t = Some nt \<and>
      size_bytes (output_spec ns) \<le> size_bytes (output_spec nt)" if "aliases g s = Some t" for s t
  proof -
    from wf that obtain ns nt where "nodes g s = Some ns" "nodes g t = Some nt"
      "size_bytes (output_spec ns) \<le> size_bytes (output_spec nt)"
      unfolding wf_graph_def by blast
    then show ?thesis using fresh g' by (auto simp: dom_def)
  qed
  have "distinct (names_of (execution_order g'))"
    using wf notin g' by (simp add: wf_graph_def)
  moreover have "nodes g' = map_of (map (\<lambda>n. (output_name n, n)) (execution_order g'))"
    using notin g' nds by (simp add: map_add_fresh dom_map_of_conv_image_fst image_image)
  moreover have "aliases g' = aliases g" using g' by simp
  ultimately show ?thesis using al unfolding wf_graph_def by simp
qed

lemma add_alias_wf:
  assumes wf: "wf_graph g" and ok: "add_alias s t g = Inr g'"
  shows "wf_graph g'"
  using ok by (rule add_alias_cases) (use wf in \<open>auto simp: wf_graph_def\<close>)

lemma run_cmd_wf: "wf_graph g \<Longrightarrow> run_cmd c g = Inr g' \<Longrightarrow> wf_graph g'"
  by (cases c) (auto intro: add_op_wf add_alias_wf)

text \<open>Every graph built through the two methods satisfies the invariant.\<close>

lemma build_graph_wf: "build_graph cmds = Inr g \<Longrightarrow> wf_graph g"
  unfolding build_graph_def
  by (erule foldM_invariant [where P = "\<lambda>_ g. wf_graph g"])
     (auto intro: wf_graph_empty run_cmd_wf)

lemma wf_graph_nodes_iff:
  "wf_graph g \<Longrightarrow> nodes g k = Some n \<longleftrightarrow> n \<in> set (execution_order g) \<and> output_name n = k"
  by (auto simp: wf_graph_def map_of_eq_Some_iff distinct_map comp_def inj_on_def)

lemma wf_graph_dom: "wf_graph g \<Longrightarrow> dom (nodes g) = set (names_of (execution_order g))"
  by (simp add: wf_graph_def dom_map_of_nodes)

end
