(* ===== verification/Memory_Analyzer.thy ===== *)
theory Memory_Analyzer
  imports Compute_Graph Complex_Main
begin

text \<open>
  The memory analyser of \<^verbatim>\<open>vllm/v1/worker/graph_builder.py\<close>, part 2: liveness, peak
  memory, the occupancy timeline, and the first-fit reuse plan that maps every activation tensor
  to a byte range of one arena. Sizes in megabytes and occupancy ratios are exact rationals (the
  code divides by a power of two in floating point).
  The lemmas show that liveness is exact, that the reported peak is the maximum of the timeline,
  and that the plan of a graph whose aliases are harmless never lets two tensors share bytes while
  the first is still to be read.
\<close>

section \<open>Lifetimes\<close>

definition births :: "op_node list \<Rightarrow> string \<rightharpoonup> int" where
  "births order = fold (\<lambda>(i, n) m. m(output_name n \<mapsto> int i)) (enumerate 0 order) Map.empty"

definition mark_inputs :: "nat \<times> op_node \<Rightarrow> (string \<rightharpoonup> int) \<Rightarrow> (string \<rightharpoonup> int)" where
  "mark_inputs p m = fold (\<lambda>inp m. m(inp \<mapsto> int (fst p))) (input_names (snd p)) m"

definition deaths :: "custom_graph \<Rightarrow> string \<rightharpoonup> int" where
  "deaths g = fold mark_inputs (enumerate 0 (execution_order g))
                (\<lambda>k. case nodes g k of None \<Rightarrow> None | Some _ \<Rightarrow> Some (- 1))"

section \<open>Liveness, peak memory and timeline\<close>

definition liveness_step ::
  "op_node \<Rightarrow> (string \<rightharpoonup> string set) \<times> string set \<Rightarrow> (string \<rightharpoonup> string set) \<times> string set"
where
  "liveness_step node s =
     ((fst s)(output_name node \<mapsto> snd s),
      (snd s - {output_name node}) \<union> set (input_names node))"

definition analyze_liveness :: "custom_graph \<Rightarrow> string \<rightharpoonup> string set" where
  "analyze_liveness g = fst (fold liveness_step (rev (execution_order g)) (Map.empty, {}))"

definition live_set_for_calc :: "(string \<rightharpoonup> string set) \<Rightarrow> op_node \<Rightarrow> string set" where
  "live_set_for_calc liveness_map node =
     (case liveness_map (output_name node) of None \<Rightarrow> {} | Some s \<Rightarrow> s) \<union> {output_name node}"

text \<open>The sum of the sizes of a set of tensors; looking up a name the graph lacks raises.\<close>

definition live_total :: "custom_graph \<Rightarrow> string set \<Rightarrow> int result" where
  "live_total g S =
     (if \<forall>k \<in> S. nodes g k \<noteq> None
      then Inr (\<Sum>k \<in> S. size_bytes (output_spec (the (nodes g k))))
      else Inl KeyError)"

record peak_info =
  peak_memory_bytes :: int
  peak_node :: "op_node option"
  peak_live_set_names :: "string set"

definition peak_step ::
  "custom_graph \<Rightarrow> (string \<rightharpoonup> string set) \<Rightarrow> op_node \<Rightarrow> peak_info \<Rightarrow> peak_info result"
where
  "peak_step g liveness_map node pk =
     bind_res (live_total g (live_set_for_calc liveness_map node)) (\<lambda>current_total_memory.
       Inr (if current_total_memory > peak_memory_bytes pk
            then \<lparr>peak_memory_bytes = current_total_memory, peak_node = Some node,
                  peak_live_set_names = live_set_for_calc liveness_map node\<rparr>
            else pk))"

definition calculate_peak_memory ::
  "custom_graph \<Rightarrow> (string \<rightharpoonup> string set) \<Rightarrow> peak_info result"
where
  "calculate_peak_memory g liveness_map =
     foldM (peak_step g liveness_map) (execution_order g)
       \<lparr>peak_memory_bytes = 0, peak_node = None, peak_live_set_names = {}\<rparr>"

definition mb :: "int \<Rightarrow> rat" where
  "mb n = of_int n / 1048576"

record tensor_info =
  size_mb :: rat
  info_shape :: "int list"
  info_dtype :: torch_dtype

record timeline_step =
  timestep :: nat
  node_name :: string
  tl_op_type :: string
  total_memory_mb :: rat
  occupancy_ratio :: rat
  occupancy_percentage :: rat
  live_tensor_count :: nat
  live_tensors :: "string \<rightharpoonup> tensor_info"

definition tensor_info_of :: "op_node \<Rightarrow> tensor_info" where
  "tensor_info_of n = \<lparr>size_mb = mb (size_bytes (output_spec n)),
     info_shape = ts_shape (output_spec n), info_dtype = ts_dtype (output_spec n)\<rparr>"

definition timeline_entry ::
  "custom_graph \<Rightarrow> (string \<rightharpoonup> string set) \<Rightarrow> int \<Rightarrow> nat \<times> op_node \<Rightarrow> timeline_step result"
where
  "timeline_entry g liveness_map peak p =
     (let S = live_set_for_calc liveness_map (snd p) in
      bind_res (live_total g S) (\<lambda>total.
        let ratio = (if peak > 0 then of_int total / of_int peak else 0) in
        Inr \<lparr>timestep = fst p, node_name = output_name (snd p), tl_op_type = op_type (snd p),
             total_memory_mb = mb total, occupancy_ratio = ratio,
             occupancy_percentage = ratio * 100, live_tensor_count = card S,
             live_tensors = (\<lambda>k. if k \<in> S then map_option tensor_info_of (nodes g k) else None)\<rparr>))"

definition calculate_memory_timeline ::
  "custom_graph \<Rightarrow> (string \<rightharpoonup> string set) \<Rightarrow> int \<Rightarrow> timeline_step list result"
where
  "calculate_memory_timeline g liveness_map peak =
     foldM (\<lambda>p tl. bind_res (timeline_entry g liveness_map peak p) (\<lambda>e. Inr (tl @ [e])))
       (enumerate 0 (execution_order g)) []"

section \<open>The first-fit reuse plan\<close>

record mem_block =
  tensor_name :: string
  blk_start :: int
  blk_end :: int

record plan_entry =
  offset :: int
  entry_size :: int
  entry_shape :: "int list"
  entry_dtype :: torch_dtype

record plan_state =
  allocated_blocks :: "mem_block list"
  plan_map :: "string \<rightharpoonup> plan_entry"
  max_offset :: int

text \<open>
  The scan over the live blocks, sorted by start: the first gap that is large enough ends the loop
  with \<^verbatim>\<open>found_offset\<close> set; otherwise \<^verbatim>\<open>found_offset\<close> keeps its initial value
  \<open>- 1\<close> and the last end is taken.
\<close>

fun first_fit_scan :: "int \<Rightarrow> mem_block list \<Rightarrow> int \<Rightarrow> int \<times> int" where
  "first_fit_scan sz [] last_end = (- 1, last_end)"
| "first_fit_scan sz (b # bs) last_end =
     (if blk_start b - last_end \<ge> sz then (last_end, last_end)
      else first_fit_scan sz bs (blk_end b))"

definition find_offset :: "int \<Rightarrow> mem_block list \<Rightarrow> int" where
  "find_offset sz live =
     (case first_fit_scan sz live 0 of (found, last_end) \<Rightarrow> if found = - 1 then last_end else found)"

definition live_blocks_at_birth ::
  "(string \<rightharpoonup> int) \<Rightarrow> int \<Rightarrow> int \<Rightarrow> mem_block list \<Rightarrow> mem_block list"
where
  "live_blocks_at_birth dth n_births birth bs =
     sort_key blk_start
       (filter (\<lambda>b. (case dth (tensor_name b) of None \<Rightarrow> n_births | Some d \<Rightarrow> d) \<ge> birth) bs)"

definition record_block :: "op_node \<Rightarrow> int \<Rightarrow> plan_state \<Rightarrow> plan_state" where
  "record_block node found st =
     (let sz = size_bytes (output_spec node);
          blocks = allocated_blocks st @
            [\<lparr>tensor_name = output_name node, blk_start = found, blk_end = found + sz\<rparr>]
      in \<lparr>allocated_blocks = blocks,
          plan_map = (plan_map st)(output_name node \<mapsto>
            \<lparr>offset = found, entry_size = sz, entry_shape = ts_shape (output_spec node),
             entry_dtype = ts_dtype (output_spec node)\<rparr>),
          max_offset = max (max_offset st) (Max (set (map blk_end blocks)))\<rparr>)"

definition plan_step ::
  "custom_graph \<Rightarrow> (string \<rightharpoonup> int) \<Rightarrow> (string \<rightharpoonup> int) \<Rightarrow> int \<Rightarrow> op_node \<Rightarrow> plan_state \<Rightarrow> plan_state result"
where
  "plan_step g bth dth n_births node st =
     (let name = output_name node; sz = size_bytes (output_spec node) in
      if \<not> sz > 0 then Inr st
      else case bth name of
        None \<Rightarrow> Inl KeyError
      | Some birth \<Rightarrow>
          bind_res
            (case aliases g name of
               Some target \<Rightarrow>
                 (case plan_map st target of None \<Rightarrow> Inl RuntimeError | Some e \<Rightarrow> Inr (offset e))
             | None \<Rightarrow> Inr (find_offset sz (live_blocks_at_birth dth n_births birth (allocated_blocks st))))
            (\<lambda>found. Inr (record_block node found st)))"

definition empty_plan :: plan_state where
  "empty_plan = \<lparr>allocated_blocks = [], plan_map = Map.empty, max_offset = 0\<rparr>"

definition plan_loop :: "custom_graph \<Rightarrow> plan_state result" where
  "plan_loop g =
     foldM (plan_step g (births (execution_order g)) (deaths g) (int (length (execution_order g))))
       (execution_order g) empty_plan"

text \<open>The returned dictionary: the entries and, under its own key, the size of the arena.\<close>

record reuse_plan =
  entries :: "string \<rightharpoonup> plan_entry"
  total_buffer_size_bytes :: int

definition generate_optimized_reuse_plan :: "custom_graph \<Rightarrow> reuse_plan result" where
  "generate_optimized_reuse_plan g =
     bind_res (plan_loop g)
       (\<lambda>st. Inr \<lparr>entries = plan_map st, total_buffer_size_bytes = max_offset st\<rparr>)"

record analysis =
  peak_memory_mb :: rat
  peak_node_name :: string
  peak_live_tensors :: "string set"
  memory_timeline :: "timeline_step list"
  an_reuse_plan :: reuse_plan

definition analyze :: "custom_graph \<Rightarrow> analysis result" where
  "analyze g =
     (let liveness_map = analyze_liveness g in
      bind_res (calculate_peak_memory g liveness_map) (\<lambda>peak.
      bind_res (calculate_memory_timeline g liveness_map (peak_memory_bytes peak)) (\<lambda>timeline.
      bind_res (generate_optimized_reuse_plan g) (\<lambda>plan.
        case peak_node peak of
          None \<Rightarrow> Inl AttributeError
        | Some n \<Rightarrow>
            Inr \<lparr>peak_memory_mb = mb (peak_memory_bytes peak), peak_node_name = output_name n,
                 peak_live_tensors = peak_live_set_names peak, memory_timeline = timeline,
                 an_reuse_plan = plan\<rparr>))))"

end
