(* ===== verification/Plan_Safety.thy ===== *)
theory Plan_Safety
  imports Memory_Analyzer
begin

text \<open>
  Correctness of the reuse planners. The locale \<open>gap_allocator\<close> is the contract between a planner
  loop and the scan that picks an offset among the live blocks; its client lemma says that a block
  placed by such a scan keeps the plan free of lifetime conflicts. The first-fit scan of
  \<^verbatim>\<open>graph_builder.py\<close> is shown to be such an allocator, and the loop around it is proved
  safe, bounded and total on graphs whose aliases are harmless.
\<close>

section \<open>Blocks\<close>

definition wf_block :: "mem_block \<Rightarrow> bool" where
  "wf_block b \<longleftrightarrow> 0 \<le> blk_start b \<and> blk_start b < blk_end b"

definition blk_disjoint :: "mem_block \<Rightarrow> mem_block \<Rightarrow> bool" where
  "blk_disjoint a b = disjoint_iv (blk_start a) (blk_end a) (blk_start b) (blk_end b)"

definition separated :: "mem_block list \<Rightarrow> bool" where
  "separated bs = sorted_wrt (\<lambda>a b. blk_end a \<le> blk_start b) bs"

lemma separated_Cons:
  "separated (b # bs) \<longleftrightarrow> (\<forall>c \<in> set bs. blk_end b \<le> blk_start c) \<and> separated bs"
  by (simp add: separated_def)

lemma set_insort_key_eq: "set (insort_key f x xs) = insert x (set xs)"
  by (induction xs) auto

lemma separated_insort:
  assumes "separated bs" and "\<forall>b \<in> set (x # bs). wf_block b"
    and "\<forall>b \<in> set bs. blk_disjoint x b"
  shows "separated (insort_key blk_start x bs)"
  using assms
proof (induction bs)
  case (Cons y ys)
  have dxy: "blk_disjoint x y" and wy: "wf_block y" and wx: "wf_block x"
    using Cons.prems by auto
  show ?case
  proof (cases "blk_start x \<le> blk_start y")
    case True
    then have "blk_end x \<le> blk_start y"
      using dxy wy by (auto simp: blk_disjoint_def disjoint_iv_def wf_block_def)
    then show ?thesis
      using True Cons.prems wy by (force simp: separated_Cons wf_block_def)
  next
    case False
    then have "blk_end y \<le> blk_start x"
      using dxy wx by (auto simp: blk_disjoint_def disjoint_iv_def wf_block_def)
    then show ?thesis
      using False Cons by (auto simp: separated_Cons set_insort_key_eq)
  qed
qed (simp add: separated_def)

lemma separated_sort_key:
  assumes "sorted_wrt blk_disjoint bs" and "\<forall>b \<in> set bs. wf_block b"
  shows "separated (sort_key blk_start bs)"
  using assms
proof (induction bs)
  case (Cons x xs)
  then show ?case by (auto intro!: separated_insort)
qed (simp add: separated_def)

section \<open>The allocator contract\<close>

locale gap_allocator =
  fixes alloc :: "int \<Rightarrow> mem_block list \<Rightarrow> int"
  assumes alloc_disjoint:
      "separated live \<Longrightarrow> \<forall>b \<in> set live. wf_block b \<Longrightarrow> 0 < sz \<Longrightarrow> b \<in> set live \<Longrightarrow>
         disjoint_iv (alloc sz live) (alloc sz live + sz) (blk_start b) (blk_end b)"
    and alloc_edge:
      "\<forall>b \<in> set live. wf_block b \<Longrightarrow> 0 < sz \<Longrightarrow>
         alloc sz live = 0 \<or> (\<exists>b \<in> set live. alloc sz live = blk_end b)"
begin

lemma alloc_nonneg: "\<forall>b \<in> set live. wf_block b \<Longrightarrow> 0 < sz \<Longrightarrow> 0 \<le> alloc sz live"
  using alloc_edge [of live sz] by (force simp: wf_block_def)

lemma alloc_bounded:
  "\<forall>b \<in> set live. wf_block b \<and> blk_end b \<le> M \<Longrightarrow> 0 < sz \<Longrightarrow> 0 \<le> M \<Longrightarrow>
   alloc sz live + sz \<le> M + sz"
  using alloc_edge [of live sz] by force

text \<open>
  The client lemma: if the blocks that are kept by a filter \<open>P\<close> do not overlap each other, a block
  placed by the allocator among them overlaps none of them.
\<close>

lemma alloc_among_live:
  assumes "sorted_wrt (\<lambda>a b. P a \<longrightarrow> P b \<longrightarrow> blk_disjoint a b) bs"
    and "\<forall>b \<in> set bs. wf_block b" and "0 < sz" and "b \<in> set bs" and "P b"
  shows "disjoint_iv (blk_start b) (blk_end b)
           (alloc sz (sort_key blk_start (filter P bs)))
           (alloc sz (sort_key blk_start (filter P bs)) + sz)"
proof -
  have "sorted_wrt blk_disjoint (filter P bs)"
    using assms(1) by (induction bs) auto
  then have "separated (sort_key blk_start (filter P bs))"
    using assms(2) by (intro separated_sort_key) auto
  then show ?thesis
    using assms(2-5) alloc_disjoint [of "sort_key blk_start (filter P bs)" sz b]
    by (simp add: disjoint_iv_sym)
qed

end

section \<open>The first-fit scan is an allocator\<close>

lemma first_fit_scan_disjoint:
  assumes "separated live" and "\<forall>b \<in> set live. wf_block b \<and> le \<le> blk_start b" and "0 < sz"
    and "0 \<le> le" and "first_fit_scan sz live le = (f, l)" and "b \<in> set live"
  shows "disjoint_iv (if f = - 1 then l else f) ((if f = - 1 then l else f) + sz)
           (blk_start b) (blk_end b) \<and> le \<le> (if f = - 1 then l else f)"
  using assms
proof (induction sz live le arbitrary: b rule: first_fit_scan.induct)
  case (2 sz c cs le)
  show ?case
  proof (cases "blk_start c - le \<ge> sz")
    case True
    then have "f = le" using "2.prems" by simp
    moreover have "blk_start c \<le> blk_start b"
      using "2.prems" by (force simp: separated_Cons wf_block_def)
    ultimately show ?thesis using True "2.prems"(4) by (auto simp: disjoint_iv_def)
  next
    case False
    have scan: "first_fit_scan sz cs (blk_end c) = (f, l)" using False "2.prems" by simp
    have c: "le \<le> blk_end c" "0 \<le> blk_end c"
      using "2.prems" by (auto simp: wf_block_def)
    have sep: "separated cs" "\<forall>b \<in> set cs. wf_block b \<and> blk_end c \<le> blk_start b"
      using "2.prems" by (auto simp: separated_Cons)
    have start: "blk_end c \<le> (if f = - 1 then l else f)"
    proof (cases cs)
      case Nil
      then show ?thesis using scan by simp
    next
      case (Cons d ds)
      then show ?thesis
        using "2.IH" [OF False sep "2.prems"(3) c(2) scan, of d] by simp
    qed
    show ?thesis
    proof (cases "b = c")
      case True
      then show ?thesis using start c by (auto simp: disjoint_iv_def)
    next
      case ne: False
      then have "b \<in> set cs" using "2.prems" by simp
      then show ?thesis
        using "2.IH" [OF False sep "2.prems"(3) c(2) scan] c(1) by fastforce
    qed
  qed
qed simp

lemma first_fit_scan_edge:
  "first_fit_scan sz live le = (f, l) \<Longrightarrow>
     (f = - 1 \<and> (l = le \<or> l \<in> blk_end ` set live)) \<or> f = le \<or> f \<in> blk_end ` set live"
  by (induction sz live le rule: first_fit_scan.induct) (auto split: if_splits)

lemma find_offset_disjoint:
  assumes "separated live" "\<forall>b \<in> set live. wf_block b" "0 < sz" "b \<in> set live"
  shows "disjoint_iv (find_offset sz live) (find_offset sz live + sz) (blk_start b) (blk_end b)"
proof -
  obtain f l where fl: "first_fit_scan sz live 0 = (f, l)" by fastforce
  have wf0: "\<forall>b \<in> set live. wf_block b \<and> 0 \<le> blk_start b"
    using assms(2) by (simp add: wf_block_def)
  from first_fit_scan_disjoint [OF assms(1) wf0 assms(3) _ fl assms(4)]
  show ?thesis by (simp add: find_offset_def fl)
qed

lemma find_offset_edge:
  assumes "\<forall>b \<in> set live. wf_block b"
  shows "find_offset sz live = 0 \<or> (\<exists>b \<in> set live. find_offset sz live = blk_end b)"
proof -
  obtain f l where fl: "first_fit_scan sz live 0 = (f, l)" by fastforce
  have "\<forall>b \<in> set live. blk_end b \<noteq> - 1" using assms by (force simp: wf_block_def)
  with first_fit_scan_edge [OF fl] show ?thesis by (auto simp: find_offset_def fl)
qed

interpretation first_fit: gap_allocator find_offset
  by unfold_locales (auto intro: find_offset_disjoint simp: find_offset_edge)

section \<open>Lifetimes\<close>

lemma births_snoc: "births (xs @ [x]) = (births xs)(output_name x \<mapsto> int (length xs))"
  by (simp add: births_def enumerate_snoc)

lemma births_nth:
  assumes "distinct (names_of ns)" and "i < length ns"
  shows "births ns (output_name (ns ! i)) = Some (int i)"
  using assms
proof (induction ns rule: rev_induct)
  case (snoc x xs)
  show ?case
  proof (cases "i < length xs")
    case True
    then have "output_name (xs ! i) \<in> set (names_of xs)" by simp
    then have "output_name (xs ! i) \<noteq> output_name x" using snoc.prems(1) by auto
    then show ?thesis using True snoc by (simp add: births_snoc nth_append)
  next
    case False
    then have "i = length xs" using snoc.prems(2) by simp
    then show ?thesis by (simp add: births_snoc)
  qed
qed simp

lemma mark_inputs_mem: "k \<in> set (input_names n) \<Longrightarrow> mark_inputs (i, n) m k = Some (int i)"
proof -
  have "k \<in> set xs \<Longrightarrow> fold (\<lambda>inp m. m(inp \<mapsto> v)) xs m k = Some v" for xs v
    by (induction xs arbitrary: m rule: rev_induct) auto
  then show "k \<in> set (input_names n) \<Longrightarrow> ?thesis" by (simp add: mark_inputs_def)
qed

lemma mark_inputs_other: "k \<notin> set (input_names n) \<Longrightarrow> mark_inputs (i, n) m k = m k"
proof -
  have "k \<notin> set xs \<Longrightarrow> fold (\<lambda>inp m. m(inp \<mapsto> v)) xs m k = m k" for xs v
    by (induction xs arbitrary: m rule: rev_induct) auto
  then show "k \<notin> set (input_names n) \<Longrightarrow> ?thesis" by (simp add: mark_inputs_def)
qed

lemma mark_all_ge:
  assumes "j < length ns" and "k \<in> set (input_names (ns ! j))"
  shows "\<exists>d. fold mark_inputs (enumerate 0 ns) m k = Some d \<and> int j \<le> d"
  using assms
proof (induction ns rule: rev_induct)
  case (snoc x xs)
  show ?case
  proof (cases "k \<in> set (input_names x)")
    case True
    then show ?thesis using snoc.prems by (simp add: enumerate_snoc mark_inputs_mem)
  next
    case False
    then have "j < length xs" using snoc.prems by (cases "j = length xs") (auto simp: nth_append)
    then show ?thesis
      using snoc False by (simp add: enumerate_snoc mark_inputs_other nth_append)
  qed
qed simp

text \<open>A tensor is not dead before the last node that reads it.\<close>

lemma deaths_ge:
  assumes "j < length (execution_order g)" and "k \<in> set (input_names (execution_order g ! j))"
  shows "\<exists>d. deaths g k = Some d \<and> int j \<le> d"
  unfolding deaths_def using assms by (rule mark_all_ge)

section \<open>The planner loop\<close>

abbreviation node_size :: "op_node \<Rightarrow> int" where
  "node_size n \<equiv> size_bytes (output_spec n)"

definition death_of :: "custom_graph \<Rightarrow> string \<Rightarrow> int" where
  "death_of g k = (case deaths g k of None \<Rightarrow> int (length (execution_order g)) | Some d \<Rightarrow> d)"

definition birth_of :: "custom_graph \<Rightarrow> string \<Rightarrow> int" where
  "birth_of g k = (case births (execution_order g) k of None \<Rightarrow> - 1 | Some i \<Rightarrow> i)"

lemma birth_of_nth:
  "wf_graph g \<Longrightarrow> i < length (execution_order g) \<Longrightarrow>
     birth_of g (output_name (execution_order g ! i)) = int i"
  by (simp add: birth_of_def births_nth wf_graph_def)

text \<open>
  An alias is harmless when its target comes before it and nothing produced before it is read
  after it. Every alias-free graph satisfies the condition.
\<close>

definition alias_ok :: "custom_graph \<Rightarrow> bool" where
  "alias_ok g \<longleftrightarrow>
     (\<forall>a < length (execution_order g).
        case aliases g (output_name (execution_order g ! a)) of
          None \<Rightarrow> True
        | Some t \<Rightarrow> t \<in> set (names_of (take a (execution_order g))) \<and>
            (\<forall>n \<in> set (take a (execution_order g)). death_of g (output_name n) \<le> int a))"

lemma alias_ok_no_alias: "aliases g = Map.empty \<Longrightarrow> alias_ok g"
  by (simp add: alias_ok_def)

text \<open>The tensor \<open>x\<close> is still needed when \<open>y\<close> is placed; an aliased \<open>y\<close> may overwrite what its
  own node reads last.\<close>

definition needed_at :: "custom_graph \<Rightarrow> string \<Rightarrow> string \<Rightarrow> bool" where
  "needed_at g x y \<longleftrightarrow>
     birth_of g y < death_of g x \<or> aliases g y = None \<and> birth_of g y = death_of g x"

text \<open>
  The loop invariant after the nodes \<open>ps\<close>: one well-formed block per tensor of positive size, in
  order and recorded in the plan; blocks stay below the running maximum, which stays below the sum
  of the sizes; and a block whose tensor is alive at the birth of a later one is disjoint from it.
\<close>

definition block_of :: "reuse_plan \<Rightarrow> string \<Rightarrow> int \<times> int" where
  "block_of p k = (case entries p k of None \<Rightarrow> (0, 0) | Some e \<Rightarrow> (offset e, offset e + entry_size e))"

definition entry_of_block :: "plan_entry \<Rightarrow> mem_block \<Rightarrow> bool" where
  "entry_of_block e b \<longleftrightarrow> offset e = blk_start b \<and> offset e + entry_size e = blk_end b"

definition plan_inv :: "custom_graph \<Rightarrow> op_node list \<Rightarrow> plan_state \<Rightarrow> bool" where
  "plan_inv g ps st \<longleftrightarrow>
     map tensor_name (allocated_blocks st) = names_of (filter (\<lambda>n. 0 < node_size n) ps) \<and>
     (\<forall>b \<in> set (allocated_blocks st). wf_block b \<and> blk_end b \<le> max_offset st \<and>
        (\<exists>e. plan_map st (tensor_name b) = Some e \<and> entry_of_block e b)) \<and>
     0 \<le> max_offset st \<and> max_offset st \<le> (\<Sum>n \<leftarrow> ps. max 0 (node_size n)) \<and>
     dom (plan_map st) = tensor_name ` set (allocated_blocks st) \<and>
     sorted_wrt (\<lambda>a b. needed_at g (tensor_name a) (tensor_name b) \<longrightarrow> blk_disjoint a b)
       (allocated_blocks st)"

lemma plan_inv_empty: "plan_inv g [] empty_plan"
  by (simp add: plan_inv_def empty_plan_def)

lemma plan_inv_block:
  assumes inv: "plan_inv g ps st" and n: "n \<in> set ps" and pos: "0 < node_size n"
  shows "\<exists>b e. b \<in> set (allocated_blocks st) \<and> tensor_name b = output_name n \<and>
           plan_map st (output_name n) = Some e \<and> entry_of_block e b"
proof -
  have "output_name n \<in> set (names_of (filter (\<lambda>n. 0 < node_size n) ps))" using n pos by auto
  also have "names_of (filter (\<lambda>n. 0 < node_size n) ps) = map tensor_name (allocated_blocks st)"
    using inv unfolding plan_inv_def by simp
  finally obtain b where b: "b \<in> set (allocated_blocks st)" "tensor_name b = output_name n" by auto
  then show ?thesis using inv unfolding plan_inv_def by metis
qed

lemma Max_ends_snoc:
  fixes m e :: int
  assumes "\<forall>b \<in> set bs. blk_end b \<le> m"
  shows "max m (Max (set (map blk_end (bs @ [b])))) = max m (blk_end b)"
proof -
  have "Max (set (map blk_end (bs @ [b]))) \<le> max m (blk_end b)"
    using assms by (auto simp: le_max_iff_disj)
  moreover have "blk_end b \<le> Max (set (map blk_end (bs @ [b])))" by simp
  ultimately show ?thesis by linarith
qed

lemma plan_inv_record:
  assumes inv: "plan_inv g ps st" and pos: "0 < node_size x"
    and fresh: "output_name x \<notin> set (names_of ps)"
    and found: "0 \<le> found" "found \<le> max_offset st"
    and disj: "\<And>b. b \<in> set (allocated_blocks st) \<Longrightarrow>
        needed_at g (tensor_name b) (output_name x) \<Longrightarrow>
        disjoint_iv (blk_start b) (blk_end b) found (found + node_size x)"
  shows "plan_inv g (ps @ [x]) (record_block x found st)"
proof -
  let ?b = "\<lparr>tensor_name = output_name x, blk_start = found, blk_end = found + node_size x\<rparr>"
  have names: "map tensor_name (allocated_blocks st) = names_of (filter (\<lambda>n. 0 < node_size n) ps)"
    using inv by (simp add: plan_inv_def)
  have "set (map tensor_name (allocated_blocks st)) \<subseteq> set (names_of ps)"
    unfolding names by auto
  then have new: "b \<in> set (allocated_blocks st) \<Longrightarrow> tensor_name b \<noteq> output_name x" for b
    using fresh by (metis image_eqI list.set_map subsetD)
  have maxo: "max_offset (record_block x found st) = max (max_offset st) (found + node_size x)"
    using inv Max_ends_snoc [of "allocated_blocks st" "max_offset st" ?b]
    by (auto simp: record_block_def Let_def plan_inv_def)
  have bl: "allocated_blocks (record_block x found st) = allocated_blocks st @ [?b]"
    by (simp add: record_block_def Let_def)
  have pm: "plan_map (record_block x found st) = (plan_map st)(output_name x \<mapsto>
      \<lparr>offset = found, entry_size = node_size x, entry_shape = ts_shape (output_spec x),
       entry_dtype = ts_dtype (output_spec x)\<rparr>)"
    by (simp add: record_block_def Let_def)
  show ?thesis
    unfolding plan_inv_def bl pm maxo
    using inv pos found new disj
    by (auto simp: plan_inv_def wf_block_def entry_of_block_def sorted_wrt_append blk_disjoint_def)
qed

text \<open>The step at a node that is not an alias: the first-fit offset among the live blocks.\<close>

lemma plan_inv_first_fit:
  assumes wf: "wf_graph g" and order: "execution_order g = ps @ x # qs" and inv: "plan_inv g ps st"
    and pos: "0 < node_size x"
  shows "plan_inv g (ps @ [x]) (record_block x (find_offset (node_size x)
           (live_blocks_at_birth (deaths g) (int (length (execution_order g))) (int (length ps))
              (allocated_blocks st))) st)"
proof -
  let ?L = "execution_order g" and ?bs = "allocated_blocks st"
  have x: "?L ! length ps = x" "length ps < length ?L" using order by simp_all
  let ?P = "\<lambda>b. int (length ps) \<le> death_of g (tensor_name b)"
  let ?live = "sort_key blk_start (filter ?P ?bs)"
  have live: "live_blocks_at_birth (deaths g) (int (length ?L)) (int (length ps)) ?bs = ?live"
    by (simp add: live_blocks_at_birth_def death_of_def)
  have wfb: "\<forall>b \<in> set ?bs. wf_block b \<and> blk_end b \<le> max_offset st" and m0: "0 \<le> max_offset st"
    and names: "map tensor_name ?bs = names_of (filter (\<lambda>n. 0 < node_size n) ps)"
    using inv by (auto simp: plan_inv_def)
  have earlier: "birth_of g (tensor_name b) < int (length ps)" if "b \<in> set ?bs" for b
  proof -
    have "tensor_name b \<in> set (names_of ps)"
      using that names by (metis (no_types, lifting) filter_is_subset image_iff image_mono
          image_set subsetD)
    then obtain i where "i < length ps" "tensor_name b = output_name (ps ! i)"
      by (auto simp: in_set_conv_nth)
    then show ?thesis
      using birth_of_nth [OF wf, of i] order by (simp add: nth_append)
  qed
  have "sorted_wrt (\<lambda>a b. needed_at g (tensor_name a) (tensor_name b) \<longrightarrow> blk_disjoint a b) ?bs"
    using inv by (simp add: plan_inv_def)
  then have sw: "sorted_wrt (\<lambda>a b. ?P a \<longrightarrow> ?P b \<longrightarrow> blk_disjoint a b) ?bs"
    by (rule sorted_wrt_mono_rel [rotated]) (use earlier in \<open>force simp: needed_at_def\<close>)
  show ?thesis
    unfolding live
  proof (rule plan_inv_record [OF inv pos])
    show "output_name x \<notin> set (names_of ps)" using wf order by (auto simp: wf_graph_def)
    show "0 \<le> find_offset (node_size x) ?live"
      using wfb pos by (intro first_fit.alloc_nonneg) auto
    show "find_offset (node_size x) ?live \<le> max_offset st"
      using first_fit.alloc_bounded [of ?live "max_offset st" "node_size x"] wfb m0 pos by auto
    fix b assume b: "b \<in> set ?bs" and "needed_at g (tensor_name b) (output_name x)"
    then have "?P b" using birth_of_nth [OF wf, of "length ps"] x by (auto simp: needed_at_def)
    then show "disjoint_iv (blk_start b) (blk_end b) (find_offset (node_size x) ?live)
        (find_offset (node_size x) ?live + node_size x)"
      using first_fit.alloc_among_live [OF sw _ pos b] wfb by blast
  qed
qed

text \<open>The step at an alias: the target has a block, and its offset keeps the invariant.\<close>

lemma alias_target_planned:
  assumes wf: "wf_graph g" and ok: "alias_ok g" and order: "execution_order g = ps @ x # qs"
    and inv: "plan_inv g ps st" and pos: "0 < node_size x"
    and al: "aliases g (output_name x) = Some t"
  shows "\<exists>e b. plan_map st t = Some e \<and> b \<in> set (allocated_blocks st) \<and> entry_of_block e b"
proof -
  have a: "length ps < length (execution_order g)" "execution_order g ! length ps = x"
    "take (length ps) (execution_order g) = ps" using order by simp_all
  have t: "t \<in> set (names_of ps)"
    using ok [unfolded alias_ok_def, rule_format, OF a(1)] al a by simp
  then obtain n where n: "n \<in> set ps" "t = output_name n" by auto
  obtain nx nt where nt: "nodes g (output_name x) = Some nx" "nodes g t = Some nt"
    "node_size nx \<le> node_size nt"
    using wf al unfolding wf_graph_def by blast
  have eqs: "nx = x" "nt = n"
    using wf_graph_nodes_iff [OF wf, of "output_name x" x] wf_graph_nodes_iff [OF wf, of t n] nt n order
    by auto
  show ?thesis using plan_inv_block [OF inv n(1)] nt(3) eqs pos n(2) by (metis order.strict_trans2)
qed

lemma plan_inv_alias:
  assumes wf: "wf_graph g" and ok: "alias_ok g" and order: "execution_order g = ps @ x # qs"
    and inv: "plan_inv g ps st" and pos: "0 < node_size x"
    and al: "aliases g (output_name x) = Some t" and e: "plan_map st t = Some e"
  shows "plan_inv g (ps @ [x]) (record_block x (offset e) st)"
proof -
  have a: "length ps < length (execution_order g)" "execution_order g ! length ps = x"
    "take (length ps) (execution_order g) = ps" using order by simp_all
  have dead: "death_of g (output_name n) \<le> int (length ps)" if "n \<in> set ps" for n
    using ok [unfolded alias_ok_def, rule_format, OF a(1)] al a that by simp
  obtain b where b: "b \<in> set (allocated_blocks st)" "entry_of_block e b"
    using alias_target_planned [OF wf ok order inv pos al] e by auto
  have wfb: "wf_block b \<and> blk_end b \<le> max_offset st" using inv b by (auto simp: plan_inv_def)
  show ?thesis
  proof (rule plan_inv_record [OF inv pos])
    show "output_name x \<notin> set (names_of ps)" using wf order by (auto simp: wf_graph_def)
    show "0 \<le> offset e" "offset e \<le> max_offset st"
      using wfb b by (auto simp: entry_of_block_def wf_block_def)
    fix c assume c: "c \<in> set (allocated_blocks st)" and need: "needed_at g (tensor_name c) (output_name x)"
    have "tensor_name c \<in> set (map tensor_name (allocated_blocks st))" using c by simp
    also have "map tensor_name (allocated_blocks st) = names_of (filter (\<lambda>n. 0 < node_size n) ps)"
      using inv by (simp add: plan_inv_def)
    finally obtain n where "n \<in> set ps" "tensor_name c = output_name n" by auto
    then have "death_of g (tensor_name c) \<le> birth_of g (output_name x)"
      using dead birth_of_nth [OF wf a(1)] a(2) by simp
    then show "disjoint_iv (blk_start c) (blk_end c) (offset e) (offset e + node_size x)"
      using need al by (simp add: needed_at_def)
  qed
qed

lemma plan_step_ok:
  assumes wf: "wf_graph g" and ok: "alias_ok g"
    and order: "execution_order g = ps @ x # qs" and inv: "plan_inv g ps st"
  shows "\<exists>st'. plan_step g (births (execution_order g)) (deaths g)
           (int (length (execution_order g))) x st = Inr st' \<and> plan_inv g (ps @ [x]) st'"
proof (cases "0 < node_size x")
  case False
  then show ?thesis using inv by (simp add: plan_step_def plan_inv_def)
next
  case True
  have birth: "births (execution_order g) (output_name x) = Some (int (length ps))"
    using births_nth [of "execution_order g" "length ps"] wf order by (simp add: wf_graph_def)
  show ?thesis
  proof (cases "aliases g (output_name x)")
    case None
    then show ?thesis
      using plan_inv_first_fit [OF wf order inv True] True birth by (simp add: plan_step_def)
  next
    case (Some t)
    obtain e where e: "plan_map st t = Some e"
      using alias_target_planned [OF wf ok order inv True Some] by blast
    show ?thesis
      using plan_inv_alias [OF wf ok order inv True Some e] True birth Some e
      by (simp add: plan_step_def)
  qed
qed

lemma plan_loop_ok:
  assumes "wf_graph g" and "alias_ok g"
  shows "\<exists>st. plan_loop g = Inr st \<and> plan_inv g (execution_order g) st"
  unfolding plan_loop_def
  by (rule foldM_total_invariant) (use plan_inv_empty plan_step_ok [OF assms] in blast)+

lemma plan_loop_inv:
  "wf_graph g \<Longrightarrow> alias_ok g \<Longrightarrow> plan_loop g = Inr st \<Longrightarrow> plan_inv g (execution_order g) st"
  using plan_loop_ok by fastforce

lemma plan_loop_total: "wf_graph g \<Longrightarrow> alias_ok g \<Longrightarrow> \<exists>st. plan_loop g = Inr st"
  using plan_loop_ok by blast

text \<open>Whatever offset it has, an entry of the plan has the size of its tensor (aliases included).\<close>

lemma plan_loop_sizes:
  assumes wf: "wf_graph g" and loop: "plan_loop g = Inr st" and n: "n \<in> set (execution_order g)"
    and e: "plan_map st (output_name n) = Some e"
  shows "0 < node_size n \<and> entry_size e = node_size n \<and> entry_shape e = ts_shape (output_spec n) \<and>
         entry_dtype e = ts_dtype (output_spec n)"
proof -
  let ?ok = "\<lambda>n e. 0 < node_size n \<and> entry_size e = node_size n \<and>
      entry_shape e = ts_shape (output_spec n) \<and> entry_dtype e = ts_dtype (output_spec n)"
  have "\<forall>k e. plan_map st k = Some e \<longrightarrow> (\<exists>n \<in> set (execution_order g). output_name n = k \<and> ?ok n e)"
    using loop unfolding plan_loop_def
    by (rule foldM_invariant [where P = "\<lambda>ps st. \<forall>k e. plan_map st k = Some e \<longrightarrow>
            (\<exists>n \<in> set ps. output_name n = k \<and> ?ok n e)"])
       (fastforce simp: empty_plan_def plan_step_def record_block_def Let_def bind_res_eq_Inr
          split: if_splits option.splits)+
  then obtain n' where "n' \<in> set (execution_order g)" "output_name n' = output_name n" "?ok n' e"
    using e by blast
  moreover have "inj_on output_name (set (execution_order g))"
    using wf by (simp add: wf_graph_def distinct_map)
  ultimately show ?thesis using n by (auto dest: inj_onD)
qed

text \<open>An aliased tensor gets the offset of its target.\<close>

lemma plan_step_alias:
  assumes fresh: "output_name x \<notin> dom (plan_map st)"
    and al: "\<forall>k t e. aliases g k = Some t \<longrightarrow> plan_map st k = Some e \<longrightarrow>
               (\<exists>e'. plan_map st t = Some e' \<and> offset e' = offset e)"
    and step: "plan_step g bth dth m x st = Inr st'"
  shows "\<forall>k t e. aliases g k = Some t \<longrightarrow> plan_map st' k = Some e \<longrightarrow>
           (\<exists>e'. plan_map st' t = Some e' \<and> offset e' = offset e)"
proof (cases "0 < node_size x")
  case False
  then show ?thesis using al step by (simp add: plan_step_def)
next
  case True
  then obtain found where st': "st' = record_block x found st"
    and found: "\<And>t. aliases g (output_name x) = Some t \<Longrightarrow> \<exists>e. plan_map st t = Some e \<and> offset e = found"
    using step by (auto simp: plan_step_def Let_def bind_res_eq_Inr split: option.splits)
  then have pm: "plan_map st' = (plan_map st)(output_name x \<mapsto>
      \<lparr>offset = found, entry_size = node_size x, entry_shape = ts_shape (output_spec x),
       entry_dtype = ts_dtype (output_spec x)\<rparr>)"
    by (simp add: record_block_def Let_def)
  show ?thesis
  proof (intro allI impI)
    fix k t e assume k: "aliases g k = Some t" "plan_map st' k = Some e"
    show "\<exists>e'. plan_map st' t = Some e' \<and> offset e' = offset e"
    proof (cases "k = output_name x")
      case True
      then obtain e' where "plan_map st t = Some e'" "offset e' = found" using found k(1) by blast
      then show ?thesis using True k pm by (cases "t = output_name x") auto
    next
      case False
      then have "plan_map st k = Some e" using k pm by simp
      then obtain e' where e': "plan_map st t = Some e'" "offset e' = offset e" using al k(1) by blast
      then show ?thesis using fresh pm by (cases "t = output_name x") auto
    qed
  qed
qed

lemma plan_step_dom:
  "plan_step g bth dth m x st = Inr st' \<Longrightarrow> dom (plan_map st') \<subseteq> insert (output_name x) (dom (plan_map st))"
  by (auto simp: plan_step_def record_block_def Let_def bind_res_eq_Inr split: if_splits option.splits)

lemma plan_loop_alias:
  assumes wf: "wf_graph g" and loop: "plan_loop g = Inr st"
    and "aliases g k = Some t" and "plan_map st k = Some e"
  shows "\<exists>e'. plan_map st t = Some e' \<and> offset e' = offset e"
proof -
  let ?A = "\<lambda>st. \<forall>k t e. aliases g k = Some t \<longrightarrow> plan_map st k = Some e \<longrightarrow>
      (\<exists>e'. plan_map st t = Some e' \<and> offset e' = offset e)"
  have "dom (plan_map st) \<subseteq> set (names_of (execution_order g)) \<and> ?A st"
    using loop unfolding plan_loop_def
  proof (rule foldM_invariant [where P = "\<lambda>ps st. dom (plan_map st) \<subseteq> set (names_of ps) \<and> ?A st"], goal_cases)
    case 1
    then show ?case by (simp add: empty_plan_def)
  next
    case (2 ps x qs s s')
    have "output_name x \<notin> set (names_of ps)" using wf 2(1) by (auto simp: wf_graph_def)
    then have "output_name x \<notin> dom (plan_map s)" using 2(2) by auto
    then have "?A s'" using plan_step_alias [OF _ _ 2(3)] 2(2) by blast
    moreover have "dom (plan_map s') \<subseteq> set (names_of (ps @ [x]))"
      using plan_step_dom [OF 2(3)] 2(2) by (simp add: subset_iff) blast
    ultimately show ?case by blast
  qed
  then show ?thesis using assms by blast
qed

end
