(* ===== verification/Arena_Semantics.thy ===== *)
theory Arena_Semantics
  imports Plan_Safety
begin

text \<open>
  What the reuse plan is for: running a graph inside one arena. \<open>run_values\<close> runs the nodes with a
  separate value for every tensor (the abstract specification); \<open>run_arena\<close> runs them on a single
  byte-addressed memory, reading and writing each tensor at the range the plan gives it. The
  meaning of an operation is a parameter. The refinement lemma says that a plan without lifetime
  conflicts makes both runs produce the same outputs, node by node.
\<close>

section \<open>Two ways to run a graph\<close>

fun run_values ::
  "(op_node \<Rightarrow> 'b list list \<Rightarrow> 'b list) \<Rightarrow> op_node list \<Rightarrow> (string \<Rightarrow> 'b list) \<Rightarrow> 'b list list"
where
  "run_values sem [] env = []"
| "run_values sem (n # ns) env =
     (let v = sem n (map env (input_names n))
      in v # run_values sem ns (env(output_name n := v)))"

definition read_tensor :: "reuse_plan \<Rightarrow> (int \<Rightarrow> 'b) \<Rightarrow> string \<Rightarrow> 'b list" where
  "read_tensor p mem k = map mem [fst (block_of p k)..snd (block_of p k) - 1]"

definition write_tensor :: "reuse_plan \<Rightarrow> string \<Rightarrow> 'b list \<Rightarrow> (int \<Rightarrow> 'b) \<Rightarrow> (int \<Rightarrow> 'b)" where
  "write_tensor p k v mem =
     (\<lambda>a. if fst (block_of p k) \<le> a \<and> a < snd (block_of p k)
          then v ! nat (a - fst (block_of p k)) else mem a)"

fun run_arena ::
  "(op_node \<Rightarrow> 'b list list \<Rightarrow> 'b list) \<Rightarrow> reuse_plan \<Rightarrow> op_node list \<Rightarrow> (int \<Rightarrow> 'b) \<Rightarrow> 'b list list"
where
  "run_arena sem p [] mem = []"
| "run_arena sem p (n # ns) mem =
     (let v = sem n (map (read_tensor p mem) (input_names n))
      in v # run_arena sem p ns (write_tensor p (output_name n) v mem))"

section \<open>When a plan is safe to run\<close>

text \<open>Every input of a node is the output of an earlier node.\<close>

definition topological :: "op_node list \<Rightarrow> bool" where
  "topological ns \<longleftrightarrow>
     (\<forall>k < length ns. set (input_names (ns ! k)) \<subseteq> set (names_of (take k ns)))"

text \<open>Between the node that writes a tensor and a node that reads it, no other node writes into
  its range.\<close>

definition plan_safe :: "reuse_plan \<Rightarrow> op_node list \<Rightarrow> bool" where
  "plan_safe p ns \<longleftrightarrow>
     (\<forall>k < length ns. \<forall>j < k. \<forall>i < j. output_name (ns ! i) \<in> set (input_names (ns ! k)) \<longrightarrow>
        disjoint_iv (fst (block_of p (output_name (ns ! i)))) (snd (block_of p (output_name (ns ! i))))
                    (fst (block_of p (output_name (ns ! j)))) (snd (block_of p (output_name (ns ! j)))))"

definition plan_covers :: "reuse_plan \<Rightarrow> op_node list \<Rightarrow> bool" where
  "plan_covers p ns \<longleftrightarrow>
     (\<forall>n \<in> set ns. snd (block_of p (output_name n)) - fst (block_of p (output_name n))
                     = max 0 (node_size n))"

definition op_sized :: "(op_node \<Rightarrow> 'b list list \<Rightarrow> 'b list) \<Rightarrow> bool" where
  "op_sized sem \<longleftrightarrow> (\<forall>n args. int (length (sem n args)) = max 0 (node_size n))"

lemma read_write_same:
  assumes "int (length v) = snd (block_of p k) - fst (block_of p k)"
  shows "read_tensor p (write_tensor p k v mem) k = v"
  using assms by (intro nth_equalityI) (auto simp: read_tensor_def write_tensor_def nth_upto)

lemma read_write_other:
  assumes "disjoint_iv (fst (block_of p k)) (snd (block_of p k))
             (fst (block_of p k')) (snd (block_of p k'))"
  shows "read_tensor p (write_tensor p k' v mem) k = read_tensor p mem k"
  using assms by (auto simp: read_tensor_def write_tensor_def disjoint_iv_def)

text \<open>Before the node at position \<open>length ps\<close>, every tensor still to be read is intact.\<close>

definition arena_agrees ::
  "reuse_plan \<Rightarrow> op_node list \<Rightarrow> op_node list \<Rightarrow> (int \<Rightarrow> 'b) \<Rightarrow> (string \<Rightarrow> 'b list) \<Rightarrow> bool"
where
  "arena_agrees p ps qs mem env \<longleftrightarrow>
     (\<forall>i < length ps. \<forall>n \<in> set qs. output_name (ps ! i) \<in> set (input_names n) \<longrightarrow>
        read_tensor p mem (output_name (ps ! i)) = env (output_name (ps ! i)))"

lemma arena_agrees_step:
  assumes dist: "distinct (names_of (ps @ x # qs))" and safe: "plan_safe p (ps @ x # qs)"
    and cov: "plan_covers p (ps @ x # qs)" and len: "int (length v) = max 0 (node_size x)"
    and agr: "arena_agrees p ps (x # qs) mem env"
  shows "arena_agrees p (ps @ [x]) qs (write_tensor p (output_name x) v mem) (env(output_name x := v))"
  unfolding arena_agrees_def
proof (intro allI impI ballI)
  fix i n
  assume i: "i < length (ps @ [x])" and n: "n \<in> set qs"
    and inp: "output_name ((ps @ [x]) ! i) \<in> set (input_names n)"
  show "read_tensor p (write_tensor p (output_name x) v mem) (output_name ((ps @ [x]) ! i)) =
      (env(output_name x := v)) (output_name ((ps @ [x]) ! i))"
  proof (cases "i = length ps")
    case True
    have "snd (block_of p (output_name x)) - fst (block_of p (output_name x)) = max 0 (node_size x)"
      using cov by (simp add: plan_covers_def)
    then show ?thesis using True len by (simp add: read_write_same)
  next
    case False
    then have il: "i < length ps" using i by simp
    from n obtain m where m: "m < length qs" "n = qs ! m" by (auto simp: in_set_conv_nth)
    let ?L = "ps @ x # qs" and ?k = "Suc (length ps + m)"
    have L: "?L ! i = ps ! i" "?L ! length ps = x" "?L ! ?k = n" "?k < length ?L"
      using il m by (simp_all add: nth_append)
    have "disjoint_iv (fst (block_of p (output_name (ps ! i)))) (snd (block_of p (output_name (ps ! i))))
        (fst (block_of p (output_name x))) (snd (block_of p (output_name x)))"
      using safe [unfolded plan_safe_def, rule_format, of ?k "length ps" i] L il inp
      by (simp add: nth_append)
    moreover have "output_name (ps ! i) \<noteq> output_name x"
      using dist il by (intro names_nth_neq) auto
    moreover have "read_tensor p mem (output_name (ps ! i)) = env (output_name (ps ! i))"
      using agr [unfolded arena_agrees_def, rule_format, of i n] il n inp by (simp add: nth_append)
    ultimately show ?thesis using il by (simp add: read_write_other nth_append)
  qed
qed

lemma run_arena_agrees:
  assumes "distinct (names_of (ps @ qs))" and "plan_safe p (ps @ qs)" and "plan_covers p (ps @ qs)"
    and "topological (ps @ qs)" and "op_sized sem" and "arena_agrees p ps qs mem env"
  shows "run_arena sem p qs mem = run_values sem qs env"
  using assms
proof (induction qs arbitrary: ps mem env)
  case (Cons x qs)
  let ?v = "sem x (map env (input_names x))"
  have "set (input_names x) \<subseteq> set (names_of ps)"
    using Cons.prems(4)[unfolded topological_def, rule_format, of "length ps"] by simp
  then have "read_tensor p mem k = env k" if "k \<in> set (input_names x)" for k
  proof -
    assume sub: "set (input_names x) \<subseteq> set (names_of ps)"
    then have "k \<in> set (names_of ps)" using that by (rule subsetD)
    then obtain i where "i < length ps" "k = output_name (ps ! i)"
      unfolding in_names_conv by blast
    then show ?thesis
      using Cons.prems(6)[unfolded arena_agrees_def, rule_format, of i x] that by simp
  qed
  then have "map (read_tensor p mem) (input_names x) = map env (input_names x)" by simp
  moreover have "arena_agrees p (ps @ [x]) qs (write_tensor p (output_name x) ?v mem)
      (env(output_name x := ?v))"
    using Cons.prems by (intro arena_agrees_step) (auto simp: op_sized_def)
  then have "run_arena sem p qs (write_tensor p (output_name x) ?v mem) =
      run_values sem qs (env(output_name x := ?v))"
    using Cons.prems by (intro Cons.IH [of "ps @ [x]"]) (simp_all add: fun_upd_def)
  ultimately show ?case by (simp only: run_arena.simps run_values.simps Let_def)
qed simp

lemma arena_refines_values:
  assumes "distinct (names_of ns)" and "topological ns" and "plan_covers p ns"
    and "plan_safe p ns" and "op_sized sem"
  shows "run_arena sem p ns mem = run_values sem ns env"
  using assms run_arena_agrees [of "[]" ns p sem mem env] by (simp add: arena_agrees_def)

section \<open>The first-fit plan\<close>

lemma plan_entry_props:
  assumes wf: "wf_graph g" and na: "alias_ok g"
    and plan: "generate_optimized_reuse_plan g = Inr p"
    and n: "n \<in> set (execution_order g)" and pos: "0 < node_size n"
  obtains st b where "plan_inv g (execution_order g) st" "b \<in> set (allocated_blocks st)"
    "tensor_name b = output_name n" "block_of p (output_name n) = (blk_start b, blk_end b)"
    "entries p = plan_map st" "total_buffer_size_bytes p = max_offset st"
proof -
  from plan obtain st where st: "plan_loop g = Inr st"
    and p: "p = \<lparr>entries = plan_map st, total_buffer_size_bytes = max_offset st\<rparr>"
    by (auto simp: generate_optimized_reuse_plan_def bind_res_eq_Inr)
  have inv: "plan_inv g (execution_order g) st" using plan_loop_inv [OF wf na st] .
  obtain b e where "b \<in> set (allocated_blocks st)" "tensor_name b = output_name n"
    "plan_map st (output_name n) = Some e" "entry_of_block e b"
    using plan_inv_block [OF inv n pos] by blast
  then show thesis using that inv p by (simp add: block_of_def entry_of_block_def)
qed

lemma first_fit_block_shape:
  assumes wf: "wf_graph g" and na: "alias_ok g"
    and plan: "generate_optimized_reuse_plan g = Inr p" and n: "n \<in> set (execution_order g)"
  shows "0 \<le> fst (block_of p (output_name n)) \<and>
    (\<not> 0 < node_size n \<longrightarrow> block_of p (output_name n) = (0, 0))"
proof (cases "0 < node_size n")
  case True
  obtain st b where "plan_inv g (execution_order g) st" "b \<in> set (allocated_blocks st)"
    "block_of p (output_name n) = (blk_start b, blk_end b)"
    by (rule plan_entry_props [OF wf na plan n True])
  then show ?thesis using True by (auto simp: plan_inv_def wf_block_def)
next
  case False
  from plan obtain st where st: "plan_loop g = Inr st" and "entries p = plan_map st"
    by (auto simp: generate_optimized_reuse_plan_def bind_res_eq_Inr)
  moreover have "plan_map st (output_name n) = None"
    using plan_loop_sizes [OF wf st n] False by (cases "plan_map st (output_name n)") auto
  ultimately show ?thesis by (simp add: block_of_def)
qed

lemma plan_covers_first_fit:
  assumes wf: "wf_graph g" and na: "alias_ok g"
    and plan: "generate_optimized_reuse_plan g = Inr p"
  shows "plan_covers p (execution_order g)"
  unfolding plan_covers_def
proof
  fix n assume n: "n \<in> set (execution_order g)"
  from plan obtain st where st: "plan_loop g = Inr st"
    and p: "p = \<lparr>entries = plan_map st, total_buffer_size_bytes = max_offset st\<rparr>"
    by (auto simp: generate_optimized_reuse_plan_def bind_res_eq_Inr)
  have sz: "\<forall>e. plan_map st (output_name n) = Some e \<longrightarrow> 0 < node_size n \<and> entry_size e = node_size n"
    using plan_loop_sizes [OF wf st] n by blast
  show "snd (block_of p (output_name n)) - fst (block_of p (output_name n)) = max 0 (node_size n)"
  proof (cases "0 < node_size n")
    case True
    obtain e where "plan_map st (output_name n) = Some e"
      using plan_inv_block [OF plan_loop_inv [OF wf na st] n True] by blast
    then show ?thesis using sz p True by (simp add: block_of_def)
  next
    case False
    then have "plan_map st (output_name n) = None" using sz by (cases "plan_map st (output_name n)") auto
    then show ?thesis using False p by (simp add: block_of_def)
  qed
qed

text \<open>Blocks are listed in the order of birth.\<close>

lemma blocks_by_birth:
  assumes wf: "wf_graph g" and inv: "plan_inv g (execution_order g) st"
  shows "sorted_wrt (\<lambda>a b. birth_of g (tensor_name a) < birth_of g (tensor_name b)) (allocated_blocks st)"
proof -
  have "sorted_wrt (\<lambda>m n. birth_of g (output_name m) < birth_of g (output_name n)) (execution_order g)"
    using birth_of_nth [OF wf] by (simp add: sorted_wrt_iff_nth_less)
  then have "sorted_wrt (\<lambda>a b. birth_of g a < birth_of g b)
      (names_of (filter (\<lambda>n. 0 < node_size n) (execution_order g)))"
    by (simp add: sorted_wrt_map sorted_wrt_filter)
  then have "sorted_wrt (\<lambda>a b. birth_of g a < birth_of g b) (map tensor_name (allocated_blocks st))"
    using inv by (simp add: plan_inv_def)
  then show ?thesis by (simp add: sorted_wrt_map)
qed

lemma first_fit_conflict_free:
  assumes wf: "wf_graph g" and na: "alias_ok g"
    and plan: "generate_optimized_reuse_plan g = Inr p"
    and ij: "i < j" "j \<le> k" "k < length (execution_order g)"
    and read: "output_name (execution_order g ! i) \<in> set (input_names (execution_order g ! k))"
    and inpl: "j = k \<Longrightarrow> aliases g (output_name (execution_order g ! j)) = None"
    and pos: "0 < node_size (execution_order g ! i)" "0 < node_size (execution_order g ! j)"
  shows "disjoint_iv (fst (block_of p (output_name (execution_order g ! i))))
                     (snd (block_of p (output_name (execution_order g ! i))))
                     (fst (block_of p (output_name (execution_order g ! j))))
                     (snd (block_of p (output_name (execution_order g ! j))))"
proof -
  let ?L = "execution_order g"
  have mem: "?L ! i \<in> set ?L" "?L ! j \<in> set ?L" using ij by simp_all
  obtain st a where st: "plan_inv g ?L st" and a: "a \<in> set (allocated_blocks st)"
    "tensor_name a = output_name (?L ! i)" "block_of p (output_name (?L ! i)) = (blk_start a, blk_end a)"
    and pm: "entries p = plan_map st"
    by (rule plan_entry_props [OF wf na plan mem(1) pos(1)])
  obtain b e where b: "b \<in> set (allocated_blocks st)" "tensor_name b = output_name (?L ! j)"
    "plan_map st (output_name (?L ! j)) = Some e" "entry_of_block e b"
    using plan_inv_block [OF st mem(2) pos(2)] by blast
  have births: "birth_of g (tensor_name a) = int i" "birth_of g (tensor_name b) = int j"
    using birth_of_nth [OF wf] a b ij by simp_all
  obtain d where "deaths g (output_name (?L ! i)) = Some d" "int k \<le> d"
    using deaths_ge [OF ij(3) read] by blast
  then have alive: "needed_at g (tensor_name a) (tensor_name b)"
    using births ij a b inpl by (cases "j = k") (auto simp: death_of_def needed_at_def)
  have "sorted_wrt (\<lambda>a b. needed_at g (tensor_name a) (tensor_name b) \<longrightarrow> blk_disjoint a b)
      (allocated_blocks st)"
    using st by (simp add: plan_inv_def)
  from sorted_wrt_by_key [OF this blocks_by_birth [OF wf st] a(1) b(1)] have "blk_disjoint a b"
    using births ij alive by simp
  moreover have "block_of p (output_name (?L ! j)) = (blk_start b, blk_end b)"
    using b pm by (simp add: block_of_def entry_of_block_def)
  ultimately show ?thesis using a by (simp add: blk_disjoint_def)
qed

lemma first_fit_plan_safe:
  assumes wf: "wf_graph g" and na: "alias_ok g"
    and plan: "generate_optimized_reuse_plan g = Inr p"
  shows "plan_safe p (execution_order g)"
  unfolding plan_safe_def
proof (intro allI impI)
  let ?L = "execution_order g"
  fix k j i
  assume k: "k < length ?L" and j: "j < k" and i: "i < j"
    and read: "output_name (?L ! i) \<in> set (input_names (?L ! k))"
  have blk: "0 \<le> fst (block_of p (output_name (?L ! m))) \<and>
      (\<not> 0 < node_size (?L ! m) \<longrightarrow> block_of p (output_name (?L ! m)) = (0, 0))"
    if "m < length ?L" for m
    using first_fit_block_shape [OF wf na plan nth_mem [OF that]] .
  show "disjoint_iv (fst (block_of p (output_name (?L ! i)))) (snd (block_of p (output_name (?L ! i))))
                     (fst (block_of p (output_name (?L ! j)))) (snd (block_of p (output_name (?L ! j))))"
  proof (cases "0 < node_size (?L ! i) \<and> 0 < node_size (?L ! j)")
    case True
    then show ?thesis using first_fit_conflict_free [OF wf na plan i _ k read] j by auto
  next
    case False
    then show ?thesis using blk [of i] blk [of j] i j k by (auto simp: disjoint_iv_def)
  qed
qed


section \<open>A small graph\<close>

text \<open>Four tensors, used to show that the hypotheses of the properties can be met.\<close>

definition demo_cmds :: "graph_cmd list" where
  "demo_cmds = [AddOp ''a'' ''placeholder'' [] [4] bfloat16, AddOp ''b'' ''f'' [''a''] [2] bfloat16,
     AddOp ''c'' ''g'' [''a'', ''b''] [4] bfloat16, AddOp ''d'' ''h'' [''c''] [1] int8,
     AddAlias ''d'' ''a'']"

definition demo_graph :: custom_graph where
  "demo_graph = (case build_graph demo_cmds of Inr g \<Rightarrow> g | Inl _ \<Rightarrow> CustomGraph)"

definition demo_plan :: reuse_plan where
  "demo_plan = (case generate_optimized_reuse_plan demo_graph of Inr p \<Rightarrow> p
      | Inl _ \<Rightarrow> \<lparr>entries = Map.empty, total_buffer_size_bytes = 0\<rparr>)"

definition demo_sem :: "op_node \<Rightarrow> int list list \<Rightarrow> int list" where
  "demo_sem n args = replicate (nat (node_size n)) (sum_list (concat args) + 1)"

lemmas build_simps = build_graph_def add_op_def add_alias_def TensorSpec_def CustomGraph_def
  in_int64_def prod_int64_def wrap64_def Let_def bfloat16_def int8_def

lemma demo_graph_facts:
  "build_graph demo_cmds = Inr demo_graph" "alias_ok demo_graph"
proof -
  show "build_graph demo_cmds = Inr demo_graph" by (simp add: demo_graph_def demo_cmds_def build_simps)
  show "alias_ok demo_graph" by code_simp
qed

lemma demo_graph_wf: "wf_graph demo_graph"
  by (rule build_graph_wf [OF demo_graph_facts(1)])

lemma demo_plan_ok: "generate_optimized_reuse_plan demo_graph = Inr demo_plan"
proof -
  have "is_ok (generate_optimized_reuse_plan demo_graph)" by code_simp
  then show ?thesis by (auto simp: demo_plan_def is_ok_def split: sum.splits)
qed

section \<open>Properties of the planner\<close>



text \<open>Property C17. Planning a graph whose aliases are harmless never raises; every entry lies inside the arena, has
  the size of its tensor, and the arena is no larger than all tensors laid side by side.\<close>

theorem reuse_plan_total_and_bounded:
  assumes "wf_graph g" and "alias_ok g"
  shows "\<exists>p. generate_optimized_reuse_plan g = Inr p \<and>
     total_buffer_size_bytes p \<le> (\<Sum>n \<leftarrow> execution_order g. max 0 (node_size n)) \<and>
     (\<forall>n \<in> set (execution_order g). 0 < node_size n \<longrightarrow>
        (\<exists>e. entries p (output_name n) = Some e \<and> entry_size e = node_size n \<and>
           0 \<le> offset e \<and> offset e + entry_size e \<le> total_buffer_size_bytes p))"
proof -
  obtain st where st: "plan_loop g = Inr st" using plan_loop_total [OF assms] by blast
  let ?p = "\<lparr>entries = plan_map st, total_buffer_size_bytes = max_offset st\<rparr>"
  have plan: "generate_optimized_reuse_plan g = Inr ?p"
    using st by (simp add: generate_optimized_reuse_plan_def)
  have inv: "plan_inv g (execution_order g) st" by (rule plan_loop_inv [OF assms st])
  have "\<exists>e. plan_map st (output_name n) = Some e \<and> entry_size e = node_size n \<and>
      0 \<le> offset e \<and> offset e + entry_size e \<le> max_offset st"
    if n: "n \<in> set (execution_order g)" and pos: "0 < node_size n" for n
  proof -
    obtain b e where b: "b \<in> set (allocated_blocks st)" "plan_map st (output_name n) = Some e"
      "entry_of_block e b" using plan_inv_block [OF inv n pos] by blast
    then have "wf_block b" "blk_end b \<le> max_offset st" using inv by (auto simp: plan_inv_def)
    then show ?thesis
      using b plan_loop_sizes [OF assms(1) st n] by (auto simp: entry_of_block_def wf_block_def)
  qed
  moreover have "max_offset st \<le> (\<Sum>n \<leftarrow> execution_order g. max 0 (node_size n))"
    using inv by (simp add: plan_inv_def)
  ultimately show ?thesis using plan by auto
qed

theorem reuse_plan_total_and_bounded_witness:
  "\<exists>p. generate_optimized_reuse_plan demo_graph = Inr p \<and> total_buffer_size_bytes p \<le> 21"
proof -
  have "(\<Sum>n \<leftarrow> execution_order demo_graph. max 0 (node_size n)) = 21" by code_simp
  then show ?thesis
    using reuse_plan_total_and_bounded [OF demo_graph_wf demo_graph_facts(2)] by auto
qed

text \<open>Property C2. Running a graph whose aliases are harmless inside the planned arena computes, node by node, the
  same outputs as running it with separate storage for every tensor, whatever the arena held
  before and whatever the operations compute.\<close>

theorem arena_run_refines_values:
  assumes "wf_graph g" and "alias_ok g" and "topological (execution_order g)"
    and "generate_optimized_reuse_plan g = Inr p" and "op_sized sem"
  shows "run_arena sem p (execution_order g) mem = run_values sem (execution_order g) env"
  using assms first_fit_plan_safe [OF assms(1,2,4)] plan_covers_first_fit [OF assms(1,2,4)]
  by (intro arena_refines_values) (simp_all add: wf_graph_def)

theorem arena_run_refines_values_witness:
  "run_arena demo_sem demo_plan (execution_order demo_graph) (\<lambda>_. 0) =
   run_values demo_sem (execution_order demo_graph) (\<lambda>_. [])"
proof (rule arena_run_refines_values [OF demo_graph_wf demo_graph_facts(2) _ demo_plan_ok])
  show "topological (execution_order demo_graph)" by code_simp
  show "op_sized demo_sem" by (simp add: op_sized_def demo_sem_def)
qed

end
