(* ===== verification/Peak_Analysis.thy ===== *)
theory Peak_Analysis
  imports Arena_Semantics
begin

text \<open>
  Correctness of the liveness analysis, of the peak and of the timeline of
  \<^verbatim>\<open>MemoryAnalyzer\<close>: liveness is exact, the reported peak is attained and bounds every
  point of the timeline, and the arena of a plan whose aliases are harmless is at least as
  large as the peak.
\<close>

section \<open>Liveness\<close>

fun live_in :: "op_node list \<Rightarrow> string set" where
  "live_in [] = {}"
| "live_in (n # ns) = (live_in ns - {output_name n}) \<union> set (input_names n)"

lemma live_in_iff:
  "x \<in> live_in ns \<longleftrightarrow>
     (\<exists>k < length ns. x \<in> set (input_names (ns ! k)) \<and> (\<forall>j < k. output_name (ns ! j) \<noteq> x))"
proof (induction ns)
  case (Cons n ns)
  have "(\<exists>k < length (n # ns). x \<in> set (input_names ((n # ns) ! k)) \<and>
          (\<forall>j < k. output_name ((n # ns) ! j) \<noteq> x)) \<longleftrightarrow>
        x \<in> set (input_names n) \<or> (output_name n \<noteq> x \<and>
          (\<exists>k < length ns. x \<in> set (input_names (ns ! k)) \<and> (\<forall>j < k. output_name (ns ! j) \<noteq> x)))"
    by (auto simp: less_Suc_eq_0_disj all_simps ex_simps)
       (metis Suc_less_eq bot_nat_0.extremum_strict nat.exhaust nth_Cons_0 nth_Cons_Suc
         not_less_zero)+
  then show ?case using Cons by auto
qed simp

lemma liveness_fold:
  assumes "distinct (names_of ns)"
  shows "snd (fold liveness_step (rev ns) (m, {})) = live_in ns \<and>
    (\<forall>i < length ns. fst (fold liveness_step (rev ns) (m, {})) (output_name (ns ! i))
                       = Some (live_in (drop (Suc i) ns)))"
  using assms
proof (induction ns)
  case (Cons n ns)
  then have fresh: "output_name (ns ! i) \<noteq> output_name n" if "i < length ns" for i
    using that by (intro names_nth_neq) auto
  show ?case
    using Cons fresh by (auto simp: liveness_step_def nth_Cons split: nat.splits)
qed simp

lemma analyze_liveness_nth:
  assumes "wf_graph g" and "i < length (execution_order g)"
  shows "analyze_liveness g (output_name (execution_order g ! i)) =
           Some (live_in (drop (Suc i) (execution_order g)))"
  using liveness_fold [of "execution_order g" Map.empty] assms
  by (simp add: analyze_liveness_def wf_graph_def)

lemma live_in_drop_iff:
  "x \<in> live_in (drop (Suc i) ns) \<longleftrightarrow>
     (\<exists>k < length ns. i < k \<and> x \<in> set (input_names (ns ! k)) \<and>
        (\<forall>j. i < j \<and> j < k \<longrightarrow> output_name (ns ! j) \<noteq> x))"
proof
  assume "x \<in> live_in (drop (Suc i) ns)"
  then obtain k where k: "k < length ns - Suc i" "x \<in> set (input_names (ns ! (Suc i + k)))"
    "\<forall>j < k. output_name (ns ! (Suc i + j)) \<noteq> x"
    by (auto simp: live_in_iff)
  have "output_name (ns ! j) \<noteq> x" if "i < j" "j < Suc i + k" for j
    using k(3)[rule_format, of "j - Suc i"] that by simp
  then show "\<exists>k < length ns. i < k \<and> x \<in> set (input_names (ns ! k)) \<and>
        (\<forall>j. i < j \<and> j < k \<longrightarrow> output_name (ns ! j) \<noteq> x)"
    using k by (intro exI [of _ "Suc i + k"]) auto
next
  assume "\<exists>k < length ns. i < k \<and> x \<in> set (input_names (ns ! k)) \<and>
        (\<forall>j. i < j \<and> j < k \<longrightarrow> output_name (ns ! j) \<noteq> x)"
  then obtain k where k: "k < length ns" "i < k" "x \<in> set (input_names (ns ! k))"
    "\<forall>j. i < j \<and> j < k \<longrightarrow> output_name (ns ! j) \<noteq> x" by blast
  then show "x \<in> live_in (drop (Suc i) ns)"
    unfolding live_in_iff by (intro exI [of _ "k - Suc i"]) auto
qed

section \<open>Peak and timeline\<close>

definition node_total :: "custom_graph \<Rightarrow> op_node \<Rightarrow> int result" where
  "node_total g n = live_total g (live_set_for_calc (analyze_liveness g) n)"

lemma peak_loop:
  assumes "foldM (peak_step g (analyze_liveness g)) ns pk0 = Inr pk"
  shows "(\<forall>n \<in> set ns. \<exists>t. node_total g n = Inr t \<and> t \<le> peak_memory_bytes pk) \<and>
    peak_memory_bytes pk0 \<le> peak_memory_bytes pk \<and>
    (pk = pk0 \<or> (\<exists>n \<in> set ns. peak_node pk = Some n \<and> node_total g n = Inr (peak_memory_bytes pk) \<and>
       peak_live_set_names pk = live_set_for_calc (analyze_liveness g) n))"
  using assms
proof (induction ns arbitrary: pk0)
  case (Cons n ns)
  from Cons.prems obtain pk1 where step: "peak_step g (analyze_liveness g) n pk0 = Inr pk1"
    and rest: "foldM (peak_step g (analyze_liveness g)) ns pk1 = Inr pk"
    by (auto simp: bind_res_eq_Inr)
  from step obtain t where t: "node_total g n = Inr t"
    and pk1: "pk1 = (if t > peak_memory_bytes pk0
       then \<lparr>peak_memory_bytes = t, peak_node = Some n,
             peak_live_set_names = live_set_for_calc (analyze_liveness g) n\<rparr>
       else pk0)"
    by (auto simp: peak_step_def node_total_def bind_res_eq_Inr)
  from Cons.IH [OF rest] t pk1 show ?case by (auto split: if_splits)
qed simp

lemma timeline_loop:
  assumes "foldM (\<lambda>p tl. bind_res (timeline_entry g (analyze_liveness g) pk p) (\<lambda>e. Inr (tl @ [e]))) ps tl0
             = Inr out"
  shows "\<exists>es. out = tl0 @ es \<and> list_all2 (\<lambda>p e. timeline_entry g (analyze_liveness g) pk p = Inr e) ps es"
  using assms
proof (induction ps arbitrary: tl0)
  case (Cons p ps)
  from Cons.prems obtain e where e: "timeline_entry g (analyze_liveness g) pk p = Inr e"
    and rest: "foldM (\<lambda>p tl. bind_res (timeline_entry g (analyze_liveness g) pk p)
      (\<lambda>e. Inr (tl @ [e]))) ps (tl0 @ [e]) = Inr out"
    by (auto simp: bind_res_eq_Inr)
  from Cons.IH [OF rest] e show ?case by fastforce
qed simp

section \<open>The arena is at least the peak\<close>

lemma packed_sum_le:
  fixes lo hi :: "'k \<Rightarrow> int"
  assumes fin: "finite K" and iv: "\<And>k. k \<in> K \<Longrightarrow> 0 \<le> lo k \<and> lo k \<le> hi k \<and> hi k \<le> M"
    and disj: "\<And>k k'. k \<in> K \<Longrightarrow> k' \<in> K \<Longrightarrow> k \<noteq> k' \<Longrightarrow> disjoint_iv (lo k) (hi k) (lo k') (hi k')"
    and M: "0 \<le> M"
  shows "(\<Sum>k \<in> K. hi k - lo k) \<le> M"
proof -
  have "\<forall>k \<in> K. \<forall>k' \<in> K. k \<noteq> k' \<longrightarrow> {lo k..<hi k} \<inter> {lo k'..<hi k'} = {}"
    using disj unfolding disjoint_iv_def by fastforce
  then have "int (card (\<Union>k \<in> K. {lo k..<hi k})) = int (\<Sum>k \<in> K. card {lo k..<hi k})"
    using fin by (subst card_UN_disjoint) auto
  also have "\<dots> = (\<Sum>k \<in> K. hi k - lo k)"
    using iv by (auto intro!: sum.cong)
  finally have eq: "(\<Sum>k \<in> K. hi k - lo k) = int (card (\<Union>k \<in> K. {lo k..<hi k}))" ..
  have "(\<Union>k \<in> K. {lo k..<hi k}) \<subseteq> {0..<M}" using iv by force
  then have "card (\<Union>k \<in> K. {lo k..<hi k}) \<le> card {0..<M}" by (intro card_mono) auto
  then show ?thesis using eq M by simp
qed

text \<open>A tensor counted at node \<open>i\<close> was born no later, and is the node's own output or is read after it.\<close>

lemma counted_tensor:
  assumes wf: "wf_graph g" and topo: "topological (execution_order g)"
    and i: "i < length (execution_order g)"
    and x: "x \<in> live_set_for_calc (analyze_liveness g) (execution_order g ! i)"
  obtains b where "b \<le> i" "x = output_name (execution_order g ! b)"
    "b = i \<or> (\<exists>k. i < k \<and> k < length (execution_order g) \<and> x \<in> set (input_names (execution_order g ! k)))"
proof (cases "x = output_name (execution_order g ! i)")
  case True
  then show thesis using that by blast
next
  case False
  let ?L = "execution_order g"
  have "x \<in> live_in (drop (Suc i) ?L)"
    using x False by (simp add: live_set_for_calc_def analyze_liveness_nth [OF wf i])
  then obtain k where k: "k < length ?L" "i < k" "x \<in> set (input_names (?L ! k))"
    "\<forall>j. i < j \<and> j < k \<longrightarrow> output_name (?L ! j) \<noteq> x" unfolding live_in_drop_iff by blast
  have "x \<in> set (names_of (take k ?L))"
    using topo [unfolded topological_def, rule_format, OF k(1)] k(3) by (rule subsetD)
  then obtain b where b: "b < k" "x = output_name (?L ! b)"
    unfolding in_names_conv using k(1) by auto
  then have "b \<le> i" using k(4) by (metis not_le_imp_less)
  then show thesis using that [of b] b k by blast
qed

lemma counted_finite:
  assumes wf: "wf_graph g" and topo: "topological (execution_order g)"
    and i: "i < length (execution_order g)"
  shows "finite (live_set_for_calc (analyze_liveness g) (execution_order g ! i))" (is "finite ?S")
proof -
  have "?S \<subseteq> set (names_of (execution_order g))"
  proof
    fix x assume "x \<in> ?S"
    then obtain b where "b \<le> i" "x = output_name (execution_order g ! b)"
      by (rule counted_tensor [OF wf topo i])
    then show "x \<in> set (names_of (execution_order g))" using i by auto
  qed
  then show ?thesis using finite_subset by blast
qed

lemma nodes_nth:
  "wf_graph g \<Longrightarrow> b < length (execution_order g) \<Longrightarrow>
     nodes g (output_name (execution_order g ! b)) = Some (execution_order g ! b)"
  using wf_graph_nodes_iff by auto

abbreviation size_of_name :: "custom_graph \<Rightarrow> string \<Rightarrow> int" where
  "size_of_name g k \<equiv> node_size (the (nodes g k))"

lemma planned_block:
  assumes wf: "wf_graph g" and na: "alias_ok g"
    and plan: "generate_optimized_reuse_plan g = Inr p"
    and b: "b < length (execution_order g)" "k = output_name (execution_order g ! b)"
    and pos: "0 < size_of_name g k"
  shows "0 \<le> fst (block_of p k) \<and> snd (block_of p k) = fst (block_of p k) + size_of_name g k \<and>
    snd (block_of p k) \<le> total_buffer_size_bytes p"
proof -
  let ?L = "execution_order g"
  obtain st where st: "plan_loop g = Inr st" and pst: "entries p = plan_map st"
    "total_buffer_size_bytes p = max_offset st"
    using plan by (auto simp: generate_optimized_reuse_plan_def bind_res_eq_Inr)
  have inv: "plan_inv g ?L st" by (rule plan_loop_inv [OF wf na st])
  have bl: "?L ! b \<in> set ?L" "nodes g k = Some (?L ! b)" "0 < node_size (?L ! b)"
    using b pos nodes_nth [OF wf] by auto
  obtain c e where c: "c \<in> set (allocated_blocks st)" "plan_map st k = Some e" "entry_of_block e c"
    using plan_inv_block [OF inv bl(1,3)] b by blast
  have "entry_size e = node_size (?L ! b)"
    using plan_loop_sizes [OF wf st bl(1)] c b by simp
  moreover have "wf_block c \<and> blk_end c \<le> max_offset st" using inv c by (auto simp: plan_inv_def)
  ultimately show ?thesis
    using c bl pst by (auto simp: block_of_def entry_of_block_def wf_block_def)
qed

lemma counted_disjoint_ordered:
  assumes wf: "wf_graph g" and na: "alias_ok g"
    and plan: "generate_optimized_reuse_plan g = Inr p"
    and b: "b < b'" "b' \<le> i" "i < length (execution_order g)"
      "k = output_name (execution_order g ! b)" "k' = output_name (execution_order g ! b')"
    and rd: "b = i \<or> (\<exists>m. i < m \<and> m < length (execution_order g) \<and>
                        k \<in> set (input_names (execution_order g ! m)))"
    and pos: "0 < size_of_name g k" "0 < size_of_name g k'"
  shows "disjoint_iv (fst (block_of p k)) (snd (block_of p k)) (fst (block_of p k')) (snd (block_of p k'))"
proof -
  from rd b obtain m where "i < m" "m < length (execution_order g)"
    "k \<in> set (input_names (execution_order g ! m))" by auto
  then show ?thesis
    using first_fit_conflict_free [OF wf na plan, of b b' m] b pos nodes_nth [OF wf] by auto
qed

lemma counted_disjoint:
  assumes wf: "wf_graph g" and na: "alias_ok g"
    and topo: "topological (execution_order g)"
    and plan: "generate_optimized_reuse_plan g = Inr p"
    and i: "i < length (execution_order g)"
    and S: "k \<in> live_set_for_calc (analyze_liveness g) (execution_order g ! i)"
      "k' \<in> live_set_for_calc (analyze_liveness g) (execution_order g ! i)"
    and ne: "k \<noteq> k'" and pos: "0 < size_of_name g k" "0 < size_of_name g k'"
  shows "disjoint_iv (fst (block_of p k)) (snd (block_of p k)) (fst (block_of p k')) (snd (block_of p k'))"
proof -
  let ?L = "execution_order g"
  from S(1) obtain b where b: "b \<le> i" "k = output_name (?L ! b)"
    "b = i \<or> (\<exists>m. i < m \<and> m < length ?L \<and> k \<in> set (input_names (?L ! m)))"
    by (rule counted_tensor [OF wf topo i])
  from S(2) obtain b' where b': "b' \<le> i" "k' = output_name (?L ! b')"
    "b' = i \<or> (\<exists>m. i < m \<and> m < length ?L \<and> k' \<in> set (input_names (?L ! m)))"
    by (rule counted_tensor [OF wf topo i])
  have "b \<noteq> b'" using b(2) b'(2) ne by auto
  then consider "b < b'" | "b' < b" by linarith
  then show ?thesis
  proof cases
    case 1
    then show ?thesis
      using counted_disjoint_ordered [OF wf na plan _ b'(1) i b(2) b'(2) b(3) pos] by blast
  next
    case 2
    then show ?thesis
      using counted_disjoint_ordered [OF wf na plan _ b(1) i b'(2) b(2) b'(3) pos(2,1)]
      by (simp add: disjoint_iv_sym)
  qed
qed

lemma node_total_le_arena:
  assumes wf: "wf_graph g" and na: "alias_ok g"
    and topo: "topological (execution_order g)"
    and plan: "generate_optimized_reuse_plan g = Inr p"
    and i: "i < length (execution_order g)" and t: "node_total g (execution_order g ! i) = Inr t"
  shows "t \<le> total_buffer_size_bytes p"
proof -
  let ?L = "execution_order g"
  let ?S = "live_set_for_calc (analyze_liveness g) (?L ! i)"
  let ?K = "{k \<in> ?S. 0 < size_of_name g k}"
  let ?lo = "\<lambda>k. fst (block_of p k)" and ?hi = "\<lambda>k. snd (block_of p k)"
  have fin: "finite ?S" by (rule counted_finite [OF wf topo i])
  have t_eq: "t = (\<Sum>k \<in> ?S. size_of_name g k)"
    using t by (auto simp: node_total_def live_total_def split: if_splits)
  have blk: "0 \<le> ?lo k \<and> ?hi k = ?lo k + size_of_name g k \<and> ?hi k \<le> total_buffer_size_bytes p"
    if K: "k \<in> ?K" for k
  proof -
    from K have "k \<in> ?S" by simp
    then obtain b where "b \<le> i" "k = output_name (?L ! b)" by (rule counted_tensor [OF wf topo i])
    then show ?thesis using planned_block [OF wf na plan, of b k] i K by simp
  qed
  have "t = (\<Sum>k \<in> ?K. size_of_name g k) + (\<Sum>k \<in> ?S - ?K. size_of_name g k)"
    unfolding t_eq using fin by (subst sum.subset_diff [of ?K ?S]) auto
  moreover have "(\<Sum>k \<in> ?S - ?K. size_of_name g k) \<le> 0" by (rule sum_nonpos) auto
  ultimately have "t \<le> (\<Sum>k \<in> ?K. ?hi k - ?lo k)" using blk by simp
  also have "\<dots> \<le> total_buffer_size_bytes p"
  proof (rule packed_sum_le)
    show "finite ?K" using fin by simp
    obtain st where "plan_loop g = Inr st" "total_buffer_size_bytes p = max_offset st"
      using plan by (auto simp: generate_optimized_reuse_plan_def bind_res_eq_Inr)
    then show "0 \<le> total_buffer_size_bytes p"
      using plan_loop_inv [OF wf na] by (auto simp: plan_inv_def)
  next
    fix k assume "k \<in> ?K"
    then show "0 \<le> ?lo k \<and> ?lo k \<le> ?hi k \<and> ?hi k \<le> total_buffer_size_bytes p"
      using blk [of k] by auto
  next
    fix k k' assume "k \<in> ?K" "k' \<in> ?K" "k \<noteq> k'"
    then show "disjoint_iv (?lo k) (?hi k) (?lo k') (?hi k')"
      using counted_disjoint [OF wf na topo plan i] by simp
  qed
  finally show ?thesis .
qed

section \<open>Properties of the analysis\<close>

text \<open>Property C19. Liveness is exact: the set recorded for a node holds precisely the names that
  some later node reads before any later node produces them.\<close>

theorem liveness_exact:
  assumes "wf_graph g" and "i < length (execution_order g)"
  shows "\<exists>S. analyze_liveness g (output_name (execution_order g ! i)) = Some S \<and>
     (\<forall>x. x \<in> S \<longleftrightarrow>
        (\<exists>k < length (execution_order g). i < k \<and> x \<in> set (input_names (execution_order g ! k)) \<and>
           (\<forall>j. i < j \<and> j < k \<longrightarrow> output_name (execution_order g ! j) \<noteq> x)))"
  using analyze_liveness_nth [OF assms] live_in_drop_iff [of _ i "execution_order g"] by simp

theorem liveness_exact_witness:
  "\<exists>S. analyze_liveness demo_graph (output_name (execution_order demo_graph ! 0)) = Some S"
proof -
  have "0 < length (execution_order demo_graph)" by code_simp
  from liveness_exact [OF demo_graph_wf this] show ?thesis by blast
qed

text \<open>Property C18. A successful analysis reports a peak that is attained at the reported node and
  bounds every point of the timeline, whose occupancy never exceeds one; and when the aliases
  of the graph are harmless and it reads only what it has produced, the planned arena is at least as large as the peak.\<close>

theorem peak_below_arena:
  assumes "wf_graph g" and "alias_ok g" and "topological (execution_order g)"
    and "analyze g = Inr a"
  shows "\<exists>peak. peak_memory_mb a = mb peak \<and> peak \<le> total_buffer_size_bytes (an_reuse_plan a) \<and>
     (\<exists>n \<in> set (execution_order g). output_name n = peak_node_name a \<and> node_total g n = Inr peak) \<and>
     (\<forall>e \<in> set (memory_timeline a). total_memory_mb e \<le> mb peak \<and> occupancy_ratio e \<le> 1)"
proof -
  from assms(4) obtain pk tml p n where
    pk: "calculate_peak_memory g (analyze_liveness g) = Inr pk" and
    tml: "calculate_memory_timeline g (analyze_liveness g) (peak_memory_bytes pk) = Inr tml" and
    p: "generate_optimized_reuse_plan g = Inr p" and n: "peak_node pk = Some n" and
    a: "a = \<lparr>peak_memory_mb = mb (peak_memory_bytes pk), peak_node_name = output_name n,
             peak_live_tensors = peak_live_set_names pk, memory_timeline = tml, an_reuse_plan = p\<rparr>"
    by (auto simp: analyze_def Let_def bind_res_eq_Inr split: option.splits)
  note pl = peak_loop [OF pk [unfolded calculate_peak_memory_def]]
  have n_total: "n \<in> set (execution_order g)" "node_total g n = Inr (peak_memory_bytes pk)"
    using pl n by auto
  have pos: "0 \<le> peak_memory_bytes pk" using pl by simp
  have entry: "total_memory_mb e \<le> mb (peak_memory_bytes pk) \<and> occupancy_ratio e \<le> 1"
    if "e \<in> set tml" for e
  proof -
    have steps: "list_all2 (\<lambda>q e. timeline_entry g (analyze_liveness g) (peak_memory_bytes pk) q = Inr e)
        (enumerate 0 (execution_order g)) tml"
      using timeline_loop [OF tml [unfolded calculate_memory_timeline_def]] by simp
    from that obtain i where i: "i < length tml" "e = tml ! i" by (auto simp: in_set_conv_nth)
    define q where "q = enumerate 0 (execution_order g) ! i"
    have q: "q \<in> set (enumerate 0 (execution_order g))"
      "timeline_entry g (analyze_liveness g) (peak_memory_bytes pk) q = Inr e"
      using steps i list_all2_lengthD [OF steps]
      by (auto simp: q_def list_all2_conv_all_nth simp del: length_enumerate intro!: nth_mem)
    then have "snd q \<in> set (execution_order g)" by (metis enumerate_eq_zip in_set_zipE prod.collapse)
    then obtain t where "node_total g (snd q) = Inr t" "t \<le> peak_memory_bytes pk" using pl by blast
    then show ?thesis
      using q(2) pos by (auto simp: timeline_entry_def Let_def node_total_def mb_def divide_right_mono)
  qed
  obtain i where "i < length (execution_order g)" "n = execution_order g ! i"
    using n_total(1) by (auto simp: in_set_conv_nth)
  then have "peak_memory_bytes pk \<le> total_buffer_size_bytes p"
    using node_total_le_arena [OF assms(1-3) p] n_total(2) by simp
  then show ?thesis using a n_total entry by (intro exI [of _ "peak_memory_bytes pk"]) auto
qed

theorem peak_below_arena_witness:
  "\<exists>a peak. analyze demo_graph = Inr a \<and> peak_memory_mb a = mb peak \<and>
     peak \<le> total_buffer_size_bytes (an_reuse_plan a)"
proof -
  have "is_ok (analyze demo_graph)" by code_simp
  then obtain a where a: "analyze demo_graph = Inr a" by (auto simp: is_ok_def split: sum.splits)
  have "topological (execution_order demo_graph)" by code_simp
  from peak_below_arena [OF demo_graph_wf demo_graph_facts(2) this a] a show ?thesis by blast
qed

end
