(* ===== verification/Block_Graphs.thy ===== *)
theory Block_Graphs
  imports Peak_Analysis
begin

text \<open>
  The computation graphs of one transformer block, \<^verbatim>\<open>vllm/v1/worker/graph_builder.py\<close>,
  part 3: LLaDA, Dream and LLaDA-MoE, each whole and chunk-wise. Every definer is the sequence of
  its \<^verbatim>\<open>add_op\<close> and \<^verbatim>\<open>add_alias\<close> calls in source order, with the source's model constants.
  The lemmas reduce what the planner needs of such a graph (harmless aliases, reads only of what
  was produced) to its skeleton of names, which is evaluated.
\<close>

section \<open>The six definers\<close>

definition llada_cmds :: "int \<Rightarrow> int \<Rightarrow> graph_cmd list" where
  "llada_cmds P Op =
     (let N = P; D_MODEL = 4096; INTERMEDIATE_SIZE = 12288; NUM_HEAD_Q = 32; NUM_HEAD_KV = 32;
          HEAD_DIM = D_MODEL div NUM_HEAD_Q; VOCAB_SIZE = 126464; DTYPE = bfloat16
      in
        [AddOp ''x'' ''placeholder'' [] [N, D_MODEL] DTYPE,
         AddOp ''x_normed'' ''attn_norm'' [''x''] [N, D_MODEL] DTYPE,
         AddOp ''q'' ''q_proj'' [''x_normed''] [N, D_MODEL] DTYPE,
         AddOp ''k'' ''k_proj'' [''x_normed''] [N, NUM_HEAD_KV * HEAD_DIM] DTYPE,
         AddOp ''v'' ''v_proj'' [''x_normed''] [N, NUM_HEAD_KV * HEAD_DIM] DTYPE,
         AddOp ''att_tmp'' ''attention_op'' [''q'', ''k'', ''v''] [N, NUM_HEAD_Q, HEAD_DIM] DTYPE,
         AddOp ''att_out'' ''o_proj'' [''att_tmp''] [N, D_MODEL] DTYPE,
         AddOp ''x_normed_2'' ''fused_add_rms_norm_out'' [''x'', ''att_out''] [N, D_MODEL] DTYPE,
         AddOp ''residual'' ''fused_add_rms_norm_out'' [''x'', ''att_out''] [N, D_MODEL] DTYPE,
         AddOp ''mlp_x'' ''ff_proj'' [''x_normed_2''] [N, INTERMEDIATE_SIZE] DTYPE,
         AddOp ''mlp_x_up'' ''up_proj'' [''x_normed_2''] [N, INTERMEDIATE_SIZE] DTYPE,
         AddOp ''mlp_gated'' ''mul_op'' [''mlp_x'', ''mlp_x_up''] [N, INTERMEDIATE_SIZE] DTYPE,
         AddOp ''mlp_output'' ''ff_out'' [''mlp_gated''] [N, D_MODEL] DTYPE,
         AddOp ''final_output'' ''add_residual_2'' [''residual'', ''mlp_output'']
            [N, D_MODEL] DTYPE,
         AddAlias ''final_output'' ''x'',
         AddOp ''logits'' ''get_logits'' [''final_output''] [Op, VOCAB_SIZE] DTYPE])"

definition define_llada_block_graph :: "int \<Rightarrow> int \<Rightarrow> custom_graph result" where
  "define_llada_block_graph P Op = build_graph (llada_cmds P Op)"

definition dream_cmds :: "int \<Rightarrow> int \<Rightarrow> graph_cmd list" where
  "dream_cmds N M =
     (let HIDDEN_SIZE = 3584; INTERMEDIATE_SIZE = 18944; NUM_HEADS = 28; NUM_KV_HEADS = 4;
          HEAD_DIM = HIDDEN_SIZE div NUM_HEADS; VOCAB_SIZE = 152064; DTYPE = bfloat16
      in
        [AddOp ''x'' ''placeholder'' [] [N, HIDDEN_SIZE] DTYPE,
         AddOp ''x_normed'' ''input_layernorm'' [''x''] [N, HIDDEN_SIZE] DTYPE,
         AddOp ''q'' ''q_proj'' [''x_normed''] [N, NUM_HEADS * HEAD_DIM] DTYPE,
         AddOp ''k'' ''k_proj'' [''x_normed''] [N, NUM_KV_HEADS * HEAD_DIM] DTYPE,
         AddOp ''v'' ''v_proj'' [''x_normed''] [N, NUM_KV_HEADS * HEAD_DIM] DTYPE,
         AddOp ''att_out_var'' ''flash_attention'' [''q'', ''k'', ''v'']
            [N, NUM_HEADS, HEAD_DIM] DTYPE,
         AddOp ''att_out'' ''o_proj'' [''att_out_var''] [N, HIDDEN_SIZE] DTYPE,
         AddOp ''x_normed_2'' ''fused_add_rms_norm_out'' [''x'', ''att_out'']
            [N, HIDDEN_SIZE] DTYPE,
         AddOp ''residual'' ''fused_add_rms_norm_out'' [''x'', ''att_out''] [N, HIDDEN_SIZE] DTYPE,
         AddOp ''x_gate'' ''gate_proj'' [''x_normed_2''] [N, INTERMEDIATE_SIZE] DTYPE,
         AddOp ''x_up'' ''up_proj'' [''x_normed_2''] [N, INTERMEDIATE_SIZE] DTYPE,
         AddOp ''x_mlp'' ''mul_gate'' [''x_gate'', ''x_up''] [N, INTERMEDIATE_SIZE] DTYPE,
         AddOp ''mlp_output'' ''down_proj'' [''x_mlp''] [N, HIDDEN_SIZE] DTYPE,
         AddOp ''final_output'' ''add_residual_2'' [''residual'', ''mlp_output'']
            [N, HIDDEN_SIZE] DTYPE,
         AddAlias ''final_output'' ''x'',
         AddOp ''logits'' ''lm_head'' [''final_output''] [M, VOCAB_SIZE] DTYPE])"

definition define_dream_block_graph :: "int \<Rightarrow> int \<Rightarrow> custom_graph result" where
  "define_dream_block_graph N M = build_graph (dream_cmds N M)"

definition dream_chunk_cmds :: "bool \<Rightarrow> int \<Rightarrow> int \<Rightarrow> int \<Rightarrow> graph_cmd list" where
  "dream_chunk_cmds chunk_mlp N max_chunk_size_mlp max_chunk_size_logits =
     (let HIDDEN_SIZE = 3584; INTERMEDIATE_SIZE = 18944; NUM_HEADS = 28; NUM_KV_HEADS = 4;
          HEAD_DIM = HIDDEN_SIZE div NUM_HEADS; VOCAB_SIZE = 152064; DTYPE = bfloat16
      in
        ([AddOp ''x'' ''placeholder'' [] [N, HIDDEN_SIZE] DTYPE,
         AddOp ''x_normed'' ''input_layernorm'' [''x''] [N, HIDDEN_SIZE] DTYPE,
         AddOp ''q'' ''q_proj'' [''x_normed''] [N, NUM_HEADS * HEAD_DIM] DTYPE,
         AddOp ''k'' ''k_proj'' [''x_normed''] [N, NUM_KV_HEADS * HEAD_DIM] DTYPE,
         AddOp ''v'' ''v_proj'' [''x_normed''] [N, NUM_KV_HEADS * HEAD_DIM] DTYPE,
         AddOp ''att_out_var'' ''flash_attention'' [''q'', ''k'', ''v'']
            [N, NUM_HEADS, HEAD_DIM] DTYPE,
         AddOp ''att_out'' ''o_proj'' [''att_out_var''] [N, HIDDEN_SIZE] DTYPE,
         AddOp ''x_normed_2'' ''fused_add_rms_norm_out'' [''x'', ''att_out'']
            [N, HIDDEN_SIZE] DTYPE,
         AddOp ''residual'' ''fused_add_rms_norm_out'' [''x'', ''att_out'']
            [N, HIDDEN_SIZE] DTYPE] @
        (if chunk_mlp then
        [AddOp ''x_gate'' ''gate_proj'' [''x_normed_2'']
           [max_chunk_size_mlp, INTERMEDIATE_SIZE] DTYPE,
         AddOp ''x_up'' ''up_proj'' [''x_normed_2''] [max_chunk_size_mlp, INTERMEDIATE_SIZE] DTYPE,
         AddOp ''x_mlp'' ''mul_gate'' [''x_gate'', ''x_up'']
            [max_chunk_size_mlp, INTERMEDIATE_SIZE] DTYPE,
         AddOp ''mlp_output'' ''down_proj'' [''x_mlp''] [N, HIDDEN_SIZE] DTYPE,

                    AddOp ''mlp_loop_hazard_barrier'' ''barrier'' [''x_gate'', ''x_up'', ''x_mlp'', ''mlp_output''] [1] int8,
         AddOp ''xnorm2_barrier'' ''barrier'' [''x_normed_2''] [1] int8]
        else
        [AddOp ''x_gate'' ''gate_proj'' [''x_normed_2''] [N, INTERMEDIATE_SIZE] DTYPE,
         AddOp ''x_up'' ''up_proj'' [''x_normed_2''] [N, INTERMEDIATE_SIZE] DTYPE,
         AddOp ''x_mlp'' ''mul_gate'' [''x_gate'', ''x_up''] [N, INTERMEDIATE_SIZE] DTYPE,
         AddOp ''mlp_output'' ''down_proj'' [''x_mlp''] [N, HIDDEN_SIZE] DTYPE]) @
        [AddOp ''final_output'' ''add_residual_2'' [''residual'', ''mlp_output'']
           [N, HIDDEN_SIZE] DTYPE,
         AddAlias ''final_output'' ''x'',
         AddOp ''logits'' ''lm_head'' [''final_output'']
            [max_chunk_size_logits, VOCAB_SIZE] DTYPE]))"

definition define_dream_block_graph_chunkwise ::
  "int \<Rightarrow> int \<Rightarrow> bool \<Rightarrow> bool \<Rightarrow> int \<Rightarrow> int \<Rightarrow> custom_graph result"
where
  "define_dream_block_graph_chunkwise N M chunk_logits chunk_mlp num_chunks_logits num_chunks_mlp =
     (if chunk_mlp \<and> num_chunks_mlp = 0 \<or> chunk_logits \<and> num_chunks_logits = 0
      then Inl ZeroDivisionError
      else let max_chunk_size_mlp = (if chunk_mlp then ceil_div N num_chunks_mlp else N);
               max_chunk_size_logits = (if chunk_logits then ceil_div M num_chunks_logits else M)
           in build_graph (dream_chunk_cmds chunk_mlp N max_chunk_size_mlp max_chunk_size_logits))"

definition llada_moe_cmds :: "int \<Rightarrow> int \<Rightarrow> graph_cmd list" where
  "llada_moe_cmds N M =
     (let HIDDEN_SIZE = 2048; NUM_HEADS = 16; NUM_KV_HEADS = 16;
          HEAD_DIM = HIDDEN_SIZE div NUM_HEADS; EXPERT_INTERMEDIATE = 1024; TOPK = 8;
          VOCAB_SIZE = 157184; DTYPE = bfloat16
      in
        [AddOp ''x'' ''placeholder'' [] [N, HIDDEN_SIZE] DTYPE,
         AddOp ''x_normed'' ''input_layernorm'' [''x''] [N, HIDDEN_SIZE] DTYPE,
         AddOp ''q'' ''q_proj'' [''x_normed''] [N, NUM_HEADS * HEAD_DIM] DTYPE,
         AddOp ''k'' ''k_proj'' [''x_normed''] [N, NUM_KV_HEADS * HEAD_DIM] DTYPE,
         AddOp ''v'' ''v_proj'' [''x_normed''] [N, NUM_KV_HEADS * HEAD_DIM] DTYPE,
         AddOp ''att_out_var'' ''flash_attention'' [''q'', ''k'', ''v'']
            [N, NUM_HEADS * HEAD_DIM] DTYPE,
         AddOp ''att_out'' ''o_proj'' [''att_out_var''] [N, HIDDEN_SIZE] DTYPE,
         AddOp ''x_normed_2'' ''fused_add_rms_norm_out'' [''x'', ''att_out'']
            [N, HIDDEN_SIZE] DTYPE,
         AddOp ''residual'' ''fused_add_rms_norm_out'' [''x'', ''att_out''] [N, HIDDEN_SIZE] DTYPE,
         AddOp ''moe_cache1'' ''moe_gemm1'' [''x_normed_2'']
            [N, TOPK, EXPERT_INTERMEDIATE * 2] DTYPE,
         AddOp ''moe_cache2'' ''silu_and_mul'' [''moe_cache1'']
            [N * TOPK, EXPERT_INTERMEDIATE] DTYPE,
         AddOp ''moe_cache3'' ''moe_gemm2'' [''moe_cache2''] [N, TOPK, HIDDEN_SIZE] DTYPE,
         AddOp ''moe_output'' ''moe_weighted_sum'' [''moe_cache3''] [N, HIDDEN_SIZE] DTYPE,
         AddOp ''final_output'' ''add_residual_2'' [''residual'', ''moe_output'']
            [N, HIDDEN_SIZE] DTYPE,
         AddAlias ''final_output'' ''x'',
         AddOp ''logits'' ''lm_head'' [''final_output''] [M, VOCAB_SIZE] DTYPE])"

definition define_llada_moe_block_graph :: "int \<Rightarrow> int \<Rightarrow> custom_graph result" where
  "define_llada_moe_block_graph N M = build_graph (llada_moe_cmds N M)"

definition llada_moe_chunk_cmds :: "bool \<Rightarrow> int \<Rightarrow> int \<Rightarrow> int \<Rightarrow> graph_cmd list" where
  "llada_moe_chunk_cmds chunk_moe N max_chunk_size_moe max_chunk_size_logits =
     (let HIDDEN_SIZE = 2048; NUM_HEADS = 16; NUM_KV_HEADS = 16;
          HEAD_DIM = HIDDEN_SIZE div NUM_HEADS; EXPERT_INTERMEDIATE = 1024; TOPK = 8;
          VOCAB_SIZE = 157184; DTYPE = bfloat16
      in
        ([AddOp ''x'' ''placeholder'' [] [N, HIDDEN_SIZE] DTYPE,
         AddOp ''x_normed'' ''input_layernorm'' [''x''] [N, HIDDEN_SIZE] DTYPE,
         AddOp ''q'' ''q_proj'' [''x_normed''] [N, NUM_HEADS * HEAD_DIM] DTYPE,
         AddOp ''k'' ''k_proj'' [''x_normed''] [N, NUM_KV_HEADS * HEAD_DIM] DTYPE,
         AddOp ''v'' ''v_proj'' [''x_normed''] [N, NUM_KV_HEADS * HEAD_DIM] DTYPE,
         AddOp ''att_out_var'' ''flash_attention'' [''q'', ''k'', ''v'']
            [N, NUM_HEADS * HEAD_DIM] DTYPE,
         AddOp ''att_out'' ''o_proj'' [''att_out_var''] [N, HIDDEN_SIZE] DTYPE,
         AddOp ''x_normed_2'' ''fused_add_rms_norm_out'' [''x'', ''att_out'']
            [N, HIDDEN_SIZE] DTYPE,
         AddOp ''residual'' ''fused_add_rms_norm_out'' [''x'', ''att_out'']
            [N, HIDDEN_SIZE] DTYPE] @
        (if chunk_moe then
        [AddOp ''moe_cache1'' ''moe_gemm1'' [''x_normed_2'']
           [max_chunk_size_moe, TOPK, EXPERT_INTERMEDIATE * 2] DTYPE,
         AddOp ''moe_cache2'' ''silu_and_mul'' [''moe_cache1'']
            [max_chunk_size_moe * TOPK, EXPERT_INTERMEDIATE] DTYPE,
         AddOp ''moe_cache3'' ''moe_gemm2'' [''moe_cache2'']
            [max_chunk_size_moe, TOPK, HIDDEN_SIZE] DTYPE,
         AddOp ''moe_output'' ''moe_weighted_sum'' [''moe_cache3''] [N, HIDDEN_SIZE] DTYPE,

                    AddOp ''moe_loop_hazard_barrier'' ''barrier'' [''moe_cache1'', ''moe_cache2'', ''moe_cache3'', ''moe_output''] [1] int8,
         AddOp ''xnorm2_barrier'' ''barrier'' [''x_normed_2''] [1] int8]
        else
        [AddOp ''moe_cache1'' ''moe_gemm1'' [''x_normed_2'']
           [N, TOPK, EXPERT_INTERMEDIATE * 2] DTYPE,
         AddOp ''moe_cache2'' ''silu_and_mul'' [''moe_cache1'']
            [N * TOPK, EXPERT_INTERMEDIATE] DTYPE,
         AddOp ''moe_cache3'' ''moe_gemm2'' [''moe_cache2''] [N, TOPK, HIDDEN_SIZE] DTYPE,
         AddOp ''moe_output'' ''moe_weighted_sum'' [''moe_cache3''] [N, HIDDEN_SIZE] DTYPE]) @
        [AddOp ''final_output'' ''add_residual_2'' [''residual'', ''moe_output'']
           [N, HIDDEN_SIZE] DTYPE,
         AddAlias ''final_output'' ''x'',
         AddOp ''logits'' ''lm_head'' [''final_output'']
            [max_chunk_size_logits, VOCAB_SIZE] DTYPE]))"

definition define_llada_moe_block_graph_chunkwise ::
  "int \<Rightarrow> int \<Rightarrow> bool \<Rightarrow> bool \<Rightarrow> int \<Rightarrow> int \<Rightarrow> custom_graph result"
where
  "define_llada_moe_block_graph_chunkwise N M chunk_logits chunk_moe num_chunks_logits num_chunks_moe =
     (if chunk_moe \<and> num_chunks_moe = 0 \<or> chunk_logits \<and> num_chunks_logits = 0
      then Inl ZeroDivisionError
      else let max_chunk_size_moe = (if chunk_moe then ceil_div N num_chunks_moe else N);
               max_chunk_size_logits = (if chunk_logits then ceil_div M num_chunks_logits else M)
           in build_graph (llada_moe_chunk_cmds chunk_moe N max_chunk_size_moe max_chunk_size_logits))"

definition llada_chunk_cmds :: "bool \<Rightarrow> int \<Rightarrow> int \<Rightarrow> int \<Rightarrow> graph_cmd list" where
  "llada_chunk_cmds chunk_mlp P max_chunk_size_mlp max_chunk_size_logits =
     (let N = P; D_MODEL = 4096; INTERMEDIATE_SIZE = 12288; NUM_HEAD_Q = 32; NUM_HEAD_KV = 32;
          HEAD_DIM = D_MODEL div NUM_HEAD_Q; VOCAB_SIZE = 126464; DTYPE = bfloat16
      in
        ([AddOp ''x'' ''placeholder'' [] [N, D_MODEL] DTYPE,
         AddOp ''x_normed'' ''attn_norm'' [''x''] [N, D_MODEL] DTYPE,
         AddOp ''q'' ''q_proj'' [''x_normed''] [N, D_MODEL] DTYPE,
         AddOp ''k'' ''k_proj'' [''x_normed''] [N, NUM_HEAD_KV * HEAD_DIM] DTYPE,
         AddOp ''v'' ''v_proj'' [''x_normed''] [N, NUM_HEAD_KV * HEAD_DIM] DTYPE,
         AddOp ''att_tmp'' ''attention_op'' [''q'', ''k'', ''v''] [N, NUM_HEAD_Q, HEAD_DIM] DTYPE,
         AddOp ''att_out'' ''o_proj'' [''att_tmp''] [N, D_MODEL] DTYPE,
         AddOp ''x_normed_2'' ''fused_add_rms_norm_out'' [''x'', ''att_out''] [N, D_MODEL] DTYPE,
         AddOp ''residual'' ''fused_add_rms_norm_out'' [''x'', ''att_out''] [N, D_MODEL] DTYPE] @
        (if chunk_mlp then
        [AddOp ''mlp_x'' ''ff_proj'' [''x_normed_2''] [max_chunk_size_mlp, INTERMEDIATE_SIZE] DTYPE,
         AddOp ''mlp_x_up'' ''up_proj'' [''x_normed_2'']
            [max_chunk_size_mlp, INTERMEDIATE_SIZE] DTYPE,
         AddOp ''mlp_gated'' ''mul_op'' [''mlp_x'', ''mlp_x_up'']
            [max_chunk_size_mlp, INTERMEDIATE_SIZE] DTYPE,
         AddOp ''mlp_output'' ''ff_out'' [''mlp_gated''] [N, D_MODEL] DTYPE,

                    AddOp ''mlp_loop_hazard_barrier'' ''barrier'' [''mlp_x'', ''mlp_x_up'', ''mlp_gated'', ''mlp_output''] [1] int8,
         AddOp ''xnorm2_barrier'' ''barrier'' [''x_normed_2''] [1] int8]
        else
        [AddOp ''mlp_x'' ''ff_proj'' [''x_normed_2''] [N, INTERMEDIATE_SIZE] DTYPE,
         AddOp ''mlp_x_up'' ''up_proj'' [''x_normed_2''] [N, INTERMEDIATE_SIZE] DTYPE,
         AddOp ''mlp_gated'' ''mul_op'' [''mlp_x'', ''mlp_x_up''] [N, INTERMEDIATE_SIZE] DTYPE,
         AddOp ''mlp_output'' ''ff_out'' [''mlp_gated''] [N, D_MODEL] DTYPE]) @
        [AddOp ''final_output'' ''add_residual_2'' [''residual'', ''mlp_output'']
           [N, D_MODEL] DTYPE,
         AddAlias ''final_output'' ''x'',
         AddOp ''logits'' ''get_logits'' [''final_output'']
            [max_chunk_size_logits, VOCAB_SIZE] DTYPE]))"

definition define_llada_block_graph_chunkwise ::
  "int \<Rightarrow> int \<Rightarrow> bool \<Rightarrow> bool \<Rightarrow> int \<Rightarrow> int \<Rightarrow> custom_graph result"
where
  "define_llada_block_graph_chunkwise P Op chunk_logits chunk_mlp num_chunks_logits num_chunks_mlp =
     (if chunk_mlp \<and> num_chunks_mlp = 0 \<or> chunk_logits \<and> num_chunks_logits = 0
      then Inl ZeroDivisionError
      else let max_chunk_size_mlp = (if chunk_mlp then ceil_div P num_chunks_mlp else P);
               max_chunk_size_logits = (if chunk_logits then ceil_div Op num_chunks_logits else Op)
           in build_graph (llada_chunk_cmds chunk_mlp P max_chunk_size_mlp max_chunk_size_logits))"

section \<open>The skeleton of a graph\<close>

text \<open>A block graph is fit for planning when it is well formed, its aliases are harmless, every
  node reads only earlier outputs, and the block output is aliased to the block input. Apart from
  well-formedness this depends on names only.\<close>

definition plannable :: "custom_graph \<Rightarrow> bool" where
  "plannable g \<longleftrightarrow> wf_graph g \<and> alias_ok g \<and> topological (execution_order g) \<and>
     aliases g ''final_output'' = Some ''x''"

abbreviation node_io :: "op_node \<Rightarrow> string \<times> string list" where
  "node_io n \<equiv> (output_name n, input_names n)"

definition same_skeleton :: "custom_graph \<Rightarrow> custom_graph \<Rightarrow> bool" where
  "same_skeleton g h \<longleftrightarrow> wf_graph g \<and> wf_graph h \<and> aliases g = aliases h \<and>
     map node_io (execution_order g) = map node_io (execution_order h)"

fun erase_shape :: "graph_cmd \<Rightarrow> graph_cmd" where
  "erase_shape (AddOp out op ins shp dt) = AddOp out op ins [] dt"
| "erase_shape (AddAlias s t) = AddAlias s t"

lemma run_cmd_skeleton:
  assumes "same_skeleton g h" and "run_cmd c g = Inr g'" and "run_cmd (erase_shape c) h = Inr h'"
  shows "same_skeleton g' h'"
proof -
  have "wf_graph g'" "wf_graph h'" using assms run_cmd_wf unfolding same_skeleton_def by blast+
  with assms show ?thesis
    by (cases c) (auto simp: same_skeleton_def elim!: add_op_cases add_alias_cases)
qed

lemma build_skeleton:
  "same_skeleton g0 h0 \<Longrightarrow> foldM run_cmd cmds g0 = Inr g \<Longrightarrow>
     foldM run_cmd (map erase_shape cmds) h0 = Inr h \<Longrightarrow> same_skeleton g h"
  by (induction cmds arbitrary: g0 h0) (auto simp: bind_res_eq_Inr intro: run_cmd_skeleton)

lemma mark_all_by_inputs:
  "fold mark_inputs (enumerate i ns) m =
     fold (\<lambda>p m. fold (\<lambda>inp m. m(inp \<mapsto> int (fst p))) (snd p) m) (enumerate i (map input_names ns)) m"
  by (induction ns arbitrary: i m) (simp_all add: mark_inputs_def)

lemma skeleton_names:
  assumes "same_skeleton g h"
  shows "names_of (execution_order g) = names_of (execution_order h)"
    and "map input_names (execution_order g) = map input_names (execution_order h)"
    and "length (execution_order g) = length (execution_order h)"
proof -
  have *: "map node_io (execution_order g) = map node_io (execution_order h)"
    using assms by (simp add: same_skeleton_def)
  show "names_of (execution_order g) = names_of (execution_order h)"
    using arg_cong [OF *, of "map fst"] by (simp add: comp_def)
  show "map input_names (execution_order g) = map input_names (execution_order h)"
    using arg_cong [OF *, of "map snd"] by (simp add: comp_def)
  show "length (execution_order g) = length (execution_order h)"
    using arg_cong [OF *, of length] by simp
qed

lemma skeleton_nodes:
  assumes "same_skeleton g h"
  shows "nodes g k = None \<longleftrightarrow> nodes h k = None"
proof -
  have "dom (nodes g) = dom (nodes h)"
    using assms wf_graph_dom skeleton_names(1) [OF assms] unfolding same_skeleton_def by metis
  then show ?thesis by (metis domIff)
qed

lemma skeleton_death:
  assumes "same_skeleton g h"
  shows "death_of g = death_of h"
proof -
  have "(case nodes g k of None \<Rightarrow> None | Some _ \<Rightarrow> Some (- 1 :: int)) =
        (case nodes h k of None \<Rightarrow> None | Some _ \<Rightarrow> Some (- 1))" for k
    using skeleton_nodes [OF assms, of k] by (cases "nodes g k"; cases "nodes h k") auto
  then have "deaths g = deaths h"
    unfolding deaths_def mark_all_by_inputs by (simp add: skeleton_names(2) [OF assms])
  then show ?thesis
    by (intro ext) (simp add: death_of_def skeleton_names(3) [OF assms] cong: option.case_cong)
qed

lemma alias_ok_by_names:
  "alias_ok g \<longleftrightarrow>
     (\<forall>a < length (execution_order g).
        \<forall>t. aliases g (names_of (execution_order g) ! a) = Some t \<longrightarrow>
          t \<in> set (take a (names_of (execution_order g))) \<and>
          (\<forall>k \<in> set (take a (names_of (execution_order g))). death_of g k \<le> int a))"
  by (auto simp: alias_ok_def take_map split: option.splits)

lemma topological_by_names:
  "topological ns \<longleftrightarrow>
     (\<forall>k < length ns. set (map input_names ns ! k) \<subseteq> set (take k (names_of ns)))"
  by (simp add: topological_def take_map)

lemma plannable_by_skeleton:
  assumes sk: "same_skeleton g h" and h: "alias_ok h" "topological (execution_order h)"
      "aliases h ''final_output'' = Some ''x''"
  shows "plannable g"
proof -
  have "aliases g = aliases h" "wf_graph g" using sk by (simp_all add: same_skeleton_def)
  then show ?thesis
    using h unfolding plannable_def alias_ok_by_names topological_by_names
    by (simp add: skeleton_names [OF sk] skeleton_death [OF sk])
qed

definition skeleton_ok :: "graph_cmd list \<Rightarrow> bool" where
  "skeleton_ok cmds =
     (case build_graph cmds of
        Inl _ \<Rightarrow> False
      | Inr h \<Rightarrow> alias_ok h \<and> topological (execution_order h) \<and>
          aliases h ''final_output'' = Some ''x'')"

lemma build_plannable:
  assumes "build_graph cmds = Inr g" and "skeleton_ok (map erase_shape cmds)"
  shows "plannable g"
proof -
  from assms(2) obtain h where h: "build_graph (map erase_shape cmds) = Inr h"
    and ok: "alias_ok h" "topological (execution_order h)" "aliases h ''final_output'' = Some ''x''"
    by (auto simp: skeleton_ok_def split: sum.splits)
  have "same_skeleton CustomGraph CustomGraph" by (simp add: same_skeleton_def wf_graph_empty)
  then have "same_skeleton g h"
    using assms(1) h unfolding build_graph_def by (rule build_skeleton)
  then show ?thesis using ok by (rule plannable_by_skeleton)
qed


section \<open>Every definer succeeds on a graph fit for planning\<close>

text \<open>The token counts and what the definers compute from them fit a 64-bit integer.\<close>

definition tokens_ok :: "int \<Rightarrow> bool" where
  "tokens_ok n \<longleftrightarrow> 0 < n \<and> n < 2 ^ 40"

lemma tokens_ok_int64: "tokens_ok n \<Longrightarrow> in_int64 n" "tokens_ok n \<Longrightarrow> in_int64 (n * 8)"
  by (auto simp: tokens_ok_def in_int64_def)

lemma tokens_ok_ceil_div: "tokens_ok n \<Longrightarrow> 0 < c \<Longrightarrow> tokens_ok (ceil_div n c)"
  using ceil_div_pos [of c n] ceil_div_le [of c n] by (auto simp: tokens_ok_def)

lemma in_int64_numeral: "in_int64 (numeral k) \<longleftrightarrow> (numeral k :: int) < 2 ^ 63" "in_int64 1"
  by (auto simp: in_int64_def intro: order_trans [of _ 0])

lemmas graph_simps = build_graph_def add_op_def add_alias_def TensorSpec_def CustomGraph_def
  in_int64_numeral Let_def bfloat16_def int8_def

lemma definer_plannable:
  assumes "is_ok (build_graph cmds)" and "skeleton_ok (map erase_shape cmds)"
  shows "\<exists>g. build_graph cmds = Inr g \<and> plannable g"
  using assms build_plannable by (auto simp: is_ok_def split: sum.splits)

text \<open>Without chunking of the MLP the chunk-wise definers issue the calls of the plain ones.\<close>

lemma chunk_cmds_plain:
  "llada_chunk_cmds False P c l = llada_cmds P l"
  "dream_chunk_cmds False N c l = dream_cmds N l"
  "llada_moe_chunk_cmds False N c l = llada_moe_cmds N l"
  by (simp_all only: llada_chunk_cmds_def llada_cmds_def dream_chunk_cmds_def dream_cmds_def
      llada_moe_chunk_cmds_def llada_moe_cmds_def Let_def append_Cons append_Nil if_False)

lemma cmds_build:
  assumes "tokens_ok N" and "tokens_ok c" and "tokens_ok l"
  shows "is_ok (build_graph (llada_cmds N l))"
    and "is_ok (build_graph (llada_chunk_cmds True N c l))"
    and "is_ok (build_graph (dream_cmds N l))"
    and "is_ok (build_graph (dream_chunk_cmds True N c l))"
    and "is_ok (build_graph (llada_moe_cmds N l))"
    and "is_ok (build_graph (llada_moe_chunk_cmds True N c l))"
  using assms
  by (simp_all add: llada_cmds_def dream_cmds_def llada_moe_cmds_def llada_chunk_cmds_def
      dream_chunk_cmds_def llada_moe_chunk_cmds_def graph_simps tokens_ok_int64)

lemmas erase_simps = list.map erase_shape.simps append_Cons append_Nil if_True Let_def

lemma cmds_skeleton:
  "skeleton_ok (map erase_shape (llada_cmds N l))"
  "skeleton_ok (map erase_shape (llada_chunk_cmds True N c l))"
  "skeleton_ok (map erase_shape (dream_cmds N l))"
  "skeleton_ok (map erase_shape (dream_chunk_cmds True N c l))"
  "skeleton_ok (map erase_shape (llada_moe_cmds N l))"
  "skeleton_ok (map erase_shape (llada_moe_chunk_cmds True N c l))"
proof -
  show "skeleton_ok (map erase_shape (llada_cmds N l))"
    by (simp only: llada_cmds_def erase_simps, code_simp)
  show "skeleton_ok (map erase_shape (llada_chunk_cmds True N c l))"
    by (simp only: llada_chunk_cmds_def erase_simps, code_simp)
  show "skeleton_ok (map erase_shape (dream_cmds N l))"
    by (simp only: dream_cmds_def erase_simps, code_simp)
  show "skeleton_ok (map erase_shape (dream_chunk_cmds True N c l))"
    by (simp only: dream_chunk_cmds_def erase_simps, code_simp)
  show "skeleton_ok (map erase_shape (llada_moe_cmds N l))"
    by (simp only: llada_moe_cmds_def erase_simps, code_simp)
  show "skeleton_ok (map erase_shape (llada_moe_chunk_cmds True N c l))"
    by (simp only: llada_moe_chunk_cmds_def erase_simps, code_simp)
qed

lemmas cmds_plannable = definer_plannable [OF cmds_build(1) cmds_skeleton(1)]
  definer_plannable [OF cmds_build(2) cmds_skeleton(2)] definer_plannable [OF cmds_build(3) cmds_skeleton(3)]
  definer_plannable [OF cmds_build(4) cmds_skeleton(4)] definer_plannable [OF cmds_build(5) cmds_skeleton(5)]
  definer_plannable [OF cmds_build(6) cmds_skeleton(6)]

lemma chunk_cmds_plannable:
  assumes "tokens_ok N" and "tokens_ok c" and "tokens_ok l"
  shows "\<exists>g. build_graph (llada_chunk_cmds b N c l) = Inr g \<and> plannable g"
    and "\<exists>g. build_graph (dream_chunk_cmds b N c l) = Inr g \<and> plannable g"
    and "\<exists>g. build_graph (llada_moe_chunk_cmds b N c l) = Inr g \<and> plannable g"
  using cmds_plannable [OF assms] by (cases b; simp only: chunk_cmds_plain)+

lemma chunk_size_ok: "tokens_ok n \<Longrightarrow> 0 < k \<Longrightarrow> tokens_ok (if b then ceil_div n k else n)"
  by (simp add: tokens_ok_ceil_div)

lemma llada_plannable:
  assumes "tokens_ok N" and "tokens_ok M"
  shows "\<exists>g. define_llada_block_graph N M = Inr g \<and> plannable g"
  unfolding define_llada_block_graph_def using cmds_plannable assms by blast

lemma llada_chunkwise_plannable:
  assumes "tokens_ok N" and "tokens_ok M" and "0 < nl" and "0 < nm"
  shows "\<exists>g. define_llada_block_graph_chunkwise N M chunk_logits chunk_mlp nl nm = Inr g \<and> plannable g"
proof -
  let ?c = "if chunk_mlp then ceil_div N nm else N" and ?l = "if chunk_logits then ceil_div M nl else M"
  have "tokens_ok ?c" "tokens_ok ?l" using assms chunk_size_ok by blast+
  then show ?thesis
    using assms chunk_cmds_plannable [OF assms(1)] by (simp only: define_llada_block_graph_chunkwise_def Let_def) simp
qed

lemma dream_plannable:
  assumes "tokens_ok N" and "tokens_ok M"
  shows "\<exists>g. define_dream_block_graph N M = Inr g \<and> plannable g"
  unfolding define_dream_block_graph_def using cmds_plannable assms by blast

lemma dream_chunkwise_plannable:
  assumes "tokens_ok N" and "tokens_ok M" and "0 < nl" and "0 < nm"
  shows "\<exists>g. define_dream_block_graph_chunkwise N M chunk_logits chunk_mlp nl nm = Inr g \<and> plannable g"
proof -
  let ?c = "if chunk_mlp then ceil_div N nm else N" and ?l = "if chunk_logits then ceil_div M nl else M"
  have "tokens_ok ?c" "tokens_ok ?l" using assms chunk_size_ok by blast+
  then show ?thesis
    using assms chunk_cmds_plannable [OF assms(1)] by (simp only: define_dream_block_graph_chunkwise_def Let_def) simp
qed

lemma llada_moe_plannable:
  assumes "tokens_ok N" and "tokens_ok M"
  shows "\<exists>g. define_llada_moe_block_graph N M = Inr g \<and> plannable g"
  unfolding define_llada_moe_block_graph_def using cmds_plannable assms by blast

lemma llada_moe_chunkwise_plannable:
  assumes "tokens_ok N" and "tokens_ok M" and "0 < nl" and "0 < nm"
  shows "\<exists>g. define_llada_moe_block_graph_chunkwise N M chunk_logits chunk_moe nl nm = Inr g \<and> plannable g"
proof -
  let ?c = "if chunk_moe then ceil_div N nm else N" and ?l = "if chunk_logits then ceil_div M nl else M"
  have "tokens_ok ?c" "tokens_ok ?l" using assms chunk_size_ok by blast+
  then show ?thesis
    using assms chunk_cmds_plannable [OF assms(1)] by (simp only: define_llada_moe_block_graph_chunkwise_def Let_def) simp
qed

section \<open>Arena sizes in closed form\<close>

definition arena_bytes :: "custom_graph result \<Rightarrow> int result" where
  "arena_bytes r =
     bind_res r (\<lambda>g. bind_res (generate_optimized_reuse_plan g) (\<lambda>p. Inr (total_buffer_size_bytes p)))"

lemma wrap64_tokens:
  assumes "tokens_ok n" and "0 \<le> k" and "k < 2 ^ 22"
  shows "wrap64 (n * k) = n * k"
proof -
  have "n * k \<le> 2 ^ 40 * 2 ^ 22" using assms by (intro mult_mono) (auto simp: tokens_ok_def)
  moreover have "0 \<le> n * k" using assms by (simp add: tokens_ok_def)
  ultimately show ?thesis by (intro wrap64_id) auto
qed

lemma tokens_ok_pos: "tokens_ok n \<Longrightarrow> 0 < n"
  by (simp add: tokens_ok_def)

text \<open>
  The planner on a list of named lifetimes, alias positions and sizes: what \<open>plan_loop\<close> computes
  when every tensor has a positive size, without the dictionaries.
\<close>

type_synonym lifetime = "string \<times> int \<times> nat option"

fun place :: "string \<Rightarrow> int \<Rightarrow> int \<Rightarrow> int \<Rightarrow> (int \<times> mem_block) list \<times> int \<Rightarrow> (int \<times> mem_block) list \<times> int"
where
  "place k d sz off (bs, m) =
     (bs @ [(d, \<lparr>tensor_name = k, blk_start = off, blk_end = off + sz\<rparr>)], max m (off + sz))"

fun layout :: "(lifetime \<times> int) list \<Rightarrow> int \<Rightarrow> (int \<times> mem_block) list \<times> int \<Rightarrow> int" where
  "layout [] i (bs, m) = m"
| "layout (((k, d, Some t), sz) # xs) i (bs, m) =
     layout xs (i + 1) (place k d sz (blk_start (snd (bs ! t))) (bs, m))"
| "layout (((k, d, None), sz) # xs) i (bs, m) =
     layout xs (i + 1) (place k d sz
       (find_offset sz (sort_key blk_start (map snd (filter (\<lambda>b. fst b \<ge> i) bs)))) (bs, m))"

definition lifetime_of :: "custom_graph \<Rightarrow> string \<Rightarrow> lifetime" where
  "lifetime_of g k = (k, death_of g k, map_option (\<lambda>t. nat (birth_of g t)) (aliases g k))"

definition layout_state :: "custom_graph \<Rightarrow> plan_state \<Rightarrow> (int \<times> mem_block) list" where
  "layout_state g st = map (\<lambda>b. (death_of g (tensor_name b), b)) (allocated_blocks st)"

lemma layout_state_record:
  "layout_state g (record_block x found st) = layout_state g st @
     [(death_of g (output_name x),
       \<lparr>tensor_name = output_name x, blk_start = found, blk_end = found + node_size x\<rparr>)]"
  by (simp add: layout_state_def record_block_def Let_def)

lemma layout_live:
  "live_blocks_at_birth (deaths g) (int (length (execution_order g))) i (allocated_blocks st) =
     sort_key blk_start (map snd (filter (\<lambda>b. fst b \<ge> i) (layout_state g st)))"
  by (simp add: live_blocks_at_birth_def layout_state_def filter_map comp_def death_of_def)

lemma record_block_max:
  assumes "plan_inv g ps st"
  shows "max_offset (record_block x found st) = max (max_offset st) (found + node_size x)"
  using assms Max_ends_snoc [of "allocated_blocks st" "max_offset st"
      "\<lparr>tensor_name = output_name x, blk_start = found, blk_end = found + node_size x\<rparr>"]
  by (auto simp: record_block_def Let_def plan_inv_def)

text \<open>With positive sizes the block of the \<open>i\<close>-th node is the \<open>i\<close>-th block.\<close>

lemma plan_inv_nth_block:
  assumes inv: "plan_inv g ps st" and pos: "\<forall>n \<in> set ps. 0 < node_size n" and t: "t < length ps"
  shows "t < length (allocated_blocks st) \<and>
    (\<exists>e. plan_map st (output_name (ps ! t)) = Some e \<and> offset e = blk_start (allocated_blocks st ! t))"
proof -
  have "map tensor_name (allocated_blocks st) = names_of ps"
    using inv pos by (simp add: plan_inv_def filter_id_conv)
  then have len: "length (allocated_blocks st) = length ps"
    and nm: "tensor_name (allocated_blocks st ! t) = output_name (ps ! t)"
    using t by (metis length_map) (metis \<open>map tensor_name (allocated_blocks st) = names_of ps\<close> length_map nth_map t)
  then show ?thesis using inv t by (force simp: plan_inv_def entry_of_block_def)
qed

lemma plan_step_layout:
  assumes wf: "wf_graph g" and ok: "alias_ok g" and order: "execution_order g = ps @ x # qs"
    and inv: "plan_inv g ps st" and pos: "\<forall>n \<in> set (execution_order g). 0 < node_size n"
    and step: "plan_step g (births (execution_order g)) (deaths g)
                 (int (length (execution_order g))) x st = Inr st'"
  shows "layout ((lifetime_of g (output_name x), node_size x) # xs) (int (length ps)) (layout_state g st, max_offset st) =
     layout xs (int (length (ps @ [x]))) (layout_state g st', max_offset st')"
proof -
  have birth: "births (execution_order g) (output_name x) = Some (int (length ps))"
    using births_nth [of "execution_order g" "length ps"] wf order by (simp add: wf_graph_def)
  have posx: "0 < node_size x" using pos order by simp
  have nxt: "int (length (ps @ [x])) = int (length ps) + 1" by simp
  show ?thesis
  proof (cases "aliases g (output_name x)")
    case None
    then have st': "st' = record_block x (find_offset (node_size x)
        (sort_key blk_start (map snd (filter (\<lambda>b. fst b \<ge> int (length ps)) (layout_state g st))))) st"
      using step birth posx by (simp add: plan_step_def layout_live)
    show ?thesis
      unfolding st' layout_state_record record_block_max [OF inv] nxt
      using None by (simp add: lifetime_of_def Let_def)
  next
    case (Some t)
    have a: "length ps < length (execution_order g)" "execution_order g ! length ps = x"
      "take (length ps) (execution_order g) = ps" using order by simp_all
    have "t \<in> set (names_of ps)"
      using ok [unfolded alias_ok_def, rule_format, OF a(1)] Some a by simp
    then obtain i where i: "i < length ps" "t = output_name (ps ! i)" unfolding in_names_conv by blast
    have "birth_of g t = int i"
      using birth_of_nth [OF wf, of i] i order by (simp add: nth_append)
    moreover obtain e where "i < length (allocated_blocks st)" "plan_map st t = Some e"
      "offset e = blk_start (allocated_blocks st ! i)"
      using plan_inv_nth_block [OF inv _ i(1)] pos order i(2) by auto
    moreover from this have st': "st' = record_block x (blk_start (snd (layout_state g st ! i))) st"
      using step birth posx Some by (simp add: plan_step_def layout_state_def)
    ultimately show ?thesis
      unfolding st' layout_state_record record_block_max [OF inv] nxt
      using Some by (simp add: lifetime_of_def Let_def)
  qed
qed

lemma plan_loop_layout:
  assumes wf: "wf_graph g" and ok: "alias_ok g"
    and pos: "\<forall>n \<in> set (execution_order g). 0 < node_size n"
  shows "arena_bytes (Inr g) = Inr (layout
     (zip (map (lifetime_of g) (names_of (execution_order g))) (map node_size (execution_order g))) 0 ([], 0))"
proof -
  let ?xs = "\<lambda>ns. zip (map (lifetime_of g) (names_of ns)) (map node_size ns)"
  let ?P = "\<lambda>ps st. plan_inv g ps st \<and> (\<forall>qs. execution_order g = ps @ qs \<longrightarrow>
     layout (?xs (execution_order g)) 0 ([], 0) =
     layout (?xs qs) (int (length ps)) (layout_state g st, max_offset st))"
  have "\<exists>st. plan_loop g = Inr st \<and> ?P (execution_order g) st"
    unfolding plan_loop_def
  proof (rule foldM_total_invariant [where P = ?P])
    show "?P [] empty_plan" using plan_inv_empty by (simp add: layout_state_def empty_plan_def)
  next
    fix ps x qs st assume order: "execution_order g = ps @ x # qs" and P: "?P ps st"
    from P have inv: "plan_inv g ps st" by blast
    obtain st' where st': "plan_step g (births (execution_order g)) (deaths g)
           (int (length (execution_order g))) x st = Inr st'" "plan_inv g (ps @ [x]) st'"
      using plan_step_ok [OF wf ok order inv] by blast
    have "layout (?xs (execution_order g)) 0 ([], 0) =
        layout (?xs (x # qs)) (int (length ps)) (layout_state g st, max_offset st)"
      using P order by blast
    also have "\<dots> = layout (?xs qs) (int (length (ps @ [x]))) (layout_state g st', max_offset st')"
      using plan_step_layout [OF wf ok order inv pos st'(1)] by simp
    finally show "\<exists>st'. plan_step g (births (execution_order g)) (deaths g)
           (int (length (execution_order g))) x st = Inr st' \<and> ?P (ps @ [x]) st'"
      using st' order by auto
  qed
  then show ?thesis by (auto simp: arena_bytes_def generate_optimized_reuse_plan_def)
qed

fun cmd_sizes :: "graph_cmd list \<Rightarrow> int list" where
  "cmd_sizes [] = []"
| "cmd_sizes (AddOp out op ins shp dt # cs) = prod_int64 shp * (dtype_bits dt div 8) # cmd_sizes cs"
| "cmd_sizes (AddAlias s t # cs) = cmd_sizes cs"

lemma wrap64_tokens':
  "tokens_ok n \<Longrightarrow> 0 \<le> k \<Longrightarrow> k < 2 ^ 22 \<Longrightarrow> wrap64 (k * n) = k * n"
  using wrap64_tokens [of n k] by (simp add: mult.commute)

lemma foldM_sizes:
  "foldM run_cmd cs g = Inr g' \<Longrightarrow>
     map node_size (execution_order g') = map node_size (execution_order g) @ cmd_sizes cs"
proof (induction cs arbitrary: g)
  case (Cons c cs)
  then obtain h where h: "run_cmd c g = Inr h" "foldM run_cmd cs h = Inr g'"
    by (auto simp: bind_res_eq_Inr)
  show ?case
    using Cons.IH [OF h(2)] h(1)
    by (cases c) (auto elim!: add_op_cases add_alias_cases simp: TensorSpec_def Let_def split: if_splits)
qed simp

definition lifetimes :: "graph_cmd list \<Rightarrow> lifetime list" where
  "lifetimes cs =
     (case build_graph cs of
        Inl _ \<Rightarrow> []
      | Inr g \<Rightarrow> map (lifetime_of g) (names_of (execution_order g)))"

lemma births_by_names:
  "births ns = fold (\<lambda>p m. m(snd p \<mapsto> int (fst p))) (enumerate 0 (names_of ns)) Map.empty"
proof -
  have "fold (\<lambda>(i, n) m. m(output_name n \<mapsto> int i)) (enumerate i ns) m =
      fold (\<lambda>p m. m(snd p \<mapsto> int (fst p))) (enumerate i (names_of ns)) m" for i m
    by (induction ns arbitrary: i m) simp_all
  then show ?thesis by (simp add: births_def)
qed

lemma skeleton_lifetime:
  assumes sk: "same_skeleton g h"
  shows "map (lifetime_of g) (names_of (execution_order g)) = map (lifetime_of h) (names_of (execution_order h))"
proof -
  have wf: "wf_graph g" "wf_graph h" using sk by (simp_all add: same_skeleton_def)
  have "births (execution_order g) = births (execution_order h)"
    by (simp only: births_by_names skeleton_names(1) [OF sk])
  then have "lifetime_of g = lifetime_of h"
    using sk by (simp add: lifetime_of_def birth_of_def skeleton_death [OF sk] same_skeleton_def fun_eq_iff)
  then show ?thesis by (simp add: skeleton_names(1) [OF sk])
qed

lemma arena_by_layout:
  assumes ok: "is_ok (build_graph cs)" "skeleton_ok (map erase_shape cs)"
    and pos: "\<forall>s \<in> set (cmd_sizes cs). 0 < s"
  shows "arena_bytes (build_graph cs) =
    Inr (layout (zip (lifetimes (map erase_shape cs)) (cmd_sizes cs)) 0 ([], 0))"
proof -
  obtain g where g: "build_graph cs = Inr g" "plannable g" using definer_plannable [OF ok] by blast
  have sizes: "map node_size (execution_order g) = cmd_sizes cs"
    using foldM_sizes [OF g(1) [unfolded build_graph_def]] by (simp add: CustomGraph_def)
  obtain h where h: "build_graph (map erase_shape cs) = Inr h"
    using ok(2) by (auto simp: skeleton_ok_def split: sum.splits)
  have "same_skeleton CustomGraph CustomGraph" by (simp add: same_skeleton_def wf_graph_empty)
  then have "same_skeleton g h" using g(1) h unfolding build_graph_def by (rule build_skeleton)
  then have "map (lifetime_of g) (names_of (execution_order g)) = lifetimes (map erase_shape cs)"
    by (simp only: skeleton_lifetime lifetimes_def h sum.case)
  moreover have "\<forall>n \<in> set (execution_order g). 0 < node_size n"
    using pos unfolding sizes [symmetric] by simp
  ultimately show ?thesis
    using plan_loop_layout [of g] g sizes by (simp add: plannable_def)
qed

section \<open>Lifetimes and sizes of the blocks\<close>

lemma cmds_lifetimes:
  "lifetimes (map erase_shape (llada_cmds N l)) = [
      (''x'', 8, None), (''x_normed'', 4, None), (''q'', 5, None), (''k'', 5, None),
      (''v'', 5, None), (''att_tmp'', 6, None), (''att_out'', 8, None),
      (''x_normed_2'', 10, None), (''residual'', 13, None), (''mlp_x'', 11, None),
      (''mlp_x_up'', 11, None), (''mlp_gated'', 12, None), (''mlp_output'', 13, None),
      (''final_output'', 14, Some 0), (''logits'', -1, None)]"
  "lifetimes (map erase_shape (dream_cmds N l)) = [
      (''x'', 8, None), (''x_normed'', 4, None), (''q'', 5, None), (''k'', 5, None),
      (''v'', 5, None), (''att_out_var'', 6, None), (''att_out'', 8, None),
      (''x_normed_2'', 10, None), (''residual'', 13, None), (''x_gate'', 11, None),
      (''x_up'', 11, None), (''x_mlp'', 12, None), (''mlp_output'', 13, None),
      (''final_output'', 14, Some 0), (''logits'', -1, None)]"
  "lifetimes (map erase_shape (llada_moe_cmds N l)) = [
      (''x'', 8, None), (''x_normed'', 4, None), (''q'', 5, None), (''k'', 5, None),
      (''v'', 5, None), (''att_out_var'', 6, None), (''att_out'', 8, None),
      (''x_normed_2'', 9, None), (''residual'', 13, None), (''moe_cache1'', 10, None),
      (''moe_cache2'', 11, None), (''moe_cache3'', 12, None), (''moe_output'', 13, None),
      (''final_output'', 14, Some 0), (''logits'', -1, None)]"
  by (simp only: llada_cmds_def dream_cmds_def llada_moe_cmds_def erase_simps, code_simp)+

lemma chunk_lifetimes:
  "lifetimes (map erase_shape (llada_chunk_cmds True N c l)) = [
      (''x'', 8, None), (''x_normed'', 4, None), (''q'', 5, None), (''k'', 5, None),
      (''v'', 5, None), (''att_tmp'', 6, None), (''att_out'', 8, None),
      (''x_normed_2'', 14, None), (''residual'', 15, None), (''mlp_x'', 13, None),
      (''mlp_x_up'', 13, None), (''mlp_gated'', 13, None), (''mlp_output'', 15, None),
      (''mlp_loop_hazard_barrier'', -1, None), (''xnorm2_barrier'', -1, None),
      (''final_output'', 16, Some 0), (''logits'', -1, None)]"
  "lifetimes (map erase_shape (dream_chunk_cmds True N c l)) = [
      (''x'', 8, None), (''x_normed'', 4, None), (''q'', 5, None), (''k'', 5, None),
      (''v'', 5, None), (''att_out_var'', 6, None), (''att_out'', 8, None),
      (''x_normed_2'', 14, None), (''residual'', 15, None), (''x_gate'', 13, None),
      (''x_up'', 13, None), (''x_mlp'', 13, None), (''mlp_output'', 15, None),
      (''mlp_loop_hazard_barrier'', -1, None), (''xnorm2_barrier'', -1, None),
      (''final_output'', 16, Some 0), (''logits'', -1, None)]"
  "lifetimes (map erase_shape (llada_moe_chunk_cmds True N c l)) = [
      (''x'', 8, None), (''x_normed'', 4, None), (''q'', 5, None), (''k'', 5, None),
      (''v'', 5, None), (''att_out_var'', 6, None), (''att_out'', 8, None),
      (''x_normed_2'', 14, None), (''residual'', 15, None), (''moe_cache1'', 13, None),
      (''moe_cache2'', 13, None), (''moe_cache3'', 13, None), (''moe_output'', 15, None),
      (''moe_loop_hazard_barrier'', -1, None), (''xnorm2_barrier'', -1, None),
      (''final_output'', 16, Some 0), (''logits'', -1, None)]"
  by (simp only: llada_chunk_cmds_def dream_chunk_cmds_def llada_moe_chunk_cmds_def erase_simps, code_simp)+

lemma wrap64_one: "wrap64 1 = 1"
  by (simp add: wrap64_def)

lemmas size_simps = prod_int64_def wrap64_tokens wrap64_tokens' bfloat16_def int8_def Let_def
  wrap64_one

lemma cmds_sizes:
  assumes "tokens_ok N" and "tokens_ok c" and "tokens_ok l"
  shows "cmd_sizes (llada_cmds N l) = [
      8192 * N, 8192 * N, 8192 * N, 8192 * N, 8192 * N, 8192 * N, 8192 * N, 8192 * N, 8192 * N,
      24576 * N, 24576 * N, 24576 * N, 8192 * N, 8192 * N, 252928 * l]"
    and "cmd_sizes (dream_cmds N l) = [
      7168 * N, 7168 * N, 7168 * N, 1024 * N, 1024 * N, 7168 * N, 7168 * N, 7168 * N, 7168 * N,
      37888 * N, 37888 * N, 37888 * N, 7168 * N, 7168 * N, 304128 * l]"
    and "cmd_sizes (llada_moe_cmds N l) = [
      4096 * N, 4096 * N, 4096 * N, 4096 * N, 4096 * N, 4096 * N, 4096 * N, 4096 * N, 4096 * N,
      32768 * N, 16384 * N, 32768 * N, 4096 * N, 4096 * N, 314368 * l]"
  using assms
  by (simp_all add: llada_cmds_def dream_cmds_def llada_moe_cmds_def size_simps)

lemma chunk_sizes:
  assumes "tokens_ok N" and "tokens_ok c" and "tokens_ok l"
  shows "cmd_sizes (llada_chunk_cmds True N c l) = [
      8192 * N, 8192 * N, 8192 * N, 8192 * N, 8192 * N, 8192 * N, 8192 * N, 8192 * N, 8192 * N,
      24576 * c, 24576 * c, 24576 * c, 8192 * N, 1, 1, 8192 * N, 252928 * l]"
    and "cmd_sizes (dream_chunk_cmds True N c l) = [
      7168 * N, 7168 * N, 7168 * N, 1024 * N, 1024 * N, 7168 * N, 7168 * N, 7168 * N, 7168 * N,
      37888 * c, 37888 * c, 37888 * c, 7168 * N, 1, 1, 7168 * N, 304128 * l]"
    and "cmd_sizes (llada_moe_chunk_cmds True N c l) = [
      4096 * N, 4096 * N, 4096 * N, 4096 * N, 4096 * N, 4096 * N, 4096 * N, 4096 * N, 4096 * N,
      32768 * c, 16384 * c, 32768 * c, 4096 * N, 1, 1, 4096 * N, 314368 * l]"
  using assms
  by (simp_all add: llada_chunk_cmds_def dream_chunk_cmds_def llada_moe_chunk_cmds_def size_simps)

lemma arena_of_cmds:
  assumes "is_ok (build_graph cs)" and "skeleton_ok (map erase_shape cs)"
    and "cmd_sizes cs = szs" and "lifetimes (map erase_shape cs) = ls" and "\<forall>s \<in> set szs. 0 < s"
  shows "arena_bytes (build_graph cs) = Inr (layout (zip ls szs) 0 ([], 0))"
  using arena_by_layout assms by metis

lemma plain_arena_bytes:
  assumes "tokens_ok N" and "tokens_ok M"
  shows "arena_bytes (define_llada_block_graph N M) = Inr (max (81920 * N) (8192 * N + 252928 * M))"
    and "arena_bytes (define_dream_block_graph N M) = Inr (max (142336 * N) (7168 * N + 304128 * M))"
    and "arena_bytes (define_llada_moe_block_graph N M) = Inr (max (65536 * N) (4096 * N + 314368 * M))"
proof -
  note ok = assms(1) assms(1) assms(2)
  have pos: "0 < N" "0 < M" using assms tokens_ok_pos by blast+
  show "arena_bytes (define_llada_block_graph N M) = Inr (max (81920 * N) (8192 * N + 252928 * M))"
    unfolding define_llada_block_graph_def
    using arena_of_cmds [OF cmds_build(1) [OF ok] cmds_skeleton(1) cmds_sizes(1) [OF ok] cmds_lifetimes(1)] pos
    by (simp add: find_offset_def)
  show "arena_bytes (define_dream_block_graph N M) = Inr (max (142336 * N) (7168 * N + 304128 * M))"
    unfolding define_dream_block_graph_def
    using arena_of_cmds [OF cmds_build(3) [OF ok] cmds_skeleton(3) cmds_sizes(2) [OF ok] cmds_lifetimes(2)] pos
    by (simp add: find_offset_def)
  show "arena_bytes (define_llada_moe_block_graph N M) = Inr (max (65536 * N) (4096 * N + 314368 * M))"
    unfolding define_llada_moe_block_graph_def
    using arena_of_cmds [OF cmds_build(5) [OF ok] cmds_skeleton(5) cmds_sizes(3) [OF ok] cmds_lifetimes(3)] pos
    by (simp add: find_offset_def)
qed

lemma llada_chunk_arena_bytes:
  assumes "tokens_ok N" and "tokens_ok c" and "tokens_ok l" and "c \<le> N"
  shows "arena_bytes (build_graph (llada_chunk_cmds True N c l)) =
    Inr (max (if N < 3 * c then 32768 * N + 73728 * c
              else if N = 3 * c then 49152 * N + 1
              else if N < 6 * c then 40960 * N + 24576 * c
              else 40960 * N)
          (8192 * N + 252928 * l))"
proof -
  have pos: "0 < N" "0 < c" "0 < l" using assms tokens_ok_pos by blast+
  note arena = arena_of_cmds [OF cmds_build(2) [OF assms(1-3)] cmds_skeleton(2) chunk_sizes(1) [OF assms(1-3)]
      chunk_lifetimes(1)]
  consider "N < 3 * c" | "N = 3 * c" | "3 * c < N" "N < 6 * c" | "6 * c = N" | "6 * c < N" "N < 9 * c"
    | "N = 9 * c" | "9 * c < N"
    by linarith
  then show ?thesis
    by cases (use arena pos in \<open>simp add: find_offset_def\<close>)+
qed

section \<open>Properties of the block graphs\<close>

definition block_graphs :: "int \<Rightarrow> int \<Rightarrow> bool \<Rightarrow> bool \<Rightarrow> int \<Rightarrow> int \<Rightarrow> custom_graph result list" where
  "block_graphs N M bl bm nl nm =
     [define_llada_block_graph N M, define_dream_block_graph N M, define_llada_moe_block_graph N M,
      define_llada_block_graph_chunkwise N M bl bm nl nm,
      define_dream_block_graph_chunkwise N M bl bm nl nm,
      define_llada_moe_block_graph_chunkwise N M bl bm nl nm]"

lemma block_graphs_plannable:
  assumes "tokens_ok N" and "tokens_ok M" and "0 < nl" and "0 < nm"
    and "r \<in> set (block_graphs N M bl bm nl nm)"
  shows "\<exists>g. r = Inr g \<and> plannable g"
  using assms(5) llada_plannable [OF assms(1,2)] dream_plannable [OF assms(1,2)]
    llada_moe_plannable [OF assms(1,2)] llada_chunkwise_plannable [OF assms(1-4), of bl bm]
    dream_chunkwise_plannable [OF assms(1-4), of bl bm]
    llada_moe_chunkwise_plannable [OF assms(1-4), of bl bm]
  by (auto simp: block_graphs_def)

lemma plannable_run:
  assumes pl: "plannable g" and sem: "op_sized sem"
  shows "\<exists>p. generate_optimized_reuse_plan g = Inr p \<and>
     (\<forall>e. entries p ''final_output'' = Some e \<longrightarrow>
        (\<exists>e'. entries p ''x'' = Some e' \<and> offset e' = offset e)) \<and>
     run_arena sem p (execution_order g) mem = run_values sem (execution_order g) env"
proof -
  have g: "wf_graph g" "alias_ok g" "topological (execution_order g)"
    "aliases g ''final_output'' = Some ''x''" using pl by (simp_all add: plannable_def)
  obtain st where st: "plan_loop g = Inr st" using plan_loop_total [OF g(1,2)] by blast
  let ?p = "\<lparr>entries = plan_map st, total_buffer_size_bytes = max_offset st\<rparr>"
  have plan: "generate_optimized_reuse_plan g = Inr ?p"
    using st by (simp add: generate_optimized_reuse_plan_def)
  have "run_arena sem ?p (execution_order g) mem = run_values sem (execution_order g) env"
    using g(1,3) plan_covers_first_fit [OF g(1,2) plan] first_fit_plan_safe [OF g(1,2) plan] sem
    by (intro arena_refines_values) (simp_all add: wf_graph_def)
  then show ?thesis using plan plan_loop_alias [OF g(1) st g(4)] by auto
qed

lemma tokens_ok_examples: "tokens_ok 7" "tokens_ok 5" "tokens_ok 100"
  by (simp_all add: tokens_ok_def)

text \<open>Property C20. For LLaDA, Dream and LLaDA-MoE, whole or chunk-wise with any chunk counts, the
  definer builds a graph, the planner returns an arena for it, and executing the block inside
  that arena produces the same values as with separate storage for every tensor, whatever the
  operations compute: the block output sharing the bytes of the block input included.\<close>

theorem block_graphs_run_in_arena:
  assumes "tokens_ok N" and "tokens_ok M" and "0 < nl" and "0 < nm" and "op_sized sem"
    and "r \<in> set (block_graphs N M bl bm nl nm)"
  shows "\<exists>g p. r = Inr g \<and> generate_optimized_reuse_plan g = Inr p \<and>
     (\<forall>e. entries p ''final_output'' = Some e \<longrightarrow>
        (\<exists>e'. entries p ''x'' = Some e' \<and> offset e' = offset e)) \<and>
     run_arena sem p (execution_order g) mem = run_values sem (execution_order g) env"
  using block_graphs_plannable [OF assms(1-4,6)] plannable_run [OF _ assms(5)] by blast

theorem block_graphs_run_in_arena_witness:
  "\<exists>g p. define_llada_block_graph_chunkwise 7 5 True True 2 3 = Inr g \<and>
     generate_optimized_reuse_plan g = Inr p \<and>
     run_arena demo_sem p (execution_order g) (\<lambda>_. 0) = run_values demo_sem (execution_order g) (\<lambda>_. [])"
proof -
  have "op_sized demo_sem" by (simp add: op_sized_def demo_sem_def)
  moreover have "define_llada_block_graph_chunkwise 7 5 True True 2 3 \<in> set (block_graphs 7 5 True True 2 3)"
    by (simp add: block_graphs_def)
  ultimately show ?thesis
    using block_graphs_run_in_arena [OF tokens_ok_examples(1,2), where nl = 2 and nm = 3] by fastforce
qed

text \<open>Property C21. The arena of the whole block, in bytes, as a function of the number of tokens
  and of logits rows: ten activation widths for LLaDA, four widths and three MLP widths for Dream,
  sixteen widths for LLaDA-MoE, or the block output next to the logits where that is larger.\<close>

theorem plain_arena_closed_form:
  assumes "tokens_ok N" and "tokens_ok M"
  shows "arena_bytes (define_llada_block_graph N M) = Inr (max (81920 * N) (8192 * N + 252928 * M)) \<and>
    arena_bytes (define_dream_block_graph N M) = Inr (max (142336 * N) (7168 * N + 304128 * M)) \<and>
    arena_bytes (define_llada_moe_block_graph N M) = Inr (max (65536 * N) (4096 * N + 314368 * M))"
  using plain_arena_bytes [OF assms] by blast

theorem plain_arena_closed_form_witness:
  "arena_bytes (define_llada_block_graph 100 5) = Inr 8192000"
  using plain_arena_closed_form [OF tokens_ok_examples(3,2)] by simp

text \<open>The arena of the chunk-wise LLaDA block in closed form, for every number of
  tokens and chunks: with at most two MLP chunks the three chunk buffers lie after the attention
  buffers; with more, they move into the gaps, but between three and six chunks the plan is
  fragmented and still exceeds the five activation widths that attention needs.\<close>

theorem chunkwise_arena_closed_form:
  assumes "tokens_ok P" and "tokens_ok Op" and "0 < nl" and "0 < nm"
  shows "arena_bytes (define_llada_block_graph_chunkwise P Op True True nl nm) =
    (let c = ceil_div P nm; l = ceil_div Op nl in
     Inr (max (if P < 3 * c then 32768 * P + 73728 * c
               else if P = 3 * c then 49152 * P + 1
               else if P < 6 * c then 40960 * P + 24576 * c
               else 40960 * P)
           (8192 * P + 252928 * l)))"
proof -
  have "tokens_ok (ceil_div P nm)" "tokens_ok (ceil_div Op nl)" "ceil_div P nm \<le> P"
    using assms tokens_ok_ceil_div ceil_div_le [of nm P] by (auto simp: tokens_ok_def)
  then show ?thesis
    using llada_chunk_arena_bytes [OF assms(1)] assms
    by (simp only: define_llada_block_graph_chunkwise_def Let_def) simp
qed

theorem chunkwise_arena_closed_form_witness:
  "arena_bytes (define_llada_block_graph_chunkwise 100 5 True True 2 4) = Inr (4096000 + 614400)"
  using chunkwise_arena_closed_form [OF tokens_ok_examples(3,2), where nl = 2 and nm = 4]
  by (simp add: ceil_div_def)

end
