(* ===== verification/Online_Searcher.thy ===== *)
theory Online_Searcher
  imports Block_Graphs
begin

text \<open>
  The online search for a chunk configuration, \<^verbatim>\<open>diffusion_tools/online_searcher.py\<close> and its
  copy \<^verbatim>\<open>online_searcher_moe_specific.py\<close>, which differs in the safety margin only. One turn
  of the \<^verbatim>\<open>while True\<close> loop is \<open>search_step\<close>; the loop is \<open>search_loop\<close> with fuel, where
  running out of fuel is \<open>None\<close>. Logging and timing are left out.
\<close>

section \<open>Strings\<close>

fun py_in :: "string \<Rightarrow> string \<Rightarrow> bool" where
  "py_in pat [] = (pat = [])"
| "py_in pat (c # s) = (take (length pat) (c # s) = pat \<or> py_in pat s)"

definition ascii_lower :: "char \<Rightarrow> char" where
  "ascii_lower c = (let n = of_char c :: nat in if 65 \<le> n \<and> n \<le> 90 then char_of (n + 32) else c)"

definition lower :: "string \<Rightarrow> string" where
  "lower s = map ascii_lower s"

section \<open>Component peaks\<close>

record components =
  fixed_peak_mb :: rat
  mlp_peak_mb :: rat
  logits_peak_mb :: rat
  total_peak_mb :: rat

definition mlp_keywords :: "string list" where
  "mlp_keywords = [''mlp'', ''moe'', ''cache'', ''x_gate'', ''x_up'', ''x_mlp'', ''barrier'']"

definition component_step :: "string \<Rightarrow> rat \<Rightarrow> components \<Rightarrow> components" where
  "component_step name total_mb c =
     (let c = c\<lparr>total_peak_mb := max (total_peak_mb c) total_mb\<rparr> in
      if py_in ''logits'' name then c\<lparr>logits_peak_mb := max (logits_peak_mb c) total_mb\<rparr>
      else if list_ex (\<lambda>kw. py_in kw name) mlp_keywords
        then c\<lparr>mlp_peak_mb := max (mlp_peak_mb c) total_mb\<rparr>
      else c\<lparr>fixed_peak_mb := max (fixed_peak_mb c) total_mb\<rparr>)"

definition analyze_components_from_timeline :: "timeline_step list \<Rightarrow> components" where
  "analyze_components_from_timeline timeline =
     fold (\<lambda>step. component_step (node_name step) (total_memory_mb step)) timeline
       \<lparr>fixed_peak_mb = 0, mlp_peak_mb = 0, logits_peak_mb = 0, total_peak_mb = 0\<rparr>"

section \<open>The search loop\<close>

record search_config =
  cfg_chunk_logits :: bool
  cfg_chunk_mlp :: bool
  cfg_num_chunks_logits :: int
  cfg_num_chunks_mlp :: int

record search_result =
  res_config :: search_config
  total_bytes :: int
  res_components :: components

datatype search_outcome = Found search_result | Next search_config

definition initial_config :: search_config where
  "initial_config = \<lparr>cfg_chunk_logits = False, cfg_chunk_mlp = False,
     cfg_num_chunks_logits = 1, cfg_num_chunks_mlp = 1\<rparr>"

definition define_graph :: "string \<Rightarrow> int \<Rightarrow> int \<Rightarrow> custom_graph result" where
  "define_graph model_name =
     (if py_in ''moe'' (lower model_name) then define_llada_moe_block_graph
      else if py_in ''dream'' (lower model_name) then define_dream_block_graph
      else define_llada_block_graph)"

definition define_graph_chunkwise ::
  "string \<Rightarrow> int \<Rightarrow> int \<Rightarrow> bool \<Rightarrow> bool \<Rightarrow> int \<Rightarrow> int \<Rightarrow> custom_graph result"
where
  "define_graph_chunkwise model_name =
     (if py_in ''moe'' (lower model_name) then define_llada_moe_block_graph_chunkwise
      else if py_in ''dream'' (lower model_name) then define_dream_block_graph_chunkwise
      else define_llada_block_graph_chunkwise)"

definition config_graph :: "string \<Rightarrow> int \<Rightarrow> int \<Rightarrow> search_config \<Rightarrow> custom_graph result" where
  "config_graph model_name P Op config =
     (if \<not> cfg_chunk_logits config \<and> \<not> cfg_chunk_mlp config then define_graph model_name P Op
      else define_graph_chunkwise model_name P Op (cfg_chunk_logits config) (cfg_chunk_mlp config)
             (cfg_num_chunks_logits config) (cfg_num_chunks_mlp config))"

definition cut_bottleneck :: "search_config \<Rightarrow> components \<Rightarrow> search_config result" where
  "cut_bottleneck config c =
     (let fixed_mb = fixed_peak_mb c; mlp_mb = mlp_peak_mb c; logits_mb = logits_peak_mb c;
          bottleneck = max fixed_mb (max mlp_mb logits_mb) in
      if bottleneck = logits_mb \<and> logits_mb > fixed_mb then
        Inr (if \<not> cfg_chunk_logits config
             then config\<lparr>cfg_chunk_logits := True, cfg_num_chunks_logits := 2\<rparr>
             else config\<lparr>cfg_num_chunks_logits := cfg_num_chunks_logits config + 1\<rparr>)
      else if bottleneck = mlp_mb \<and> mlp_mb > fixed_mb then
        Inr (if \<not> cfg_chunk_mlp config
             then config\<lparr>cfg_chunk_mlp := True, cfg_num_chunks_mlp := 2\<rparr>
             else config\<lparr>cfg_num_chunks_mlp := cfg_num_chunks_mlp config + 1\<rparr>)
      else Inl RuntimeError)"

definition accepts :: "string \<Rightarrow> int \<Rightarrow> int \<Rightarrow> bool" where
  "accepts model_name pool_size need \<longleftrightarrow>
     need \<le> pool_size \<and>
     \<not> (py_in ''moe'' (lower model_name) \<and> pool_size - need < 700 * 1024 * 1024)"

definition search_step ::
  "string \<Rightarrow> int \<Rightarrow> int \<Rightarrow> int \<Rightarrow> search_config \<Rightarrow> search_outcome result"
where
  "search_step model_name P Op pool_size config =
     bind_res (config_graph model_name P Op config) (\<lambda>graph.
     bind_res (analyze graph) (\<lambda>analysis.
       let need = total_buffer_size_bytes (an_reuse_plan analysis);
           c = analyze_components_from_timeline (memory_timeline analysis) in
       if accepts model_name pool_size need
       then Inr (Found \<lparr>res_config = config, total_bytes = need, res_components = c\<rparr>)
       else bind_res (cut_bottleneck config c) (\<lambda>config'. Inr (Next config'))))"

fun search_loop ::
  "nat \<Rightarrow> string \<Rightarrow> int \<Rightarrow> int \<Rightarrow> int \<Rightarrow> search_config \<Rightarrow> search_result result option"
where
  "search_loop 0 model_name P Op pool_size config = None"
| "search_loop (Suc fuel) model_name P Op pool_size config =
     (case search_step model_name P Op pool_size config of
        Inl e \<Rightarrow> Some (Inl e)
      | Inr (Found r) \<Rightarrow> Some (Inr r)
      | Inr (Next config') \<Rightarrow> search_loop fuel model_name P Op pool_size config')"

definition search_optimal_config_online ::
  "nat \<Rightarrow> int \<Rightarrow> int \<Rightarrow> int \<Rightarrow> string \<Rightarrow> search_result result option"
where
  "search_optimal_config_online fuel P Op pool_size model_name =
     search_loop fuel model_name P Op (pool_size - 900 * 1024 * 1024) initial_config"

text \<open>The copy in \<^verbatim>\<open>online_searcher_moe_specific.py\<close>.\<close>

definition search_optimal_config_online_moe ::
  "nat \<Rightarrow> int \<Rightarrow> int \<Rightarrow> int \<Rightarrow> string \<Rightarrow> search_result result option"
where
  "search_optimal_config_online_moe fuel P Op pool_size model_name =
     search_loop fuel model_name P Op (pool_size - 200 * 1024 * 1024) initial_config"

section \<open>The timeline of a block in closed form\<close>

definition live_sets :: "graph_cmd list \<Rightarrow> string set list" where
  "live_sets cs =
     (case build_graph cs of
        Inl _ \<Rightarrow> []
      | Inr g \<Rightarrow> map (live_set_for_calc (analyze_liveness g)) (execution_order g))"

lemma liveness_by_io:
  "fold liveness_step ns s =
     fold (\<lambda>p s. ((fst s)(fst p \<mapsto> snd s), (snd s - {fst p}) \<union> set (snd p))) (map node_io ns) s"
  by (induction ns arbitrary: s) (simp_all add: liveness_step_def)

lemma skeleton_liveness:
  assumes "same_skeleton g h"
  shows "analyze_liveness g = analyze_liveness h"
proof -
  have "map node_io (rev (execution_order g)) = map node_io (rev (execution_order h))"
    using assms by (simp add: same_skeleton_def rev_map [symmetric])
  then show ?thesis unfolding analyze_liveness_def liveness_by_io by simp
qed

lemma skeleton_live_sets:
  assumes "same_skeleton g h"
  shows "map (live_set_for_calc (analyze_liveness g)) (execution_order g) =
         map (live_set_for_calc (analyze_liveness h)) (execution_order h)"
proof -
  have eq: "map (live_set_for_calc (analyze_liveness x)) (execution_order x) =
      map (\<lambda>k. (case analyze_liveness x k of None \<Rightarrow> {} | Some s \<Rightarrow> s) \<union> {k}) (names_of (execution_order x))"
    for x by (simp add: live_set_for_calc_def)
  show ?thesis
    unfolding eq by (simp only: skeleton_liveness [OF assms] skeleton_names(1) [OF assms])
qed

text \<open>Every live name belongs to the graph, so no total raises.\<close>

lemma node_total_ok:
  assumes "plannable g" and "n \<in> set (execution_order g)"
  shows "node_total g n = Inr (\<Sum>k \<in> live_set_for_calc (analyze_liveness g) n. size_of_name g k)"
proof -
  have wf: "wf_graph g" and topo: "topological (execution_order g)"
    using assms(1) by (simp_all add: plannable_def)
  obtain i where i: "i < length (execution_order g)" "n = execution_order g ! i"
    using assms(2) by (auto simp: in_set_conv_nth)
  have "nodes g k \<noteq> None" if k: "k \<in> live_set_for_calc (analyze_liveness g) n" for k
  proof -
    obtain b where "b \<le> i" "k = output_name (execution_order g ! b)"
      using counted_tensor [OF wf topo i(1)] k i(2) by blast
    then show ?thesis using nodes_nth [OF wf, of b] i(1) by simp
  qed
  then show ?thesis by (simp add: node_total_def live_total_def)
qed

definition node_totals :: "custom_graph \<Rightarrow> int list" where
  "node_totals g =
     map (\<lambda>n. \<Sum>k \<in> live_set_for_calc (analyze_liveness g) n. size_of_name g k) (execution_order g)"

definition named_totals :: "timeline_step list \<Rightarrow> (string \<times> rat) list" where
  "named_totals tml = map (\<lambda>e. (node_name e, total_memory_mb e)) tml"

lemma analyze_components_named:
  "analyze_components_from_timeline tml =
     fold (\<lambda>p. component_step (fst p) (snd p)) (named_totals tml)
       \<lparr>fixed_peak_mb = 0, mlp_peak_mb = 0, logits_peak_mb = 0, total_peak_mb = 0\<rparr>"
  by (simp add: analyze_components_from_timeline_def named_totals_def fold_map comp_def)

lemma peak_ok:
  assumes "plannable g"
  shows "\<exists>pk. calculate_peak_memory g (analyze_liveness g) = Inr pk"
  unfolding calculate_peak_memory_def
  by (rule foldM_no_raise)
     (use node_total_ok [OF assms] in \<open>auto simp: peak_step_def node_total_def\<close>)

lemma timeline_ok:
  assumes "plannable g"
  shows "\<exists>tml. calculate_memory_timeline g (analyze_liveness g) pk = Inr tml \<and>
     named_totals tml = zip (names_of (execution_order g)) (map mb (node_totals g))"
proof -
  let ?f = "\<lambda>p tml. bind_res (timeline_entry g (analyze_liveness g) pk p) (\<lambda>e. Inr (tml @ [e]))"
  let ?sum = "\<lambda>n. \<Sum>k \<in> live_set_for_calc (analyze_liveness g) n. size_of_name g k"
  let ?P = "\<lambda>ps tml. named_totals tml = map (\<lambda>p. (output_name (snd p), mb (?sum (snd p)))) ps"
  have "\<exists>tml. foldM ?f (enumerate 0 (execution_order g)) [] = Inr tml \<and>
      ?P (enumerate 0 (execution_order g)) tml"
  proof (rule foldM_total_invariant [where P = ?P])
    show "?P [] []" by (simp add: named_totals_def)
  next
    fix ps p qs tml assume e: "enumerate 0 (execution_order g) = ps @ p # qs" and P: "?P ps tml"
    have "p \<in> set (enumerate 0 (execution_order g))" using e by simp
    then have "snd p \<in> set (execution_order g)" by (metis enumerate_eq_zip in_set_zipE prod.collapse)
    from node_total_ok [OF assms this]
    have "live_total g (live_set_for_calc (analyze_liveness g) (snd p)) = Inr (?sum (snd p))"
      by (simp add: node_total_def)
    then show "\<exists>tml'. ?f p tml = Inr tml' \<and> ?P (ps @ [p]) tml'"
      using P by (simp add: timeline_entry_def Let_def named_totals_def)
  qed
  moreover have "map (\<lambda>p. (output_name (snd p), mb (?sum (snd p)))) (enumerate 0 (execution_order g)) =
      zip (names_of (execution_order g)) (map mb (node_totals g))"
    by (rule nth_equalityI) (simp_all add: node_totals_def nth_enumerate_eq)
  ultimately show ?thesis by (simp add: calculate_memory_timeline_def)
qed

lemma analyze_ok:
  assumes pl: "plannable g" and pos: "0 < t" "t \<in> set (node_totals g)"
  shows "\<exists>a. analyze g = Inr a \<and>
     named_totals (memory_timeline a) = zip (names_of (execution_order g)) (map mb (node_totals g)) \<and>
     generate_optimized_reuse_plan g = Inr (an_reuse_plan a)"
proof -
  obtain pk where pk: "calculate_peak_memory g (analyze_liveness g) = Inr pk"
    using peak_ok [OF pl] by blast
  obtain tml where tml: "calculate_memory_timeline g (analyze_liveness g) (peak_memory_bytes pk) = Inr tml"
    "named_totals tml = zip (names_of (execution_order g)) (map mb (node_totals g))"
    using timeline_ok [OF pl] by blast
  have "wf_graph g" "alias_ok g" using pl by (simp_all add: plannable_def)
  then obtain p where p: "generate_optimized_reuse_plan g = Inr p"
    using plan_loop_total by (fastforce simp: generate_optimized_reuse_plan_def)
  obtain n where n: "n \<in> set (execution_order g)"
    "t = (\<Sum>k \<in> live_set_for_calc (analyze_liveness g) n. size_of_name g k)"
    using pos(2) by (auto simp: node_totals_def)
  have loop: "(\<forall>n \<in> set (execution_order g). \<exists>t. node_total g n = Inr t \<and> t \<le> peak_memory_bytes pk) \<and>
    (pk = \<lparr>peak_memory_bytes = 0, peak_node = None, peak_live_set_names = {}\<rparr> \<or> (\<exists>n. peak_node pk = Some n))"
    using peak_loop [OF pk [unfolded calculate_peak_memory_def]] by auto
  have "t \<le> peak_memory_bytes pk" using loop node_total_ok [OF pl n(1)] n by force
  then obtain m where "peak_node pk = Some m" using loop pos(1) by auto
  then show ?thesis using pk tml p by (simp add: analyze_def Let_def)
qed

text \<open>The totals of a built graph, from the live sets of its skeleton and its sizes.\<close>

fun cmd_names :: "graph_cmd list \<Rightarrow> string list" where
  "cmd_names [] = []"
| "cmd_names (AddOp out op ins shp dt # cs) = out # cmd_names cs"
| "cmd_names (AddAlias s t # cs) = cmd_names cs"

lemma foldM_names:
  "foldM run_cmd cs g = Inr g' \<Longrightarrow>
     names_of (execution_order g') = names_of (execution_order g) @ cmd_names cs"
proof (induction cs arbitrary: g)
  case (Cons c cs)
  then obtain h where h: "run_cmd c g = Inr h" "foldM run_cmd cs h = Inr g'"
    by (auto simp: bind_res_eq_Inr)
  show ?case
    using Cons.IH [OF h(2)] h(1) by (cases c) (auto elim!: add_op_cases add_alias_cases)
qed simp

lemma size_of_name_zip:
  assumes "wf_graph g" and "k \<in> set (names_of (execution_order g))"
  shows "size_of_name g k =
    the (map_of (zip (names_of (execution_order g)) (map node_size (execution_order g))) k)"
proof -
  have z: "zip (names_of ns) (map node_size ns) = map (\<lambda>n. (output_name n, node_size n)) ns" for ns
    by (induction ns) auto
  from assms(2) obtain n where n: "n \<in> set (execution_order g)" "k = output_name n" by auto
  have "map_of (map (\<lambda>n. (output_name n, node_size n)) (execution_order g)) k = Some (node_size n)"
    using assms(1) n by (auto simp: wf_graph_def distinct_map comp_def intro!: map_of_is_SomeI)
  then show ?thesis using wf_graph_nodes_iff [OF assms(1), of k n] n z by simp
qed

lemma node_totals_of_cmds:
  assumes g: "build_graph cs = Inr g" and sk: "skeleton_ok (map erase_shape cs)"
  shows "node_totals g = map (\<lambda>S. \<Sum>k \<in> S. the (map_of (zip (cmd_names cs) (cmd_sizes cs)) k))
           (live_sets (map erase_shape cs))"
proof -
  have pl: "plannable g" by (rule build_plannable [OF g sk])
  then have wf: "wf_graph g" and topo: "topological (execution_order g)" by (simp_all add: plannable_def)
  obtain h where h: "build_graph (map erase_shape cs) = Inr h"
    using sk by (auto simp: skeleton_ok_def split: sum.splits)
  have "same_skeleton CustomGraph CustomGraph" by (simp add: same_skeleton_def wf_graph_empty)
  then have "same_skeleton g h" using g h unfolding build_graph_def by (rule build_skeleton)
  then have live: "live_sets (map erase_shape cs) =
      map (live_set_for_calc (analyze_liveness g)) (execution_order g)"
    by (simp only: skeleton_live_sets live_sets_def h sum.case)
  have names: "names_of (execution_order g) = cmd_names cs" "map node_size (execution_order g) = cmd_sizes cs"
    using foldM_names [OF g [unfolded build_graph_def]] foldM_sizes [OF g [unfolded build_graph_def]]
    by (simp_all add: CustomGraph_def)
  have mem: "k \<in> set (names_of (execution_order g))"
    if n: "n \<in> set (execution_order g)" and k: "k \<in> live_set_for_calc (analyze_liveness g) n" for n k
  proof -
    obtain i where i: "i < length (execution_order g)" "n = execution_order g ! i"
      using n by (auto simp: in_set_conv_nth)
    obtain b where "b \<le> i" "k = output_name (execution_order g ! b)"
      using counted_tensor [OF wf topo i(1)] k i(2) by blast
    then show ?thesis using i(1) by simp
  qed
  show ?thesis
    unfolding live node_totals_def map_map comp_def
    using size_of_name_zip [OF wf] mem by (intro map_cong sum.cong refl) (simp add: names)
qed

lemma cmds_live_sets:
  "live_sets (map erase_shape (llada_cmds N l)) = [
      {''x''}, {''x'', ''x_normed''}, {''x'', ''x_normed'', ''q''},
      {''x'', ''x_normed'', ''q'', ''k''}, {''x'', ''q'', ''k'', ''v''}, {''x'', ''att_tmp''},
      {''x'', ''att_out''}, {''x'', ''att_out'', ''x_normed_2''},
      {''x_normed_2'', ''residual''}, {''x_normed_2'', ''residual'', ''mlp_x''},
      {''residual'', ''mlp_x'', ''mlp_x_up''}, {''residual'', ''mlp_gated''},
      {''residual'', ''mlp_output''}, {''final_output''}, {''logits''}]"
  "live_sets (map erase_shape (dream_cmds N l)) = [
      {''x''}, {''x'', ''x_normed''}, {''x'', ''x_normed'', ''q''},
      {''x'', ''x_normed'', ''q'', ''k''}, {''x'', ''q'', ''k'', ''v''},
      {''x'', ''att_out_var''}, {''x'', ''att_out''}, {''x'', ''att_out'', ''x_normed_2''},
      {''x_normed_2'', ''residual''}, {''x_normed_2'', ''residual'', ''x_gate''},
      {''residual'', ''x_gate'', ''x_up''}, {''residual'', ''x_mlp''},
      {''residual'', ''mlp_output''}, {''final_output''}, {''logits''}]"
  "live_sets (map erase_shape (llada_moe_cmds N l)) = [
      {''x''}, {''x'', ''x_normed''}, {''x'', ''x_normed'', ''q''},
      {''x'', ''x_normed'', ''q'', ''k''}, {''x'', ''q'', ''k'', ''v''},
      {''x'', ''att_out_var''}, {''x'', ''att_out''}, {''x'', ''att_out'', ''x_normed_2''},
      {''x_normed_2'', ''residual''}, {''residual'', ''moe_cache1''},
      {''residual'', ''moe_cache2''}, {''residual'', ''moe_cache3''},
      {''residual'', ''moe_output''}, {''final_output''}, {''logits''}]"
  by (simp only: llada_cmds_def dream_cmds_def llada_moe_cmds_def erase_simps, code_simp)+

lemma chunk_live_sets:
  "live_sets (map erase_shape (llada_chunk_cmds True N c l)) = [
      {''x''}, {''x'', ''x_normed''}, {''x'', ''x_normed'', ''q''},
      {''x'', ''x_normed'', ''q'', ''k''}, {''x'', ''q'', ''k'', ''v''}, {''x'', ''att_tmp''},
      {''x'', ''att_out''}, {''x'', ''att_out'', ''x_normed_2''},
      {''x_normed_2'', ''residual''}, {''x_normed_2'', ''residual'', ''mlp_x''},
      {''x_normed_2'', ''residual'', ''mlp_x'', ''mlp_x_up''},
      {''x_normed_2'', ''residual'', ''mlp_x'', ''mlp_x_up'', ''mlp_gated''},
      {''x_normed_2'', ''residual'', ''mlp_x'', ''mlp_x_up'', ''mlp_gated'', ''mlp_output''},
      {''x_normed_2'', ''residual'', ''mlp_output'', ''mlp_loop_hazard_barrier''},
      {''residual'', ''mlp_output'', ''xnorm2_barrier''}, {''final_output''}, {''logits''}]"
  "live_sets (map erase_shape (dream_chunk_cmds True N c l)) = [
      {''x''}, {''x'', ''x_normed''}, {''x'', ''x_normed'', ''q''},
      {''x'', ''x_normed'', ''q'', ''k''}, {''x'', ''q'', ''k'', ''v''},
      {''x'', ''att_out_var''}, {''x'', ''att_out''}, {''x'', ''att_out'', ''x_normed_2''},
      {''x_normed_2'', ''residual''}, {''x_normed_2'', ''residual'', ''x_gate''},
      {''x_normed_2'', ''residual'', ''x_gate'', ''x_up''},
      {''x_normed_2'', ''residual'', ''x_gate'', ''x_up'', ''x_mlp''},
      {''x_normed_2'', ''residual'', ''x_gate'', ''x_up'', ''x_mlp'', ''mlp_output''},
      {''x_normed_2'', ''residual'', ''mlp_output'', ''mlp_loop_hazard_barrier''},
      {''residual'', ''mlp_output'', ''xnorm2_barrier''}, {''final_output''}, {''logits''}]"
  "live_sets (map erase_shape (llada_moe_chunk_cmds True N c l)) = [
      {''x''}, {''x'', ''x_normed''}, {''x'', ''x_normed'', ''q''},
      {''x'', ''x_normed'', ''q'', ''k''}, {''x'', ''q'', ''k'', ''v''},
      {''x'', ''att_out_var''}, {''x'', ''att_out''}, {''x'', ''att_out'', ''x_normed_2''},
      {''x_normed_2'', ''residual''}, {''x_normed_2'', ''residual'', ''moe_cache1''},
      {''x_normed_2'', ''residual'', ''moe_cache1'', ''moe_cache2''},
      {''x_normed_2'', ''residual'', ''moe_cache1'', ''moe_cache2'', ''moe_cache3''},
      {''x_normed_2'', ''residual'', ''moe_cache1'', ''moe_cache2'', ''moe_cache3'', ''moe_output''},
      {''x_normed_2'', ''residual'', ''moe_output'', ''moe_loop_hazard_barrier''},
      {''residual'', ''moe_output'', ''xnorm2_barrier''}, {''final_output''}, {''logits''}]"
  by (simp only: llada_chunk_cmds_def dream_chunk_cmds_def llada_moe_chunk_cmds_def erase_simps, code_simp)+

lemma cmds_names:
  "cmd_names (llada_cmds N l) = [
      ''x'', ''x_normed'', ''q'', ''k'', ''v'', ''att_tmp'', ''att_out'', ''x_normed_2'',
      ''residual'', ''mlp_x'', ''mlp_x_up'', ''mlp_gated'', ''mlp_output'', ''final_output'',
      ''logits'']"
  "cmd_names (dream_cmds N l) = [
      ''x'', ''x_normed'', ''q'', ''k'', ''v'', ''att_out_var'', ''att_out'', ''x_normed_2'',
      ''residual'', ''x_gate'', ''x_up'', ''x_mlp'', ''mlp_output'', ''final_output'',
      ''logits'']"
  "cmd_names (llada_moe_cmds N l) = [
      ''x'', ''x_normed'', ''q'', ''k'', ''v'', ''att_out_var'', ''att_out'', ''x_normed_2'',
      ''residual'', ''moe_cache1'', ''moe_cache2'', ''moe_cache3'', ''moe_output'',
      ''final_output'', ''logits'']"
  by (simp_all add: llada_cmds_def dream_cmds_def llada_moe_cmds_def Let_def)

lemma chunk_names:
  "cmd_names (llada_chunk_cmds True N c l) = [
      ''x'', ''x_normed'', ''q'', ''k'', ''v'', ''att_tmp'', ''att_out'', ''x_normed_2'',
      ''residual'', ''mlp_x'', ''mlp_x_up'', ''mlp_gated'', ''mlp_output'',
      ''mlp_loop_hazard_barrier'', ''xnorm2_barrier'', ''final_output'', ''logits'']"
  "cmd_names (dream_chunk_cmds True N c l) = [
      ''x'', ''x_normed'', ''q'', ''k'', ''v'', ''att_out_var'', ''att_out'', ''x_normed_2'',
      ''residual'', ''x_gate'', ''x_up'', ''x_mlp'', ''mlp_output'',
      ''mlp_loop_hazard_barrier'', ''xnorm2_barrier'', ''final_output'', ''logits'']"
  "cmd_names (llada_moe_chunk_cmds True N c l) = [
      ''x'', ''x_normed'', ''q'', ''k'', ''v'', ''att_out_var'', ''att_out'', ''x_normed_2'',
      ''residual'', ''moe_cache1'', ''moe_cache2'', ''moe_cache3'', ''moe_output'',
      ''moe_loop_hazard_barrier'', ''xnorm2_barrier'', ''final_output'', ''logits'']"
  by (simp_all add: llada_chunk_cmds_def dream_chunk_cmds_def llada_moe_chunk_cmds_def Let_def)

section \<open>Component peaks in closed form\<close>

text \<open>The component fold on byte totals; megabytes are the image of bytes under a monotone map.\<close>

fun byte_peaks :: "(string \<times> int) list \<Rightarrow> int \<times> int \<times> int \<Rightarrow> int \<times> int \<times> int" where
  "byte_peaks [] s = s"
| "byte_peaks ((k, t) # ps) (f, m, l) =
     byte_peaks ps
       (if py_in ''logits'' k then (f, m, max l t)
        else if list_ex (\<lambda>kw. py_in kw k) mlp_keywords then (f, max m t, l)
        else (max f t, m, l))"

lemma mb_mono: "mb a \<le> mb b \<longleftrightarrow> a \<le> b" and mb_less: "mb a < mb b \<longleftrightarrow> a < b"
  and mb_eq: "mb a = mb b \<longleftrightarrow> a = b" and mb_max: "max (mb a) (mb b) = mb (max a b)"
  by (simp_all add: mb_def divide_le_cancel divide_less_cancel max_def)

abbreviation peaks_of :: "components \<Rightarrow> rat \<times> rat \<times> rat" where
  "peaks_of c \<equiv> (fixed_peak_mb c, mlp_peak_mb c, logits_peak_mb c)"

lemma component_fold_peaks:
  "peaks_of c = (mb f, mb m, mb l) \<Longrightarrow>
   peaks_of (fold (\<lambda>p. component_step (fst p) (snd p)) (map (\<lambda>(k, t). (k, mb t)) ps) c) =
     (case byte_peaks ps (f, m, l) of (f, m, l) \<Rightarrow> (mb f, mb m, mb l))"
proof (induction ps arbitrary: c f m l)
  case (Cons p ps)
  obtain k t where p: "p = (k, t)" by (cases p)
  have "peaks_of (component_step k (mb t) c) =
      (case (if py_in ''logits'' k then (f, m, max l t)
             else if list_ex (\<lambda>kw. py_in kw k) mlp_keywords then (f, max m t, l)
             else (max f t, m, l)) of (f, m, l) \<Rightarrow> (mb f, mb m, mb l))"
    using Cons.prems by (auto simp: component_step_def Let_def mb_max)
  then show ?case using p by (auto intro!: Cons.IH)
qed simp

definition totals_of :: "graph_cmd list \<Rightarrow> int list" where
  "totals_of cs = map (\<lambda>S. \<Sum>k \<in> S. the (map_of (zip (cmd_names cs) (cmd_sizes cs)) k))
     (live_sets (map erase_shape cs))"

lemma analysis_of_cmds:
  assumes ok: "is_ok (build_graph cs)" "skeleton_ok (map erase_shape cs)"
    and pos: "\<exists>t \<in> set (totals_of cs). 0 < t"
    and peaks: "byte_peaks (zip (cmd_names cs) (totals_of cs)) (0, 0, 0) = (f, m, l)"
  shows "\<exists>g a. build_graph cs = Inr g \<and> plannable g \<and> analyze g = Inr a \<and>
     generate_optimized_reuse_plan g = Inr (an_reuse_plan a) \<and>
     peaks_of (analyze_components_from_timeline (memory_timeline a)) = (mb f, mb m, mb l)"
proof -
  obtain g where g: "build_graph cs = Inr g" "plannable g" using definer_plannable [OF ok] by blast
  have tot: "node_totals g = totals_of cs" using node_totals_of_cmds [OF g(1) ok(2)] by (simp add: totals_of_def)
  obtain a where a: "analyze g = Inr a"
    "named_totals (memory_timeline a) = zip (names_of (execution_order g)) (map mb (totals_of cs))"
    "generate_optimized_reuse_plan g = Inr (an_reuse_plan a)"
    using analyze_ok [OF g(2)] pos unfolding tot by blast
  have "names_of (execution_order g) = cmd_names cs"
    using foldM_names [OF g(1) [unfolded build_graph_def]] by (simp add: CustomGraph_def)
  then have named: "named_totals (memory_timeline a) = map (\<lambda>(k, t). (k, mb t)) (zip (cmd_names cs) (totals_of cs))"
    unfolding a(2) by (simp add: zip_map2)
  have "mb 0 = 0" by (simp add: mb_def)
  then have "peaks_of (analyze_components_from_timeline (memory_timeline a)) = (mb f, mb m, mb l)"
    unfolding analyze_components_named named using peaks
    by (subst component_fold_peaks [of _ 0 0 0]) simp_all
  then show ?thesis using g a by blast
qed

lemma plain_peaks:
  assumes "tokens_ok N" and "tokens_ok l"
  shows "byte_peaks (zip (cmd_names (llada_cmds N l)) (totals_of (llada_cmds N l))) (0, 0, 0) =
      (32768 * N, 57344 * N, 252928 * l)"
    and "byte_peaks (zip (cmd_names (dream_cmds N l)) (totals_of (dream_cmds N l))) (0, 0, 0) =
      (22528 * N, 82944 * N, 304128 * l)"
    and "byte_peaks (zip (cmd_names (llada_moe_cmds N l)) (totals_of (llada_moe_cmds N l))) (0, 0, 0) =
      (16384 * N, 36864 * N, 314368 * l)"
  using assms tokens_ok_pos [OF assms(1)] tokens_ok_pos [OF assms(2)]
  by (simp_all add: totals_of_def cmds_names cmds_sizes [OF assms(1,1,2)] cmds_live_sets mlp_keywords_def)

lemma chunk_peaks:
  assumes "tokens_ok N" and "tokens_ok c" and "tokens_ok l" and "c \<le> N"
  shows "byte_peaks (zip (cmd_names (llada_chunk_cmds True N c l)) (totals_of (llada_chunk_cmds True N c l)))
      (0, 0, 0) = (32768 * N, 24576 * N + 73728 * c, 252928 * l)"
    and "byte_peaks (zip (cmd_names (dream_chunk_cmds True N c l)) (totals_of (dream_chunk_cmds True N c l)))
      (0, 0, 0) = (22528 * N, 21504 * N + 113664 * c, 304128 * l)"
    and "byte_peaks (zip (cmd_names (llada_moe_chunk_cmds True N c l)) (totals_of (llada_moe_chunk_cmds True N c l)))
      (0, 0, 0) = (16384 * N, 12288 * N + 81920 * c, 314368 * l)"
  using assms(4) tokens_ok_pos [OF assms(1)] tokens_ok_pos [OF assms(2)] tokens_ok_pos [OF assms(3)]
  by (simp_all add: totals_of_def chunk_names chunk_sizes [OF assms(1-3)] chunk_live_sets mlp_keywords_def)

section \<open>The search as seen through the peaks\<close>

definition is_moe :: "string \<Rightarrow> bool" where
  "is_moe model \<longleftrightarrow> py_in ''moe'' (lower model)"

definition is_dream :: "string \<Rightarrow> bool" where
  "is_dream model \<longleftrightarrow> \<not> py_in ''moe'' (lower model) \<and> py_in ''dream'' (lower model)"

definition is_llada :: "string \<Rightarrow> bool" where
  "is_llada model \<longleftrightarrow> \<not> py_in ''moe'' (lower model) \<and> \<not> py_in ''dream'' (lower model)"

definition cfg_ok :: "search_config \<Rightarrow> bool" where
  "cfg_ok cfg \<longleftrightarrow> 0 < cfg_num_chunks_logits cfg \<and> 0 < cfg_num_chunks_mlp cfg \<and>
     (\<not> cfg_chunk_logits cfg \<longrightarrow> cfg_num_chunks_logits cfg = 1) \<and>
     (\<not> cfg_chunk_mlp cfg \<longrightarrow> cfg_num_chunks_mlp cfg = 1)"

lemma cfg_ok_initial: "cfg_ok initial_config"
  by (simp add: cfg_ok_def initial_config_def)

lemma cut_bottleneck_ok: "cfg_ok cfg \<Longrightarrow> cut_bottleneck cfg c = Inr cfg' \<Longrightarrow> cfg_ok cfg'"
  by (auto simp: cut_bottleneck_def Let_def cfg_ok_def split: if_splits)

lemma cut_bottleneck_cases:
  assumes "peaks_of c = (mb f, mb m, mb l)" and "cfg_ok cfg"
  shows "cut_bottleneck cfg c = Inl e \<Longrightarrow> e = RuntimeError \<and> m \<le> f \<and> l \<le> f"
    and "cut_bottleneck cfg c = Inr cfg' \<Longrightarrow>
      (f < l \<and> cfg_chunk_logits cfg' \<and> cfg_num_chunks_logits cfg' = cfg_num_chunks_logits cfg + 1 \<and>
       cfg_chunk_mlp cfg' = cfg_chunk_mlp cfg \<and> cfg_num_chunks_mlp cfg' = cfg_num_chunks_mlp cfg) \<or>
      (f < m \<and> cfg_chunk_mlp cfg' \<and> cfg_num_chunks_mlp cfg' = cfg_num_chunks_mlp cfg + 1 \<and>
       cfg_chunk_logits cfg' = cfg_chunk_logits cfg \<and> cfg_num_chunks_logits cfg' = cfg_num_chunks_logits cfg)"
proof -
  have cut: "cut_bottleneck cfg c =
    (if max f (max m l) = l \<and> f < l then
        Inr (if \<not> cfg_chunk_logits cfg then cfg\<lparr>cfg_chunk_logits := True, cfg_num_chunks_logits := 2\<rparr>
             else cfg\<lparr>cfg_num_chunks_logits := cfg_num_chunks_logits cfg + 1\<rparr>)
     else if max f (max m l) = m \<and> f < m then
        Inr (if \<not> cfg_chunk_mlp cfg then cfg\<lparr>cfg_chunk_mlp := True, cfg_num_chunks_mlp := 2\<rparr>
             else cfg\<lparr>cfg_num_chunks_mlp := cfg_num_chunks_mlp cfg + 1\<rparr>)
     else Inl RuntimeError)"
    using assms(1) by (simp add: cut_bottleneck_def Let_def mb_max mb_eq mb_less)
  show "cut_bottleneck cfg c = Inl e \<Longrightarrow> e = RuntimeError \<and> m \<le> f \<and> l \<le> f"
    unfolding cut by (auto split: if_splits)
  show "(f < l \<and> cfg_chunk_logits cfg' \<and> cfg_num_chunks_logits cfg' = cfg_num_chunks_logits cfg + 1 \<and>
       cfg_chunk_mlp cfg' = cfg_chunk_mlp cfg \<and> cfg_num_chunks_mlp cfg' = cfg_num_chunks_mlp cfg) \<or>
      (f < m \<and> cfg_chunk_mlp cfg' \<and> cfg_num_chunks_mlp cfg' = cfg_num_chunks_mlp cfg + 1 \<and>
       cfg_chunk_logits cfg' = cfg_chunk_logits cfg \<and> cfg_num_chunks_logits cfg' = cfg_num_chunks_logits cfg)"
    if "cut_bottleneck cfg c = Inr cfg'"
    using that assms(2) unfolding cut cfg_ok_def by (auto split: if_splits)
qed

lemma plan_total_nonneg:
  assumes "plannable g" and "generate_optimized_reuse_plan g = Inr p"
  shows "0 \<le> total_buffer_size_bytes p"
  using assms plan_loop_inv [of g]
  by (auto simp: generate_optimized_reuse_plan_def bind_res_eq_Inr plannable_def plan_inv_def)

lemma ceil_div_self: "0 < n \<Longrightarrow> ceil_div n n = 1"
  unfolding ceil_div_def by (rule int_div_pos_eq [of _ _ _ "n - 1"]) auto

text \<open>
  What the loop relies on: for a family of models, every configuration has an analysis, and its
  component peaks are known functions of the token count, the MLP chunk and the logits chunk.
\<close>

locale block_search =
  fixes family :: "string \<Rightarrow> bool" and fixed_of :: "int \<Rightarrow> int" and plain_mlp_of :: "int \<Rightarrow> int"
    and chunk_mlp_of :: "int \<Rightarrow> int \<Rightarrow> int" and logits_of :: "int \<Rightarrow> int"
  assumes analysis:
    "family model \<Longrightarrow> tokens_ok P \<Longrightarrow> tokens_ok Op \<Longrightarrow> cfg_ok cfg \<Longrightarrow>
       \<exists>g a. config_graph model P Op cfg = Inr g \<and> plannable g \<and> analyze g = Inr a \<and>
         generate_optimized_reuse_plan g = Inr (an_reuse_plan a) \<and>
         peaks_of (analyze_components_from_timeline (memory_timeline a)) =
           (mb (fixed_of P),
            mb (if cfg_chunk_mlp cfg then chunk_mlp_of P (ceil_div P (cfg_num_chunks_mlp cfg)) else plain_mlp_of P),
            mb (logits_of (if cfg_chunk_logits cfg then ceil_div Op (cfg_num_chunks_logits cfg) else Op)))"
begin

abbreviation mlp_of :: "int \<Rightarrow> search_config \<Rightarrow> int" where
  "mlp_of P cfg \<equiv> if cfg_chunk_mlp cfg then chunk_mlp_of P (ceil_div P (cfg_num_chunks_mlp cfg))
                   else plain_mlp_of P"

abbreviation logits_rows :: "int \<Rightarrow> search_config \<Rightarrow> int" where
  "logits_rows Op cfg \<equiv> if cfg_chunk_logits cfg then ceil_div Op (cfg_num_chunks_logits cfg) else Op"

text \<open>One turn: it returns a configuration that fits, or moves to a finer one because the cut
  component exceeds the fixed part, or raises because none does.\<close>

lemma search_step_cases:
  assumes "family model" and "tokens_ok P" and "tokens_ok Op" and "cfg_ok cfg"
  obtains (Found) r g p where "search_step model P Op pool cfg = Inr (Found r)"
      "res_config r = cfg" "config_graph model P Op cfg = Inr g" "plannable g"
      "generate_optimized_reuse_plan g = Inr p" "total_bytes r = total_buffer_size_bytes p"
      "accepts model pool (total_bytes r)"
  | (Logits) cfg' where "search_step model P Op pool cfg = Inr (Next cfg')" "cfg_ok cfg'"
      "fixed_of P < logits_of (logits_rows Op cfg)"
      "cfg_chunk_logits cfg'" "cfg_num_chunks_logits cfg' = cfg_num_chunks_logits cfg + 1"
      "cfg_chunk_mlp cfg' = cfg_chunk_mlp cfg" "cfg_num_chunks_mlp cfg' = cfg_num_chunks_mlp cfg"
  | (Mlp) cfg' where "search_step model P Op pool cfg = Inr (Next cfg')" "cfg_ok cfg'"
      "fixed_of P < mlp_of P cfg"
      "cfg_chunk_mlp cfg'" "cfg_num_chunks_mlp cfg' = cfg_num_chunks_mlp cfg + 1"
      "cfg_chunk_logits cfg' = cfg_chunk_logits cfg"
      "cfg_num_chunks_logits cfg' = cfg_num_chunks_logits cfg"
  | (Fixed) "search_step model P Op pool cfg = Inl RuntimeError"
      "mlp_of P cfg \<le> fixed_of P" "logits_of (logits_rows Op cfg) \<le> fixed_of P"
proof -
  obtain g a where g: "config_graph model P Op cfg = Inr g" "plannable g" "analyze g = Inr a"
    "generate_optimized_reuse_plan g = Inr (an_reuse_plan a)"
    and pk: "peaks_of (analyze_components_from_timeline (memory_timeline a)) =
      (mb (fixed_of P), mb (mlp_of P cfg), mb (logits_of (logits_rows Op cfg)))"
    using analysis [OF assms] by blast
  define c where "c = analyze_components_from_timeline (memory_timeline a)"
  let ?need = "total_buffer_size_bytes (an_reuse_plan a)"
  show thesis
  proof (cases "accepts model pool ?need")
    case True
    then show thesis
      using g by (intro Found [of "\<lparr>res_config = cfg, total_bytes = ?need, res_components = c\<rparr>" g "an_reuse_plan a"])
        (simp_all add: search_step_def Let_def c_def)
  next
    case False
    then have step: "search_step model P Op pool cfg = bind_res (cut_bottleneck cfg c) (\<lambda>cfg'. Inr (Next cfg'))"
      using g by (simp add: search_step_def Let_def c_def)
    note cut = cut_bottleneck_cases [OF pk [folded c_def] assms(4)]
    show thesis
    proof (cases "cut_bottleneck cfg c")
      case (Inl e)
      then show thesis using cut(1) [OF Inl] Fixed step by simp
    next
      case (Inr cfg')
      have "cfg_ok cfg'" using cut_bottleneck_ok [OF assms(4) Inr] .
      then show thesis using cut(2) [OF Inr] Logits [of cfg'] Mlp [of cfg'] step Inr by fastforce
    qed
  qed
qed

lemma search_loop_sound:
  assumes "family model" and "tokens_ok P" and "tokens_ok Op" and "cfg_ok cfg"
    and "search_loop fuel model P Op pool cfg = Some (Inr r)"
  shows "cfg_ok (res_config r) \<and> accepts model pool (total_bytes r) \<and>
     (\<exists>g p. config_graph model P Op (res_config r) = Inr g \<and> plannable g \<and>
        generate_optimized_reuse_plan g = Inr p \<and> total_bytes r = total_buffer_size_bytes p)"
  using assms(4,5)
proof (induction fuel arbitrary: cfg)
  case (Suc fuel)
  show ?case
    using assms(1-3) Suc.prems(1)
    by (cases rule: search_step_cases [where pool = pool]) (use Suc in auto)
qed simp

lemma search_loop_error:
  assumes "family model" and "tokens_ok P" and "tokens_ok Op" and "cfg_ok cfg"
    and "search_loop fuel model P Op pool cfg = Some (Inl e)"
  shows "e = RuntimeError"
  using assms(4,5)
proof (induction fuel arbitrary: cfg)
  case (Suc fuel)
  show ?case
    using assms(1-3) Suc.prems(1)
    by (cases rule: search_step_cases [where pool = pool]) (use Suc in auto)
qed simp

text \<open>When the chunked MLP exceeds the fixed part however small the chunk, a pool smaller than the
  margin keeps the loop running: no turn accepts and no turn raises.\<close>

lemma search_loop_stuck:
  assumes "family model" and "tokens_ok P" and "tokens_ok Op" and "cfg_ok cfg" and "pool < 0"
    and big: "fixed_of P < plain_mlp_of P" "\<And>c. 0 < c \<Longrightarrow> fixed_of P < chunk_mlp_of P c"
  shows "search_loop fuel model P Op pool cfg = None"
  using assms(4)
proof (induction fuel arbitrary: cfg)
  case (Suc fuel)
  have P: "0 < P" using assms(2) by (rule tokens_ok_pos)
  have mlp: "fixed_of P < mlp_of P cfg"
    using big Suc.prems P by (simp add: cfg_ok_def ceil_div_pos)
  show ?case
    using assms(1-3) Suc.prems
  proof (cases rule: search_step_cases [where pool = pool])
    case (Found r g p)
    then have "0 \<le> total_bytes r" using plan_total_nonneg by simp
    then show ?thesis using Found(7) assms(5) by (simp add: accepts_def)
  qed (use Suc mlp in auto)
qed simp

end

lemma search_loop_fuel_mono:
  "search_loop fuel model P Op pool cfg = Some r \<Longrightarrow> fuel \<le> fuel' \<Longrightarrow>
   search_loop fuel' model P Op pool cfg = Some r"
proof (induction fuel arbitrary: fuel' cfg)
  case (Suc fuel)
  then obtain f where "fuel' = Suc f" "fuel \<le> f" by (cases fuel') auto
  then show ?case using Suc by (auto split: sum.splits search_outcome.splits)
qed simp

text \<open>
  The loop ends when chunks of one row no longer exceed the fixed part: every turn either ends it or
  raises one of the two chunk counts, which never pass the number of rows.
\<close>

locale shrinking_search = block_search +
  fixes min_tokens :: int
  assumes min_tokens: "2 \<le> min_tokens"
    and mlp_shrinks: "min_tokens \<le> P \<Longrightarrow> chunk_mlp_of P 1 \<le> fixed_of P"
    and logits_shrink: "min_tokens \<le> P \<Longrightarrow> logits_of 1 \<le> fixed_of P"
begin

lemma search_loop_returns:
  assumes "family model" and "tokens_ok P" and "tokens_ok Op" and "min_tokens \<le> P" and "cfg_ok cfg"
    and "cfg_num_chunks_logits cfg \<le> Op" and "cfg_num_chunks_mlp cfg \<le> P"
    and "nat (Op - cfg_num_chunks_logits cfg) + nat (P - cfg_num_chunks_mlp cfg) < fuel"
  shows "\<exists>r. search_loop fuel model P Op pool cfg = Some r"
  using assms(5-8)
proof (induction fuel arbitrary: cfg)
  case (Suc fuel)
  have pos: "0 < P" "0 < Op" using assms(2,3) tokens_ok_pos by blast+
  show ?case
    using assms(1-3) Suc.prems(1)
  proof (cases rule: search_step_cases [where pool = pool])
    case (Logits cfg')
    have "logits_rows Op cfg \<noteq> 1" using Logits(3) logits_shrink [OF assms(4)] by auto
    then have "cfg_num_chunks_logits cfg < Op"
      using Suc.prems(1,2) pos ceil_div_self [OF pos(2)]
      by (cases "cfg_num_chunks_logits cfg = Op") (auto simp: cfg_ok_def split: if_splits)
    then show ?thesis using Logits Suc.prems Suc.IH [OF Logits(2)] by simp
  next
    case (Mlp cfg')
    have "cfg_chunk_mlp cfg \<Longrightarrow> ceil_div P (cfg_num_chunks_mlp cfg) \<noteq> 1"
      using Mlp(3) mlp_shrinks [OF assms(4)] by auto
    then have "cfg_num_chunks_mlp cfg < P"
      using Suc.prems(1,3) min_tokens assms(4) ceil_div_self [OF pos(1)]
      by (cases "cfg_num_chunks_mlp cfg = P") (auto simp: cfg_ok_def split: if_splits)
    then show ?thesis using Mlp Suc.prems Suc.IH [OF Mlp(2)] by simp
  qed auto
qed simp

end

section \<open>The three model families\<close>

lemma positive_totals:
  assumes "tokens_ok N" and "tokens_ok c" and "tokens_ok l"
  shows "\<exists>t \<in> set (totals_of (llada_cmds N l)). 0 < t"
    and "\<exists>t \<in> set (totals_of (dream_cmds N l)). 0 < t"
    and "\<exists>t \<in> set (totals_of (llada_moe_cmds N l)). 0 < t"
    and "\<exists>t \<in> set (totals_of (llada_chunk_cmds True N c l)). 0 < t"
    and "\<exists>t \<in> set (totals_of (dream_chunk_cmds True N c l)). 0 < t"
    and "\<exists>t \<in> set (totals_of (llada_moe_chunk_cmds True N c l)). 0 < t"
  using tokens_ok_pos [OF assms(1)]
  by (simp_all add: totals_of_def cmds_names cmds_sizes [OF assms(1,1,3)] cmds_live_sets
      chunk_names chunk_sizes [OF assms] chunk_live_sets)

lemma plain_analysis:
  assumes N: "tokens_ok N" and l: "tokens_ok l"
  shows "\<exists>g a. build_graph (llada_cmds N l) = Inr g \<and> plannable g \<and> analyze g = Inr a \<and>
      generate_optimized_reuse_plan g = Inr (an_reuse_plan a) \<and>
      peaks_of (analyze_components_from_timeline (memory_timeline a)) =
        (mb (32768 * N), mb (57344 * N), mb (252928 * l))"
    and "\<exists>g a. build_graph (dream_cmds N l) = Inr g \<and> plannable g \<and> analyze g = Inr a \<and>
      generate_optimized_reuse_plan g = Inr (an_reuse_plan a) \<and>
      peaks_of (analyze_components_from_timeline (memory_timeline a)) =
        (mb (22528 * N), mb (82944 * N), mb (304128 * l))"
    and "\<exists>g a. build_graph (llada_moe_cmds N l) = Inr g \<and> plannable g \<and> analyze g = Inr a \<and>
      generate_optimized_reuse_plan g = Inr (an_reuse_plan a) \<and>
      peaks_of (analyze_components_from_timeline (memory_timeline a)) =
        (mb (16384 * N), mb (36864 * N), mb (314368 * l))"
  using analysis_of_cmds [OF cmds_build(1) [OF N N l] cmds_skeleton(1) positive_totals(1) [OF N N l] plain_peaks(1) [OF N l]]
    analysis_of_cmds [OF cmds_build(3) [OF N N l] cmds_skeleton(3) positive_totals(2) [OF N N l] plain_peaks(2) [OF N l]]
    analysis_of_cmds [OF cmds_build(5) [OF N N l] cmds_skeleton(5) positive_totals(3) [OF N N l] plain_peaks(3) [OF N l]]
  by blast+

lemma chunk_analysis:
  assumes ok: "tokens_ok N" "tokens_ok c" "tokens_ok l" and c: "c \<le> N"
  shows "\<exists>g a. build_graph (llada_chunk_cmds True N c l) = Inr g \<and> plannable g \<and> analyze g = Inr a \<and>
      generate_optimized_reuse_plan g = Inr (an_reuse_plan a) \<and>
      peaks_of (analyze_components_from_timeline (memory_timeline a)) =
        (mb (32768 * N), mb (24576 * N + 73728 * c), mb (252928 * l))"
    and "\<exists>g a. build_graph (dream_chunk_cmds True N c l) = Inr g \<and> plannable g \<and> analyze g = Inr a \<and>
      generate_optimized_reuse_plan g = Inr (an_reuse_plan a) \<and>
      peaks_of (analyze_components_from_timeline (memory_timeline a)) =
        (mb (22528 * N), mb (21504 * N + 113664 * c), mb (304128 * l))"
    and "\<exists>g a. build_graph (llada_moe_chunk_cmds True N c l) = Inr g \<and> plannable g \<and> analyze g = Inr a \<and>
      generate_optimized_reuse_plan g = Inr (an_reuse_plan a) \<and>
      peaks_of (analyze_components_from_timeline (memory_timeline a)) =
        (mb (16384 * N), mb (12288 * N + 81920 * c), mb (314368 * l))"
  using analysis_of_cmds [OF cmds_build(2) [OF ok] cmds_skeleton(2) positive_totals(4) [OF ok] chunk_peaks(1) [OF ok c]]
    analysis_of_cmds [OF cmds_build(4) [OF ok] cmds_skeleton(4) positive_totals(5) [OF ok] chunk_peaks(2) [OF ok c]]
    analysis_of_cmds [OF cmds_build(6) [OF ok] cmds_skeleton(6) positive_totals(6) [OF ok] chunk_peaks(3) [OF ok c]]
  by blast+

text \<open>The graph of a configuration is the graph of its chunk sizes.\<close>

lemma config_graph_cmds:
  fixes P Op :: int and cfg :: search_config
  assumes "cfg_ok cfg"
  defines "c \<equiv> if cfg_chunk_mlp cfg then ceil_div P (cfg_num_chunks_mlp cfg) else P"
    and "l \<equiv> if cfg_chunk_logits cfg then ceil_div Op (cfg_num_chunks_logits cfg) else Op"
  shows "is_llada model \<Longrightarrow> config_graph model P Op cfg = build_graph (llada_chunk_cmds (cfg_chunk_mlp cfg) P c l)"
    and "is_dream model \<Longrightarrow> config_graph model P Op cfg = build_graph (dream_chunk_cmds (cfg_chunk_mlp cfg) P c l)"
    and "is_moe model \<Longrightarrow> config_graph model P Op cfg = build_graph (llada_moe_chunk_cmds (cfg_chunk_mlp cfg) P c l)"
  using assms(1)
  by (auto simp: config_graph_def define_graph_def define_graph_chunkwise_def is_llada_def is_dream_def
      is_moe_def cfg_ok_def c_def l_def chunk_cmds_plain Let_def define_llada_block_graph_def
      define_dream_block_graph_def define_llada_moe_block_graph_def define_llada_block_graph_chunkwise_def
      define_dream_block_graph_chunkwise_def define_llada_moe_block_graph_chunkwise_def)

lemma cfg_chunk_sizes:
  assumes "tokens_ok P" and "tokens_ok Op" and "cfg_ok cfg"
  shows "tokens_ok (ceil_div P (cfg_num_chunks_mlp cfg))" "ceil_div P (cfg_num_chunks_mlp cfg) \<le> P"
    and "tokens_ok (if cfg_chunk_logits cfg then ceil_div Op (cfg_num_chunks_logits cfg) else Op)"
  using assms tokens_ok_ceil_div ceil_div_le [of "cfg_num_chunks_mlp cfg" P]
  by (auto simp: cfg_ok_def tokens_ok_pos less_imp_le)

interpretation llada_search: shrinking_search is_llada "\<lambda>N. 32768 * N" "\<lambda>N. 57344 * N"
  "\<lambda>N c. 24576 * N + 73728 * c" "\<lambda>l. 252928 * l" 9
proof (unfold_locales, goal_cases)
  case (1 model P Op cfg)
  note sizes = cfg_chunk_sizes [OF 1(2-4)]
  show ?case
    unfolding config_graph_cmds(1) [OF 1(4,1)]
    using plain_analysis(1) [OF 1(2) sizes(3)] chunk_analysis(1) [OF 1(2) sizes(1,3,2)]
    by (cases "cfg_chunk_mlp cfg") (simp_all only: if_True if_False chunk_cmds_plain)
qed auto

interpretation dream_search: shrinking_search is_dream "\<lambda>N. 22528 * N" "\<lambda>N. 82944 * N"
  "\<lambda>N c. 21504 * N + 113664 * c" "\<lambda>l. 304128 * l" 111
proof (unfold_locales, goal_cases)
  case (1 model P Op cfg)
  note sizes = cfg_chunk_sizes [OF 1(2-4)]
  show ?case
    unfolding config_graph_cmds(2) [OF 1(4,1)]
    using plain_analysis(2) [OF 1(2) sizes(3)] chunk_analysis(2) [OF 1(2) sizes(1,3,2)]
    by (cases "cfg_chunk_mlp cfg") (simp_all only: if_True if_False chunk_cmds_plain)
qed auto

interpretation moe_search: shrinking_search is_moe "\<lambda>N. 16384 * N" "\<lambda>N. 36864 * N"
  "\<lambda>N c. 12288 * N + 81920 * c" "\<lambda>l. 314368 * l" 20
proof (unfold_locales, goal_cases)
  case (1 model P Op cfg)
  note sizes = cfg_chunk_sizes [OF 1(2-4)]
  show ?case
    unfolding config_graph_cmds(3) [OF 1(4,1)]
    using plain_analysis(3) [OF 1(2) sizes(3)] chunk_analysis(3) [OF 1(2) sizes(1,3,2)]
    by (cases "cfg_chunk_mlp cfg") (simp_all only: if_True if_False chunk_cmds_plain)
qed auto

section \<open>Properties of the search\<close>

lemma model_families: "is_llada model \<or> is_dream model \<or> is_moe model"
  by (auto simp: is_llada_def is_dream_def is_moe_def)

lemmas search_sound = llada_search.search_loop_sound dream_search.search_loop_sound
  moe_search.search_loop_sound
lemmas search_error = llada_search.search_loop_error dream_search.search_loop_error
  moe_search.search_loop_error

text \<open>The number of tokens from which the finest chunks no longer exceed the fixed part.\<close>

definition min_search_tokens :: "string \<Rightarrow> int" where
  "min_search_tokens model = (if is_moe model then 20 else if is_dream model then 111 else 9)"

lemma search_loop_end:
  assumes "tokens_ok P" and "tokens_ok Op" and "min_search_tokens model \<le> P" and "nat (P + Op) \<le> fuel"
  shows "\<exists>r. search_loop fuel model P Op pool initial_config = Some r"
proof -
  have m: "nat (Op - cfg_num_chunks_logits initial_config) + nat (P - cfg_num_chunks_mlp initial_config) < fuel"
    "cfg_num_chunks_logits initial_config \<le> Op" "cfg_num_chunks_mlp initial_config \<le> P"
    using assms(1,2,4) tokens_ok_pos [of P] tokens_ok_pos [of Op] by (auto simp: initial_config_def)
  note ok = assms(1,2) and m' = cfg_ok_initial m(2,3,1)
  consider "is_llada model" | "is_dream model" | "is_moe model" using model_families by blast
  then show ?thesis
  proof cases
    case 1
    then have "9 \<le> P" using assms(3) by (simp add: min_search_tokens_def is_llada_def is_moe_def is_dream_def)
    then show ?thesis using llada_search.search_loop_returns [OF 1 ok _ m'] by blast
  next
    case 2
    then have "111 \<le> P" using assms(3) by (simp add: min_search_tokens_def is_moe_def is_dream_def)
    then show ?thesis using dream_search.search_loop_returns [OF 2 ok _ m'] by blast
  next
    case 3
    then have "20 \<le> P" using assms(3) by (simp add: min_search_tokens_def)
    then show ?thesis using moe_search.search_loop_returns [OF 3 ok _ m'] by blast
  qed
qed

lemma search_loop_diverges:
  assumes ok: "tokens_ok P" "tokens_ok Op" and small: "P < min_search_tokens model" and pool: "pool < 0"
  shows "search_loop fuel model P Op pool initial_config = None"
proof -
  have P: "0 < P" using ok(1) by (rule tokens_ok_pos)
  consider "is_llada model" | "is_dream model" | "is_moe model" using model_families by blast
  then show ?thesis
  proof cases
    case 1
    then have "P < 9" using small by (simp add: min_search_tokens_def is_llada_def is_moe_def is_dream_def)
    then show ?thesis
      using P by (intro llada_search.search_loop_stuck [OF 1 ok cfg_ok_initial pool]) auto
  next
    case 2
    then have "P < 111" using small by (simp add: min_search_tokens_def is_moe_def is_dream_def)
    then show ?thesis
      using P by (intro dream_search.search_loop_stuck [OF 2 ok cfg_ok_initial pool]) auto
  next
    case 3
    then have "P < 20" using small by (simp add: min_search_tokens_def)
    then show ?thesis
      using P by (intro moe_search.search_loop_stuck [OF 3 ok cfg_ok_initial pool]) auto
  qed
qed

text \<open>Property C8. A configuration returned by the online search fits: its arena plus the safety
  margin of 900 MB (1600 MB for a mixture-of-experts model) is at most the pool, its chunk counts
  are positive, the reported size is the size of the plan of exactly that configuration, and
  running the block in that plan computes the same values as with separate storage.\<close>

theorem search_result_fits:
  assumes "tokens_ok P" and "tokens_ok Op"
    and "search_optimal_config_online fuel P Op pool_size model = Some (Inr r)" and "op_sized sem"
  shows "total_bytes r + (if is_moe model then 1600 else 900) * 1024 * 1024 \<le> pool_size \<and>
     0 < cfg_num_chunks_logits (res_config r) \<and> 0 < cfg_num_chunks_mlp (res_config r) \<and>
     (\<exists>g p. config_graph model P Op (res_config r) = Inr g \<and> generate_optimized_reuse_plan g = Inr p \<and>
        total_bytes r = total_buffer_size_bytes p \<and>
        run_arena sem p (execution_order g) mem = run_values sem (execution_order g) env)"
proof -
  have "cfg_ok (res_config r) \<and> accepts model (pool_size - 900 * 1024 * 1024) (total_bytes r) \<and>
     (\<exists>g p. config_graph model P Op (res_config r) = Inr g \<and> plannable g \<and>
        generate_optimized_reuse_plan g = Inr p \<and> total_bytes r = total_buffer_size_bytes p)"
    using assms(3) model_families [of model] search_sound [OF _ assms(1,2) cfg_ok_initial]
    unfolding search_optimal_config_online_def by blast
  then show ?thesis
    using plannable_run [OF _ assms(4), of _ mem env]
    by (force simp: accepts_def is_moe_def cfg_ok_def)
qed

theorem search_result_fits_witness:
  "\<exists>r. search_optimal_config_online 1 9 1 1000000000 ''llada'' = Some (Inr r) \<and>
     total_bytes r + 900 * 1024 * 1024 \<le> 1000000000"
proof -
  have "(case search_optimal_config_online 1 9 1 1000000000 ''llada'' of
      Some (Inr r) \<Rightarrow> True | _ \<Rightarrow> False)" by code_simp
  then obtain r where r: "search_optimal_config_online 1 9 1 1000000000 ''llada'' = Some (Inr r)"
    by (auto split: option.splits sum.splits)
  have "op_sized demo_sem" "\<not> is_moe ''llada''" "tokens_ok 9" "tokens_ok 1"
    by (simp add: op_sized_def demo_sem_def, code_simp, simp_all add: tokens_ok_def)
  then show ?thesis using search_result_fits [OF _ _ r] r by auto
qed

text \<open>Property C22. The search ends: from 9 tokens on for LLaDA, 20 for LLaDA-MoE and 111 for
  Dream, after at most as many turns as there are tokens and logits rows, with a configuration or
  with the out-of-memory error.\<close>

theorem search_terminates:
  assumes "tokens_ok P" and "tokens_ok Op" and "min_search_tokens model \<le> P" and "nat (P + Op) \<le> fuel"
  shows "(\<exists>r. search_optimal_config_online fuel P Op pool_size model = Some (Inr r)) \<or>
         search_optimal_config_online fuel P Op pool_size model = Some (Inl RuntimeError)"
proof -
  obtain r where r: "search_optimal_config_online fuel P Op pool_size model = Some r"
    using search_loop_end [OF assms] unfolding search_optimal_config_online_def by blast
  show ?thesis
  proof (cases r)
    case (Inl e)
    then have "e = RuntimeError"
      using r model_families [of model] search_error [OF _ assms(1,2) cfg_ok_initial]
      unfolding search_optimal_config_online_def by blast
    then show ?thesis using r Inl by simp
  qed (use r in blast)
qed

theorem search_terminates_witness:
  "\<exists>r. search_optimal_config_online 12 9 3 0 ''llada'' = Some r"
proof -
  have "min_search_tokens ''llada'' = 9" by code_simp
  then show ?thesis using search_terminates [of 9 3 "''llada''" 12 0] by (auto simp: tokens_ok_def)
qed

text \<open>Property C23. Below those counts the search does not end when the pool is smaller than the
  safety margin: the chunked MLP stays above the fixed part however many chunks are taken, so the
  loop neither accepts nor raises the out-of-memory error it documents.\<close>

theorem search_diverges_on_few_tokens:
  assumes "tokens_ok P" and "tokens_ok Op" and "P < min_search_tokens model"
    and "pool_size < 900 * 1024 * 1024"
  shows "search_optimal_config_online fuel P Op pool_size model = None"
  unfolding search_optimal_config_online_def using assms by (intro search_loop_diverges) auto

theorem search_diverges_on_few_tokens_witness:
  "\<forall>fuel. search_optimal_config_online fuel 100 4 0 ''dream'' = None"
proof -
  have "min_search_tokens ''dream'' = 111" by code_simp
  then show ?thesis using search_diverges_on_few_tokens [of 100 4 "''dream''" 0] by (simp add: tokens_ok_def)
qed

end
