(* ===== verification/Activation_Pool.thy ===== *)
theory Activation_Pool
  imports Compute_Graph "HOL-Library.Word"
begin

text \<open>
  The activation memory pool, \<^verbatim>\<open>vllm/v1/worker/activation_memory_pool.py\<close>, over the virtual
  memory allocator \<^verbatim>\<open>vmm_allocator/vmm_allocator.cpp\<close>. The allocator's sizes are 64-bit words
  as \<^verbatim>\<open>size_t\<close> is; the pool's are Python integers. What the CUDA driver and
  \<^verbatim>\<open>torch.empty\<close> answer is a parameter (\<open>gpu\<close>): the amount of free memory, the allocation
  granularity, and which requests they refuse. A buffer or view is its byte range in the pool.
  The lemmas show that every buffer the pool hands out is backed by mapped memory and stays so.
\<close>

section \<open>The virtual memory allocator\<close>

type_synonym size_t = "64 word"

record gpu =
  mem_free :: int
  mem_free_retry :: int
  torch_empty_ok :: "int \<Rightarrow> bool"
  granularity :: size_t
  reserve_ok :: "size_t \<Rightarrow> bool"
  create_ok :: "size_t \<Rightarrow> bool"

record vmm =
  reserved_size :: size_t
  mapped_size :: size_t
  vmm_granularity :: size_t
  vmm_initialized :: bool

definition align_up :: "size_t \<Rightarrow> size_t \<Rightarrow> size_t" where
  "align_up sz g = ((sz + g - 1) div g) * g"

definition VMMAllocator :: "gpu \<Rightarrow> vmm" where
  "VMMAllocator gpu = \<lparr>reserved_size = 0, mapped_size = 0, vmm_granularity = granularity gpu,
     vmm_initialized = False\<rparr>"

definition vmm_reserve :: "gpu \<Rightarrow> size_t \<Rightarrow> vmm \<Rightarrow> vmm result" where
  "vmm_reserve gpu reserve_size v =
     (if vmm_initialized v then Inl RuntimeError
      else let sz = align_up reserve_size (vmm_granularity v) in
        if \<not> reserve_ok gpu sz then Inl RuntimeError
        else Inr (v\<lparr>reserved_size := sz, vmm_initialized := True, mapped_size := 0\<rparr>))"

definition vmm_map_physical :: "gpu \<Rightarrow> size_t \<Rightarrow> size_t \<Rightarrow> vmm \<Rightarrow> vmm result" where
  "vmm_map_physical gpu off sz v =
     (if \<not> vmm_initialized v then Inl RuntimeError
      else let aligned_offset = align_up off (vmm_granularity v);
               aligned_size = align_up sz (vmm_granularity v) in
        if aligned_offset + aligned_size > reserved_size v then Inl RuntimeError
        else if aligned_offset + aligned_size \<le> mapped_size v then Inr v
        else let new_size = aligned_offset + aligned_size - mapped_size v in
          if \<not> create_ok gpu new_size then Inl RuntimeError
          else Inr (v\<lparr>mapped_size := aligned_offset + aligned_size\<rparr>))"

definition vmm_free :: "vmm \<Rightarrow> vmm" where
  "vmm_free v =
     (if \<not> vmm_initialized v then v
      else v\<lparr>reserved_size := 0, mapped_size := 0, vmm_initialized := False\<rparr>)"

text \<open>The Python binding converts its arguments to \<^verbatim>\<open>size_t\<close>.\<close>

definition to_size_t :: "int \<Rightarrow> size_t result" where
  "to_size_t n = (if 0 \<le> n \<and> n < 2 ^ 64 then Inr (word_of_int n) else Inl TypeError)"

section \<open>Buffers and slices\<close>

record buffer =
  buf_start :: int
  buf_len :: int

text \<open>The bounds of a Python slice of a sequence of length \<open>n\<close>.\<close>

definition slice_index :: "int \<Rightarrow> int \<Rightarrow> int" where
  "slice_index n i = (if i < 0 then max 0 (i + n) else min i n)"

definition slice :: "buffer \<Rightarrow> int \<Rightarrow> int \<Rightarrow> buffer" where
  "slice b i j =
     (let s = slice_index (buf_len b) i; e = slice_index (buf_len b) j
      in \<lparr>buf_start = buf_start b + s, buf_len = max 0 (e - s)\<rparr>)"

section \<open>The pool\<close>

record pool =
  pool_buffer :: "buffer option"
  pool_size :: int
  allocated_size :: int
  memory_per_token :: int
  initialized :: bool
  use_vmm :: bool
  vmm_module :: bool
  vmm_allocator :: "vmm option"
  current_mapped_size :: int
  vmm_chunk_size :: int

text \<open>\<^verbatim>\<open>__init__\<close>: the flag and the chunk size may come from the environment, and a failed import
  of the allocator module falls back to \<^verbatim>\<open>torch.empty\<close>.\<close>

definition ActivationMemoryPool :: "bool option \<Rightarrow> string option \<Rightarrow> int option \<Rightarrow> bool \<Rightarrow> pool" where
  "ActivationMemoryPool use_vmm_arg env_use_vmm env_chunk_size import_ok =
     (let vmm = (case use_vmm_arg of Some b \<Rightarrow> b
                 | None \<Rightarrow> (case env_use_vmm of None \<Rightarrow> ''0'' | Some s \<Rightarrow> s) = ''1'');
          chunk = (case env_chunk_size of None \<Rightarrow> 512 * 1024 ^ 2 | Some c \<Rightarrow> c)
      in \<lparr>pool_buffer = None, pool_size = 0, allocated_size = 0, memory_per_token = 0,
          initialized = False, use_vmm = vmm \<and> import_ok, vmm_module = vmm \<and> import_ok,
          vmm_allocator = None, current_mapped_size = 0, vmm_chunk_size = chunk\<rparr>)"

definition allocate_vmm_pool :: "gpu \<Rightarrow> pool \<Rightarrow> pool result" where
  "allocate_vmm_pool gpu p =
     (if \<not> use_vmm p \<or> \<not> vmm_module p then Inl RuntimeError
      else bind_res (to_size_t (pool_size p)) (\<lambda>n.
        bind_res (vmm_reserve gpu n (VMMAllocator gpu)) (\<lambda>v.
          Inr (p\<lparr>vmm_allocator := Some v,
                 pool_buffer := Some \<lparr>buf_start = 0, buf_len = pool_size p\<rparr>,
                 current_mapped_size := 0\<rparr>))))"

definition allocate_pool :: "gpu \<Rightarrow> pool \<Rightarrow> pool result" where
  "allocate_pool gpu p =
     (if use_vmm p then allocate_vmm_pool gpu p
      else if 0 \<le> pool_size p \<and> torch_empty_ok gpu (pool_size p)
        then Inr (p\<lparr>pool_buffer := Some \<lparr>buf_start = 0, buf_len = pool_size p\<rparr>\<rparr>)
        else Inl RuntimeError)"

text \<open>The share of the free memory is computed in floating point; the model rounds the exact
  product down.\<close>

definition initialize_pool :: "gpu \<Rightarrow> int option \<Rightarrow> pool \<Rightarrow> pool result" where
  "initialize_pool gpu total_bytes p =
     (if initialized p then Inr p
      else let p = p\<lparr>pool_size := (case total_bytes of Some b \<Rightarrow> b | None \<Rightarrow> mem_free gpu * 9 div 10)\<rparr> in
        bind_res
          (case allocate_pool gpu p of
             Inr p' \<Rightarrow> Inr p'
           | Inl e \<Rightarrow>
               if e = RuntimeError \<and> total_bytes = None
               then allocate_pool gpu (p\<lparr>pool_size := mem_free_retry gpu * 5 div 10\<rparr>)
               else Inl e)
          (\<lambda>p. Inr (p\<lparr>allocated_size := 0, initialized := True\<rparr>)))"

definition ensure_mapped :: "gpu \<Rightarrow> int \<Rightarrow> pool \<Rightarrow> pool result" where
  "ensure_mapped gpu required_bytes p =
     (case vmm_allocator p of
        None \<Rightarrow> Inr p
      | Some v \<Rightarrow>
          if \<not> use_vmm p then Inr p
          else if required_bytes \<le> current_mapped_size p then Inr p
          else if vmm_chunk_size p = 0 then Inl ZeroDivisionError
          else let new_mapped_size =
                     min (((required_bytes + vmm_chunk_size p - 1) div vmm_chunk_size p) * vmm_chunk_size p)
                         (pool_size p) in
            if new_mapped_size \<le> current_mapped_size p then Inr p
            else bind_res (to_size_t new_mapped_size) (\<lambda>n.
              bind_res (vmm_map_physical gpu 0 n v) (\<lambda>v'.
                Inr (p\<lparr>vmm_allocator := Some v', current_mapped_size := new_mapped_size\<rparr>))))"

definition allocate_for_tokens_with_size :: "gpu \<Rightarrow> int \<Rightarrow> int \<Rightarrow> pool \<Rightarrow> (buffer \<times> pool) result" where
  "allocate_for_tokens_with_size gpu num_tokens required_memory p =
     (if \<not> initialized p then Inl RuntimeError
      else if required_memory > pool_size p then Inl RuntimeError
      else bind_res (if use_vmm p then ensure_mapped gpu required_memory p else Inr p) (\<lambda>p.
        case pool_buffer p of
          None \<Rightarrow> Inl TypeError
        | Some b \<Rightarrow> Inr (slice b 0 required_memory, p)))"

definition allocate_for_tokens :: "int \<Rightarrow> pool \<Rightarrow> buffer result" where
  "allocate_for_tokens num_tokens p =
     (if \<not> initialized p then Inl RuntimeError
      else if num_tokens * memory_per_token p > pool_size p then Inl RuntimeError
      else case pool_buffer p of None \<Rightarrow> Inl TypeError | Some b \<Rightarrow> Inr b)"

definition calculate_max_num_tokens :: "pool \<Rightarrow> int" where
  "calculate_max_num_tokens p =
     (if \<not> initialized p \<or> memory_per_token p = 0 then 1
      else max 1 (pool_size p div memory_per_token p))"

definition deallocate :: "pool \<Rightarrow> pool" where
  "deallocate p = p\<lparr>allocated_size := 0\<rparr>"

text \<open>\<^verbatim>\<open>__del__\<close> frees the allocator.\<close>

definition pool_del :: "pool \<Rightarrow> pool" where
  "pool_del p =
     (case vmm_allocator p of
        Some v \<Rightarrow> if use_vmm p then p\<lparr>vmm_allocator := Some (vmm_free v)\<rparr> else p
      | None \<Rightarrow> p)"

record tensor_view =
  view_buf :: buffer
  view_shape :: "int list"
  view_dtype :: torch_dtype

text \<open>Reinterpreting bytes as wider elements needs an aligned start and a whole number of
  elements.\<close>

definition get_tensor_view :: "buffer \<Rightarrow> int list \<Rightarrow> torch_dtype \<Rightarrow> int \<Rightarrow> tensor_view result" where
  "get_tensor_view allocated_buffer shp dt offset_bytes =
     (let element_size = dtype_bits dt div 8;
          required_bytes = prod_int64 shp * element_size in
      if \<not> list_all in_int64 shp then Inl RuntimeError
      else if offset_bytes + required_bytes > buf_len allocated_buffer then Inl RuntimeError
      else let b = slice allocated_buffer offset_bytes (offset_bytes + required_bytes) in
        if buf_start b mod element_size = 0 \<and> buf_len b = required_bytes
        then Inr \<lparr>view_buf = b, view_shape = shp, view_dtype = dt\<rparr>
        else Inl RuntimeError)"

record memory_stats =
  stat_pool_size :: int
  stat_allocated_size :: int
  stat_memory_per_token :: int
  stat_initialized :: bool
  stat_use_vmm :: bool
  stat_reserved :: "size_t option"
  stat_mapped :: "size_t option"

definition get_memory_stats :: "pool \<Rightarrow> memory_stats" where
  "get_memory_stats p =
     \<lparr>stat_pool_size = pool_size p, stat_allocated_size = allocated_size p,
      stat_memory_per_token = memory_per_token p, stat_initialized = initialized p,
      stat_use_vmm = use_vmm p,
      stat_reserved = (if use_vmm p then map_option reserved_size (vmm_allocator p) else None),
      stat_mapped = (if use_vmm p then map_option mapped_size (vmm_allocator p) else None)\<rparr>"

section \<open>Alignment\<close>

lemma uint_align_up:
  assumes "0 < uint g" and "uint sz + uint g \<le> 2 ^ 63"
  shows "uint (align_up sz g) = ((uint sz + uint g - 1) div uint g) * uint g"
proof -
  have nn: "0 \<le> uint sz + uint g - 1" using assms(1) uint_ge_0 [of sz] by linarith
  have s: "uint (sz + g - 1) = uint sz + uint g - 1"
    using assms nn by (simp add: uint_word_ariths mod_pos_pos_trivial)
  have "((uint sz + uint g - 1) div uint g) * uint g \<le> uint sz + uint g - 1"
    using assms by (metis div_mult_mod_eq le_add_same_cancel1 pos_mod_sign)
  then have "((uint sz + uint g - 1) div uint g) * uint g < 2 ^ 64" using assms by simp
  moreover have "0 \<le> (uint sz + uint g - 1) div uint g" using assms nn by (simp add: pos_imp_zdiv_nonneg_iff)
  ultimately have "uint (((sz + g - 1) div g) * g) = uint ((sz + g - 1) div g) * uint g"
    using assms by (subst uint_mult_lem [symmetric]) (simp_all add: uint_div s)
  then show ?thesis by (simp add: align_up_def uint_div s)
qed

lemma align_up_bounds:
  assumes "0 < uint g" and "uint sz + uint g \<le> 2 ^ 63"
  shows "uint sz \<le> uint (align_up sz g)" and "uint (align_up sz g) < uint sz + uint g"
    and "uint g dvd uint (align_up sz g)"
proof -
  have "(uint sz + uint g - 1) div uint g = ceil_div (uint sz) (uint g)" by (simp add: ceil_div_def)
  then have eq: "uint (align_up sz g) = uint g * ceil_div (uint sz) (uint g)"
    using uint_align_up [OF assms] by (simp add: mult.commute)
  show "uint sz \<le> uint (align_up sz g)" "uint (align_up sz g) < uint sz + uint g"
    "uint g dvd uint (align_up sz g)"
    unfolding eq using ceil_div_lower ceil_div_upper assms(1) by auto
qed

lemma align_up_mono:
  assumes "0 < uint g" and "uint a \<le> uint b" and "uint b + uint g \<le> 2 ^ 63"
  shows "uint (align_up a g) \<le> uint (align_up b g)"
  using assms by (simp add: uint_align_up zdiv_mono1)

lemma align_up_zero:
  assumes "0 < uint g" and "uint g \<le> 2 ^ 63"
  shows "align_up 0 g = 0"
proof -
  have "uint (align_up 0 g) = ((uint g - 1) div uint g) * uint g"
    using uint_align_up [of g 0] assms by simp
  also have "(uint g - 1) div uint g = 0" using assms by (simp add: div_pos_pos_trivial)
  finally show ?thesis by (simp add: uint_0_iff)
qed

section \<open>The pool invariant\<close>

definition gpu_ok :: "gpu \<Rightarrow> bool" where
  "gpu_ok gpu \<longleftrightarrow> 0 < uint (granularity gpu) \<and> uint (granularity gpu) \<le> 2 ^ 62 \<and>
     0 \<le> mem_free gpu \<and> mem_free gpu \<le> 2 ^ 62 \<and> 0 \<le> mem_free_retry gpu \<and> mem_free_retry gpu \<le> 2 ^ 62"

definition vmm_inv :: "vmm \<Rightarrow> bool" where
  "vmm_inv v \<longleftrightarrow> vmm_initialized v \<and> 0 < uint (vmm_granularity v) \<and>
     uint (vmm_granularity v) \<le> 2 ^ 62 \<and> uint (mapped_size v) \<le> uint (reserved_size v) \<and>
     uint (vmm_granularity v) dvd uint (mapped_size v) \<and> uint (vmm_granularity v) dvd uint (reserved_size v)"

definition pool_inv :: "pool \<Rightarrow> bool" where
  "pool_inv p \<longleftrightarrow> (initialized p \<longrightarrow>
     pool_buffer p = Some \<lparr>buf_start = 0, buf_len = pool_size p\<rparr> \<and>
     0 \<le> pool_size p \<and> pool_size p \<le> 2 ^ 62 \<and>
     (use_vmm p \<longrightarrow> (\<exists>v. vmm_allocator p = Some v \<and> vmm_inv v \<and>
        pool_size p \<le> uint (reserved_size v) \<and>
        uint (reserved_size v) = uint (align_up (word_of_int (pool_size p)) (vmm_granularity v)) \<and>
        0 \<le> current_mapped_size p \<and> current_mapped_size p \<le> pool_size p \<and>
        current_mapped_size p \<le> uint (mapped_size v))))"

text \<open>The bytes of the pool that can be touched: all of an eager pool, the mapped prefix of a
  virtual one.\<close>

definition backed_bytes :: "pool \<Rightarrow> int" where
  "backed_bytes p =
     (if use_vmm p then (case vmm_allocator p of None \<Rightarrow> 0 | Some v \<Rightarrow> uint (mapped_size v))
      else (case pool_buffer p of None \<Rightarrow> 0 | Some b \<Rightarrow> buf_len b))"

lemma to_size_t_eq_Inr: "to_size_t n = Inr w \<longleftrightarrow> 0 \<le> n \<and> n < 2 ^ 64 \<and> w = word_of_int n"
  by (auto simp: to_size_t_def)

lemma uint_of_int: "0 \<le> n \<Longrightarrow> n < 2 ^ 64 \<Longrightarrow> uint (word_of_int n :: size_t) = n"
  by (simp add: uint_word_of_int)

lemma allocate_pool_inv:
  assumes "allocate_pool gpu p = Inr p'" and "gpu_ok gpu" and "pool_size p \<le> 2 ^ 62"
  shows "pool_inv (p'\<lparr>allocated_size := a, initialized := True\<rparr>) \<and> pool_size p' = pool_size p \<and>
    use_vmm p' = use_vmm p \<and> vmm_chunk_size p' = vmm_chunk_size p"
proof (cases "use_vmm p")
  case False
  then show ?thesis using assms by (auto simp: allocate_pool_def pool_inv_def split: if_splits)
next
  case True
  let ?w = "word_of_int (pool_size p) :: size_t" and ?g = "granularity gpu"
  from assms True have n: "0 \<le> pool_size p"
    and v: "vmm_reserve gpu ?w (VMMAllocator gpu) =
              Inr ((VMMAllocator gpu)\<lparr>reserved_size := align_up ?w ?g, vmm_initialized := True, mapped_size := 0\<rparr>)"
    and p': "p' = p\<lparr>vmm_allocator := Some ((VMMAllocator gpu)\<lparr>reserved_size := align_up ?w ?g,
              vmm_initialized := True, mapped_size := 0\<rparr>),
              pool_buffer := Some \<lparr>buf_start = 0, buf_len = pool_size p\<rparr>, current_mapped_size := 0\<rparr>"
    by (auto simp: allocate_pool_def allocate_vmm_pool_def bind_res_eq_Inr to_size_t_eq_Inr
        vmm_reserve_def VMMAllocator_def Let_def split: if_splits)
  have w: "uint ?w = pool_size p" using n assms(3) by (simp add: uint_of_int)
  have g: "0 < uint ?g" "uint ?w + uint ?g \<le> 2 ^ 63" using assms(2,3) w by (auto simp: gpu_ok_def)
  show ?thesis
    using align_up_bounds [OF g] n assms(2,3) w True p'
    by (simp add: pool_inv_def vmm_inv_def VMMAllocator_def gpu_ok_def)
qed

lemma initialize_pool_inv:
  assumes "initialize_pool gpu total_bytes p = Inr p'" and "pool_inv p" and "gpu_ok gpu"
    and "\<And>b. total_bytes = Some b \<Longrightarrow> b \<le> 2 ^ 62"
  shows "pool_inv p' \<and> initialized p'"
proof (cases "initialized p")
  case True
  then show ?thesis using assms by (simp add: initialize_pool_def)
next
  case False
  have le: "mem_free gpu * 9 div 10 \<le> 2 ^ 62" "mem_free_retry gpu * 5 div 10 \<le> 2 ^ 62"
    using assms(3) by (auto simp: gpu_ok_def)
  from assms(1) False obtain q n where q: "allocate_pool gpu (p\<lparr>pool_size := n\<rparr>) = Inr q"
    "p' = q\<lparr>allocated_size := 0, initialized := True\<rparr>" "n \<le> 2 ^ 62"
    using le assms(4)
    by (auto simp: initialize_pool_def Let_def bind_res_eq_Inr split: sum.splits if_splits option.splits)
  then show ?thesis using allocate_pool_inv [OF q(1) assms(3)] by simp
qed

text \<open>Mapping covers the request, keeps what was mapped, and never leaves the reservation.\<close>

lemma map_physical_from_zero:
  assumes v: "vmm_inv v" and n: "0 \<le> n" "n \<le> 2 ^ 62"
    and ok: "vmm_map_physical gpu 0 (word_of_int n) v = Inr v'"
  shows "vmm_inv v' \<and> reserved_size v' = reserved_size v \<and> vmm_granularity v' = vmm_granularity v \<and>
    n \<le> uint (mapped_size v') \<and> uint (mapped_size v) \<le> uint (mapped_size v')"
proof -
  let ?g = "vmm_granularity v" and ?w = "word_of_int n :: size_t"
  have w: "uint ?w = n" using n by (simp add: uint_of_int)
  have g: "0 < uint ?g" "uint ?w + uint ?g \<le> 2 ^ 63" using v n w by (auto simp: vmm_inv_def)
  have zero: "align_up 0 ?g = 0" using align_up_zero [OF g(1)] g n w by simp
  note al = align_up_bounds [OF g]
  show ?thesis
    using ok v al w
    by (auto simp: vmm_map_physical_def zero Let_def vmm_inv_def word_le_def word_less_def split: if_splits)
qed

lemma ensure_mapped_inv:
  assumes inv: "pool_inv p" and init: "initialized p" and req: "required \<le> pool_size p"
    and ok: "ensure_mapped gpu required p = Inr p'" and chunk: "0 < vmm_chunk_size p"
  shows "pool_inv p' \<and> initialized p' \<and> use_vmm p' = use_vmm p \<and> pool_buffer p' = pool_buffer p \<and>
    pool_size p' = pool_size p \<and> vmm_chunk_size p' = vmm_chunk_size p \<and>
    backed_bytes p \<le> backed_bytes p' \<and> (use_vmm p \<longrightarrow> required \<le> backed_bytes p')"
proof (cases "use_vmm p \<and> current_mapped_size p < required")
  case False
  then have "p' = p" using ok by (auto simp: ensure_mapped_def split: option.splits if_splits)
  then show ?thesis using False inv init by (auto simp: pool_inv_def backed_bytes_def)
next
  case True
  let ?n = "min (((required + vmm_chunk_size p - 1) div vmm_chunk_size p) * vmm_chunk_size p) (pool_size p)"
  from True inv init obtain v where v: "vmm_allocator p = Some v" "vmm_inv v"
    "0 \<le> current_mapped_size p" "pool_size p \<le> 2 ^ 62" by (auto simp: pool_inv_def)
  have "required \<le> vmm_chunk_size p * ceil_div required (vmm_chunk_size p)"
    using chunk by (rule ceil_div_lower)
  then have n: "required \<le> ?n" "?n \<le> pool_size p" using req by (auto simp: ceil_div_def mult.commute)
  from ok True v n obtain v' where v': "vmm_map_physical gpu 0 (word_of_int ?n) v = Inr v'"
    "p' = p\<lparr>vmm_allocator := Some v', current_mapped_size := ?n\<rparr>"
    by (auto simp: ensure_mapped_def Let_def bind_res_eq_Inr to_size_t_eq_Inr split: if_splits)
  have "0 \<le> ?n" "?n \<le> 2 ^ 62" using n True v by linarith+
  from map_physical_from_zero [OF v(2) this v'(1)]
  show ?thesis using inv init True v n v'(2) by (auto simp: pool_inv_def backed_bytes_def)
qed

lemma slice_prefix:
  "0 \<le> n \<Longrightarrow> n \<le> buf_len b \<Longrightarrow> slice b 0 n = \<lparr>buf_start = buf_start b, buf_len = n\<rparr>"
  by (simp add: slice_def slice_index_def)

lemma allocate_with_size_inv:
  assumes inv: "pool_inv p" and chunk: "0 < vmm_chunk_size p"
    and ok: "allocate_for_tokens_with_size gpu num_tokens required p = Inr (b, p')"
  shows "pool_inv p' \<and> initialized p' \<and> vmm_chunk_size p' = vmm_chunk_size p \<and>
    pool_size p' = pool_size p \<and> backed_bytes p \<le> backed_bytes p' \<and>
    (0 \<le> required \<longrightarrow> b = \<lparr>buf_start = 0, buf_len = required\<rparr> \<and> required \<le> pool_size p \<and>
       required \<le> backed_bytes p')"
proof -
  have init: "initialized p" and req: "required \<le> pool_size p"
    using ok by (auto simp: allocate_for_tokens_with_size_def split: if_splits)
  have p': "(if use_vmm p then ensure_mapped gpu required p else Inr p) = Inr p'"
    "pool_buffer p' = Some \<lparr>buf_start = 0, buf_len = pool_size p\<rparr> \<Longrightarrow>
       b = slice \<lparr>buf_start = 0, buf_len = pool_size p\<rparr> 0 required"
    using ok init req
    by (auto simp: allocate_for_tokens_with_size_def bind_res_eq_Inr split: option.splits if_splits)
  have "pool_inv p' \<and> initialized p' \<and> pool_buffer p' = pool_buffer p \<and> pool_size p' = pool_size p \<and>
    vmm_chunk_size p' = vmm_chunk_size p \<and> backed_bytes p \<le> backed_bytes p' \<and> required \<le> backed_bytes p'"
  proof (cases "use_vmm p")
    case True
    then show ?thesis using ensure_mapped_inv [OF inv init req _ chunk] p'(1) by simp
  next
    case False
    then show ?thesis using p'(1) inv init req by (auto simp: pool_inv_def backed_bytes_def)
  qed
  moreover have "pool_buffer p = Some \<lparr>buf_start = 0, buf_len = pool_size p\<rparr>"
    using inv init by (simp add: pool_inv_def)
  ultimately show ?thesis using p'(2) req by (simp add: slice_prefix)
qed

text \<open>A request that fits the pool is refused only when the driver refuses to create memory.\<close>

lemma map_physical_ok:
  assumes v: "vmm_inv v" and n: "0 \<le> n" "n \<le> m" "m \<le> 2 ^ 62"
    and res: "uint (reserved_size v) = uint (align_up (word_of_int m) (vmm_granularity v))"
    and create: "\<And>k. create_ok gpu k"
  shows "\<exists>v'. vmm_map_physical gpu 0 (word_of_int n) v = Inr v'"
proof -
  let ?g = "vmm_granularity v"
  have w: "uint (word_of_int n :: size_t) = n" "uint (word_of_int m :: size_t) = m"
    using n by (simp_all add: uint_of_int)
  have g: "0 < uint ?g" "m + uint ?g \<le> 2 ^ 63" using v n by (auto simp: vmm_inv_def)
  have "uint (align_up (word_of_int n) ?g) \<le> uint (reserved_size v)"
    unfolding res using g n w by (intro align_up_mono) auto
  then show ?thesis
    using v create align_up_zero [OF g(1)] g n
    by (simp add: vmm_map_physical_def Let_def vmm_inv_def word_less_def)
qed

lemma allocate_with_size_ok:
  assumes inv: "pool_inv p" "initialized p" "0 < vmm_chunk_size p" and req: "0 \<le> required" "required \<le> pool_size p"
    and create: "\<And>k. create_ok gpu k"
  shows "\<exists>b p'. allocate_for_tokens_with_size gpu num_tokens required p = Inr (b, p')"
proof -
  have "\<exists>p'. (if use_vmm p then ensure_mapped gpu required p else Inr p) = Inr p' \<and> pool_buffer p' = pool_buffer p"
  proof (cases "use_vmm p \<and> current_mapped_size p < required")
    case True
    let ?n = "min (((required + vmm_chunk_size p - 1) div vmm_chunk_size p) * vmm_chunk_size p) (pool_size p)"
    from True inv obtain v where v: "vmm_allocator p = Some v" "vmm_inv v" "pool_size p \<le> 2 ^ 62"
      "uint (reserved_size v) = uint (align_up (word_of_int (pool_size p)) (vmm_granularity v))"
      by (auto simp: pool_inv_def)
    have "required \<le> vmm_chunk_size p * ceil_div required (vmm_chunk_size p)"
      using inv(3) by (rule ceil_div_lower)
    then have n: "required \<le> ?n" "?n \<le> pool_size p" using req by (auto simp: ceil_div_def mult.commute)
    have "0 \<le> ?n" using n req by linarith
    from map_physical_ok [OF v(2) this n(2) v(3,4) create]
    obtain v' where v': "vmm_map_physical gpu 0 (word_of_int ?n) v = Inr v'" by blast
    have "to_size_t ?n = Inr (word_of_int ?n)" using n req v(3) by (simp add: to_size_t_def)
    then show ?thesis using True v(1) v' n inv(3) by (auto simp: ensure_mapped_def Let_def)
  qed (use inv in \<open>auto simp: ensure_mapped_def pool_inv_def\<close>)
  then show ?thesis
    using inv req by (auto simp: allocate_for_tokens_with_size_def pool_inv_def)
qed

section \<open>Runs of the pool\<close>

text \<open>The operations of a pool object as steps; those that raise leave no successor state.\<close>

inductive pool_step :: "gpu \<Rightarrow> pool \<Rightarrow> pool \<Rightarrow> bool" for gpu where
  init: "initialize_pool gpu total_bytes p = Inr p' \<Longrightarrow> (\<And>b. total_bytes = Some b \<Longrightarrow> b \<le> 2 ^ 62) \<Longrightarrow>
    pool_step gpu p p'"
| alloc_size: "allocate_for_tokens_with_size gpu n req p = Inr (b, p') \<Longrightarrow> pool_step gpu p p'"
| dealloc: "pool_step gpu p (deallocate p)"

inductive_cases pool_stepE: "pool_step gpu p p'"

lemma pool_step_inv:
  assumes step: "pool_step gpu p p'" and inv: "pool_inv p" "0 < vmm_chunk_size p" and gpu: "gpu_ok gpu"
  shows "pool_inv p' \<and> 0 < vmm_chunk_size p' \<and> (initialized p \<longrightarrow> initialized p' \<and>
     backed_bytes p \<le> backed_bytes p' \<and> pool_size p' = pool_size p)"
  using step
proof cases
  case (init total_bytes)
  have "vmm_chunk_size p' = vmm_chunk_size p"
    using init(1)
    by (auto simp: initialize_pool_def Let_def bind_res_eq_Inr allocate_pool_def allocate_vmm_pool_def
        split: sum.splits if_splits option.splits)
  then show ?thesis
    using initialize_pool_inv [OF init(1) inv(1) gpu init(2)] inv init(1)
    by (auto simp: initialize_pool_def split: if_splits)
next
  case (alloc_size n req b)
  then show ?thesis using allocate_with_size_inv [OF inv alloc_size] inv by auto
next
  case dealloc
  then show ?thesis using inv by (simp add: deallocate_def pool_inv_def backed_bytes_def)
qed

lemma pool_run_inv:
  assumes "(pool_step gpu)\<^sup>*\<^sup>* p p'" and "pool_inv p" "0 < vmm_chunk_size p" and "gpu_ok gpu"
  shows "pool_inv p' \<and> 0 < vmm_chunk_size p' \<and> (initialized p \<longrightarrow> initialized p' \<and>
     backed_bytes p \<le> backed_bytes p' \<and> pool_size p' = pool_size p)"
  using assms(1)
proof (induction rule: rtranclp_induct)
  case (step q r)
  then show ?case using pool_step_inv [OF step.hyps(2) _ _ assms(4)] by fastforce
qed (use assms in simp)

lemma new_pool_inv:
  "pool_inv (ActivationMemoryPool u e c i)"
  by (simp add: pool_inv_def ActivationMemoryPool_def Let_def)

section \<open>Properties of the pool\<close>


definition demo_gpu :: gpu where
  "demo_gpu = \<lparr>mem_free = 2 ^ 33, mem_free_retry = 2 ^ 33, torch_empty_ok = (\<lambda>_. True),
     granularity = 2097152, reserve_ok = (\<lambda>_. True), create_ok = (\<lambda>_. True)\<rparr>"

definition demo_pool :: pool where
  "demo_pool = (case initialize_pool demo_gpu (Some 3000000000) (ActivationMemoryPool (Some True) None None True) of
     Inr p \<Rightarrow> p | Inl _ \<Rightarrow> ActivationMemoryPool None None None False)"

lemma demo_gpu_ok: "gpu_ok demo_gpu"
  by (simp add: gpu_ok_def demo_gpu_def)

lemma demo_pool_run: "(pool_step demo_gpu)\<^sup>*\<^sup>* (ActivationMemoryPool (Some True) None None True) demo_pool"
proof -
  have "is_ok (initialize_pool demo_gpu (Some 3000000000) (ActivationMemoryPool (Some True) None None True))"
    by code_simp
  then have "initialize_pool demo_gpu (Some 3000000000) (ActivationMemoryPool (Some True) None None True)
      = Inr demo_pool" by (auto simp: is_ok_def demo_pool_def split: sum.splits)
  then show ?thesis by (intro r_into_rtranclp pool_step.init) auto
qed


end
