(* ===== verification/Activation_Tensors.thy ===== *)
theory Activation_Tensors
  imports Online_Searcher Activation_Pool
begin

text \<open>
  How the models obtain their activation tensors: \<^verbatim>\<open>get_optimized_reuse_plan\<close>,
  \<^verbatim>\<open>get_naive_reuse_plan\<close> and \<^verbatim>\<open>allocate_activation_tensors_with_reuse_plan\<close> of
  \<^verbatim>\<open>vllm_add_llada/llada_model.py\<close>, \<^verbatim>\<open>vllm_add_dream/dream_model.py\<close> and
  \<^verbatim>\<open>vllm_add_llada_moe/llada_moe_model.py\<close>. The three classes have the same code up to the graph
  definers and the model name. \<open>None\<close> is a search that did not return within its fuel.
  The lemmas connect the searcher, the planner and the pool: whenever the search accepts, every
  tensor of the block gets an aligned view of its planned bytes.
\<close>

section \<open>Plans\<close>

record model_plan =
  mp_graph :: custom_graph
  mp_plan :: reuse_plan
  current_chunk_strategy :: "search_result option"

definition plan_of_graph :: "custom_graph \<Rightarrow> search_result option \<Rightarrow> model_plan result" where
  "plan_of_graph g strategy =
     bind_res (analyze g) (\<lambda>a.
       Inr \<lparr>mp_graph = g, mp_plan = an_reuse_plan a, current_chunk_strategy = strategy\<rparr>)"

definition optimized_reuse_plan ::
  "(int \<Rightarrow> int \<Rightarrow> custom_graph result) \<Rightarrow>
   (int \<Rightarrow> int \<Rightarrow> bool \<Rightarrow> bool \<Rightarrow> int \<Rightarrow> int \<Rightarrow> custom_graph result) \<Rightarrow> string \<Rightarrow>
   nat \<Rightarrow> bool \<Rightarrow> pool option \<Rightarrow> int \<Rightarrow> int \<Rightarrow> model_plan result option"
where
  "optimized_reuse_plan define_plain define_chunkwise model_name fuel use_chunkwise activation_pool N M =
     (if \<not> use_chunkwise
      then Some (bind_res (define_plain N M) (\<lambda>g. plan_of_graph g None))
      else case activation_pool of
        None \<Rightarrow> Some (Inl RuntimeError)
      | Some p \<Rightarrow>
          if \<not> initialized p then Some (Inl RuntimeError)
          else case search_optimal_config_online fuel N M (pool_size p) model_name of
            None \<Rightarrow> None
          | Some (Inl e) \<Rightarrow> Some (Inl e)
          | Some (Inr strategy) \<Rightarrow>
              let c = res_config strategy in
              Some (bind_res (define_chunkwise N M (cfg_chunk_logits c) (cfg_chunk_mlp c)
                                (cfg_num_chunks_logits c) (cfg_num_chunks_mlp c))
                      (\<lambda>g. plan_of_graph g (Some strategy))))"

definition llada_get_optimized_reuse_plan ::
  "nat \<Rightarrow> bool \<Rightarrow> pool option \<Rightarrow> int \<Rightarrow> int \<Rightarrow> model_plan result option" where
  "llada_get_optimized_reuse_plan =
     optimized_reuse_plan define_llada_block_graph define_llada_block_graph_chunkwise ''llada''"

definition dream_get_optimized_reuse_plan ::
  "nat \<Rightarrow> bool \<Rightarrow> pool option \<Rightarrow> int \<Rightarrow> int \<Rightarrow> model_plan result option" where
  "dream_get_optimized_reuse_plan =
     optimized_reuse_plan define_dream_block_graph define_dream_block_graph_chunkwise ''dream''"

definition llada_moe_get_optimized_reuse_plan ::
  "nat \<Rightarrow> bool \<Rightarrow> pool option \<Rightarrow> int \<Rightarrow> int \<Rightarrow> model_plan result option" where
  "llada_moe_get_optimized_reuse_plan =
     optimized_reuse_plan define_llada_moe_block_graph define_llada_moe_block_graph_chunkwise ''llada-moe''"

text \<open>The naive plan of LLaDA: every tensor after the previous one.\<close>

definition naive_specs :: "int \<Rightarrow> int \<Rightarrow> int \<Rightarrow> int \<Rightarrow> int \<Rightarrow> (string \<times> int list) list" where
  "naive_specs num_tokens d_model n_heads n_kv_heads hidden_size =
     (let head_dim = d_model div n_heads in
      [(''x'', [num_tokens, d_model]), (''x_normed'', [num_tokens, d_model]),
       (''q'', [num_tokens, d_model]), (''k'', [num_tokens, n_kv_heads * head_dim]),
       (''v'', [num_tokens, n_kv_heads * head_dim]), (''att_tmp'', [num_tokens, n_heads, head_dim]),
       (''att_out'', [num_tokens, d_model]), (''mlp_x'', [num_tokens, hidden_size]),
       (''mlp_x_up'', [num_tokens, hidden_size]), (''mlp_activated'', [num_tokens, hidden_size]),
       (''mlp_gated'', [num_tokens, hidden_size])])"

definition naive_step ::
  "string \<times> int list \<Rightarrow> (string \<rightharpoonup> plan_entry) \<times> int \<Rightarrow> ((string \<rightharpoonup> plan_entry) \<times> int) result"
where
  "naive_step spec s =
     (let tensor_size = prod_int64 (snd spec) * 2 in
      if list_all in_int64 (snd spec)
      then Inr ((fst s)(fst spec \<mapsto> \<lparr>offset = snd s, entry_size = tensor_size,
                  entry_shape = snd spec, entry_dtype = bfloat16\<rparr>), snd s + tensor_size)
      else Inl RuntimeError)"

definition get_naive_reuse_plan :: "int \<Rightarrow> int \<Rightarrow> int \<Rightarrow> int \<Rightarrow> int \<Rightarrow> reuse_plan result" where
  "get_naive_reuse_plan num_tokens d_model n_heads n_kv_heads hidden_size =
     (if n_heads = 0 then Inl ZeroDivisionError
      else bind_res (foldM naive_step (naive_specs num_tokens d_model n_heads n_kv_heads hidden_size) (Map.empty, 0))
        (\<lambda>s. Inr \<lparr>entries = fst s, total_buffer_size_bytes = snd s\<rparr>))"

section \<open>Tensors\<close>

text \<open>The loop over the items of the plan: its keys are the planned tensors in execution order;
  names that start with an underscore are metadata.\<close>

definition view_step ::
  "reuse_plan \<Rightarrow> buffer \<Rightarrow> string \<Rightarrow> (string \<rightharpoonup> tensor_view) \<Rightarrow> (string \<rightharpoonup> tensor_view) result"
where
  "view_step plan b k tensors =
     (case entries plan k of
        None \<Rightarrow> Inr tensors
      | Some e \<Rightarrow>
          if take 1 k = ''_'' then Inr tensors
          else bind_res (get_tensor_view b (entry_shape e) (entry_dtype e) (offset e))
                 (\<lambda>v. Inr (tensors(k \<mapsto> v))))"

definition tensors_of_plan ::
  "gpu \<Rightarrow> int \<Rightarrow> model_plan \<Rightarrow> pool \<Rightarrow> ((string \<rightharpoonup> tensor_view) \<times> pool) result"
where
  "tensors_of_plan gpu N mp p =
     bind_res (allocate_for_tokens_with_size gpu N (total_buffer_size_bytes (mp_plan mp)) p) (\<lambda>bp.
       bind_res (foldM (view_step (mp_plan mp) (fst bp)) (names_of (execution_order (mp_graph mp))) Map.empty)
         (\<lambda>tensors. Inr (tensors, snd bp)))"

text \<open>Any exception makes the method return \<^verbatim>\<open>None\<close>. The pool keeps what the allocation mapped
  before the exception.\<close>

definition allocate_activation_tensors_with_reuse_plan ::
  "(nat \<Rightarrow> bool \<Rightarrow> pool option \<Rightarrow> int \<Rightarrow> int \<Rightarrow> model_plan result option) \<Rightarrow>
   gpu \<Rightarrow> nat \<Rightarrow> bool \<Rightarrow> pool option \<Rightarrow> int \<Rightarrow> int \<Rightarrow> ((string \<rightharpoonup> tensor_view) \<times> pool) option option"
where
  "allocate_activation_tensors_with_reuse_plan get_plan gpu fuel use_chunkwise activation_pool N M =
     (case activation_pool of
        None \<Rightarrow> Some None
      | Some p \<Rightarrow>
          if \<not> initialized p then Some None
          else case get_plan fuel use_chunkwise activation_pool N M of
            None \<Rightarrow> None
          | Some (Inl _) \<Rightarrow> Some None
          | Some (Inr mp) \<Rightarrow>
              (case tensors_of_plan gpu N mp p of
                 Inl _ \<Rightarrow> Some None
               | Inr r \<Rightarrow> Some (Some r)))"

definition llada_allocate_activation_tensors ::
  "gpu \<Rightarrow> nat \<Rightarrow> bool \<Rightarrow> pool option \<Rightarrow> int \<Rightarrow> int \<Rightarrow> ((string \<rightharpoonup> tensor_view) \<times> pool) option option"
where
  "llada_allocate_activation_tensors =
     allocate_activation_tensors_with_reuse_plan llada_get_optimized_reuse_plan"

definition dream_allocate_activation_tensors ::
  "gpu \<Rightarrow> nat \<Rightarrow> bool \<Rightarrow> pool option \<Rightarrow> int \<Rightarrow> int \<Rightarrow> ((string \<rightharpoonup> tensor_view) \<times> pool) option option"
where
  "dream_allocate_activation_tensors =
     allocate_activation_tensors_with_reuse_plan dream_get_optimized_reuse_plan"

definition llada_moe_allocate_activation_tensors ::
  "gpu \<Rightarrow> nat \<Rightarrow> bool \<Rightarrow> pool option \<Rightarrow> int \<Rightarrow> int \<Rightarrow> ((string \<rightharpoonup> tensor_view) \<times> pool) option option"
where
  "llada_moe_allocate_activation_tensors =
     allocate_activation_tensors_with_reuse_plan llada_moe_get_optimized_reuse_plan"

section \<open>Aligned offsets\<close>

text \<open>When every tensor that is ever read has an even size, every offset is even: a block starts at
  zero or at the end of a block that is still to be read.\<close>

definition even_when_read :: "custom_graph \<Rightarrow> bool" where
  "even_when_read g \<longleftrightarrow>
     (\<forall>n \<in> set (execution_order g). even (node_size n) \<or> death_of g (output_name n) < 0)"

definition even_blocks :: "custom_graph \<Rightarrow> plan_state \<Rightarrow> bool" where
  "even_blocks g st \<longleftrightarrow>
     (\<forall>b \<in> set (allocated_blocks st). even (blk_start b) \<and>
        (even (blk_end b) \<or> death_of g (tensor_name b) < 0)) \<and>
     (\<forall>k e. plan_map st k = Some e \<longrightarrow> even (offset e))"

lemma even_blocks_record:
  assumes "even_blocks g st" and "even found"
    and "even (node_size x) \<or> death_of g (output_name x) < 0"
  shows "even_blocks g (record_block x found st)"
  using assms by (auto simp: even_blocks_def record_block_def Let_def)

lemma find_offset_even:
  assumes "\<forall>b \<in> set live. wf_block b \<and> even (blk_end b)" and "0 < sz"
  shows "even (find_offset sz live)"
  using find_offset_edge [of live sz] assms by auto

lemma plan_step_even:
  assumes ev: "even_when_read g" and x: "x \<in> set (execution_order g)" and st: "even_blocks g st"
    and wfb: "\<forall>b \<in> set (allocated_blocks st). wf_block b"
    and birth: "births (execution_order g) (output_name x) = Some birth" "0 \<le> birth"
    and step: "plan_step g (births (execution_order g)) (deaths g)
                 (int (length (execution_order g))) x st = Inr st'"
  shows "even_blocks g st'"
proof (cases "0 < node_size x")
  case False
  then show ?thesis using st step by (simp add: plan_step_def)
next
  case True
  let ?live = "live_blocks_at_birth (deaths g) (int (length (execution_order g))) birth (allocated_blocks st)"
  have "\<forall>b \<in> set ?live. wf_block b \<and> even (blk_end b)"
    using st wfb birth(2) by (auto simp: live_blocks_at_birth_def even_blocks_def death_of_def)
  then have off: "even (find_offset (node_size x) ?live)" using True by (rule find_offset_even)
  have sx: "even (node_size x) \<or> death_of g (output_name x) < 0" using ev x by (simp add: even_when_read_def)
  from step True birth(1) obtain found where st': "st' = record_block x found st"
    and "found = find_offset (node_size x) ?live \<or> (\<exists>t e. plan_map st t = Some e \<and> found = offset e)"
    by (auto simp: plan_step_def Let_def bind_res_eq_Inr split: option.splits)
  then have "even found" using off st by (auto simp: even_blocks_def)
  then show ?thesis unfolding st' using even_blocks_record [OF st _ sx] by blast
qed

lemma plan_offsets_even:
  assumes wf: "wf_graph g" and ok: "alias_ok g" and ev: "even_when_read g"
    and plan: "generate_optimized_reuse_plan g = Inr p" and e: "entries p k = Some e"
  shows "even (offset e)"
proof -
  obtain st where st: "plan_loop g = Inr st" "entries p = plan_map st"
    using plan by (auto simp: generate_optimized_reuse_plan_def bind_res_eq_Inr)
  let ?P = "\<lambda>ps st. plan_inv g ps st \<and> even_blocks g st"
  have "?P (execution_order g) st"
    using st(1) unfolding plan_loop_def
  proof (rule foldM_invariant [where P = ?P], goal_cases)
    case 1
    then show ?case using plan_inv_empty by (simp add: even_blocks_def empty_plan_def)
  next
    case (2 ps x qs s s')
    have inv: "plan_inv g ps s" using 2(2) by blast
    have "plan_inv g (ps @ [x]) s'" using plan_step_ok [OF wf ok 2(1) inv] 2(3) by auto
    moreover have "births (execution_order g) (output_name x) = Some (int (length ps))"
      using births_nth [of "execution_order g" "length ps"] wf 2(1) by (simp add: wf_graph_def)
    moreover have "x \<in> set (execution_order g)" using 2(1) by simp
    moreover have "\<forall>b \<in> set (allocated_blocks s). wf_block b" using inv by (auto simp: plan_inv_def)
    ultimately show ?case using plan_step_even [OF ev] 2(2,3) by auto
  qed
  then show ?thesis using e st(2) by (auto simp: even_blocks_def)
qed

section \<open>Graphs whose plans can be viewed\<close>

definition spec_ok :: "op_node \<Rightarrow> bool" where
  "spec_ok n \<longleftrightarrow> list_all in_int64 (ts_shape (output_spec n)) \<and>
     node_size n = prod_int64 (ts_shape (output_spec n)) * (dtype_bits (ts_dtype (output_spec n)) div 8) \<and>
     ts_dtype (output_spec n) \<in> {bfloat16, int8} \<and> take 1 (output_name n) \<noteq> ''_''"

definition viewable :: "custom_graph \<Rightarrow> bool" where
  "viewable g \<longleftrightarrow> plannable g \<and> even_when_read g \<and> (\<forall>n \<in> set (execution_order g). spec_ok n)"

fun cmd_ok :: "graph_cmd \<Rightarrow> bool" where
  "cmd_ok (AddOp out op ins shp dt) \<longleftrightarrow> dt \<in> {bfloat16, int8} \<and> take 1 out \<noteq> ''_''"
| "cmd_ok (AddAlias s t) \<longleftrightarrow> True"

lemma foldM_specs:
  "foldM run_cmd cs g = Inr g' \<Longrightarrow> list_all cmd_ok cs \<Longrightarrow> \<forall>n \<in> set (execution_order g). spec_ok n \<Longrightarrow>
   \<forall>n \<in> set (execution_order g'). spec_ok n"
proof (induction cs arbitrary: g)
  case (Cons c cs)
  then obtain h where h: "run_cmd c g = Inr h" "foldM run_cmd cs h = Inr g'"
    by (auto simp: bind_res_eq_Inr)
  have "\<forall>n \<in> set (execution_order h). spec_ok n"
    using h(1) Cons.prems(2,3)
    by (cases c) (auto elim!: add_op_cases add_alias_cases simp: TensorSpec_def Let_def spec_ok_def split: if_splits)
  then show ?case using Cons h(2) by simp
qed simp

definition even_lifetimes :: "(lifetime \<times> int) list \<Rightarrow> bool" where
  "even_lifetimes xs \<longleftrightarrow> list_all (\<lambda>((k, d, al), s). even s \<or> d < 0) xs"

lemma build_viewable:
  assumes ok: "is_ok (build_graph cs)" "skeleton_ok (map erase_shape cs)" and cmds: "list_all cmd_ok cs"
    and ev: "even_lifetimes (zip (lifetimes (map erase_shape cs)) (cmd_sizes cs))"
  shows "\<exists>g. build_graph cs = Inr g \<and> viewable g"
proof -
  obtain g where g: "build_graph cs = Inr g" "plannable g" using definer_plannable [OF ok] by blast
  obtain h where h: "build_graph (map erase_shape cs) = Inr h"
    using ok(2) by (auto simp: skeleton_ok_def split: sum.splits)
  have "same_skeleton CustomGraph CustomGraph" by (simp add: same_skeleton_def wf_graph_empty)
  then have "same_skeleton g h" using g(1) h unfolding build_graph_def by (rule build_skeleton)
  then have lf: "lifetimes (map erase_shape cs) = map (lifetime_of g) (names_of (execution_order g))"
    by (simp only: skeleton_lifetime lifetimes_def h sum.case)
  have sizes: "cmd_sizes cs = map node_size (execution_order g)"
    using foldM_sizes [OF g(1) [unfolded build_graph_def]] by (simp add: CustomGraph_def)
  have "even (node_size n) \<or> death_of g (output_name n) < 0" if n: "n \<in> set (execution_order g)" for n
  proof -
    have "(lifetime_of g (output_name n), node_size n) \<in> set (zip (lifetimes (map erase_shape cs)) (cmd_sizes cs))"
      using n unfolding lf sizes by (fastforce simp: in_set_zip in_set_conv_nth)
    then show ?thesis using ev by (fastforce simp: even_lifetimes_def list_all_iff lifetime_of_def)
  qed
  moreover have "\<forall>n \<in> set (execution_order g). spec_ok n"
    using foldM_specs [OF g(1) [unfolded build_graph_def] cmds] by (simp add: CustomGraph_def)
  ultimately show ?thesis using g by (auto simp: viewable_def even_when_read_def)
qed

lemma cmds_cmd_ok:
  "list_all cmd_ok (llada_cmds N l)" "list_all cmd_ok (llada_chunk_cmds True N c l)"
  "list_all cmd_ok (dream_cmds N l)" "list_all cmd_ok (dream_chunk_cmds True N c l)"
  "list_all cmd_ok (llada_moe_cmds N l)" "list_all cmd_ok (llada_moe_chunk_cmds True N c l)"
  by (simp_all add: llada_cmds_def dream_cmds_def llada_moe_cmds_def llada_chunk_cmds_def
      dream_chunk_cmds_def llada_moe_chunk_cmds_def Let_def)

lemma cmds_even:
  assumes ok: "tokens_ok N" "tokens_ok c" "tokens_ok l"
  shows "even_lifetimes (zip (lifetimes (map erase_shape (llada_cmds N l))) (cmd_sizes (llada_cmds N l)))"
    and "even_lifetimes (zip (lifetimes (map erase_shape (llada_chunk_cmds True N c l))) (cmd_sizes (llada_chunk_cmds True N c l)))"
    and "even_lifetimes (zip (lifetimes (map erase_shape (dream_cmds N l))) (cmd_sizes (dream_cmds N l)))"
    and "even_lifetimes (zip (lifetimes (map erase_shape (dream_chunk_cmds True N c l))) (cmd_sizes (dream_chunk_cmds True N c l)))"
    and "even_lifetimes (zip (lifetimes (map erase_shape (llada_moe_cmds N l))) (cmd_sizes (llada_moe_cmds N l)))"
    and "even_lifetimes (zip (lifetimes (map erase_shape (llada_moe_chunk_cmds True N c l))) (cmd_sizes (llada_moe_chunk_cmds True N c l)))"
  by (simp_all add: cmds_lifetimes cmds_sizes [OF ok(1,1,3)] chunk_lifetimes chunk_sizes [OF ok] even_lifetimes_def)

lemma cmds_viewable:
  assumes ok: "tokens_ok N" "tokens_ok c" "tokens_ok l"
  shows "\<exists>g. build_graph (llada_chunk_cmds b N c l) = Inr g \<and> viewable g"
    and "\<exists>g. build_graph (dream_chunk_cmds b N c l) = Inr g \<and> viewable g"
    and "\<exists>g. build_graph (llada_moe_chunk_cmds b N c l) = Inr g \<and> viewable g"
proof -
  note plain = ok(1) ok(1) ok(3)
  have "\<exists>g. build_graph (llada_cmds N l) = Inr g \<and> viewable g"
    "\<exists>g. build_graph (llada_chunk_cmds True N c l) = Inr g \<and> viewable g"
    using build_viewable [OF cmds_build(1) [OF plain] cmds_skeleton(1) cmds_cmd_ok(1) cmds_even(1) [OF plain]]
      build_viewable [OF cmds_build(2) [OF ok] cmds_skeleton(2) cmds_cmd_ok(2) cmds_even(2) [OF ok]] by blast+
  then show "\<exists>g. build_graph (llada_chunk_cmds b N c l) = Inr g \<and> viewable g"
    by (cases b) (simp_all only: chunk_cmds_plain)
  have "\<exists>g. build_graph (dream_cmds N l) = Inr g \<and> viewable g"
    "\<exists>g. build_graph (dream_chunk_cmds True N c l) = Inr g \<and> viewable g"
    using build_viewable [OF cmds_build(3) [OF plain] cmds_skeleton(3) cmds_cmd_ok(3) cmds_even(3) [OF plain]]
      build_viewable [OF cmds_build(4) [OF ok] cmds_skeleton(4) cmds_cmd_ok(4) cmds_even(4) [OF ok]] by blast+
  then show "\<exists>g. build_graph (dream_chunk_cmds b N c l) = Inr g \<and> viewable g"
    by (cases b) (simp_all only: chunk_cmds_plain)
  have "\<exists>g. build_graph (llada_moe_cmds N l) = Inr g \<and> viewable g"
    "\<exists>g. build_graph (llada_moe_chunk_cmds True N c l) = Inr g \<and> viewable g"
    using build_viewable [OF cmds_build(5) [OF plain] cmds_skeleton(5) cmds_cmd_ok(5) cmds_even(5) [OF plain]]
      build_viewable [OF cmds_build(6) [OF ok] cmds_skeleton(6) cmds_cmd_ok(6) cmds_even(6) [OF ok]] by blast+
  then show "\<exists>g. build_graph (llada_moe_chunk_cmds b N c l) = Inr g \<and> viewable g"
    by (cases b) (simp_all only: chunk_cmds_plain)
qed

text \<open>In particular the graph of every configuration of the search.\<close>

lemma config_graph_viewable:
  assumes "tokens_ok P" and "tokens_ok Op" and "cfg_ok cfg"
  shows "\<exists>g. config_graph model P Op cfg = Inr g \<and> viewable g"
proof -
  let ?c = "if cfg_chunk_mlp cfg then ceil_div P (cfg_num_chunks_mlp cfg) else P"
  let ?l = "if cfg_chunk_logits cfg then ceil_div Op (cfg_num_chunks_logits cfg) else Op"
  have ok: "tokens_ok ?c" "tokens_ok ?l" using cfg_chunk_sizes [OF assms] assms(1) by simp_all
  show ?thesis
    using model_families [of model] config_graph_cmds [OF assms(3), of model P Op]
      cmds_viewable [OF assms(1) ok] by metis
qed

section \<open>Views of a plan\<close>

lemma view_in_range:
  assumes b: "b = \<lparr>buf_start = 0, buf_len = total_buffer_size_bytes p\<rparr>"
    and n: "spec_ok n" and e: "entry_shape e = ts_shape (output_spec n)" "entry_dtype e = ts_dtype (output_spec n)"
      "entry_size e = node_size n" "0 < node_size n" "0 \<le> offset e"
      "offset e + entry_size e \<le> total_buffer_size_bytes p" "even (offset e)"
  shows "get_tensor_view b (entry_shape e) (entry_dtype e) (offset e) =
    Inr \<lparr>view_buf = \<lparr>buf_start = offset e, buf_len = entry_size e\<rparr>, view_shape = ts_shape (output_spec n),
         view_dtype = ts_dtype (output_spec n)\<rparr>"
proof -
  have es: "dtype_bits (entry_dtype e) div 8 \<in> {1, 2}"
    using n e by (auto simp: spec_ok_def bfloat16_def int8_def)
  have req: "prod_int64 (entry_shape e) * (dtype_bits (entry_dtype e) div 8) = entry_size e"
    using n e by (simp add: spec_ok_def)
  have sl: "slice b (offset e) (offset e + entry_size e) = \<lparr>buf_start = offset e, buf_len = entry_size e\<rparr>"
    using b e by (simp add: slice_def slice_index_def min_def)
  have "offset e mod (dtype_bits (entry_dtype e) div 8) = 0" using es e(7) by (auto simp: even_iff_mod_2_eq_zero)
  then show ?thesis
    using n e b sl by (simp add: get_tensor_view_def Let_def req spec_ok_def)
qed

lemma plan_entry_facts:
  assumes wf: "wf_graph g" and ok: "alias_ok g" and plan: "generate_optimized_reuse_plan g = Inr p"
    and n: "n \<in> set (execution_order g)"
  shows "0 < node_size n \<Longrightarrow> \<exists>e. entries p (output_name n) = Some e"
    and "entries p (output_name n) = Some e \<Longrightarrow> 0 < node_size n \<and> entry_size e = node_size n \<and>
      entry_shape e = ts_shape (output_spec n) \<and> entry_dtype e = ts_dtype (output_spec n) \<and>
      0 \<le> offset e \<and> offset e + entry_size e \<le> total_buffer_size_bytes p"
proof -
  from plan obtain st where st: "plan_loop g = Inr st"
    and p: "p = \<lparr>entries = plan_map st, total_buffer_size_bytes = max_offset st\<rparr>"
    by (auto simp: generate_optimized_reuse_plan_def bind_res_eq_Inr)
  note inv = plan_loop_inv [OF wf ok st]
  show "\<exists>e. entries p (output_name n) = Some e" if "0 < node_size n"
    using plan_inv_block [OF inv n that] p by auto
  show "0 < node_size n \<and> entry_size e = node_size n \<and>
      entry_shape e = ts_shape (output_spec n) \<and> entry_dtype e = ts_dtype (output_spec n) \<and>
      0 \<le> offset e \<and> offset e + entry_size e \<le> total_buffer_size_bytes p"
    if e: "entries p (output_name n) = Some e"
  proof -
    have sz: "0 < node_size n" "entry_size e = node_size n" "entry_shape e = ts_shape (output_spec n)"
      "entry_dtype e = ts_dtype (output_spec n)" using plan_loop_sizes [OF wf st n] e p by simp_all
    obtain b where b: "b \<in> set (allocated_blocks st)" "entry_of_block e b"
      using plan_inv_block [OF inv n sz(1)] e p by auto
    then have "wf_block b" "blk_end b \<le> max_offset st" using inv by (auto simp: plan_inv_def)
    then show ?thesis using b sz p by (auto simp: entry_of_block_def wf_block_def)
  qed
qed

abbreviation planned_view :: "op_node \<Rightarrow> plan_entry \<Rightarrow> tensor_view" where
  "planned_view n e \<equiv> \<lparr>view_buf = \<lparr>buf_start = offset e, buf_len = entry_size e\<rparr>,
     view_shape = ts_shape (output_spec n), view_dtype = ts_dtype (output_spec n)\<rparr>"

lemma views_of_plan:
  assumes g: "viewable g" and plan: "generate_optimized_reuse_plan g = Inr p"
    and b: "b = \<lparr>buf_start = 0, buf_len = total_buffer_size_bytes p\<rparr>"
  shows "\<exists>ts. foldM (view_step p b) (names_of (execution_order g)) Map.empty = Inr ts \<and>
     (\<forall>n \<in> set (execution_order g). 0 < node_size n \<longrightarrow>
        (\<exists>e. entries p (output_name n) = Some e \<and> ts (output_name n) = Some (planned_view n e)))"
proof -
  have wf: "wf_graph g" and ok: "alias_ok g" and ev: "even_when_read g"
    using g by (auto simp: viewable_def plannable_def)
  let ?P = "\<lambda>ks ts. \<forall>n \<in> set (execution_order g). output_name n \<in> set ks \<longrightarrow> 0 < node_size n \<longrightarrow>
      (\<exists>e. entries p (output_name n) = Some e \<and> ts (output_name n) = Some (planned_view n e))"
  have "\<exists>ts. foldM (view_step p b) (names_of (execution_order g)) Map.empty = Inr ts \<and>
      ?P (names_of (execution_order g)) ts"
  proof (rule foldM_total_invariant [where P = ?P])
    fix ks k qs ts assume split: "names_of (execution_order g) = ks @ k # qs" and P: "?P ks ts"
    have "k \<in> set (names_of (execution_order g))" using split by simp
    then obtain n where n: "n \<in> set (execution_order g)" "k = output_name n" by auto
    have same: "m = n" if "m \<in> set (execution_order g)" "output_name m = k" for m
      using that n wf by (auto simp: wf_graph_def distinct_map inj_on_def)
    show "\<exists>ts'. view_step p b k ts = Inr ts' \<and> ?P (ks @ [k]) ts'"
    proof (cases "entries p k")
      case None
      then have "\<not> 0 < node_size n" using plan_entry_facts(1) [OF wf ok plan n(1)] n(2) by auto
      then show ?thesis using None P same by (auto simp: view_step_def)
    next
      case (Some e)
      note f = plan_entry_facts(2) [OF wf ok plan n(1) Some [unfolded n(2)]]
      have spec: "spec_ok n" using g n(1) by (simp add: viewable_def)
      have "get_tensor_view b (entry_shape e) (entry_dtype e) (offset e) = Inr (planned_view n e)"
        using f plan_offsets_even [OF wf ok ev plan Some] by (intro view_in_range [OF b spec]) auto
      then have "view_step p b k ts = Inr (ts(k \<mapsto> planned_view n e))"
        using Some spec n(2) by (simp add: view_step_def spec_ok_def)
      then show ?thesis using P Some same n(2) by auto
    qed
  qed simp
  then show ?thesis by auto
qed

section \<open>From a request to its tensors\<close>

text \<open>The definers called after the search build the graph of the accepted configuration.\<close>

lemma chunkwise_of_config:
  assumes "cfg_ok cfg"
  shows "is_llada model \<Longrightarrow> define_llada_block_graph_chunkwise P Op (cfg_chunk_logits cfg) (cfg_chunk_mlp cfg)
      (cfg_num_chunks_logits cfg) (cfg_num_chunks_mlp cfg) = config_graph model P Op cfg"
    and "is_dream model \<Longrightarrow> define_dream_block_graph_chunkwise P Op (cfg_chunk_logits cfg) (cfg_chunk_mlp cfg)
      (cfg_num_chunks_logits cfg) (cfg_num_chunks_mlp cfg) = config_graph model P Op cfg"
    and "is_moe model \<Longrightarrow> define_llada_moe_block_graph_chunkwise P Op (cfg_chunk_logits cfg) (cfg_chunk_mlp cfg)
      (cfg_num_chunks_logits cfg) (cfg_num_chunks_mlp cfg) = config_graph model P Op cfg"
  using assms
  by (simp_all only: config_graph_cmds define_llada_block_graph_chunkwise_def
      define_dream_block_graph_chunkwise_def define_llada_moe_block_graph_chunkwise_def Let_def)
     (auto simp: cfg_ok_def)

lemma plain_of_config:
  "is_llada model \<Longrightarrow> define_llada_block_graph P Op = config_graph model P Op initial_config"
  "is_dream model \<Longrightarrow> define_dream_block_graph P Op = config_graph model P Op initial_config"
  "is_moe model \<Longrightarrow> define_llada_moe_block_graph P Op = config_graph model P Op initial_config"
  by (simp_all add: config_graph_def initial_config_def define_graph_def is_llada_def is_dream_def is_moe_def)

lemma model_names: "is_llada ''llada''" "is_dream ''dream''" "is_moe ''llada-moe''"
  by code_simp+

definition plan_getters ::
  "((nat \<Rightarrow> bool \<Rightarrow> pool option \<Rightarrow> int \<Rightarrow> int \<Rightarrow> model_plan result option) \<times> string) list" where
  "plan_getters = [(llada_get_optimized_reuse_plan, ''llada''), (dream_get_optimized_reuse_plan, ''dream''),
     (llada_moe_get_optimized_reuse_plan, ''llada-moe'')]"

lemma getter_unfold:
  assumes "(get_plan, model) \<in> set plan_getters"
  obtains plain chunk where "get_plan = optimized_reuse_plan plain chunk model"
    "\<And>P Op. plain P Op = config_graph model P Op initial_config"
    "\<And>P Op cfg. cfg_ok cfg \<Longrightarrow> chunk P Op (cfg_chunk_logits cfg) (cfg_chunk_mlp cfg)
      (cfg_num_chunks_logits cfg) (cfg_num_chunks_mlp cfg) = config_graph model P Op cfg"
  using assms chunkwise_of_config(1) [OF _ model_names(1)] chunkwise_of_config(2) [OF _ model_names(2)]
    chunkwise_of_config(3) [OF _ model_names(3)] plain_of_config(1) [OF model_names(1)]
    plain_of_config(2) [OF model_names(2)] plain_of_config(3) [OF model_names(3)]
  unfolding plan_getters_def llada_get_optimized_reuse_plan_def dream_get_optimized_reuse_plan_def
    llada_moe_get_optimized_reuse_plan_def
  by auto

text \<open>The configuration a plan was made for.\<close>

definition plan_config :: "model_plan \<Rightarrow> search_config" where
  "plan_config mp = (case current_chunk_strategy mp of None \<Rightarrow> initial_config | Some r \<Rightarrow> res_config r)"

text \<open>The plan a model gets is the plan of its configuration's graph, and after a search it fits.\<close>

lemma getter_plan:
  assumes getter: "(get_plan, model) \<in> set plan_getters" and ok: "tokens_ok N" "tokens_ok M"
    and plan: "get_plan fuel use_chunkwise (Some p) N M = Some (Inr mp)"
  shows "viewable (mp_graph mp)" "generate_optimized_reuse_plan (mp_graph mp) = Inr (mp_plan mp)"
    "use_chunkwise \<Longrightarrow> total_buffer_size_bytes (mp_plan mp) \<le> pool_size p"
    "cfg_ok (plan_config mp)" "config_graph model N M (plan_config mp) = Inr (mp_graph mp)"
proof -
  obtain plain chunk where get: "get_plan = optimized_reuse_plan plain chunk model"
    and plain: "\<And>P Op. plain P Op = config_graph model P Op initial_config"
    and chunk: "\<And>P Op cfg. cfg_ok cfg \<Longrightarrow> chunk P Op (cfg_chunk_logits cfg) (cfg_chunk_mlp cfg)
      (cfg_num_chunks_logits cfg) (cfg_num_chunks_mlp cfg) = config_graph model P Op cfg"
    using getter_unfold [OF getter] by metis
  have fin: "viewable (mp_graph mp) \<and> generate_optimized_reuse_plan (mp_graph mp) = Inr (mp_plan mp) \<and>
      config_graph model N M cfg = Inr (mp_graph mp) \<and> current_chunk_strategy mp = s"
    if cfg: "cfg_ok cfg" and pg: "bind_res (config_graph model N M cfg) (\<lambda>g. plan_of_graph g s) = Inr mp"
    for cfg s
  proof -
    obtain g where g: "config_graph model N M cfg = Inr g" "viewable g"
      using config_graph_viewable [OF ok cfg] by blast
    then show ?thesis using pg
      by (auto simp: plan_of_graph_def bind_res_eq_Inr analyze_def Let_def split: option.splits)
  qed
  have "viewable (mp_graph mp) \<and> generate_optimized_reuse_plan (mp_graph mp) = Inr (mp_plan mp) \<and>
    (use_chunkwise \<longrightarrow> total_buffer_size_bytes (mp_plan mp) \<le> pool_size p) \<and>
    cfg_ok (plan_config mp) \<and> config_graph model N M (plan_config mp) = Inr (mp_graph mp)"
  proof (cases use_chunkwise)
    case False
    then have "bind_res (config_graph model N M initial_config) (\<lambda>g. plan_of_graph g None) = Inr mp"
      using plan unfolding get plain optimized_reuse_plan_def by simp
    then show ?thesis using fin [OF cfg_ok_initial, of None] False cfg_ok_initial by (simp add: plan_config_def)
  next
    case True
    then obtain r where r: "search_optimal_config_online fuel N M (pool_size p) model = Some (Inr r)"
      and b: "bind_res (chunk N M (cfg_chunk_logits (res_config r)) (cfg_chunk_mlp (res_config r))
         (cfg_num_chunks_logits (res_config r)) (cfg_num_chunks_mlp (res_config r)))
         (\<lambda>g. plan_of_graph g (Some r)) = Inr mp"
      using plan unfolding get by (auto simp: optimized_reuse_plan_def Let_def split: option.splits sum.splits if_splits)
    have s: "cfg_ok (res_config r)" "accepts model (pool_size p - 900 * 1024 * 1024) (total_bytes r)"
      "\<exists>g q. config_graph model N M (res_config r) = Inr g \<and> generate_optimized_reuse_plan g = Inr q \<and>
         total_bytes r = total_buffer_size_bytes q"
      using r model_families [of model] search_sound [OF _ ok cfg_ok_initial]
      unfolding search_optimal_config_online_def by blast+
    have b': "bind_res (config_graph model N M (res_config r)) (\<lambda>g. plan_of_graph g (Some r)) = Inr mp"
      using b chunk [OF s(1)] by simp
    note f = fin [OF s(1) b']
    have "total_bytes r = total_buffer_size_bytes (mp_plan mp)" using s(3) f by auto
    then show ?thesis using f s(1,2) by (auto simp: accepts_def plan_config_def)
  qed
  then show "viewable (mp_graph mp)" "generate_optimized_reuse_plan (mp_graph mp) = Inr (mp_plan mp)"
    "use_chunkwise \<Longrightarrow> total_buffer_size_bytes (mp_plan mp) \<le> pool_size p"
    "cfg_ok (plan_config mp)" "config_graph model N M (plan_config mp) = Inr (mp_graph mp)" by blast+
qed

text \<open>Allocating the tensors of a plan that fits.\<close>

lemma allocation_succeeds:
  assumes p: "pool_inv p" "0 < vmm_chunk_size p" "initialized p" and create: "\<And>k. create_ok gpu k"
    and getter: "(get_plan, model) \<in> set plan_getters" and ok: "tokens_ok N" "tokens_ok M"
    and plan: "get_plan fuel use_chunkwise (Some p) N M = Some (Inr mp)"
    and fits: "use_chunkwise \<or> total_buffer_size_bytes (mp_plan mp) \<le> pool_size p"
  obtains ts p' where "allocate_activation_tensors_with_reuse_plan get_plan gpu fuel use_chunkwise (Some p) N M
        = Some (Some (ts, p'))" "total_buffer_size_bytes (mp_plan mp) \<le> backed_bytes p'"
    "\<And>n. n \<in> set (execution_order (mp_graph mp)) \<Longrightarrow> 0 < node_size n \<Longrightarrow>
        \<exists>e. entries (mp_plan mp) (output_name n) = Some e \<and>
           ts (output_name n) = Some \<lparr>view_buf = \<lparr>buf_start = offset e, buf_len = node_size n\<rparr>,
             view_shape = ts_shape (output_spec n), view_dtype = ts_dtype (output_spec n)\<rparr>"
proof -
  let ?g = "mp_graph mp" and ?q = "mp_plan mp"
  note g = getter_plan [OF getter ok plan]
  have fit: "total_buffer_size_bytes ?q \<le> pool_size p" using g(3) fits by blast
  have pl: "plannable ?g" using g(1) by (simp add: viewable_def)
  note nn = plan_total_nonneg [OF pl g(2)]
  obtain b p' where a: "allocate_for_tokens_with_size gpu N (total_buffer_size_bytes ?q) p = Inr (b, p')"
    using allocate_with_size_ok [OF p(1,3,2) nn fit create] by blast
  have bp: "b = \<lparr>buf_start = 0, buf_len = total_buffer_size_bytes ?q\<rparr>"
    "total_buffer_size_bytes ?q \<le> backed_bytes p'"
    using allocate_with_size_inv [OF p(1,2) a] nn by auto
  obtain ts where ts: "foldM (view_step ?q b) (names_of (execution_order ?g)) Map.empty = Inr ts"
    "\<forall>n \<in> set (execution_order ?g). 0 < node_size n \<longrightarrow>
       (\<exists>e. entries ?q (output_name n) = Some e \<and> ts (output_name n) = Some (planned_view n e))"
    using views_of_plan [OF g(1,2) bp(1)] by blast
  have "tensors_of_plan gpu N mp p = Inr (ts, p')" using a ts(1) by (simp add: tensors_of_plan_def)
  then have alloc: "allocate_activation_tensors_with_reuse_plan get_plan gpu fuel use_chunkwise (Some p) N M
        = Some (Some (ts, p'))"
    using p(3) plan by (simp add: allocate_activation_tensors_with_reuse_plan_def)
  have "\<exists>e. entries ?q (output_name n) = Some e \<and>
      ts (output_name n) = Some \<lparr>view_buf = \<lparr>buf_start = offset e, buf_len = node_size n\<rparr>,
             view_shape = ts_shape (output_spec n), view_dtype = ts_dtype (output_spec n)\<rparr>"
    if n: "n \<in> set (execution_order ?g)" "0 < node_size n" for n
  proof -
    obtain e where e: "entries ?q (output_name n) = Some e" "ts (output_name n) = Some (planned_view n e)"
      using ts(2) n by blast
    then have "entry_size e = node_size n"
      using plan_entry_facts(2) [OF _ _ g(2) n(1)] pl by (simp add: plannable_def)
    then show ?thesis using e by simp
  qed
  then show thesis using that alloc bp(2) by blast
qed

lemma reachable_pool:
  assumes "gpu_ok gpu" "\<And>c. env_chunk = Some c \<Longrightarrow> 0 < c"
    "(pool_step gpu)\<^sup>*\<^sup>* (ActivationMemoryPool u e env_chunk i) p"
  shows "pool_inv p" "0 < vmm_chunk_size p"
proof -
  have "0 < vmm_chunk_size (ActivationMemoryPool u e env_chunk i)"
    using assms(2) by (auto simp: ActivationMemoryPool_def Let_def split: option.splits)
  then show "pool_inv p" "0 < vmm_chunk_size p"
    using pool_run_inv [OF assms(3) new_pool_inv _ assms(1)] by simp_all
qed



end
