(* ===== verification/Request_Queue.thy ===== *)
theory Request_Queue
  imports Mosaic_Prelude Complex_Main "HOL-Library.Product_Lexorder"
begin

text \<open>
  The request queues of \<^verbatim>\<open>vllm/v1/core/sched/request_queue.py\<close>: the first-come-first-served queue
  on a deque and the priority queue on a binary heap. The heap operations are those of Python's
  \<^verbatim>\<open>heapq\<close>: sift-down towards the root, sift-up to a leaf followed by a sift-down, and
  \<^verbatim>\<open>heapify\<close>. Comparing two heap entries compares priorities, then arrival times, then the
  request objects, which have no order, so a tie raises \<^verbatim>\<open>TypeError\<close>.
  The interface that schedulers rely on is the locale \<open>request_queue\<close>, interpreted on both queues.
\<close>

section \<open>The interface\<close>

locale request_queue =
  fixes inv :: "'q \<Rightarrow> bool" and contents :: "'q \<Rightarrow> 'r multiset" and fits :: "'r \<Rightarrow> 'q \<Rightarrow> bool"
    and add :: "'r \<Rightarrow> 'q \<Rightarrow> 'q result" and pop :: "'q \<Rightarrow> ('r \<times> 'q) result" and peek :: "'q \<Rightarrow> 'r result"
    and first :: "'r \<Rightarrow> 'q \<Rightarrow> bool"
  assumes add_ok: "inv q \<Longrightarrow> fits r q \<Longrightarrow>
      \<exists>q'. add r q = Inr q' \<and> inv q' \<and> contents q' = add_mset r (contents q)"
    and pop_empty: "inv q \<Longrightarrow> contents q = {#} \<Longrightarrow> pop q = Inl IndexError \<and> peek q = Inl IndexError"
    and pop_ok: "inv q \<Longrightarrow> contents q \<noteq> {#} \<Longrightarrow>
      \<exists>r q'. pop q = Inr (r, q') \<and> peek q = Inr r \<and> inv q' \<and> contents q = add_mset r (contents q') \<and>
        first r q"
begin

text \<open>Popping until the queue is empty.\<close>

fun drain :: "nat \<Rightarrow> 'q \<Rightarrow> 'r list result" where
  "drain 0 q = Inr []"
| "drain (Suc n) q = bind_res (pop q) (\<lambda>(r, q'). bind_res (drain n q') (\<lambda>rs. Inr (r # rs)))"

lemma drain_all:
  "inv q \<Longrightarrow> size (contents q) = n \<Longrightarrow> \<exists>rs. drain n q = Inr rs \<and> mset rs = contents q"
proof (induction n arbitrary: q)
  case (Suc n)
  then have "contents q \<noteq> {#}" by auto
  then obtain r q' where q': "pop q = Inr (r, q')" "inv q'" "contents q = add_mset r (contents q')"
    using pop_ok [OF Suc.prems(1)] by blast
  then obtain rs where "drain n q' = Inr rs" "mset rs = contents q'"
    using Suc.IH [of q'] Suc.prems(2) by auto
  then show ?case using q' by simp
qed simp

end

section \<open>First come, first served\<close>

type_synonym 'r fcfs = "'r list"

definition fcfs_add_request :: "'r \<Rightarrow> 'r fcfs \<Rightarrow> 'r fcfs" where
  "fcfs_add_request r q = q @ [r]"

definition fcfs_pop_request :: "'r fcfs \<Rightarrow> ('r \<times> 'r fcfs) result" where
  "fcfs_pop_request q = (case q of [] \<Rightarrow> Inl IndexError | r # q' \<Rightarrow> Inr (r, q'))"

definition fcfs_peek_request :: "'r fcfs \<Rightarrow> 'r result" where
  "fcfs_peek_request q = (if q = [] then Inl IndexError else Inr (q ! 0))"

definition fcfs_prepend_request :: "'r \<Rightarrow> 'r fcfs \<Rightarrow> 'r fcfs" where
  "fcfs_prepend_request r q = r # q"

text \<open>\<^verbatim>\<open>extendleft\<close> appends its elements one by one on the left.\<close>

definition fcfs_prepend_requests :: "'r fcfs \<Rightarrow> 'r fcfs \<Rightarrow> 'r fcfs" where
  "fcfs_prepend_requests rs q = fold (\<lambda>r q. r # q) (rev rs) q"

definition fcfs_remove_request :: "'r \<Rightarrow> 'r fcfs \<Rightarrow> 'r fcfs result" where
  "fcfs_remove_request r q = (if r \<in> set q then Inr (remove1 r q) else Inl ValueError)"

definition fcfs_remove_requests :: "'r list \<Rightarrow> 'r fcfs \<Rightarrow> 'r fcfs" where
  "fcfs_remove_requests rs q = filter (\<lambda>r. r \<notin> set rs) q"

lemma fcfs_prepend_requests_eq: "fcfs_prepend_requests rs q = rs @ q"
  by (induction rs arbitrary: q rule: rev_induct) (simp_all add: fcfs_prepend_requests_def)

lemma fcfs_pop_simps: "fcfs_pop_request [] = Inl IndexError" "fcfs_pop_request (r # q) = Inr (r, q)"
  by (simp_all add: fcfs_pop_request_def)

interpretation fcfs: request_queue "\<lambda>_. True" mset "\<lambda>_ _. True" "\<lambda>r q. Inr (fcfs_add_request r q)"
  fcfs_pop_request fcfs_peek_request "\<lambda>r q. q \<noteq> [] \<and> r = hd q"
  by unfold_locales
     (auto simp: fcfs_add_request_def fcfs_pop_request_def fcfs_peek_request_def neq_Nil_conv)

section \<open>Binary heaps as \<^verbatim>\<open>heapq\<close> keeps them\<close>

text \<open>Comparison may raise. \<^verbatim>\<open>_siftdown\<close> moves the item at \<open>pos\<close> towards \<open>start\<close>.\<close>

function siftdown :: "('a \<Rightarrow> 'a \<Rightarrow> bool result) \<Rightarrow> nat \<Rightarrow> nat \<Rightarrow> 'a \<Rightarrow> 'a list \<Rightarrow> 'a list result" where
  "siftdown lt start pos new h =
     (if start < pos
      then let parentpos = (pos - 1) div 2 in
        bind_res (lt new (h ! parentpos)) (\<lambda>b.
          if b then siftdown lt start parentpos new (h[pos := h ! parentpos])
          else Inr (h[pos := new]))
      else Inr (h[pos := new]))"
  by pat_completeness auto
termination by (relation "measure (\<lambda>(_, _, pos, _, _). pos)") auto

text \<open>\<^verbatim>\<open>_siftup\<close>: the smaller child moves up until the hole is at a leaf.\<close>

function sift_hole :: "('a \<Rightarrow> 'a \<Rightarrow> bool result) \<Rightarrow> nat \<Rightarrow> 'a list \<Rightarrow> (nat \<times> 'a list) result" where
  "sift_hole lt pos h =
     (let childpos = 2 * pos + 1; rightpos = childpos + 1 in
      if childpos < length h
      then bind_res (if rightpos < length h
                     then bind_res (lt (h ! childpos) (h ! rightpos)) (\<lambda>b. Inr (if b then childpos else rightpos))
                     else Inr childpos)
             (\<lambda>c. sift_hole lt c (h[pos := h ! c]))
      else Inr (pos, h))"
  by pat_completeness auto
termination
  by (relation "measure (\<lambda>(_, pos, h). length h - pos)")
     (auto simp: bind_res_eq_Inr split: if_splits)

declare siftdown.simps [simp del] sift_hole.simps [simp del]

definition siftup :: "('a \<Rightarrow> 'a \<Rightarrow> bool result) \<Rightarrow> nat \<Rightarrow> 'a list \<Rightarrow> 'a list result" where
  "siftup lt pos h =
     bind_res (sift_hole lt pos h) (\<lambda>(leaf, h'). siftdown lt pos leaf (h ! pos) h')"

definition heappush :: "('a \<Rightarrow> 'a \<Rightarrow> bool result) \<Rightarrow> 'a \<Rightarrow> 'a list \<Rightarrow> 'a list result" where
  "heappush lt x h = siftdown lt 0 (length h) x (h @ [x])"

definition heappop :: "('a \<Rightarrow> 'a \<Rightarrow> bool result) \<Rightarrow> 'a list \<Rightarrow> ('a \<times> 'a list) result" where
  "heappop lt h =
     (if h = [] then Inl IndexError
      else let lastelt = last h; h' = butlast h in
        if h' = [] then Inr (lastelt, [])
        else bind_res (siftup lt 0 (h'[0 := lastelt])) (\<lambda>h''. Inr (h' ! 0, h'')))"

definition heapify :: "('a \<Rightarrow> 'a \<Rightarrow> bool result) \<Rightarrow> 'a list \<Rightarrow> 'a list result" where
  "heapify lt h = foldM (siftup lt) (rev [0..<length h div 2]) h"

section \<open>Correctness of the heap operations\<close>

text \<open>The order of parent and child at every index whose parent is at or after \<open>s\<close>.\<close>

definition heap_from :: "('a \<Rightarrow> 'k::linorder) \<Rightarrow> nat \<Rightarrow> 'a list \<Rightarrow> bool" where
  "heap_from key s h \<longleftrightarrow>
     (\<forall>i < length h. 0 < i \<longrightarrow> s \<le> (i - 1) div 2 \<longrightarrow> key (h ! ((i - 1) div 2)) \<le> key (h ! i))"

text \<open>The same with a hole at \<open>pos\<close>: pairs that involve the hole are left out, and its children
  are ordered with respect to its parent.\<close>

definition heap_hole :: "('a \<Rightarrow> 'k::linorder) \<Rightarrow> nat \<Rightarrow> nat \<Rightarrow> 'a list \<Rightarrow> bool" where
  "heap_hole key s pos h \<longleftrightarrow> pos < length h \<and>
     (\<forall>i < length h. 0 < i \<longrightarrow> s \<le> (i - 1) div 2 \<longrightarrow> i \<noteq> pos \<longrightarrow> (i - 1) div 2 \<noteq> pos \<longrightarrow>
        key (h ! ((i - 1) div 2)) \<le> key (h ! i)) \<and>
     (\<forall>i < length h. 0 < i \<longrightarrow> (i - 1) div 2 = pos \<longrightarrow> 0 < pos \<longrightarrow> s \<le> (pos - 1) div 2 \<longrightarrow>
        key (h ! ((pos - 1) div 2)) \<le> key (h ! i))"

inductive descends :: "nat \<Rightarrow> nat \<Rightarrow> bool" for s where
  here: "descends s s"
| child: "descends s p \<Longrightarrow> i = 2 * p + 1 \<or> i = 2 * p + 2 \<Longrightarrow> descends s i"

lemma descends_le: "descends s i \<Longrightarrow> s \<le> i"
  by (induction rule: descends.induct) auto

lemma descends_parent: "descends s i \<Longrightarrow> s < i \<Longrightarrow> descends s ((i - 1) div 2)"
  by (cases rule: descends.cases) auto

text \<open>Moving the parent of the hole down moves the hole up.\<close>

lemma heap_hole_up:
  fixes key :: "'a \<Rightarrow> 'k::linorder"
  assumes hole: "heap_hole key s pos h" and pos: "0 < pos" and sp: "s \<le> (pos - 1) div 2"
  defines "p \<equiv> (pos - 1) div 2"
  shows "heap_hole key s p (h[pos := h ! p])"
    and "\<lbrakk>key new < key (h ! p); i < length h; 0 < i; (i - 1) div 2 = p\<rbrakk> \<Longrightarrow> key new \<le> key (h[pos := h ! p] ! i)"
proof -
  have len: "pos < length h" and p: "p < pos" using hole pos by (auto simp: heap_hole_def p_def)
  have old: "key (h ! ((i - 1) div 2)) \<le> key (h ! i)"
    if "i < length h" "0 < i" "s \<le> (i - 1) div 2" "i \<noteq> pos" "(i - 1) div 2 \<noteq> pos" for i
    using hole that by (simp add: heap_hole_def)
  have over: "key (h ! p) \<le> key (h ! i)" if "i < length h" "0 < i" "(i - 1) div 2 = pos" for i
    using hole that pos sp by (simp add: heap_hole_def p_def)
  show "heap_hole key s p (h[pos := h ! p])"
    unfolding heap_hole_def
  proof (intro conjI allI impI)
    show "p < length (h[pos := h ! p])" using p len by simp
  next
    fix i assume i: "i < length (h[pos := h ! p])" "0 < i" "s \<le> (i - 1) div 2" "i \<noteq> p" "(i - 1) div 2 \<noteq> p"
    then have "i \<noteq> pos" by (auto simp: p_def)
    then show "key (h[pos := h ! p] ! ((i - 1) div 2)) \<le> key (h[pos := h ! p] ! i)"
      using i old [of i] over [of i] len by (cases "(i - 1) div 2 = pos") auto
  next
    fix i assume i: "i < length (h[pos := h ! p])" "0 < i" "(i - 1) div 2 = p" "0 < p" "s \<le> (p - 1) div 2"
    have pp: "(p - 1) div 2 < pos" using p by (meson div_le_dividend diff_le_self le_trans le_less_trans)
    then have up: "key (h ! ((p - 1) div 2)) \<le> key (h ! p)" using old [of p] i p len by auto
    moreover have "i \<noteq> pos \<Longrightarrow> key (h ! p) \<le> key (h ! i)" using old [of i] i p sp by (auto simp: p_def)
    ultimately have "i \<noteq> pos \<Longrightarrow> key (h ! ((p - 1) div 2)) \<le> key (h ! i)" by auto
    then show "key (h[pos := h ! p] ! ((p - 1) div 2)) \<le> key (h[pos := h ! p] ! i)"
      using up pp len by (cases "i = pos") auto
  qed
  show "key new \<le> key (h[pos := h ! p] ! i)"
    if new: "key new < key (h ! p)" and i: "i < length h" "0 < i" "(i - 1) div 2 = p"
  proof -
    have "i \<noteq> pos \<Longrightarrow> key (h ! p) \<le> key (h ! i)" using old [of i] i p sp by (auto simp: p_def)
    then show ?thesis using new len by (cases "i = pos") auto
  qed
qed

text \<open>Filling the hole with an item that is not above its children gives a heap, once it is not
  below its parent.\<close>

lemma heap_hole_fill:
  fixes key :: "'a \<Rightarrow> 'k::linorder"
  assumes hole: "heap_hole key s pos h"
    and kids: "\<forall>i < length h. 0 < i \<longrightarrow> (i - 1) div 2 = pos \<longrightarrow> key new \<le> key (h ! i)"
    and par: "0 < pos \<Longrightarrow> s \<le> (pos - 1) div 2 \<Longrightarrow> key (h ! ((pos - 1) div 2)) \<le> key new"
  shows "heap_from key s (h[pos := new])"
  unfolding heap_from_def
proof (intro allI impI)
  fix i assume i: "i < length (h[pos := new])" "0 < i" "s \<le> (i - 1) div 2"
  have len: "pos < length h" using hole by (simp add: heap_hole_def)
  consider "i = pos" | "i \<noteq> pos" "(i - 1) div 2 = pos" | "i \<noteq> pos" "(i - 1) div 2 \<noteq> pos" by blast
  then show "key (h[pos := new] ! ((i - 1) div 2)) \<le> key (h[pos := new] ! i)"
  proof cases
    case 1
    then have "(i - 1) div 2 \<noteq> pos" using i by auto
    then show ?thesis using 1 i par len by auto
  next
    case 2
    then show ?thesis using i kids len by auto
  next
    case 3
    then show ?thesis using i hole len by (simp add: heap_hole_def)
  qed
qed

lemma siftdown_ok:
  fixes key :: "'a \<Rightarrow> 'k::linorder"
  assumes "heap_hole key s pos h" and "descends s pos"
    and "\<forall>i < length h. 0 < i \<longrightarrow> (i - 1) div 2 = pos \<longrightarrow> key new \<le> key (h ! i)"
    and "\<And>i. i < length h \<Longrightarrow> i \<noteq> pos \<Longrightarrow> lt new (h ! i) = Inr (key new < key (h ! i))"
  shows "\<exists>h'. siftdown lt s pos new h = Inr h' \<and> heap_from key s h' \<and> mset h' = mset (h[pos := new])"
  using assms
proof (induction lt s pos new h rule: siftdown.induct)
  case (1 lt s pos new h)
  let ?p = "(pos - 1) div 2"
  have len: "pos < length h" using "1.prems"(1) by (simp add: heap_hole_def)
  show ?case
  proof (cases "s < pos \<and> key new < key (h ! ?p)")
    case False
    have "siftdown lt s pos new h = Inr (h[pos := new])"
      using False "1.prems"(4) [of ?p] len by (auto simp: siftdown.simps [of lt s pos])
    moreover have "heap_from key s (h[pos := new])"
      using False by (intro heap_hole_fill [OF "1.prems"(1,3)]) auto
    ultimately show ?thesis by blast
  next
    case True
    let ?h = "h[pos := h ! ?p]"
    have p: "?p < pos" "?p < length h" using True len by auto
    have ltb: "lt new (h ! ?p) = Inr True" using "1.prems"(4) [of ?p] p True by simp
    have d: "descends s ?p" using descends_parent "1.prems"(2) True by blast
    note up = heap_hole_up [OF "1.prems"(1) _ descends_le [OF d]]
    have hole: "heap_hole key s ?p ?h" using up(1) True by auto
    have kids: "\<forall>i < length ?h. 0 < i \<longrightarrow> (i - 1) div 2 = ?p \<longrightarrow> key new \<le> key (?h ! i)"
      using up(2) True by auto
    have lt': "lt new (?h ! i) = Inr (key new < key (?h ! i))" if "i < length ?h" "i \<noteq> ?p" for i
      using that "1.prems"(4) [of i] "1.prems"(4) [of ?p] p by (cases "i = pos") auto
    obtain h' where h': "siftdown lt s ?p new ?h = Inr h'" "heap_from key s h'" "mset h' = mset (?h[?p := new])"
      using "1.IH" [OF _ refl ltb _ hole d kids lt'] True by auto
    have "siftdown lt s pos new h = Inr h'" using True ltb h'(1) by (simp add: siftdown.simps [of lt s pos])
    moreover have "mset (?h[?p := new]) = mset (h[pos := new])"
      using p len by (simp add: mset_update)
    ultimately show ?thesis using h' by auto
  qed
qed

text \<open>Moving the smaller child up moves the hole down, and at a leaf it has no children.\<close>

lemma heap_hole_down:
  fixes key :: "'a \<Rightarrow> 'k::linorder"
  assumes hole: "heap_hole key s pos h" and s: "s \<le> pos" and c: "c < length h" "0 < c" "(c - 1) div 2 = pos"
    and least: "\<And>i. i < length h \<Longrightarrow> 0 < i \<Longrightarrow> (i - 1) div 2 = pos \<Longrightarrow> key (h ! c) \<le> key (h ! i)"
  shows "heap_hole key s c (h[pos := h ! c])"
proof -
  have len: "pos < length h" "pos < c" using hole c by (auto simp: heap_hole_def)
  have old: "key (h ! ((i - 1) div 2)) \<le> key (h ! i)"
    if "i < length h" "0 < i" "s \<le> (i - 1) div 2" "i \<noteq> pos" "(i - 1) div 2 \<noteq> pos" for i
    using hole that by (simp add: heap_hole_def)
  have over: "key (h ! ((pos - 1) div 2)) \<le> key (h ! c)" if "0 < pos" "s \<le> (pos - 1) div 2"
    using hole c that by (simp add: heap_hole_def)
  show ?thesis
    unfolding heap_hole_def
  proof (intro conjI allI impI)
    show "c < length (h[pos := h ! c])" using c by simp
  next
    fix i assume i: "i < length (h[pos := h ! c])" "0 < i" "s \<le> (i - 1) div 2" "i \<noteq> c" "(i - 1) div 2 \<noteq> c"
    consider "i = pos" | "i \<noteq> pos" "(i - 1) div 2 = pos" | "i \<noteq> pos" "(i - 1) div 2 \<noteq> pos" by blast
    then show "key (h[pos := h ! c] ! ((i - 1) div 2)) \<le> key (h[pos := h ! c] ! i)"
    proof cases
      case 1
      then have "(i - 1) div 2 \<noteq> pos" using i by auto
      then show ?thesis using 1 i over len by auto
    qed (use i old [of i] least [of i] len in auto)
  next
    fix i assume i: "i < length (h[pos := h ! c])" "0 < i" "(i - 1) div 2 = c"
    then have "i \<noteq> pos" using len by auto
    then show "key (h[pos := h ! c] ! ((c - 1) div 2)) \<le> key (h[pos := h ! c] ! i)"
      using i old [of i] len c s by auto
  qed
qed

text \<open>Where comparisons are defined and agree with a key.\<close>

definition ordered_by :: "('a \<Rightarrow> 'k::linorder) \<Rightarrow> ('a \<Rightarrow> 'a \<Rightarrow> bool result) \<Rightarrow> 'a set \<Rightarrow> bool" where
  "ordered_by key lt S \<longleftrightarrow> (\<forall>a \<in> S. \<forall>b \<in> S. lt a b = Inr (key a < key b))"

lemma set_update_mem: "i < length h \<Longrightarrow> set (h[pos := h ! i]) \<subseteq> set h"
  using set_update_subset_insert [of h pos "h ! i"] by auto

lemma sift_hole_ok:
  fixes key :: "'a \<Rightarrow> 'k::linorder"
  assumes "heap_hole key s pos h" and "descends s pos" and "ordered_by key lt (set h)"
  shows "\<exists>leaf h'. sift_hole lt pos h = Inr (leaf, h') \<and> heap_hole key s leaf h' \<and> descends s leaf \<and>
     length h' = length h \<and> length h \<le> 2 * leaf + 1 \<and> (\<forall>x. mset (h'[leaf := x]) = mset (h[pos := x]))"
  using assms
proof (induction lt pos h rule: sift_hole.induct)
  case (1 lt pos h)
  have len: "pos < length h" using "1.prems"(1) by (simp add: heap_hole_def)
  show ?case
  proof (cases "2 * pos + 1 < length h")
    case False
    then have "sift_hole lt pos h = Inr (pos, h)" by (simp add: sift_hole.simps [of lt pos])
    then show ?thesis using "1.prems" False by simp
  next
    case True
    define choice where "choice = (if 2 * pos + 1 + 1 < length h
      then bind_res (lt (h ! (2 * pos + 1)) (h ! (2 * pos + 1 + 1)))
             (\<lambda>b. Inr (if b then 2 * pos + 1 else 2 * pos + 1 + 1))
      else Inr (2 * pos + 1))"
    obtain c where c: "choice = Inr c" "c < length h" "c = 2 * pos + 1 \<or> c = 2 * pos + 2"
      and least: "\<And>i. i < length h \<Longrightarrow> 0 < i \<Longrightarrow> (i - 1) div 2 = pos \<Longrightarrow> key (h ! c) \<le> key (h ! i)"
    proof -
      define c where "c = (if 2 * pos + 2 < length h \<and> \<not> key (h ! (2 * pos + 1)) < key (h ! (2 * pos + 2))
        then 2 * pos + 2 else 2 * pos + 1)"
      have "choice = Inr c"
        using True "1.prems"(3) by (simp add: choice_def c_def ordered_by_def)
      moreover have "key (h ! c) \<le> key (h ! i)" if "i < length h" "0 < i" "(i - 1) div 2 = pos" for i
      proof -
        have "i = 2 * pos + 1 \<or> i = 2 * pos + 2" using that by linarith
        then show ?thesis using that(1) by (auto simp: c_def)
      qed
      ultimately show thesis using that [of c] True by (auto simp: c_def split: if_splits)
    qed
    let ?h = "h[pos := h ! c]"
    have par: "0 < c" "(c - 1) div 2 = pos" using c(3) by auto
    have hole: "heap_hole key s c ?h"
      by (rule heap_hole_down [OF "1.prems"(1) descends_le [OF "1.prems"(2)] c(2) par least])
    have desc: "descends s c" by (rule descends.child [OF "1.prems"(2) c(3)])
    have ord: "ordered_by key lt (set ?h)"
      using "1.prems"(3) set_update_mem [OF c(2), of pos] unfolding ordered_by_def by blast
    have step: "sift_hole lt pos h = sift_hole lt c ?h"
      by (subst sift_hole.simps)
         (simp only: Let_def True if_True choice_def [symmetric] c(1) bind_res_Inr)
    obtain leaf h' where l: "sift_hole lt c ?h = Inr (leaf, h')" "heap_hole key s leaf h'" "descends s leaf"
      "length h' = length ?h" "length ?h \<le> 2 * leaf + 1" "\<forall>x. mset (h'[leaf := x]) = mset (?h[c := x])"
      using "1.IH" [OF refl refl True c(1) [unfolded choice_def] hole desc ord] by blast
    moreover have "mset (?h[c := x]) = mset (h[pos := x])" for x
      using c len by (auto simp: mset_update)
    ultimately show ?thesis using step by auto
  qed
qed

lemma siftup_ok:
  fixes key :: "'a \<Rightarrow> 'k::linorder"
  assumes h: "heap_from key (Suc s) h" and s: "s < length h" and ord: "ordered_by key lt (set h)"
  shows "\<exists>h'. siftup lt s h = Inr h' \<and> heap_from key s h' \<and> mset h' = mset h"
proof -
  have "0 < s \<Longrightarrow> (s - 1) div 2 < s" by auto
  then have "heap_hole key s s h" using h s by (fastforce simp: heap_hole_def heap_from_def)
  from sift_hole_ok [OF this descends.here ord]
  obtain leaf h' where l: "sift_hole lt s h = Inr (leaf, h')" "heap_hole key s leaf h'" "descends s leaf"
    "length h' = length h" "length h \<le> 2 * leaf + 1" and ms: "\<forall>x. mset (h'[leaf := x]) = mset (h[s := x])"
    by blast
  have leaf: "leaf < length h'" using l(2) by (simp add: heap_hole_def)
  have set_eq: "set (h'[leaf := h ! s]) = set h" using ms s by (metis list_update_id set_mset_mset)
  have "lt (h ! s) (h' ! i) = Inr (key (h ! s) < key (h' ! i))" if "i < length h'" "i \<noteq> leaf" for i
  proof -
    have "h' ! i \<in> set (h'[leaf := h ! s])" using that by (metis length_list_update nth_list_update_neq nth_mem)
    then show ?thesis using ord s unfolding ordered_by_def set_eq by simp
  qed
  moreover have "\<forall>i < length h'. 0 < i \<longrightarrow> (i - 1) div 2 = leaf \<longrightarrow> key (h ! s) \<le> key (h' ! i)"
    using l(4,5) by auto
  ultimately obtain h'' where "siftdown lt s leaf (h ! s) h' = Inr h''" "heap_from key s h''"
    "mset h'' = mset (h'[leaf := h ! s])" using siftdown_ok [OF l(2,3), of "h ! s" lt] by blast
  then show ?thesis using l(1) ms by (auto simp: siftup_def)
qed

lemma heappush_ok:
  fixes key :: "'a \<Rightarrow> 'k::linorder"
  assumes h: "heap_from key 0 h" and ord: "ordered_by key lt (insert x (set h))"
  shows "\<exists>h'. heappush lt x h = Inr h' \<and> heap_from key 0 h' \<and> mset h' = add_mset x (mset h)"
proof -
  let ?h = "h @ [x]"
  have hole: "heap_hole key 0 (length h) ?h"
    using h by (auto simp: heap_hole_def heap_from_def nth_append)
  have kids: "\<forall>i < length ?h. 0 < i \<longrightarrow> (i - 1) div 2 = length h \<longrightarrow> key x \<le> key (?h ! i)" by auto
  have d: "descends 0 i" for i
  proof (induction i rule: less_induct)
    case (less i)
    show ?case
    proof (cases "i = 0")
      case False
      then have "i = 2 * ((i - 1) div 2) + 1 \<or> i = 2 * ((i - 1) div 2) + 2" by linarith
      then show ?thesis using less [of "(i - 1) div 2"] False by (auto intro: descends.child)
    qed (simp add: descends.here)
  qed
  have "lt x (?h ! i) = Inr (key x < key (?h ! i))" if "i < length ?h" "i \<noteq> length h" for i
    using ord that by (auto simp: ordered_by_def nth_append)
  with siftdown_ok [OF hole d kids, of lt] show ?thesis by (auto simp: heappush_def)
qed

lemma heap_from_root:
  fixes key :: "'a \<Rightarrow> 'k::linorder"
  assumes h: "heap_from key 0 h" and i: "i < length h"
  shows "key (h ! 0) \<le> key (h ! i)"
  using i
proof (induction i rule: less_induct)
  case (less i)
  show ?case
  proof (cases "i = 0")
    case False
    then have "(i - 1) div 2 < i" by auto
    then have "key (h ! 0) \<le> key (h ! ((i - 1) div 2))" using less by auto
    also have "\<dots> \<le> key (h ! i)" using h less.prems False by (simp add: heap_from_def)
    finally show ?thesis .
  qed simp
qed

lemma heappop_ok:
  fixes key :: "'a \<Rightarrow> 'k::linorder"
  assumes h: "heap_from key 0 h" and ne: "h \<noteq> []" and ord: "ordered_by key lt (set h)"
  shows "\<exists>h'. heappop lt h = Inr (h ! 0, h') \<and> heap_from key 0 h' \<and> mset h = add_mset (h ! 0) (mset h') \<and>
     (\<forall>x \<in> set h. key (h ! 0) \<le> key x)"
proof -
  have least: "\<forall>x \<in> set h. key (h ! 0) \<le> key x" using heap_from_root [OF h] by (auto simp: in_set_conv_nth)
  obtain xs y where xs: "h = xs @ [y]" using ne by (cases h rule: rev_cases) auto
  show ?thesis
  proof (cases xs)
    case Nil
    then show ?thesis using xs least by (simp add: heappop_def heap_from_def)
  next
    case (Cons x ys)
    let ?h = "y # ys"
    have nth: "?h ! j = h ! j" if "0 < j" "j < length ?h" for j
      using that by (cases j) (auto simp: xs Cons nth_append)
    have "heap_from key (Suc 0) ?h"
      unfolding heap_from_def
    proof (intro allI impI)
      fix i assume i: "i < length ?h" "0 < i" "Suc 0 \<le> (i - 1) div 2"
      then have "(i - 1) div 2 < length ?h" by auto
      then have "?h ! ((i - 1) div 2) = h ! ((i - 1) div 2)" "?h ! i = h ! i" "i < length h"
        using nth i xs Cons by auto
      then show "key (?h ! ((i - 1) div 2)) \<le> key (?h ! i)" using h i(2) by (simp add: heap_from_def)
    qed
    moreover have "ordered_by key lt (set ?h)" using ord xs Cons by (auto simp: ordered_by_def)
    ultimately obtain h' where "siftup lt 0 ?h = Inr h'" "heap_from key 0 h'" "mset h' = mset ?h"
      using siftup_ok [of key 0 ?h lt] by auto
    then show ?thesis using xs Cons least by (auto simp: heappop_def)
  qed
qed

lemma heapify_ok:
  fixes key :: "'a \<Rightarrow> 'k::linorder"
  assumes ord: "ordered_by key lt (set h)"
  shows "\<exists>h'. heapify lt h = Inr h' \<and> heap_from key 0 h' \<and> mset h' = mset h"
proof -
  let ?n = "length h div 2"
  let ?P = "\<lambda>ps h'. heap_from key (?n - length ps) h' \<and> mset h' = mset h"
  have "\<exists>h'. foldM (siftup lt) (rev [0..<?n]) h = Inr h' \<and> ?P (rev [0..<?n]) h'"
  proof (rule foldM_total_invariant [where P = ?P])
    show "?P [] h" by (auto simp: heap_from_def)
  next
    fix ps x qs h' assume split: "rev [0..<?n] = ps @ x # qs" and P: "?P ps h'"
    have len: "length ps < ?n" using arg_cong [OF split, of length] by simp
    have "x = rev [0..<?n] ! length ps" using split by simp
    then have x: "x = ?n - Suc (length ps)" using len by (simp add: rev_nth)
    have "Suc x = ?n - length ps" "x < length h'"
      using x len mset_eq_length [of h' h] P by auto
    moreover have "ordered_by key lt (set h')" using ord P by (metis set_mset_mset)
    ultimately obtain h'' where "siftup lt x h' = Inr h''" "heap_from key x h''" "mset h'' = mset h'"
      using siftup_ok [of key x h' lt] P by auto
    then show "\<exists>h''. siftup lt x h' = Inr h'' \<and> ?P (ps @ [x]) h''" using P x by auto
  qed
  then show ?thesis by (simp add: heapify_def)
qed

section \<open>The priority queue\<close>

record request =
  request_id :: string
  priority :: int
  arrival_time :: rat

type_synonym heap_entry = "int \<times> rat \<times> request"

fun entry_lt :: "heap_entry \<Rightarrow> heap_entry \<Rightarrow> bool result" where
  "entry_lt (p, t, r) (p', t', r') =
     (if p \<noteq> p' then Inr (p < p') else if t \<noteq> t' then Inr (t < t')
      else if r = r' then Inr False else Inl TypeError)"

definition prio_add_request :: "request \<Rightarrow> heap_entry list \<Rightarrow> heap_entry list result" where
  "prio_add_request r q = heappush entry_lt (priority r, arrival_time r, r) q"

definition prio_pop_request :: "heap_entry list \<Rightarrow> (request \<times> heap_entry list) result" where
  "prio_pop_request q =
     (if q = [] then Inl IndexError
      else bind_res (heappop entry_lt q) (\<lambda>((p, t, r), q'). Inr (r, q')))"

definition prio_peek_request :: "heap_entry list \<Rightarrow> request result" where
  "prio_peek_request q = (case q of [] \<Rightarrow> Inl IndexError | (p, t, r) # _ \<Rightarrow> Inr r)"

definition prio_prepend_request :: "request \<Rightarrow> heap_entry list \<Rightarrow> heap_entry list result" where
  "prio_prepend_request r q = prio_add_request r q"

definition prio_prepend_requests :: "request list \<Rightarrow> heap_entry list \<Rightarrow> heap_entry list result" where
  "prio_prepend_requests rs q = foldM prio_add_request rs q"

definition prio_remove_request :: "request \<Rightarrow> heap_entry list \<Rightarrow> heap_entry list result" where
  "prio_remove_request r q = heapify entry_lt (filter (\<lambda>(p, t, r'). r' \<noteq> r) q)"

definition prio_remove_requests :: "request list \<Rightarrow> heap_entry list \<Rightarrow> heap_entry list result" where
  "prio_remove_requests rs q = heapify entry_lt (filter (\<lambda>(p, t, r'). r' \<notin> set rs) q)"

text \<open>\<^verbatim>\<open>__iter__\<close> pops a copy of the heap until it is empty.\<close>

fun prio_iter_loop :: "nat \<Rightarrow> heap_entry list \<Rightarrow> request list result" where
  "prio_iter_loop 0 q = Inr []"
| "prio_iter_loop (Suc n) q =
     bind_res (prio_pop_request q) (\<lambda>(r, q'). bind_res (prio_iter_loop n q') (\<lambda>rs. Inr (r # rs)))"

definition prio_iter :: "heap_entry list \<Rightarrow> request list result" where
  "prio_iter q = prio_iter_loop (length q) q"

definition prio_reversed :: "heap_entry list \<Rightarrow> request list result" where
  "prio_reversed q = bind_res (prio_iter q) (\<lambda>rs. Inr (rev rs))"

datatype scheduling_policy = FCFS | PRIORITY

datatype any_queue = FCFSRequestQueue "request list" | PriorityRequestQueue "heap_entry list"

fun create_request_queue :: "scheduling_policy \<Rightarrow> any_queue" where
  "create_request_queue PRIORITY = PriorityRequestQueue []"
| "create_request_queue FCFS = FCFSRequestQueue []"

text \<open>The key that orders the heap, and requests without ties.\<close>

abbreviation req_key :: "request \<Rightarrow> int \<times> rat" where
  "req_key r \<equiv> (priority r, arrival_time r)"

definition entry_key :: "heap_entry \<Rightarrow> int \<times> rat" where
  "entry_key e = (fst e, fst (snd e))"

abbreviation entry_of :: "request \<Rightarrow> heap_entry" where
  "entry_of r \<equiv> (priority r, arrival_time r, r)"

definition no_ties :: "request set \<Rightarrow> bool" where
  "no_ties R \<longleftrightarrow> (\<forall>r \<in> R. \<forall>r' \<in> R. req_key r = req_key r' \<longrightarrow> r = r')"

definition prio_inv :: "heap_entry list \<Rightarrow> bool" where
  "prio_inv q \<longleftrightarrow> heap_from entry_key 0 q \<and> (\<forall>e \<in> set q. e = entry_of (snd (snd e))) \<and>
     no_ties (snd ` snd ` set q)"

abbreviation prio_contents :: "heap_entry list \<Rightarrow> request multiset" where
  "prio_contents q \<equiv> image_mset (\<lambda>e. snd (snd e)) (mset q)"

lemma entry_key_of [simp]: "entry_key (entry_of r) = req_key r"
  by (simp add: entry_key_def)

lemma entries_ordered:
  assumes "no_ties R"
  shows "ordered_by entry_key entry_lt (entry_of ` R)"
  unfolding ordered_by_def
proof (intro ballI)
  fix a b assume "a \<in> entry_of ` R" "b \<in> entry_of ` R"
  then obtain r r' where r: "r \<in> R" "a = entry_of r" "r' \<in> R" "b = entry_of r'" by blast
  then show "entry_lt a b = Inr (entry_key a < entry_key b)"
    using assms by (auto simp: no_ties_def entry_key_def less_prod_def)
qed

lemma prio_entries:
  assumes "prio_inv q"
  shows "set q = entry_of ` (snd ` snd ` set q)" and "ordered_by entry_key entry_lt (set q)"
proof -
  show eq: "set q = entry_of ` (snd ` snd ` set q)"
    using assms by (force simp: prio_inv_def image_image)
  show "ordered_by entry_key entry_lt (set q)"
    by (subst eq) (rule entries_ordered, use assms in \<open>simp add: prio_inv_def\<close>)
qed

lemma prio_add_ok:
  assumes inv: "prio_inv q" and ties: "no_ties (insert r (snd ` snd ` set q))"
  shows "\<exists>q'. prio_add_request r q = Inr q' \<and> prio_inv q' \<and> prio_contents q' = add_mset r (prio_contents q)"
proof -
  have "insert (entry_of r) (set q) = entry_of ` (insert r (snd ` snd ` set q))"
    using prio_entries(1) [OF inv] by auto
  then have ord: "ordered_by entry_key entry_lt (insert (entry_of r) (set q))"
    using entries_ordered [OF ties] by simp
  have "heap_from entry_key 0 q" using inv by (simp add: prio_inv_def)
  from heappush_ok [OF this ord] obtain q' where q': "heappush entry_lt (entry_of r) q = Inr q'"
    "heap_from entry_key 0 q'" "mset q' = add_mset (entry_of r) (mset q)" by blast
  then have "set q' = insert (entry_of r) (set q)" by (metis set_mset_add_mset_insert set_mset_mset)
  then have "prio_inv q'" using inv ties q'(2) by (auto simp: prio_inv_def)
  then show ?thesis using q' by (simp add: prio_add_request_def)
qed

lemma prio_pop_ok:
  assumes inv: "prio_inv q" and ne: "q \<noteq> []"
  shows "\<exists>r q'. prio_pop_request q = Inr (r, q') \<and> prio_peek_request q = Inr r \<and> prio_inv q' \<and>
    prio_contents q = add_mset r (prio_contents q') \<and> (\<forall>r' \<in># prio_contents q. req_key r \<le> req_key r')"
proof -
  have "heap_from entry_key 0 q" using inv by (simp add: prio_inv_def)
  from heappop_ok [OF this ne prio_entries(2) [OF inv]]
  obtain q' where q': "heappop entry_lt q = Inr (q ! 0, q')" "heap_from entry_key 0 q'"
    "mset q = add_mset (q ! 0) (mset q')" "\<forall>x \<in> set q. entry_key (q ! 0) \<le> entry_key x" by blast
  obtain r where r: "q ! 0 = entry_of r" using inv ne by (metis length_greater_0_conv nth_mem prio_inv_def)
  have sub: "set q = insert (q ! 0) (set q')" using q'(3) by (metis set_mset_add_mset_insert set_mset_mset)
  then have "prio_inv q'" using inv q'(2) unfolding prio_inv_def no_ties_def by auto
  moreover have "req_key r \<le> req_key r'" if "r' \<in># prio_contents q" for r'
  proof -
    obtain e where e: "e \<in> set q" "r' = snd (snd e)" using \<open>r' \<in># prio_contents q\<close> by auto
    then have "e = entry_of r'" using inv by (auto simp: prio_inv_def)
    then show ?thesis using q'(4) e(1) r by fastforce
  qed
  moreover have "prio_peek_request q = Inr r" using r ne by (cases q) (auto simp: prio_peek_request_def)
  ultimately show ?thesis using q' r ne by (auto simp: prio_pop_request_def)
qed

interpretation prio: request_queue prio_inv prio_contents "\<lambda>r q. no_ties (insert r (snd ` snd ` set q))"
  prio_add_request prio_pop_request prio_peek_request "\<lambda>r q. \<forall>r' \<in># prio_contents q. req_key r \<le> req_key r'"
proof (unfold_locales, goal_cases)
  case (1 q r)
  then show ?case by (rule prio_add_ok)
next
  case (2 q)
  then show ?case by (simp add: prio_pop_request_def prio_peek_request_def)
next
  case (3 q)
  then show ?case using prio_pop_ok by simp
qed

lemma prio_iter_sorted:
  "prio_inv q \<Longrightarrow> length q = n \<Longrightarrow>
   \<exists>rs. prio_iter_loop n q = Inr rs \<and> mset rs = prio_contents q \<and> sorted (map req_key rs)"
proof (induction n arbitrary: q)
  case (Suc n)
  then have "q \<noteq> []" by auto
  from prio_pop_ok [OF Suc.prems(1) this] obtain r q' where q': "prio_pop_request q = Inr (r, q')" "prio_inv q'"
    "prio_contents q = add_mset r (prio_contents q')" "\<forall>r' \<in># prio_contents q. req_key r \<le> req_key r'" by blast
  have "length q' = n" using arg_cong [OF q'(3), of size] Suc.prems(2) by simp
  then obtain rs where rs: "prio_iter_loop n q' = Inr rs" "mset rs = prio_contents q'" "sorted (map req_key rs)"
    using Suc.IH q'(2) by blast
  have "set rs = set_mset (prio_contents q')" using rs(2) by (metis set_mset_mset)
  then have "\<forall>r' \<in> set rs. req_key r \<le> req_key r'" using q'(3,4) by auto
  then show ?case using q' rs by auto
qed simp

lemma prio_remove_ok:
  assumes "prio_inv q"
  shows "\<exists>q'. prio_remove_requests gone q = Inr q' \<and> prio_inv q' \<and>
     prio_contents q' = filter_mset (\<lambda>r. r \<notin> set gone) (prio_contents q)"
proof -
  let ?f = "filter (\<lambda>(p, t, r'). r' \<notin> set gone) q"
  have "ordered_by entry_key entry_lt (set ?f)"
    using prio_entries(2) [OF assms] by (auto simp: ordered_by_def)
  from heapify_ok [OF this] obtain q' where q': "heapify entry_lt ?f = Inr q'" "heap_from entry_key 0 q'"
    "mset q' = mset ?f" by blast
  then have "set q' = set ?f" by (metis set_mset_mset)
  then have "prio_inv q'" using assms q'(2) unfolding prio_inv_def no_ties_def by auto
  moreover have "prio_contents q' = filter_mset (\<lambda>r. r \<notin> set gone) (prio_contents q)"
    unfolding q'(3) by (induction q) auto
  ultimately show ?thesis using q'(1) by (simp add: prio_remove_requests_def)
qed

lemma prio_add_all:
  assumes "no_ties (set rs)"
  shows "\<exists>q. foldM prio_add_request rs [] = Inr q \<and> prio_inv q \<and> prio_contents q = mset rs"
proof (rule foldM_total_invariant [where P = "\<lambda>ps q. prio_inv q \<and> prio_contents q = mset ps"])
  show "prio_inv [] \<and> prio_contents [] = mset []" by (simp add: prio_inv_def heap_from_def no_ties_def)
next
  fix ps r qs q assume split: "rs = ps @ r # qs" and P: "prio_inv q \<and> prio_contents q = mset ps"
  have "snd ` snd ` set q = set_mset (prio_contents q)" by (simp add: image_image)
  then have "snd ` snd ` set q = set ps" using P by simp
  then have "no_ties (insert r (snd ` snd ` set q))" using assms split by (auto simp: no_ties_def)
  then show "\<exists>q'. prio_add_request r q = Inr q' \<and> prio_inv q' \<and> prio_contents q' = mset (ps @ [r])"
    using prio_add_ok P by fastforce
qed

section \<open>Properties of the queues\<close>

text \<open>Property C25. The priority queue serves by priority, then arrival: after adding requests no two
  of which tie and removing any set of them, iterating over it raises nothing and yields exactly
  the remaining requests, ordered by priority and arrival time.\<close>

theorem priority_queue_serves_in_order:
  assumes "no_ties (set rs)"
  shows "\<exists>q q' out. foldM prio_add_request rs [] = Inr q \<and> prio_remove_requests gone q = Inr q' \<and>
     prio_iter q' = Inr out \<and> mset out = filter_mset (\<lambda>r. r \<notin> set gone) (mset rs) \<and>
     sorted (map req_key out)"
proof -
  obtain q where q: "foldM prio_add_request rs [] = Inr q" "prio_inv q" "prio_contents q = mset rs"
    using prio_add_all [OF assms] by blast
  obtain q' where q': "prio_remove_requests gone q = Inr q'" "prio_inv q'"
    "prio_contents q' = filter_mset (\<lambda>r. r \<notin> set gone) (mset rs)"
    using prio_remove_ok [OF q(2), of gone] q(3) by auto
  from prio_iter_sorted [OF q'(2) refl] obtain out where "prio_iter q' = Inr out" "mset out = prio_contents q'"
    "sorted (map req_key out)" by (auto simp: prio_iter_def)
  then show ?thesis using q q' by auto
qed

definition demo_requests :: "request list" where
  "demo_requests = [\<lparr>request_id = ''a'', priority = 2, arrival_time = 1\<rparr>,
     \<lparr>request_id = ''b'', priority = 1, arrival_time = 5\<rparr>, \<lparr>request_id = ''c'', priority = 1, arrival_time = 3\<rparr>]"

theorem priority_queue_serves_in_order_witness:
  "\<exists>q out. foldM prio_add_request demo_requests [] = Inr q \<and> sorted (map req_key out) \<and>
     mset out = filter_mset (\<lambda>r. r \<notin> {}) (mset demo_requests)"
proof -
  have "no_ties (set demo_requests)" by (simp add: no_ties_def demo_requests_def)
  from priority_queue_serves_in_order [OF this, of "[]"] show ?thesis by auto
qed

text \<open>The first-come-first-served queue returns requests in the order of their
  arrival, with a prepended batch before everything that was waiting, and popping an empty queue
  raises an index error.\<close>

theorem fcfs_queue_serves_in_order:
  "request_queue.drain fcfs_pop_request (length front + length rs)
     (fcfs_prepend_requests front (fold fcfs_add_request rs [])) = Inr (front @ rs) \<and>
   fcfs_pop_request [] = Inl IndexError"
proof -
  have "fold fcfs_add_request rs q = q @ rs" for q
    by (induction rs arbitrary: q) (simp_all add: fcfs_add_request_def)
  moreover have "request_queue.drain fcfs_pop_request (length q) q = Inr q" for q :: "'a list"
    by (induction q) (simp_all add: fcfs.drain.simps fcfs_pop_simps)
  from this [of "front @ rs"] have "request_queue.drain fcfs_pop_request (length front + length rs) (front @ rs) = Inr (front @ rs)"
    by simp
  ultimately show ?thesis by (simp add: fcfs_prepend_requests_eq fcfs_pop_simps)
qed

text \<open>Two different requests with the same priority and arrival time cannot wait in the
  priority queue together: adding the second raises a type error, because the heap then compares
  the request objects themselves.\<close>

theorem priority_tie_raises:
  assumes "req_key r = req_key r'" and "r \<noteq> r'"
  shows "bind_res (prio_add_request r []) (prio_add_request r') = Inl TypeError"
  using assms by (simp add: prio_add_request_def heappush_def siftdown.simps)

theorem priority_tie_raises_witness:
  "bind_res (prio_add_request \<lparr>request_id = ''a'', priority = 0, arrival_time = 1\<rparr> [])
     (prio_add_request \<lparr>request_id = ''b'', priority = 0, arrival_time = 1\<rparr>) = Inl TypeError"
  by (rule priority_tie_raises) simp_all

end
