(* ===== verification/Diffusion_Scheduler.thy ===== *)
theory Diffusion_Scheduler
  imports Request_Queue Activation_Pool
begin

text \<open>
  The iteration-level scheduler of \<^verbatim>\<open>vllm/v1/diffusion/scheduler.py\<close> with the data types of
  \<^verbatim>\<open>vllm/v1/diffusion/types.py\<close>. A request waits in a first-come-first-served queue, moves to the
  list of running requests, and is handed to the model one denoising step at a time: every step
  replaces its working sequence and advances its position (block, step inside the block).
  Records are snapshots of the Python objects; an object the scheduler shares (the state of a
  request) lives in the map \<open>states\<close> only, so the in-place updates of the source are updates of
  that map. The invariant \<open>sched_inv\<close> is kept by every operation, and the progress logged by the
  scheduler, \<open>total_remaining_steps\<close>, is shown to be an exact countdown.
\<close>

section \<open>Data types\<close>

record DiffusionParams =
  steps :: int
  gen_length :: int
  block_length :: int
  temperature :: rat
  cfg_scale :: rat
  remasking :: string
  mask_id :: int
  prompt_length :: "int option"
  output_length :: "int option"

record DiffusionRequest =
  dr_req_id :: string
  input_token_ids :: "int list"
  dr_params :: DiffusionParams

type_synonym DiffusionBatch = "DiffusionRequest list"

record DiffusionRuntimeState =
  st_req_id :: string
  st_x :: "int list"
  st_prompt_len :: int
  st_total_len :: int
  st_params :: DiffusionParams
  st_block_idx :: int
  st_step_idx :: int

record DiffusionStepRequest =
  sr_req_id :: string
  sr_x :: "int list"
  sr_prompt_len :: int
  sr_total_len :: int
  sr_params :: DiffusionParams
  sr_block_idx :: int
  sr_step_idx :: int

type_synonym DiffusionStepBatch = "DiffusionStepRequest list"

record DiffusionStepUpdate =
  up_req_id :: string
  up_new_x :: "int list"
  up_block_idx :: int
  up_step_idx :: int

record FinishedDiffusionItem =
  fi_req_id :: string
  tail_token_ids :: "int list"

text \<open>The scheduler holds a reference to the model runner; what it reads of it is whether it has
  an activation pool (\<^verbatim>\<open>hasattr\<close>) and whether that pool is initialised.\<close>

record model_runner =
  activation_memory_pool :: "pool option"

record scheduler =
  max_batch_size :: int
  runner :: "model_runner option"
  waiting :: "DiffusionRequest fcfs"
  states :: "string \<rightharpoonup> DiffusionRuntimeState"
  running :: "string list"
  finished_req_ids :: "string set"

definition DiffusionScheduler :: "int \<Rightarrow> scheduler" where
  "DiffusionScheduler mbs =
     \<lparr>max_batch_size = mbs, runner = None, waiting = [], states = Map.empty, running = [],
      finished_req_ids = {}\<rparr>"

definition set_model_runner :: "model_runner \<Rightarrow> scheduler \<Rightarrow> scheduler" where
  "set_model_runner mr s = s\<lparr>runner := Some mr\<rparr>"

section \<open>Python slices\<close>

definition py_bound :: "int \<Rightarrow> int \<Rightarrow> int" where
  "py_bound n i = (if i < 0 then max 0 (n + i) else min n i)"

definition py_slice :: "'a list \<Rightarrow> int \<Rightarrow> int \<Rightarrow> 'a list" where
  "py_slice xs a b =
     (let n = int (length xs); a' = py_bound n a; b' = py_bound n b
      in take (nat (b' - a')) (drop (nat a') xs))"

definition py_slice_from :: "'a list \<Rightarrow> int \<Rightarrow> 'a list" where
  "py_slice_from xs a = drop (nat (py_bound (int (length xs)) a)) xs"

lemma py_slice_from_nonneg: "0 \<le> a \<Longrightarrow> py_slice_from xs a = drop (nat a) xs"
  by (auto simp: py_slice_from_def py_bound_def min_def)

lemma py_slice_nonneg:
  assumes "0 \<le> a" "a \<le> b" "b \<le> int (length xs)"
  shows "py_slice xs a b = take (nat (b - a)) (drop (nat a) xs)"
  using assms by (simp add: py_slice_def py_bound_def)

section \<open>Operations\<close>

text \<open>\<^verbatim>\<open>_can_add_more_requests\<close>: without an initialised pool the waiting queue is not inspected.\<close>

definition can_add_more_requests :: "scheduler \<Rightarrow> bool" where
  "can_add_more_requests s =
     (case runner s of
        None \<Rightarrow> int (length (running s)) < max_batch_size s
      | Some mr \<Rightarrow>
          (case activation_memory_pool mr of
             None \<Rightarrow> int (length (running s)) < max_batch_size s
           | Some pool \<Rightarrow>
               if \<not> initialized pool then int (length (running s)) < max_batch_size s
               else if waiting s = [] then False
               else int (length (running s)) < max_batch_size s))"

text \<open>The state a request starts from: its prompt followed by masks.\<close>

definition initial_state :: "DiffusionRequest \<Rightarrow> DiffusionRuntimeState" where
  "initial_state req =
     (let prompt_len = int (length (input_token_ids req));
          total_len = prompt_len + gen_length (dr_params req);
          x = input_token_ids req @ replicate (nat (gen_length (dr_params req))) (mask_id (dr_params req))
      in \<lparr>st_req_id = dr_req_id req, st_x = x, st_prompt_len = prompt_len, st_total_len = total_len,
          st_params = dr_params req, st_block_idx = 0, st_step_idx = 0\<rparr>)"

definition add_request :: "DiffusionRequest \<Rightarrow> scheduler \<Rightarrow> scheduler" where
  "add_request req s =
     s\<lparr>states := (states s)(dr_req_id req \<mapsto> initial_state req),
       waiting := fcfs_add_request req (waiting s)\<rparr>"

text \<open>One turn of the loop in \<^verbatim>\<open>_ensure_running_capacity\<close>, after the request is popped.\<close>

definition admit :: "DiffusionRequest \<Rightarrow> scheduler \<Rightarrow> scheduler" where
  "admit req s =
     (let s1 = (if states s (dr_req_id req) = None
                then s\<lparr>states := (states s)(dr_req_id req \<mapsto> initial_state req)\<rparr> else s)
      in if dr_req_id req \<in> set (running s1) then s1
         else s1\<lparr>running := running s1 @ [dr_req_id req]\<rparr>)"

lemma admit_simps [simp]:
  "waiting (admit req s) = waiting s" "max_batch_size (admit req s) = max_batch_size s"
  "runner (admit req s) = runner s" "finished_req_ids (admit req s) = finished_req_ids s"
  by (simp_all add: admit_def Let_def)

function ensure_running_capacity :: "scheduler \<Rightarrow> scheduler result" where
  "ensure_running_capacity s =
     (if can_add_more_requests s
      then bind_res (fcfs_pop_request (waiting s)) (\<lambda>(req, q).
             ensure_running_capacity (admit req (s\<lparr>waiting := q\<rparr>)))
      else Inr s)"
  by pat_completeness auto
termination
  by (relation "measure (\<lambda>s. length (waiting s))")
     (auto simp: fcfs_pop_request_def split: list.splits)

declare ensure_running_capacity.simps [simp del]

text \<open>The loop over the running requests that builds the batch of one step.\<close>

definition step_request :: "DiffusionRuntimeState \<Rightarrow> DiffusionStepRequest" where
  "step_request st =
     \<lparr>sr_req_id = st_req_id st, sr_x = st_x st, sr_prompt_len = st_prompt_len st,
      sr_total_len = st_total_len st, sr_params = st_params st, sr_block_idx = st_block_idx st,
      sr_step_idx = st_step_idx st\<rparr>"

fun collect_step_requests ::
  "int \<Rightarrow> (string \<rightharpoonup> DiffusionRuntimeState) \<Rightarrow> string list \<Rightarrow> DiffusionStepBatch \<Rightarrow> DiffusionStepBatch" where
  "collect_step_requests mbs sts [] acc = acc"
| "collect_step_requests mbs sts (rid # rids) acc =
     (case sts rid of
        None \<Rightarrow> collect_step_requests mbs sts rids acc
      | Some st \<Rightarrow>
          (let acc' = acc @ [step_request st]
           in if mbs \<le> int (length acc') then acc' else collect_step_requests mbs sts rids acc'))"

definition num_blocks :: "DiffusionParams \<Rightarrow> int" where
  "num_blocks p = max 1 (gen_length p div max 1 (block_length p))"

definition steps_per_block :: "DiffusionParams \<Rightarrow> int" where
  "steps_per_block p = max 1 (steps p div num_blocks p)"

text \<open>The progress that \<^verbatim>\<open>schedule_step\<close> logs for every request of the batch.\<close>

definition total_remaining_steps :: "DiffusionStepRequest \<Rightarrow> int" where
  "total_remaining_steps r =
     (let p = sr_params r;
          remain_in_block = max 0 (steps_per_block p - sr_step_idx r);
          remain_blocks_after = max 0 (num_blocks p - 1 - sr_block_idx r)
      in remain_in_block + remain_blocks_after * steps_per_block p)"

definition schedule_step :: "scheduler \<Rightarrow> (DiffusionStepBatch option \<times> scheduler) result" where
  "schedule_step s =
     bind_res (ensure_running_capacity s) (\<lambda>s1.
       let step_reqs = collect_step_requests (max_batch_size s1) (states s1) (running s1) []
       in Inr (if step_reqs = [] then None else Some step_reqs, s1))"

text \<open>\<^verbatim>\<open>apply_updates_and_collect_finished\<close>: the new position of a request, the two conditions that
  end it, and the loop over the updates. Removing an id that is not running is ignored.\<close>

definition advance :: "DiffusionStepUpdate \<Rightarrow> DiffusionRuntimeState \<Rightarrow> DiffusionRuntimeState" where
  "advance up st =
     (let st1 = st\<lparr>st_x := up_new_x up, st_step_idx := st_step_idx st + 1\<rparr>
      in if steps_per_block (st_params st1) \<le> st_step_idx st1
         then st1\<lparr>st_step_idx := 0, st_block_idx := st_block_idx st1 + 1\<rparr> else st1)"

definition finished_by_mask :: "DiffusionRuntimeState \<Rightarrow> bool" where
  "finished_by_mask st = (count_list (py_slice_from (st_x st) (st_prompt_len st)) (mask_id (st_params st)) = 0)"

definition finished_by_budget :: "DiffusionRuntimeState \<Rightarrow> bool" where
  "finished_by_budget st = (num_blocks (st_params st) \<le> st_block_idx st)"

definition finished_item :: "DiffusionRuntimeState \<Rightarrow> FinishedDiffusionItem" where
  "finished_item st =
     \<lparr>fi_req_id = st_req_id st,
      tail_token_ids = py_slice (st_x st) (st_prompt_len st) (st_prompt_len st + gen_length (st_params st))\<rparr>"

definition apply_update ::
  "DiffusionStepUpdate \<Rightarrow> FinishedDiffusionItem list \<times> scheduler \<Rightarrow> FinishedDiffusionItem list \<times> scheduler" where
  "apply_update up = (\<lambda>(items, s).
     case states s (up_req_id up) of
       None \<Rightarrow> (items, s)
     | Some st0 \<Rightarrow>
         (let st = advance up st0; s1 = s\<lparr>states := (states s)(up_req_id up \<mapsto> st)\<rparr>
          in if finished_by_mask st \<or> finished_by_budget st
             then (items @ [finished_item st],
                   s1\<lparr>finished_req_ids := insert (st_req_id st) (finished_req_ids s1),
                      running := remove1 (st_req_id st) (running s1)\<rparr>)
             else (items, s1)))"

definition apply_updates_and_collect_finished ::
  "DiffusionStepUpdate list \<Rightarrow> scheduler \<Rightarrow> FinishedDiffusionItem list \<times> scheduler" where
  "apply_updates_and_collect_finished ups s = fold apply_update ups ([], s)"

text \<open>The older interface that hands out whole requests.\<close>

function schedule_loop :: "DiffusionBatch \<Rightarrow> scheduler \<Rightarrow> (DiffusionBatch \<times> scheduler) result" where
  "schedule_loop batch_list s =
     (if waiting s \<noteq> [] \<and> int (length batch_list) < max_batch_size s
      then bind_res (fcfs_pop_request (waiting s)) (\<lambda>(req, q).
             schedule_loop (batch_list @ [req]) (s\<lparr>waiting := q\<rparr>))
      else Inr (batch_list, s))"
  by pat_completeness auto
termination
  by (relation "measure (\<lambda>(_, s). length (waiting s))")
     (auto simp: fcfs_pop_request_def split: list.splits)

declare schedule_loop.simps [simp del]

definition schedule :: "scheduler \<Rightarrow> (DiffusionBatch option \<times> scheduler) result" where
  "schedule s =
     (if waiting s = [] then Inr (None, s)
      else bind_res (schedule_loop [] s) (\<lambda>(batch_list, s1). Inr (Some batch_list, s1)))"

definition has_active_requests :: "scheduler \<Rightarrow> bool" where
  "has_active_requests s \<longleftrightarrow> waiting s \<noteq> [] \<or> 0 < length (running s)"


section \<open>Well-formed states\<close>

text \<open>The parameters that \<^verbatim>\<open>execute_diffusion_once\<close> accepts: it asserts the two divisibilities.\<close>

definition valid_params :: "DiffusionParams \<Rightarrow> bool" where
  "valid_params p \<longleftrightarrow> 0 < gen_length p \<and> 0 < block_length p \<and> 0 < steps p \<and>
     gen_length p mod block_length p = 0 \<and> steps p mod (gen_length p div block_length p) = 0"

lemma valid_num_blocks:
  assumes "valid_params p"
  shows "num_blocks p = gen_length p div block_length p" "0 < gen_length p div block_length p"
    "num_blocks p * block_length p = gen_length p"
proof -
  have "block_length p \<le> gen_length p"
    using assms by (intro zdvd_imp_le) (auto simp: valid_params_def dvd_eq_mod_eq_0)
  then show *: "0 < gen_length p div block_length p"
    using assms by (auto simp: valid_params_def pos_imp_zdiv_pos_iff)
  then show "num_blocks p = gen_length p div block_length p"
    using assms by (auto simp: num_blocks_def valid_params_def)
  then show "num_blocks p * block_length p = gen_length p"
    using assms by (auto simp: valid_params_def)
qed

lemma valid_steps_per_block:
  assumes "valid_params p"
  shows "num_blocks p * steps_per_block p = steps p" "0 < steps_per_block p" "0 < num_blocks p"
proof -
  note nb = valid_num_blocks [OF assms]
  then show "0 < num_blocks p" by simp
  have d: "num_blocks p dvd steps p" using assms nb(1) by (auto simp: valid_params_def)
  then have "num_blocks p \<le> steps p" using assms by (intro zdvd_imp_le) (auto simp: valid_params_def)
  then have "0 < steps p div num_blocks p" using \<open>0 < num_blocks p\<close> by (simp add: pos_imp_zdiv_pos_iff)
  then have "steps_per_block p = steps p div num_blocks p" by (simp add: steps_per_block_def)
  then show "num_blocks p * steps_per_block p = steps p" "0 < steps_per_block p"
    using d \<open>0 < steps p div num_blocks p\<close> by auto
qed

definition wf_state :: "DiffusionRuntimeState \<Rightarrow> bool" where
  "wf_state st \<longleftrightarrow> valid_params (st_params st) \<and> 0 \<le> st_prompt_len st \<and>
     st_total_len st = st_prompt_len st + gen_length (st_params st) \<and>
     int (length (st_x st)) = st_total_len st \<and>
     0 \<le> st_step_idx st \<and> st_step_idx st < steps_per_block (st_params st) \<and> 0 \<le> st_block_idx st"

definition in_progress :: "DiffusionRuntimeState \<Rightarrow> bool" where
  "in_progress st \<longleftrightarrow> wf_state st \<and> st_block_idx st < num_blocks (st_params st)"

lemma initial_state_in_progress:
  "valid_params (dr_params req) \<Longrightarrow> in_progress (initial_state req)"
  using valid_steps_per_block [of "dr_params req"]
  by (simp add: in_progress_def wf_state_def initial_state_def Let_def) (simp add: valid_params_def)

text \<open>The denoising steps a state has left.\<close>

abbreviation remaining :: "DiffusionRuntimeState \<Rightarrow> int" where
  "remaining st \<equiv> total_remaining_steps (step_request st)"

lemma remaining_in_progress:
  assumes "in_progress st"
  shows "remaining st = (num_blocks (st_params st) - st_block_idx st) * steps_per_block (st_params st)
      - st_step_idx st" "0 < remaining st"
proof -
  let ?b = "num_blocks (st_params st) - 1 - st_block_idx st" and ?k = "steps_per_block (st_params st)"
  have b: "0 \<le> ?b" "st_step_idx st < ?k" "0 < ?k"
    using assms valid_steps_per_block [of "st_params st"] by (auto simp: in_progress_def wf_state_def)
  then have r: "remaining st = ?k - st_step_idx st + ?b * ?k"
    by (simp add: total_remaining_steps_def step_request_def Let_def)
  then show "remaining st = (num_blocks (st_params st) - st_block_idx st) * ?k - st_step_idx st"
    by (simp add: algebra_simps)
  have "0 \<le> ?b * ?k" using b by (intro mult_nonneg_nonneg) auto
  then show "0 < remaining st" using r b by linarith
qed

lemma remaining_initial: "valid_params (dr_params req) \<Longrightarrow> remaining (initial_state req) = steps (dr_params req)"
  using remaining_in_progress(1) [OF initial_state_in_progress, of req] valid_steps_per_block(1) [of "dr_params req"]
  by (simp add: initial_state_def Let_def)

section \<open>Advancing a request\<close>

lemma advance_simps [simp]:
  "st_req_id (advance up st) = st_req_id st" "st_x (advance up st) = up_new_x up"
  "st_prompt_len (advance up st) = st_prompt_len st" "st_total_len (advance up st) = st_total_len st"
  "st_params (advance up st) = st_params st"
  by (simp_all add: advance_def Let_def)

lemma advance_wf:
  assumes "in_progress st" "int (length (up_new_x up)) = st_total_len st"
  shows "wf_state (advance up st)"
    and "st_block_idx (advance up st) * steps_per_block (st_params st) + st_step_idx (advance up st)
      = st_block_idx st * steps_per_block (st_params st) + st_step_idx st + 1"
  using assms by (auto simp: in_progress_def wf_state_def advance_def Let_def algebra_simps)

text \<open>Every step counts the remaining steps down by one, and the budget is over exactly at zero.\<close>

lemma advance_countdown:
  assumes "in_progress st" "int (length (up_new_x up)) = st_total_len st"
  shows "finished_by_budget (advance up st) \<longleftrightarrow> remaining st = 1"
    and "\<not> finished_by_budget (advance up st) \<Longrightarrow>
      in_progress (advance up st) \<and> remaining (advance up st) = remaining st - 1"
proof -
  let ?k = "steps_per_block (st_params st)" and ?n = "num_blocks (st_params st)"
  let ?b = "st_block_idx (advance up st)" and ?i = "st_step_idx (advance up st)"
  note wf = advance_wf [OF assms]
  note rem = remaining_in_progress [OF assms(1)]
  have k: "0 \<le> ?i" "?i < ?k" using wf(1) by (auto simp: wf_state_def)
  have eq: "remaining st - 1 = (?n - ?b) * ?k - ?i" using rem(1) wf(2) by (simp add: algebra_simps)
  have progress: "in_progress (advance up st)" if "\<not> finished_by_budget (advance up st)"
    using that wf(1) by (auto simp: in_progress_def finished_by_budget_def)
  show b: "\<not> finished_by_budget (advance up st) \<Longrightarrow>
      in_progress (advance up st) \<and> remaining (advance up st) = remaining st - 1"
    using progress remaining_in_progress(1) [of "advance up st"] eq by simp
  show "finished_by_budget (advance up st) \<longleftrightarrow> remaining st = 1"
  proof
    assume f: "finished_by_budget (advance up st)"
    then have "(?n - ?b) * ?k \<le> 0"
      using k by (intro mult_nonpos_nonneg) (auto simp: finished_by_budget_def)
    then have "remaining st \<le> 1" using eq k(1) by linarith
    then show "remaining st = 1" using rem(2) by linarith
  next
    assume "remaining st = 1"
    then show "finished_by_budget (advance up st)"
      using b remaining_in_progress(2) [of "advance up st"] by fastforce
  qed
qed

lemma finished_item_length:
  assumes "wf_state st"
  shows "tail_token_ids (finished_item st) = drop (nat (st_prompt_len st)) (st_x st)"
    "int (length (tail_token_ids (finished_item st))) = gen_length (st_params st)"
proof -
  have "st_prompt_len st \<le> st_prompt_len st + gen_length (st_params st)"
    using assms by (auto simp: wf_state_def valid_params_def)
  then show tail: "tail_token_ids (finished_item st) = drop (nat (st_prompt_len st)) (st_x st)"
    using assms by (auto simp: finished_item_def wf_state_def py_slice_nonneg)
  show "int (length (tail_token_ids (finished_item st))) = gen_length (st_params st)"
    unfolding tail using assms by (auto simp: wf_state_def valid_params_def)
qed


section \<open>The scheduler invariant\<close>

abbreviation ids :: "DiffusionRequest list \<Rightarrow> string list" where
  "ids \<equiv> map dr_req_id"

definition pool_ready :: "scheduler \<Rightarrow> bool" where
  "pool_ready s \<longleftrightarrow> (\<exists>mr pool. runner s = Some mr \<and> activation_memory_pool mr = Some pool \<and> initialized pool)"

definition sched_inv :: "scheduler \<Rightarrow> bool" where
  "sched_inv s \<longleftrightarrow> distinct (running s @ ids (waiting s)) \<and>
     int (length (running s)) \<le> max 0 (max_batch_size s) \<and>
     (\<forall>rid \<in> set (running s). \<exists>st. states s rid = Some st \<and> in_progress st) \<and>
     (\<forall>req \<in> set (waiting s). valid_params (dr_params req) \<and> states s (dr_req_id req) = Some (initial_state req)) \<and>
     (\<forall>rid st. states s rid = Some st \<longrightarrow> st_req_id st = rid \<and> wf_state st)"

lemma sched_inv_waiting_fresh:
  "sched_inv s \<Longrightarrow> req \<in> set (waiting s) \<Longrightarrow> dr_req_id req \<notin> set (running s)"
  by (auto simp: sched_inv_def disjoint_iff)

lemma sched_inv_drop: "sched_inv s \<Longrightarrow> sched_inv (s\<lparr>waiting := drop n (waiting s)\<rparr>)"
proof -
  have "req \<in> set (waiting s)" if "req \<in> set (drop n (waiting s))" for req
    using that by (rule in_set_dropD)
  moreover have "distinct (ids (drop n (waiting s)))" if "distinct (ids (waiting s))"
    using that by (simp add: drop_map [symmetric])
  moreover assume "sched_inv s"
  ultimately show ?thesis by (auto simp: sched_inv_def disjoint_iff)
qed

lemma sched_inv_init: "sched_inv (DiffusionScheduler mbs)" "sched_inv s \<Longrightarrow> sched_inv (set_model_runner mr s)"
  by (simp_all add: sched_inv_def DiffusionScheduler_def set_model_runner_def)

lemma initial_state_simps [simp]:
  "st_req_id (initial_state req) = dr_req_id req" "st_params (initial_state req) = dr_params req"
  "st_prompt_len (initial_state req) = int (length (input_token_ids req))"
  "st_x (initial_state req) =
     input_token_ids req @ replicate (nat (gen_length (dr_params req))) (mask_id (dr_params req))"
  by (simp_all add: initial_state_def Let_def)

lemma sched_inv_add:
  assumes "sched_inv s" "valid_params (dr_params req)" "dr_req_id req \<notin> set (running s)"
    "dr_req_id req \<notin> set (ids (waiting s))"
  shows "sched_inv (add_request req s)"
proof -
  have "wf_state (initial_state req)" using initial_state_in_progress [OF assms(2)] by (simp add: in_progress_def)
  moreover have "\<forall>r \<in> set (waiting s). dr_req_id r \<noteq> dr_req_id req"
    using assms(4) by (metis image_eqI set_map)
  moreover have "\<forall>rid \<in> set (running s). rid \<noteq> dr_req_id req" using assms(3) by blast
  ultimately show ?thesis
    using assms by (auto simp: sched_inv_def add_request_def fcfs_add_request_def)
qed

text \<open>Admission moves the first waiting request behind the running ones.\<close>

lemma sched_inv_pop:
  assumes "sched_inv s" "waiting s = req # q" "int (length (running s)) < max_batch_size s"
  shows "admit req (s\<lparr>waiting := q\<rparr>) = s\<lparr>waiting := q, running := running s @ [dr_req_id req]\<rparr>"
    and "sched_inv (s\<lparr>waiting := q, running := running s @ [dr_req_id req]\<rparr>)"
proof -
  show "admit req (s\<lparr>waiting := q\<rparr>) = s\<lparr>waiting := q, running := running s @ [dr_req_id req]\<rparr>"
    using assms by (simp add: admit_def sched_inv_def)
  show "sched_inv (s\<lparr>waiting := q, running := running s @ [dr_req_id req]\<rparr>)"
    using assms initial_state_in_progress [of req] by (auto simp: sched_inv_def)
qed

lemma can_add_ready:
  "pool_ready s \<Longrightarrow> can_add_more_requests s \<longleftrightarrow> waiting s \<noteq> [] \<and> int (length (running s)) < max_batch_size s"
  by (auto simp: pool_ready_def can_add_more_requests_def)

lemma can_add_unready:
  "\<not> pool_ready s \<Longrightarrow> can_add_more_requests s \<longleftrightarrow> int (length (running s)) < max_batch_size s"
  by (auto simp: pool_ready_def can_add_more_requests_def split: option.splits)

text \<open>With an initialised pool, \<^verbatim>\<open>_ensure_running_capacity\<close> admits as many of the waiting requests as
  there is room for, in arrival order, and raises nothing.\<close>

lemma ensure_running_capacity_ready:
  assumes "sched_inv s" "pool_ready s" "n = nat (max_batch_size s) - length (running s)"
  shows "ensure_running_capacity s =
      Inr (s\<lparr>waiting := drop n (waiting s), running := running s @ take n (ids (waiting s))\<rparr>) \<and>
    sched_inv (s\<lparr>waiting := drop n (waiting s), running := running s @ take n (ids (waiting s))\<rparr>)"
  using assms
proof (induction s arbitrary: n rule: ensure_running_capacity.induct)
  case (1 s)
  show ?case
  proof (cases "can_add_more_requests s")
    case False
    then have "n = 0 \<or> waiting s = []" using 1(3,4) by (auto simp: can_add_ready)
    then have "s\<lparr>waiting := drop n (waiting s), running := running s @ take n (ids (waiting s))\<rparr> = s"
      by (cases s) auto
    then show ?thesis
      using False 1(2) by (simp add: ensure_running_capacity.simps [of s])
  next
    case True
    then have room: "int (length (running s)) < max_batch_size s" and "waiting s \<noteq> []"
      using can_add_ready [OF 1(3)] by auto
    then obtain req q where w: "waiting s = req # q" by (cases "waiting s") auto
    let ?s = "s\<lparr>waiting := q, running := running s @ [dr_req_id req]\<rparr>"
    note pop = sched_inv_pop [OF 1(2) w room]
    have "pool_ready ?s" using 1(3) by (simp add: pool_ready_def)
    moreover have n: "n = Suc (nat (max_batch_size ?s) - length (running ?s))" using room 1(4) by auto
    ultimately have "ensure_running_capacity ?s =
        Inr (?s\<lparr>waiting := drop (n - 1) (waiting ?s), running := running ?s @ take (n - 1) (ids (waiting ?s))\<rparr>) \<and>
      sched_inv (?s\<lparr>waiting := drop (n - 1) (waiting ?s), running := running ?s @ take (n - 1) (ids (waiting ?s))\<rparr>)"
      using 1(1) [OF True, of "(req, q)" req q "n - 1"] pop w by (simp add: fcfs_pop_simps)
    then show ?thesis
      using True w pop(1) n by (simp add: ensure_running_capacity.simps [of s] fcfs_pop_simps)
  qed
qed

text \<open>Without one, the loop runs past the end of the waiting queue whenever there is room.\<close>

lemma ensure_running_capacity_unready:
  assumes "\<not> pool_ready s" "int (length (running s) + length (waiting s)) < max_batch_size s"
  shows "ensure_running_capacity s = Inl IndexError"
  using assms
proof (induction s rule: ensure_running_capacity.induct)
  case (1 s)
  have can: "can_add_more_requests s" using 1(2,3) by (simp add: can_add_unready)
  show ?case
  proof (cases "waiting s")
    case Nil
    then show ?thesis using can by (simp add: ensure_running_capacity.simps [of s] fcfs_pop_simps)
  next
    case (Cons req q)
    let ?s = "admit req (s\<lparr>waiting := q\<rparr>)"
    have "\<not> pool_ready ?s" using 1(2) by (simp add: pool_ready_def)
    moreover have "length (running ?s) \<le> Suc (length (running s))" by (simp add: admit_def Let_def)
    then have "int (length (running ?s) + length (waiting ?s)) < max_batch_size ?s" using 1(3) Cons by simp
    ultimately have "ensure_running_capacity ?s = Inl IndexError"
      using 1(1) [OF can, of "(req, q)" req q] Cons by (simp add: fcfs_pop_simps)
    then show ?thesis using can Cons by (simp add: ensure_running_capacity.simps [of s] fcfs_pop_simps)
  qed
qed

section \<open>Building the batch\<close>

lemma collect_step_requests_eq:
  assumes "\<forall>rid \<in> set rids. \<exists>st. sts rid = Some st" "int (length acc) + int (length rids) \<le> mbs"
  shows "collect_step_requests mbs sts rids acc = acc @ map (\<lambda>rid. step_request (the (sts rid))) rids"
  using assms
proof (induction rids arbitrary: acc)
  case (Cons rid rids)
  then obtain st where st: "sts rid = Some st" by auto
  have IH: "collect_step_requests mbs sts rids (acc @ [step_request st]) =
      (acc @ [step_request st]) @ map (\<lambda>rid. step_request (the (sts rid))) rids"
    using Cons.prems by (intro Cons.IH) auto
  show ?case
  proof (cases "rids = []")
    case True
    then show ?thesis using st by (simp add: Let_def)
  next
    case False
    then have "\<not> mbs \<le> int (length (acc @ [step_request st]))" using Cons.prems(2) by (cases rids) auto
    then show ?thesis using st IH by (simp add: Let_def)
  qed
qed simp


lemma schedule_step_ready:
  assumes "sched_inv s" "pool_ready s" "n = nat (max_batch_size s) - length (running s)"
    "s' = s\<lparr>waiting := drop n (waiting s), running := running s @ take n (ids (waiting s))\<rparr>"
  shows "schedule_step s = Inr (if running s' = [] then None
      else Some (map (\<lambda>rid. step_request (the (states s rid))) (running s')), s') \<and> sched_inv s'"
proof -
  note ens = ensure_running_capacity_ready [OF assms(1-3)]
  have inv: "sched_inv s'" using ens assms(4) by simp
  have "collect_step_requests (max_batch_size s') (states s') (running s') [] =
      map (\<lambda>rid. step_request (the (states s' rid))) (running s')"
    if "0 \<le> max_batch_size s" using that inv assms(4) by (subst collect_step_requests_eq) (auto simp: sched_inv_def)
  moreover have "running s' = []" if "max_batch_size s < 0"
    using that assms by (auto simp: sched_inv_def)
  ultimately have "collect_step_requests (max_batch_size s') (states s') (running s') [] =
      map (\<lambda>rid. step_request (the (states s' rid))) (running s')"
    by (cases "0 \<le> max_batch_size s") auto
  then show ?thesis using ens inv assms(4) by (simp add: schedule_step_def Let_def)
qed

lemma ensure_running_capacity_inv:
  "sched_inv s \<Longrightarrow> ensure_running_capacity s = Inr s' \<Longrightarrow> sched_inv s'"
proof (induction s rule: ensure_running_capacity.induct)
  case (1 s)
  show ?case
  proof (cases "can_add_more_requests s")
    case True
    then have room: "int (length (running s)) < max_batch_size s"
      by (cases "pool_ready s") (auto simp: can_add_ready can_add_unready)
    from True 1(3) obtain req q where w: "waiting s = req # q"
      by (cases "waiting s") (auto simp: ensure_running_capacity.simps [of s] fcfs_pop_simps)
    note pop = sched_inv_pop [OF 1(2) w room]
    show ?thesis
      using 1(1) [OF True, of "(req, q)" req q] 1(3) True pop w
      by (simp add: ensure_running_capacity.simps [of s] fcfs_pop_simps)
  next
    case False
    then show ?thesis using 1 by (simp add: ensure_running_capacity.simps [of s])
  qed
qed

lemma schedule_step_inv: "sched_inv s \<Longrightarrow> schedule_step s = Inr (b, s') \<Longrightarrow> sched_inv s'"
  using ensure_running_capacity_inv by (auto simp: schedule_step_def bind_res_eq_Inr Let_def)

text \<open>The older interface takes requests from the front of the queue up to the batch size.\<close>

lemma schedule_loop_eq:
  "schedule_loop batch s =
     (let n = nat (max_batch_size s) - length batch
      in Inr (batch @ take n (waiting s), s\<lparr>waiting := drop n (waiting s)\<rparr>))"
proof (induction batch s rule: schedule_loop.induct)
  case (1 batch s)
  show ?case
  proof (cases "waiting s \<noteq> [] \<and> int (length batch) < max_batch_size s")
    case True
    then obtain req q where w: "waiting s = req # q" by (cases "waiting s") auto
    have n: "nat (max_batch_size s) - length batch = Suc (nat (max_batch_size s) - Suc (length batch))"
      using True by linarith
    show ?thesis
      using True w 1 [OF True, of "(req, q)" req q]
      by (simp add: schedule_loop.simps [of batch s] fcfs_pop_simps n Let_def)
  next
    case False
    then have "nat (max_batch_size s) - length batch = 0 \<or> waiting s = []" by auto
    moreover from this have "s\<lparr>waiting := drop (nat (max_batch_size s) - length batch) (waiting s)\<rparr> = s"
      by (cases s) auto
    ultimately show ?thesis
      using False by (auto simp: schedule_loop.simps [of batch s] Let_def)
  qed
qed

lemma schedule_inv: "sched_inv s \<Longrightarrow> schedule s = Inr (b, s') \<Longrightarrow> sched_inv s'"
proof -
  assume inv: "sched_inv s" and "schedule s = Inr (b, s')"
  then obtain n where "s' = s \<or> s' = s\<lparr>waiting := drop n (waiting s)\<rparr>"
    by (auto simp: schedule_def schedule_loop_eq Let_def split: if_splits)
  then show ?thesis
    using inv sched_inv_drop by auto
qed

section \<open>Applying updates\<close>

definition update_ok :: "scheduler \<Rightarrow> DiffusionStepUpdate \<Rightarrow> bool" where
  "update_ok s up \<longleftrightarrow> up_req_id up \<in> set (running s) \<and>
     (\<forall>st. states s (up_req_id up) = Some st \<longrightarrow> int (length (up_new_x up)) = st_total_len st)"

definition finishes :: "DiffusionRuntimeState \<Rightarrow> bool" where
  "finishes st \<longleftrightarrow> finished_by_mask st \<or> finished_by_budget st"

lemma update_ok_state:
  assumes "sched_inv s" "update_ok s up"
  obtains st where "states s (up_req_id up) = Some st" "in_progress st" "st_req_id st = up_req_id up"
    "int (length (up_new_x up)) = st_total_len st"
  using assms by (fastforce simp: sched_inv_def update_ok_def)

lemma apply_update_known:
  assumes "states s (up_req_id up) = Some st" "st_req_id st = up_req_id up"
  shows "apply_update up (items, s) =
     (items @ (if finishes (advance up st) then [finished_item (advance up st)] else []),
      s\<lparr>states := (states s)(up_req_id up \<mapsto> advance up st),
        running := if finishes (advance up st) then remove1 (up_req_id up) (running s) else running s,
        finished_req_ids := (if finishes (advance up st) then {up_req_id up} else {}) \<union> finished_req_ids s\<rparr>)"
  using assms by (cases s) (simp add: apply_update_def finishes_def Let_def)

lemma apply_update_inv:
  assumes inv: "sched_inv s" and ok: "update_ok s up" and eq: "apply_update up (items, s) = (items', s')"
  shows "sched_inv s'"
proof -
  obtain st where st0: "states s (up_req_id up) = Some st" "in_progress st" "st_req_id st = up_req_id up"
    and len: "int (length (up_new_x up)) = st_total_len st"
    using update_ok_state [OF inv ok] .
  have "states s' = (states s)(up_req_id up \<mapsto> advance up st)"
    "waiting s' = waiting s" "max_batch_size s' = max_batch_size s"
    "running s' = (if finishes (advance up st) then remove1 (up_req_id up) (running s) else running s)"
    using eq apply_update_known [OF st0(1,3)] by auto
  note st = st0 this
  note wf = advance_wf(1) [OF st(2) len] and count = advance_countdown(2) [OF st(2) len]
  have notin: "\<forall>req \<in> set (waiting s). dr_req_id req \<noteq> up_req_id up"
    using sched_inv_waiting_fresh [OF inv] ok by (metis update_ok_def)
  have run: "distinct (running s)" "set (running s') \<subseteq> set (running s)" "length (running s') \<le> length (running s)"
    using inv st(7) by (auto simp: sched_inv_def set_remove1_subset length_remove1)
  have progress: "\<exists>st'. states s' rid = Some st' \<and> in_progress st'" if rid: "rid \<in> set (running s')" for rid
  proof (cases "rid = up_req_id up")
    case True
    then have "\<not> finishes (advance up st)" using rid st(7) run(1) by auto
    then show ?thesis using True st(4) count by (auto simp: finishes_def)
  next
    case False
    then show ?thesis using rid run(2) inv st(4) by (auto simp: sched_inv_def)
  qed
  have "distinct (running s' @ ids (waiting s'))"
    using inv st(5,7) run by (auto simp: sched_inv_def distinct_remove1)
  then show ?thesis
    using inv st(3-6) run(3) progress wf notin by (auto simp: sched_inv_def)
qed

lemma update_ok_later:
  assumes "sched_inv s" "update_ok s up" "apply_update up (items, s) = (items', s')"
    "update_ok s up'" "up_req_id up' \<noteq> up_req_id up"
  shows "update_ok s' up'"
proof -
  obtain st where "states s (up_req_id up) = Some st" "st_req_id st = up_req_id up"
    using update_ok_state [OF assms(1,2)] .
  then have "states s' = (states s)(up_req_id up \<mapsto> advance up st)"
    "running s' = (if finishes (advance up st) then remove1 (up_req_id up) (running s) else running s)"
    using assms(3) apply_update_known by auto
  then show ?thesis using assms(4,5) by (auto simp: update_ok_def)
qed

lemma apply_updates_inv:
  assumes "sched_inv s" "distinct (map up_req_id ups)" "\<forall>up \<in> set ups. update_ok s up"
  shows "sched_inv (snd (fold apply_update ups (items, s)))"
  using assms
proof (induction ups arbitrary: items s)
  case (Cons up ups)
  obtain items' s' where eq: "apply_update up (items, s) = (items', s')" by (metis surj_pair)
  have ok: "update_ok s up" using Cons.prems(3) by simp
  have "\<forall>up' \<in> set ups. update_ok s' up'"
    using update_ok_later [OF Cons.prems(1) ok eq] Cons.prems(2,3) by (metis distinct.simps(2) image_eqI
        list.set_intros(2) list.simps(9) set_map)
  then show ?case
    using Cons.IH [of s'] apply_update_inv [OF Cons.prems(1) ok eq] Cons.prems(2) eq by simp
qed simp


section \<open>Reachable schedulers\<close>

text \<open>The operations the engine performs, in any order: submitting a request whose id is not in
  use, installing the model runner, planning a step, the older interface, and applying updates to
  distinct running requests.\<close>

inductive sched_move :: "scheduler \<Rightarrow> scheduler \<Rightarrow> bool" where
  Submit: "\<lbrakk>valid_params (dr_params req); dr_req_id req \<notin> set (running s);
      dr_req_id req \<notin> set (ids (waiting s))\<rbrakk> \<Longrightarrow> sched_move s (add_request req s)"
| Runner: "sched_move s (set_model_runner mr s)"
| Plan: "schedule_step s = Inr (b, s') \<Longrightarrow> sched_move s s'"
| Batch: "schedule s = Inr (b, s') \<Longrightarrow> sched_move s s'"
| Update: "\<lbrakk>distinct (map up_req_id ups); \<forall>up \<in> set ups. update_ok s up\<rbrakk> \<Longrightarrow>
      sched_move s (snd (apply_updates_and_collect_finished ups s))"

inductive_cases sched_moveE: "sched_move s s'"

definition sched_reachable :: "scheduler \<Rightarrow> bool" where
  "sched_reachable s \<longleftrightarrow> (\<exists>mbs. sched_move\<^sup>*\<^sup>* (DiffusionScheduler mbs) s)"

lemma sched_move_inv: "sched_move s s' \<Longrightarrow> sched_inv s \<Longrightarrow> sched_inv s'"
  by (induction rule: sched_move.induct)
     (auto intro: sched_inv_add sched_inv_init schedule_step_inv schedule_inv
       simp: apply_updates_and_collect_finished_def apply_updates_inv)

lemma sched_reachable_inv: "sched_reachable s \<Longrightarrow> sched_inv s"
proof -
  have "sched_move\<^sup>*\<^sup>* (DiffusionScheduler mbs) s \<Longrightarrow> sched_inv s" for mbs
    by (induction rule: rtranclp_induct) (auto intro: sched_inv_init sched_move_inv)
  then show "sched_reachable s \<Longrightarrow> sched_inv s" by (auto simp: sched_reachable_def)
qed

lemma sched_reachable_moves:
  "sched_reachable (DiffusionScheduler mbs)" "sched_reachable s \<Longrightarrow> sched_move s s' \<Longrightarrow> sched_reachable s'"
  by (auto simp: sched_reachable_def intro: rtranclp.rtrancl_into_rtrancl)

section \<open>Properties\<close>

text \<open>Property C26. Once the activation pool is initialised, planning a step from any reachable
  scheduler state raises nothing. The requests running afterwards are the running ones followed by
  the waiting ones in arrival order, cut at the batch size; the batch holds exactly their current
  states, and it is None exactly when nothing runs.\<close>

theorem schedule_step_fcfs_batch:
  assumes "sched_reachable s" "pool_ready s" "0 \<le> max_batch_size s"
  shows "\<exists>b s'. schedule_step s = Inr (b, s') \<and>
    running s' = take (nat (max_batch_size s)) (running s @ ids (waiting s)) \<and>
    running s' @ ids (waiting s') = running s @ ids (waiting s) \<and>
    states s' = states s \<and> distinct (running s') \<and>
    (if running s' = [] then b = None
     else \<exists>sts. b = Some (map step_request sts) \<and> map st_req_id sts = running s' \<and>
       map (states s) (running s') = map Some sts \<and> (\<forall>st \<in> set sts. in_progress st))"
proof -
  define n where "n = nat (max_batch_size s) - length (running s)"
  define s' where "s' = s\<lparr>waiting := drop n (waiting s), running := running s @ take n (ids (waiting s))\<rparr>"
  have inv: "sched_inv s" by (rule sched_reachable_inv) fact
  note step = schedule_step_ready [OF inv assms(2) n_def s'_def]
  have len: "length (running s) \<le> nat (max_batch_size s)" using inv assms(3) by (auto simp: sched_inv_def)
  let ?sts = "map (\<lambda>rid. the (states s rid)) (running s')"
  have "\<forall>rid \<in> set (running s'). \<exists>st. states s' rid = Some st \<and> in_progress st"
    "\<forall>rid st. states s' rid = Some st \<longrightarrow> st_req_id st = rid"
    using step by (simp_all add: sched_inv_def)
  moreover have "states s' = states s" by (simp add: s'_def)
  ultimately have st: "\<exists>st. states s rid = Some st \<and> st_req_id st = rid \<and> in_progress st"
    if "rid \<in> set (running s')" for rid
    using that by metis
  have "running s' = take (nat (max_batch_size s)) (running s @ ids (waiting s))"
    using len by (simp add: s'_def n_def)
  moreover have "running s' @ ids (waiting s') = running s @ ids (waiting s)"
    by (simp add: s'_def) (metis append_take_drop_id drop_map take_map)
  moreover have "map st_req_id ?sts = running s'"
    unfolding map_map comp_def by (rule map_idI) (metis st option.sel)
  moreover have "\<forall>st \<in> set ?sts. in_progress st" using st by force
  moreover have "map (states s) (running s') = map Some ?sts"
    unfolding map_map comp_def by (rule map_cong) (simp, metis st option.sel)
  moreover have "map (\<lambda>rid. step_request (the (states s rid))) (running s') = map step_request ?sts" by simp
  moreover have "distinct (running s')" using step by (simp add: sched_inv_def)
  moreover have "states s' = states s" by (simp add: s'_def)
  ultimately show ?thesis
    using step by (intro exI [of _ "if running s' = [] then None else Some (map step_request ?sts)"] exI [of _ s'])
      (metis (no_types, lifting))
qed

text \<open>Property C27. Applying the update of one running request in a reachable state: if it used its
  last step, or its generated part has no mask left, exactly one finished item is returned, with the
  generated part (its gen_length last tokens) of the new sequence, and the request stops running;
  otherwise nothing is returned, it keeps running on the new sequence, and the logged number of
  remaining steps is one less.\<close>

theorem update_counts_down:
  assumes "sched_reachable s" "update_ok s up" "states s (up_req_id up) = Some st"
  shows "\<exists>items s' st'. apply_updates_and_collect_finished [up] s = (items, s') \<and>
    states s' = (states s)(up_req_id up \<mapsto> st') \<and> st_x st' = up_new_x up \<and>
    (if remaining st = 1 \<or> mask_id (st_params st) \<notin> set (drop (nat (st_prompt_len st)) (up_new_x up))
     then \<exists>item. items = [item] \<and> fi_req_id item = up_req_id up \<and>
       tail_token_ids item = drop (nat (st_prompt_len st)) (up_new_x up) \<and>
       int (length (tail_token_ids item)) = gen_length (st_params st) \<and>
       running s' = remove1 (up_req_id up) (running s) \<and> up_req_id up \<in> finished_req_ids s'
     else items = [] \<and> running s' = running s \<and> remaining st' = remaining st - 1)"
proof -
  have inv: "sched_inv s" by (rule sched_reachable_inv) fact
  have st: "in_progress st" "st_req_id st = up_req_id up" and len: "int (length (up_new_x up)) = st_total_len st"
    using update_ok_state [OF inv assms(2)] assms(3) by auto
  note eq = apply_update_known [OF assms(3) st(2), of "[]"]
  note count = advance_countdown [OF st(1) len] and tail = finished_item_length [OF advance_wf(1) [OF st(1) len]]
  have "0 \<le> st_prompt_len st" using st(1) by (simp add: in_progress_def wf_state_def)
  then have "finished_by_mask (advance up st) \<longleftrightarrow>
      mask_id (st_params st) \<notin> set (drop (nat (st_prompt_len st)) (up_new_x up))"
    by (simp add: finished_by_mask_def py_slice_from_nonneg count_list_0_iff)
  then have fin: "finishes (advance up st) \<longleftrightarrow> remaining st = 1 \<or>
      mask_id (st_params st) \<notin> set (drop (nat (st_prompt_len st)) (up_new_x up))"
    using count(1) by (auto simp: finishes_def)
  have "fi_req_id (finished_item (advance up st)) = up_req_id up" using st(2) by (simp add: finished_item_def)
  moreover have "remaining (advance up st) = remaining st - 1" if "\<not> finishes (advance up st)"
    using count(2) that by (auto simp: finishes_def)
  moreover note tail
  ultimately show ?thesis
    unfolding apply_updates_and_collect_finished_def fold.simps comp_apply id_apply eq fin
    by (cases "remaining st = 1 \<or> mask_id (st_params st) \<notin> set (drop (nat (st_prompt_len st)) (up_new_x up))")
       (simp_all add: fin, (rule exI [of _ "advance up st"], simp)+)
qed

text \<open>Before the pool is initialised, planning a step raises IndexError whenever all
  waiting requests fit the batch with room to spare: the capacity loop then pops from the empty
  queue.\<close>

theorem schedule_step_before_pool_raises:
  assumes "\<not> pool_ready s" "int (length (running s) + length (waiting s)) < max_batch_size s"
  shows "schedule_step s = Inl IndexError"
  using ensure_running_capacity_unready [OF assms] by (simp add: schedule_step_def)


section \<open>A concrete scheduler\<close>

definition demo_params :: DiffusionParams where
  "demo_params = \<lparr>steps = 4, gen_length = 4, block_length = 2, temperature = 0, cfg_scale = 0,
     remasking = ''low_confidence'', mask_id = 99, prompt_length = Some 2, output_length = Some 4\<rparr>"

definition demo_request :: "string \<Rightarrow> DiffusionRequest" where
  "demo_request rid = \<lparr>dr_req_id = rid, input_token_ids = [7, 8], dr_params = demo_params\<rparr>"

definition demo_runner :: model_runner where
  "demo_runner = \<lparr>activation_memory_pool = Some ((ActivationMemoryPool None None None True)\<lparr>initialized := True\<rparr>)\<rparr>"

definition demo_sched :: scheduler where
  "demo_sched = add_request (demo_request ''b'') (add_request (demo_request ''a'')
     (set_model_runner demo_runner (DiffusionScheduler 1)))"

lemmas demo_sched_defs = demo_sched_def demo_request_def demo_params_def demo_runner_def add_request_def
  set_model_runner_def DiffusionScheduler_def fcfs_add_request_def initial_state_def

lemma demo_params_valid: "valid_params demo_params"
  by (simp add: valid_params_def demo_params_def)

lemma demo_sched_reachable: "sched_reachable demo_sched" "pool_ready demo_sched"
proof -
  have "sched_reachable (set_model_runner demo_runner (DiffusionScheduler 1))"
    by (rule sched_reachable_moves(2) [OF _ sched_move.Runner]) (rule sched_reachable_moves(1))
  then have "sched_reachable (add_request (demo_request ''a'') (set_model_runner demo_runner (DiffusionScheduler 1)))"
    by (rule sched_reachable_moves(2) [OF _ sched_move.Submit])
       (simp_all add: demo_request_def demo_params_valid set_model_runner_def DiffusionScheduler_def)
  then show "sched_reachable demo_sched" unfolding demo_sched_def
    by (rule sched_reachable_moves(2) [OF _ sched_move.Submit])
       (simp_all add: demo_request_def demo_params_valid set_model_runner_def DiffusionScheduler_def
         add_request_def fcfs_add_request_def)
  show "pool_ready demo_sched" by (simp add: demo_sched_defs pool_ready_def)
qed

theorem schedule_step_fcfs_batch_witness:
  "sched_reachable demo_sched \<and> pool_ready demo_sched \<and>
   (\<exists>b s'. schedule_step demo_sched = Inr (b, s') \<and> running s' = [''a''] \<and> b \<noteq> None)"
proof -
  have "0 \<le> max_batch_size demo_sched" "running demo_sched = []" "max_batch_size demo_sched = 1"
    "ids (waiting demo_sched) = [''a'', ''b'']"
    by (simp_all add: demo_sched_defs)
  then show ?thesis using schedule_step_fcfs_batch [OF demo_sched_reachable] demo_sched_reachable by fastforce
qed

definition demo_running :: scheduler where
  "demo_running = demo_sched\<lparr>waiting := [demo_request ''b''], running := [''a'']\<rparr>"

definition demo_update :: DiffusionStepUpdate where
  "demo_update = \<lparr>up_req_id = ''a'', up_new_x = [7, 8, 1, 99, 99, 99], up_block_idx = 0, up_step_idx = 0\<rparr>"

lemma demo_running_reachable: "sched_reachable demo_running"
proof -
  have n: "1 = nat (max_batch_size demo_sched) - length (running demo_sched)" by (simp add: demo_sched_defs)
  have "demo_running = demo_sched\<lparr>waiting := drop 1 (waiting demo_sched),
      running := running demo_sched @ take 1 (ids (waiting demo_sched))\<rparr>"
    by (simp add: demo_running_def demo_sched_defs)
  then show ?thesis
    using sched_reachable_moves(2) [OF demo_sched_reachable(1) sched_move.Plan]
      schedule_step_ready [OF sched_reachable_inv [OF demo_sched_reachable(1)] demo_sched_reachable(2) n]
    by blast
qed

theorem update_counts_down_witness:
  "remaining (initial_state (demo_request ''a'')) = 4 \<and>
   (\<exists>s' st'. apply_updates_and_collect_finished [demo_update] demo_running = ([], s') \<and>
     states s' ''a'' = Some st' \<and> remaining st' = 3)"
proof -
  have r: "remaining (initial_state (demo_request ''a'')) = 4"
    by (subst remaining_initial) (simp_all add: demo_request_def demo_params_valid, simp add: demo_params_def)
  have st: "states demo_running (up_req_id demo_update) = Some (initial_state (demo_request ''a''))"
    "up_req_id demo_update = ''a''" "mask_id (st_params (initial_state (demo_request ''a''))) = 99"
    "drop (nat (st_prompt_len (initial_state (demo_request ''a'')))) (up_new_x demo_update) = [1, 99, 99, 99]"
    by (simp_all add: demo_running_def demo_update_def demo_sched_defs)
  have "update_ok demo_running demo_update"
    by (simp add: update_ok_def demo_running_def demo_update_def demo_sched_defs)
  from update_counts_down [OF demo_running_reachable this st(1)] show ?thesis
    unfolding st(2-4) r by auto
qed

theorem schedule_step_before_pool_raises_witness:
  "schedule_step (add_request (demo_request ''a'') (DiffusionScheduler 999)) = Inl IndexError"
  by (rule schedule_step_before_pool_raises)
     (simp_all add: pool_ready_def add_request_def DiffusionScheduler_def fcfs_add_request_def)

end
