(* ===== verification/Diffusion_Step.thy ===== *)
theory Diffusion_Step
  imports Diffusion_Scheduler "HOL-Library.Option_ord"
begin

text \<open>
  One denoising step: \<^verbatim>\<open>GPUModelRunner.execute_diffusion_once\<close> in
  \<^verbatim>\<open>vllm/v1/worker/gpu_model_runner.py\<close> and \<^verbatim>\<open>_get_num_transfer_tokens\<close> in
  \<^verbatim>\<open>vllm/v1/diffusion/utils.py\<close>. The batch is laid out as one flat sequence, the model predicts a
  token and a confidence for every masked position of the generated part, and the most confident
  predictions inside the current block replace the masks. Only the first request of the batch is
  updated, as in the source.

  The model's forward pass and \<^verbatim>\<open>torch.topk\<close> are parameters, with \<open>forward_ok\<close> and \<open>topk_ok\<close> for what
  the step relies on; the contents of \<^verbatim>\<open>torch.empty\<close> are a parameter too, about which nothing is
  assumed. A confidence is an exact number, and \<open>None\<close> stands for minus infinity.
\<close>

section \<open>How many tokens each step of a block transfers\<close>

text \<open>\<^verbatim>\<open>_get_num_transfer_tokens\<close> for a row of the mask; every caller passes at least one step.\<close>

definition transfer_row :: "bool list \<Rightarrow> int \<Rightarrow> int list" where
  "transfer_row mask_index n_steps =
     (let mask_num = int (count_list mask_index True);
          base = mask_num div n_steps;
          remainder = mask_num mod n_steps
      in map (\<lambda>j. base + (if int j < remainder then 1 else 0)) [0..<nat n_steps])"

definition get_num_transfer_tokens :: "bool list list \<Rightarrow> int \<Rightarrow> int list list result" where
  "get_num_transfer_tokens mask_index n_steps =
     (if n_steps \<le> 0 then Inl RuntimeError else Inr (map (\<lambda>row. transfer_row row n_steps) mask_index))"

section \<open>Laying out the batch\<close>

text \<open>The rows of \<^verbatim>\<open>x\<close>, padded with the mask of the first request to the longest total length.\<close>

definition max_total_len :: "DiffusionStepBatch \<Rightarrow> int" where
  "max_total_len rs = Max (set (map sr_total_len rs))"

definition pad_row :: "int \<Rightarrow> int \<Rightarrow> int list \<Rightarrow> int list result" where
  "pad_row width m t =
     (if width < int (length t) then Inl RuntimeError
      else Inr (t @ replicate (nat width - length t) m))"

fun mapM :: "('a \<Rightarrow> 'b result) \<Rightarrow> 'a list \<Rightarrow> 'b list result" where
  "mapM f [] = Inr []"
| "mapM f (x # xs) = bind_res (f x) (\<lambda>y. bind_res (mapM f xs) (\<lambda>ys. Inr (y # ys)))"

text \<open>\<^verbatim>\<open>query_start_loc\<close> is the running sum of the sequence lengths, \<^verbatim>\<open>flat_input_ids\<close> the rows without
  their padding one after the other.\<close>

fun query_start_loc :: "int \<Rightarrow> int list \<Rightarrow> int list" where
  "query_start_loc acc [] = [acc]"
| "query_start_loc acc (l # ls) = acc # query_start_loc (acc + l) ls"

definition flat_input_ids :: "int list list \<Rightarrow> int list \<Rightarrow> int list" where
  "flat_input_ids xs seq_lens = concat (map (\<lambda>(row, l). take (nat l) row) (zip xs seq_lens))"

text \<open>Token positions: \<^verbatim>\<open>arange(N) - repeat_interleave(start_locs, seq_lens)\<close>.\<close>

definition token_positions :: "int list \<Rightarrow> int list" where
  "token_positions seq_lens =
     map2 (-) (map int [0..<nat (sum_list seq_lens)])
       (concat (map2 (\<lambda>start l. replicate (nat l) start) (butlast (query_start_loc 0 seq_lens)) seq_lens))"

text \<open>Setting a slice of a boolean row.\<close>

definition set_slice :: "bool list \<Rightarrow> int \<Rightarrow> int \<Rightarrow> bool list" where
  "set_slice row a b =
     (let n = int (length row)
      in map (\<lambda>j. row ! j \<or> (py_bound n a \<le> int j \<and> int j < py_bound n b)) [0..<length row])"

definition block_mask_row :: "int \<Rightarrow> DiffusionStepRequest \<Rightarrow> bool list" where
  "block_mask_row width r =
     (let bl = block_length (sr_params r);
          s = sr_prompt_len r + sr_block_idx r * bl;
          e = min (s + bl) (sr_total_len r);
          row = replicate (nat width) False
      in if s < e then set_slice row s e else row)"

text \<open>The transfer quota of one request, with the checks of its parameters.\<close>

definition request_tokens :: "bool list \<Rightarrow> DiffusionStepRequest \<Rightarrow> int list result" where
  "request_tokens mask_row r =
     (let bl = (if block_length (sr_params r) \<le> 0 then 1 else block_length (sr_params r));
          gl = gen_length (sr_params r)
      in if gl mod bl \<noteq> 0 then Inl AssertionError
         else let nb = max 1 (gl div bl); st = steps (sr_params r)
              in if st mod nb \<noteq> 0 then Inl AssertionError
                 else bind_res (get_num_transfer_tokens [mask_row] (max 1 (st div nb))) (\<lambda>rows. Inr (rows ! 0)))"

text \<open>The checks on the parameters of the first request.\<close>

definition check_first :: "DiffusionParams \<Rightarrow> unit result" where
  "check_first p =
     (if block_length p = 0 then Inl ZeroDivisionError
      else if gen_length p mod block_length p \<noteq> 0 then Inl AssertionError
      else let nb = gen_length p div block_length p
           in if nb = 0 then Inl ZeroDivisionError
              else if steps p mod nb \<noteq> 0 then Inl AssertionError else Inr ())"

section \<open>The forward pass\<close>

text \<open>What the runner puts into the forward context and the call.\<close>

record forward_context =
  fc_query_start_loc :: "int list"
  fc_seq_lens :: "int list"
  fc_positions :: "int list"
  fc_prompt_length :: "int option"
  fc_output_length :: "int option"
  fc_mask_indices :: "nat list"
  fc_temperature :: rat
  fc_remasking :: string

type_synonym model_forward = "int list \<Rightarrow> forward_context \<Rightarrow> (int list \<times> rat list) result"

definition mask_positions :: "int \<Rightarrow> int list \<Rightarrow> nat list" where
  "mask_positions m ts = filter (\<lambda>i. ts ! i = m) [0..<length ts]"

definition output_mask_indices :: "int \<Rightarrow> int \<Rightarrow> int list \<Rightarrow> nat list" where
  "output_mask_indices m p_len flat = mask_positions m (py_slice_from flat p_len)"

section \<open>Choosing and writing the new tokens\<close>

text \<open>Indexed assignment, with the broadcasting of a single value.\<close>

definition broadcast :: "nat \<Rightarrow> 'a list \<Rightarrow> 'a list result" where
  "broadcast n v =
     (if length v = n then Inr v else if length v = 1 then Inr (replicate n (v ! 0)) else Inl RuntimeError)"

definition scatter :: "'a list \<Rightarrow> nat list \<Rightarrow> 'a list \<Rightarrow> 'a list" where
  "scatter t ps vs = fold (\<lambda>(p, v) t. t[p := v]) (zip ps vs) t"

text \<open>The block constraint in the flat sequence.\<close>

definition block_2d :: "nat \<Rightarrow> int \<Rightarrow> DiffusionStepRequest \<Rightarrow> bool list" where
  "block_2d n t r =
     (let bl = block_length (sr_params r);
          block_start = sr_prompt_len r + sr_block_idx r * bl;
          block_end = min (block_start + bl) (sr_total_len r);
          row = replicate n False
      in if block_start < block_end \<and> block_start < t
         then set_slice row (max 0 block_start) (min t block_end) else row)"

definition mask_2d :: "nat \<Rightarrow> int \<Rightarrow> int list \<Rightarrow> bool list" where
  "mask_2d n m x0row = map (\<lambda>i. i < length x0row \<and> x0row ! i = m) [0..<n]"

text \<open>The predictions and confidences written to their places in the flat sequence.\<close>

definition place_predictions ::
  "(nat \<Rightarrow> int) \<Rightarrow> nat \<Rightarrow> int \<Rightarrow> int \<Rightarrow> nat list \<Rightarrow> bool list \<Rightarrow> bool list \<Rightarrow> int list \<Rightarrow> rat list \<Rightarrow>
     (int list \<times> rat option list) result" where
  "place_predictions mem n prompt_len output_len mask_idx mask2 block2 idx conf =
     (let x0 = map mem [0..<n]; confidence = replicate n None
      in if 0 < output_len
         then let ps = map (\<lambda>i. nat prompt_len + i) mask_idx
              in bind_res (broadcast (length ps) idx) (\<lambda>idx'.
                 bind_res (broadcast (length ps) conf) (\<lambda>conf'.
                   Inr (scatter x0 ps idx',
                        scatter confidence ps
                          (map2 (\<lambda>p c. if mask2 ! p \<and> block2 ! p then Some c else None) ps conf'))))
         else Inr (x0, confidence))"

definition quota :: "int list \<Rightarrow> int \<Rightarrow> int result" where
  "quota tokens si =
     (if si < int (length tokens)
      then if 0 \<le> si then Inr (tokens ! nat si)
           else if - int (length tokens) \<le> si then Inr (tokens ! nat (int (length tokens) + si))
           else Inl IndexError
      else Inr 0)"

definition select :: "(rat option list \<Rightarrow> nat \<Rightarrow> nat list) \<Rightarrow> rat option list \<Rightarrow> int \<Rightarrow> nat list" where
  "select topk seq_confidence k =
     (if 0 < k
      then topk seq_confidence (min (nat k) (length (filter (\<lambda>c. c \<noteq> None) seq_confidence)))
      else [])"

definition final_x :: "nat list \<Rightarrow> int list \<Rightarrow> int list \<Rightarrow> int list" where
  "final_x sel x0 flat_x = map (\<lambda>i. if i \<in> set sel then x0 ! i else flat_x ! i) [0..<length flat_x]"

text \<open>The whole step. With classifier-free guidance the source refers to a name it never binds.\<close>

definition execute_diffusion_once ::
  "model_forward \<Rightarrow> (rat option list \<Rightarrow> nat \<Rightarrow> nat list) \<Rightarrow> (nat \<Rightarrow> int) \<Rightarrow> DiffusionStepBatch \<Rightarrow>
     DiffusionStepUpdate list result" where
  "execute_diffusion_once forward topk mem requests =
     (case requests of
        [] \<Rightarrow> Inr []
      | r0 # _ \<Rightarrow>
          (let p0 = sr_params r0; width = max_total_len requests; seq_lens = map sr_total_len requests
           in bind_res (mapM (\<lambda>r. pad_row width (mask_id p0) (sr_x r)) requests) (\<lambda>x.
              bind_res (check_first p0) (\<lambda>_.
              bind_res (mapM (\<lambda>r. request_tokens (block_mask_row width r) r) requests) (\<lambda>per_req_tokens.
              let flat = flat_input_ids x seq_lens;
                  n = length flat;
                  mask_idx = output_mask_indices (mask_id p0) (sr_prompt_len r0) flat
              in if 0 < cfg_scale p0 then Inl NameError
                 else bind_res (forward flat
                        \<lparr>fc_query_start_loc = query_start_loc 0 seq_lens, fc_seq_lens = seq_lens,
                         fc_positions = token_positions seq_lens, fc_prompt_length = prompt_length p0,
                         fc_output_length = output_length p0, fc_mask_indices = mask_idx,
                         fc_temperature = temperature p0, fc_remasking = remasking p0\<rparr>) (\<lambda>(idx, conf).
                      let t = sr_total_len r0;
                          x0row = take (nat t) (x ! 0);
                          flat_x = x0row @ map mem [length x0row..<n];
                          block2 = block_2d n t r0
                      in bind_res (place_predictions mem n (sr_prompt_len r0) (t - sr_prompt_len r0) mask_idx
                                     (mask_2d n (mask_id p0) x0row) block2 idx conf) (\<lambda>(x0, confidence).
                         bind_res (quota (per_req_tokens ! 0) (sr_step_idx r0)) (\<lambda>k.
                         let sel = select topk (take (nat t) confidence) k
                         in Inr [\<lparr>up_req_id = sr_req_id r0,
                                  up_new_x = take (nat t) (final_x sel x0 flat_x),
                                  up_block_idx = sr_block_idx r0, up_step_idx = sr_step_idx r0\<rparr>]))))))))"


section \<open>The transfer quota\<close>

lemma sum_first_indicator: "(\<Sum>j\<leftarrow>[0..<n]. if int j < r then 1 else 0) = min (int n) (max 0 r)"
  by (induction n) (auto simp: min_def max_def)

lemma transfer_row_props:
  assumes "0 < k"
  shows "length (transfer_row row k) = nat k" "sum_list (transfer_row row k) = int (count_list row True)"
    "\<forall>q \<in> set (transfer_row row k). 0 \<le> q"
    "\<forall>q \<in> set (transfer_row row k). q = int (count_list row True) div k \<or> q = int (count_list row True) div k + 1"
proof -
  let ?m = "int (count_list row True)"
  have "sum_list (transfer_row row k) = (\<Sum>j\<leftarrow>[0..<nat k]. ?m div k) + (\<Sum>j\<leftarrow>[0..<nat k]. if int j < ?m mod k then 1 else 0)"
    by (simp add: transfer_row_def Let_def sum_list_addf [symmetric] comp_def)
  also have "\<dots> = k * (?m div k) + ?m mod k"
    using assms by (simp add: sum_first_indicator sum_list_const_mult map_replicate_const sum_list_replicate)
  finally show "sum_list (transfer_row row k) = ?m" by simp
  show "\<forall>q \<in> set (transfer_row row k). 0 \<le> q" "length (transfer_row row k) = nat k"
    "\<forall>q \<in> set (transfer_row row k). q = ?m div k \<or> q = ?m div k + 1"
    using assms by (auto simp: transfer_row_def Let_def pos_imp_zdiv_nonneg_iff)
qed

section \<open>List facts used by the step\<close>

lemma filter_upt_split: "i < n \<Longrightarrow> P i \<Longrightarrow> filter P [0..<n] = filter P [0..<i] @ i # filter P [Suc i..<n]"
  using upt_add_eq_append [of 0 i "n - i"] by (simp add: upt_conv_Cons)

text \<open>The rank of an index among those that satisfy a predicate.\<close>

abbreviation rank :: "(nat \<Rightarrow> bool) \<Rightarrow> nat \<Rightarrow> nat" where
  "rank P i \<equiv> length (filter P [0..<i])"

lemma filter_upt_rank:
  assumes "i < n" "P i"
  shows "filter P [0..<n] ! rank P i = i" "rank P i < length (filter P [0..<n])"
  using filter_upt_split [of i n P] assms by (auto simp: nth_append)

lemma scatter_Cons: "scatter t (p # ps) (v # vs) = scatter (t[p := v]) ps vs"
  by (simp add: scatter_def)

lemma scatter_length [simp]: "length (scatter t ps vs) = length t"
proof (induction ps arbitrary: t vs)
  case (Cons p ps)
  then show ?case by (cases vs) (auto simp: scatter_Cons, auto simp: scatter_def)
qed (simp add: scatter_def)

lemma scatter_nth_other: "i \<notin> set ps \<Longrightarrow> scatter t ps vs ! i = t ! i"
proof (induction ps arbitrary: t vs)
  case (Cons p ps)
  then show ?case by (cases vs) (auto simp: scatter_Cons, auto simp: scatter_def)
qed (simp add: scatter_def)

lemma scatter_nth:
  assumes "distinct ps" "j < length ps" "j < length vs" "ps ! j < length t"
  shows "scatter t ps vs ! (ps ! j) = vs ! j"
  using assms
proof (induction ps arbitrary: t vs j)
  case (Cons p ps)
  then obtain v vs' where vs: "vs = v # vs'" by (cases vs) auto
  show ?case
  proof (cases j)
    case 0
    then show ?thesis using Cons.prems vs by (simp add: scatter_Cons scatter_nth_other)
  next
    case (Suc j')
    then show ?thesis using Cons vs by (simp add: scatter_Cons)
  qed
qed simp

lemma mapM_single [simp]: "mapM f [x] = bind_res (f x) (\<lambda>y. Inr [y])"
  by (cases "f x") auto


section \<open>The contracts of the model and of top-k\<close>

text \<open>The forward pass is relied on for a single sequence of \<open>n\<close> tokens with a prompt: the declared prompt and output
  lengths cover the input, the mask indices are the positions of the mask in the output, and there is at
  least one. It then returns one token and one confidence for every masked position.\<close>

definition forward_ok :: "int \<Rightarrow> nat \<Rightarrow> model_forward \<Rightarrow> bool" where
  "forward_ok m n forward \<longleftrightarrow> (\<forall>flat ctx P Q. fc_prompt_length ctx = Some P \<longrightarrow> fc_output_length ctx = Some Q \<longrightarrow>
     0 < P \<longrightarrow> 0 \<le> Q \<longrightarrow> length flat = n \<longrightarrow> int n = P + Q \<longrightarrow>
     fc_mask_indices ctx = mask_positions m (drop (nat P) flat) \<longrightarrow> fc_mask_indices ctx \<noteq> [] \<longrightarrow>
     (\<exists>idx conf. forward flat ctx = Inr (idx, conf) \<and> length idx = length (fc_mask_indices ctx) \<and>
       length conf = length (fc_mask_indices ctx)))"

text \<open>\<^verbatim>\<open>torch.topk\<close> returns the indices of \<open>k\<close> largest entries, ties in any order.\<close>

definition topk_ok :: "(rat option list \<Rightarrow> nat \<Rightarrow> nat list) \<Rightarrow> bool" where
  "topk_ok topk \<longleftrightarrow> (\<forall>cs k. k \<le> length cs \<longrightarrow> distinct (topk cs k) \<and> length (topk cs k) = k \<and>
     set (topk cs k) \<subseteq> {0..<length cs} \<and>
     (\<forall>i \<in> set (topk cs k). \<forall>j < length cs. j \<notin> set (topk cs k) \<longrightarrow> cs ! j \<le> cs ! i))"

definition never_predicts :: "int \<Rightarrow> model_forward \<Rightarrow> bool" where
  "never_predicts m forward \<longleftrightarrow> (\<forall>flat ctx idx conf. forward flat ctx = Inr (idx, conf) \<longrightarrow> m \<notin> set idx)"

lemma length_filter_card: "length (filter P cs) = card {i. i < length cs \<and> P (cs ! i)}"
  by (rule length_filter_conv_card)

lemma select_props:
  assumes "topk_ok topk" "0 \<le> k"
  shows "distinct (select topk cs k)"
    "length (select topk cs k) = min (nat k) (length (filter (\<lambda>c. c \<noteq> None) cs))"
    "\<forall>i \<in> set (select topk cs k). i < length cs \<and> cs ! i \<noteq> None"
    "\<forall>i \<in> set (select topk cs k). \<forall>j < length cs. j \<notin> set (select topk cs k) \<longrightarrow> cs ! j \<le> cs ! i"
proof -
  let ?sel = "select topk cs k" and ?F = "{i. i < length cs \<and> cs ! i \<noteq> None}"
  let ?k = "min (nat k) (length (filter (\<lambda>c. c \<noteq> None) cs))"
  have le: "?k \<le> length cs" using length_filter_le [of "\<lambda>c. c \<noteq> None" cs] by linarith
  have sel: "?sel = (if 0 < k then topk cs ?k else [])" by (simp add: select_def)
  show d: "distinct ?sel" and l: "length ?sel = ?k"
    and dom: "\<forall>i \<in> set ?sel. \<forall>j < length cs. j \<notin> set ?sel \<longrightarrow> cs ! j \<le> cs ! i"
    using assms le unfolding sel topk_ok_def by auto
  have range: "set ?sel \<subseteq> {0..<length cs}" using assms(1) le unfolding sel topk_ok_def by auto
  show "\<forall>i \<in> set ?sel. i < length cs \<and> cs ! i \<noteq> None"
  proof (rule ballI, rule conjI)
    fix i assume i: "i \<in> set ?sel"
    then show "i < length cs" using range by auto
    show "cs ! i \<noteq> None"
    proof
      assume None: "cs ! i = None"
      have "?F \<subseteq> set ?sel - {i}"
        using dom i None by (auto simp: less_eq_option_None_is_None) (metis less_eq_option_None_is_None option.distinct(1))
      then have "card ?F \<le> card (set ?sel - {i})" by (intro card_mono) auto
      also have "\<dots> < card (set ?sel)" using i by (intro psubset_card_mono) auto
      also have "\<dots> = ?k" using l d by (simp add: distinct_card)
      finally show False by (simp add: length_filter_card)
    qed
  qed
qed

section \<open>A single request\<close>

text \<open>The step requests the scheduler produces for an in-progress state, as far as this step needs
  them.\<close>

definition step_request_ok :: "DiffusionStepRequest \<Rightarrow> bool" where
  "step_request_ok r \<longleftrightarrow> valid_params (sr_params r) \<and> \<not> 0 < cfg_scale (sr_params r) \<and> 0 < sr_prompt_len r \<and>
     prompt_length (sr_params r) = Some (sr_prompt_len r) \<and>
     output_length (sr_params r) = Some (gen_length (sr_params r)) \<and>
     sr_total_len r = sr_prompt_len r + gen_length (sr_params r) \<and>
     int (length (sr_x r)) = sr_total_len r \<and>
     0 \<le> sr_block_idx r \<and> sr_block_idx r < num_blocks (sr_params r) \<and>
     0 \<le> sr_step_idx r \<and> sr_step_idx r < steps_per_block (sr_params r) \<and>
     mask_id (sr_params r) \<in> set (drop (nat (sr_prompt_len r)) (sr_x r))"

definition block_start :: "DiffusionStepRequest \<Rightarrow> nat" where
  "block_start r = nat (sr_prompt_len r + sr_block_idx r * block_length (sr_params r))"

definition block_end :: "DiffusionStepRequest \<Rightarrow> nat" where
  "block_end r = block_start r + nat (block_length (sr_params r))"

definition masked_output :: "DiffusionStepRequest \<Rightarrow> nat \<Rightarrow> bool" where
  "masked_output r i \<longleftrightarrow> nat (sr_prompt_len r) \<le> i \<and> i < length (sr_x r) \<and> sr_x r ! i = mask_id (sr_params r)"

text \<open>The positions that may be filled in: masked, and inside the current block.\<close>

definition candidates :: "DiffusionStepRequest \<Rightarrow> nat set" where
  "candidates r = {i. masked_output r i \<and> block_start r \<le> i \<and> i < block_end r}"

definition step_quota :: "DiffusionParams \<Rightarrow> int \<Rightarrow> nat" where
  "step_quota p i =
     nat (transfer_row (replicate (nat (block_length p)) True) (steps_per_block p) ! nat i)"

definition step_context :: "DiffusionStepRequest \<Rightarrow> forward_context" where
  "step_context r =
     \<lparr>fc_query_start_loc = [0, sr_total_len r], fc_seq_lens = [sr_total_len r],
      fc_positions = map int [0..<length (sr_x r)], fc_prompt_length = prompt_length (sr_params r),
      fc_output_length = output_length (sr_params r),
      fc_mask_indices = mask_positions (mask_id (sr_params r)) (drop (nat (sr_prompt_len r)) (sr_x r)),
      fc_temperature = temperature (sr_params r), fc_remasking = remasking (sr_params r)\<rparr>"

lemma block_bounds:
  assumes "step_request_ok r"
  shows "nat (sr_prompt_len r) \<le> block_start r" "block_end r \<le> length (sr_x r)"
    "int (block_start r) = sr_prompt_len r + sr_block_idx r * block_length (sr_params r)"
    "int (block_end r) = int (block_start r) + block_length (sr_params r)" "block_start r < block_end r"
    "int (block_end r) \<le> sr_total_len r"
proof -
  let ?b = "block_length (sr_params r)" and ?p = "sr_params r"
  have p: "valid_params ?p" and b: "0 < ?b" and idx: "0 \<le> sr_block_idx r" "sr_block_idx r + 1 \<le> num_blocks ?p"
    and total: "sr_total_len r = sr_prompt_len r + gen_length ?p" "int (length (sr_x r)) = sr_total_len r" "0 \<le> sr_prompt_len r"
    using assms by (auto simp: step_request_ok_def valid_params_def)
  have nn: "0 \<le> sr_block_idx r * ?b" using idx b by simp
  have "(sr_block_idx r + 1) * ?b \<le> num_blocks ?p * ?b" using idx b by (intro mult_right_mono) auto
  then have "sr_block_idx r * ?b + ?b \<le> gen_length ?p" using valid_num_blocks(3) [OF p] by (simp add: algebra_simps)
  then show "nat (sr_prompt_len r) \<le> block_start r" "block_end r \<le> length (sr_x r)"
    "int (block_start r) = sr_prompt_len r + sr_block_idx r * ?b"
    "int (block_end r) = int (block_start r) + ?b" "block_start r < block_end r" "int (block_end r) \<le> sr_total_len r"
    using total nn b by (auto simp: block_start_def block_end_def)
qed


lemma step_request_okD:
  assumes "step_request_ok r"
  shows "valid_params (sr_params r)" "0 \<le> sr_prompt_len r" "0 < gen_length (sr_params r)"
    "sr_total_len r = sr_prompt_len r + gen_length (sr_params r)"
    "nat (sr_total_len r) = length (sr_x r)" "int (length (sr_x r)) = sr_total_len r"
    "nat (sr_prompt_len r) \<le> length (sr_x r)"
  using assms by (auto simp: step_request_ok_def valid_params_def)

lemma set_slice_False:
  assumes "0 \<le> a" "0 \<le> b" "b \<le> int n"
  shows "set_slice (replicate n False) a b = map (\<lambda>j. a \<le> int j \<and> int j < b) [0..<n]"
  using assms by (auto simp: set_slice_def py_bound_def Let_def)

lemma count_map_True: "count_list (map f xs) True = length (filter f xs)"
  by (induction xs) auto

lemma count_replicate [simp]: "count_list (replicate n x) x = n"
  by (induction n) auto

lemma count_interval: "s \<le> e \<Longrightarrow> e \<le> n \<Longrightarrow> count_list (map (\<lambda>j. s \<le> j \<and> j < e) [0..<n]) True = e - s"
proof -
  assume "s \<le> e" "e \<le> n"
  then have "set (filter (\<lambda>j. s \<le> j \<and> j < e) [0..<n]) = {s..<e}" by auto
  then have "length (filter (\<lambda>j. s \<le> j \<and> j < e) [0..<n]) = card {s..<e}"
    by (metis distinct_card distinct_filter distinct_upt)
  then show ?thesis by (simp add: count_map_True)
qed

lemma single_block_mask:
  assumes "step_request_ok r"
  shows "block_mask_row (sr_total_len r) r = map (\<lambda>j. block_start r \<le> j \<and> j < block_end r) [0..<length (sr_x r)]"
    "block_2d (length (sr_x r)) (sr_total_len r) r =
      map (\<lambda>j. block_start r \<le> j \<and> j < block_end r) [0..<length (sr_x r)]"
    "count_list (block_mask_row (sr_total_len r) r) True = nat (block_length (sr_params r))"
proof -
  note b = block_bounds [OF assms] and d = step_request_okD [OF assms]
  let ?s = "sr_prompt_len r + sr_block_idx r * block_length (sr_params r)"
  have bl: "0 < block_length (sr_params r)" using d(1) by (simp add: valid_params_def)
  have e: "?s = int (block_start r)" "min (int (block_start r) + block_length (sr_params r)) (sr_total_len r) = int (block_end r)"
    using b by auto
  have sl: "set_slice (replicate (length (sr_x r)) False) (int (block_start r)) (int (block_end r)) =
      map (\<lambda>j. block_start r \<le> j \<and> j < block_end r) [0..<length (sr_x r)]"
    using b(2) by (subst set_slice_False) auto
  show m: "block_mask_row (sr_total_len r) r = map (\<lambda>j. block_start r \<le> j \<and> j < block_end r) [0..<length (sr_x r)]"
    unfolding block_mask_row_def Let_def e using sl b(5) d(5) by simp
  have "int (block_start r) < sr_total_len r" using b(5,6) by linarith
  then show "block_2d (length (sr_x r)) (sr_total_len r) r =
      map (\<lambda>j. block_start r \<le> j \<and> j < block_end r) [0..<length (sr_x r)]"
    unfolding block_2d_def Let_def e using sl b(5,6) by simp
  show "count_list (block_mask_row (sr_total_len r) r) True = nat (block_length (sr_params r))"
    unfolding m using b count_interval [of "block_start r" "block_end r" "length (sr_x r)"] by (simp add: block_end_def)
qed

lemma transfer_row_count: "count_list row True = n \<Longrightarrow> transfer_row row k = transfer_row (replicate n True) k"
  by (simp add: transfer_row_def Let_def)

lemma single_request_tokens:
  assumes "step_request_ok r"
  shows "request_tokens (block_mask_row (sr_total_len r) r) r =
      Inr (transfer_row (replicate (nat (block_length (sr_params r))) True) (steps_per_block (sr_params r)))"
    "check_first (sr_params r) = Inr ()"
proof -
  note p = step_request_okD(1) [OF assms] and nb = valid_num_blocks [OF step_request_okD(1) [OF assms]]
  note sp = valid_steps_per_block [OF p]
  have k: "max 1 (steps (sr_params r) div (gen_length (sr_params r) div block_length (sr_params r))) =
      steps_per_block (sr_params r)"
    using nb(1) by (simp add: steps_per_block_def)
  have mx: "max 1 (gen_length (sr_params r) div block_length (sr_params r)) =
      gen_length (sr_params r) div block_length (sr_params r)" using nb(2) by simp
  show "request_tokens (block_mask_row (sr_total_len r) r) r =
      Inr (transfer_row (replicate (nat (block_length (sr_params r))) True) (steps_per_block (sr_params r)))"
    using p k sp(2) transfer_row_count [OF single_block_mask(3) [OF assms]]
    by (simp add: request_tokens_def valid_params_def get_num_transfer_tokens_def Let_def mx)
  show "check_first (sr_params r) = Inr ()"
    using p nb by (auto simp: check_first_def valid_params_def Let_def)
qed

lemma single_mask_positions:
  assumes "step_request_ok r"
  shows "map (\<lambda>i. nat (sr_prompt_len r) + i) (mask_positions (mask_id (sr_params r)) (drop (nat (sr_prompt_len r)) (sr_x r)))
    = filter (masked_output r) [0..<length (sr_x r)]"
proof -
  let ?p = "nat (sr_prompt_len r)" and ?n = "length (sr_x r)"
  have le: "?p \<le> ?n" by (rule step_request_okD(7) [OF assms])
  have "filter (masked_output r) [0..<?n] = filter (masked_output r) [?p..<?n]"
    using le upt_add_eq_append [of 0 ?p "?n - ?p"] by (simp add: masked_output_def)
  also have "[?p..<?n] = map (\<lambda>i. ?p + i) [0..<?n - ?p]"
    using le map_add_upt [of ?p "?n - ?p"] by (simp add: add.commute)
  also have "filter (masked_output r) (map (\<lambda>i. ?p + i) [0..<?n - ?p]) =
      map (\<lambda>i. ?p + i) (filter (\<lambda>i. masked_output r (?p + i)) [0..<?n - ?p])"
    by (simp add: filter_map comp_def)
  also have "filter (\<lambda>i. masked_output r (?p + i)) [0..<?n - ?p] =
      filter (\<lambda>i. drop ?p (sr_x r) ! i = mask_id (sr_params r)) [0..<?n - ?p]"
    by (rule filter_cong) (use le in \<open>auto simp: masked_output_def\<close>)
  finally show ?thesis by (simp add: mask_positions_def)
qed

text \<open>The token and the confidence the model returned for a masked position.\<close>

definition prediction :: "DiffusionStepRequest \<Rightarrow> 'a list \<Rightarrow> nat \<Rightarrow> 'a" where
  "prediction r vs i = vs ! rank (masked_output r) i"

lemma single_place_predictions:
  assumes ok: "step_request_ok r"
    and len: "length idx = length (filter (masked_output r) [0..<length (sr_x r)])" "length conf = length idx"
    and idxs: "mask_idx = mask_positions (mask_id (sr_params r)) (drop (nat (sr_prompt_len r)) (sr_x r))"
  shows "\<exists>x0 c. place_predictions mem (length (sr_x r)) (sr_prompt_len r) (gen_length (sr_params r)) mask_idx
      (mask_2d (length (sr_x r)) (mask_id (sr_params r)) (sr_x r))
      (map (\<lambda>j. block_start r \<le> j \<and> j < block_end r) [0..<length (sr_x r)]) idx conf = Inr (x0, c) \<and>
    length c = length (sr_x r) \<and>
    (\<forall>i. masked_output r i \<longrightarrow> x0 ! i = prediction r idx i) \<and>
    (\<forall>i < length (sr_x r). c ! i = (if i \<in> candidates r then Some (prediction r conf i) else None))"
proof -
  let ?n = "length (sr_x r)" and ?ps = "filter (masked_output r) [0..<length (sr_x r)]"
  let ?m2 = "mask_2d ?n (mask_id (sr_params r)) (sr_x r)"
  let ?b2 = "map (\<lambda>j. block_start r \<le> j \<and> j < block_end r) [0..<?n]"
  let ?cs = "map2 (\<lambda>p c. if ?m2 ! p \<and> ?b2 ! p then Some c else None) ?ps conf"
  have ps: "map (\<lambda>i. nat (sr_prompt_len r) + i) mask_idx = ?ps"
    unfolding idxs by (rule single_mask_positions [OF ok])
  have place: "place_predictions mem ?n (sr_prompt_len r) (gen_length (sr_params r)) mask_idx ?m2 ?b2 idx conf =
      Inr (scatter (map mem [0..<?n]) ?ps idx, scatter (replicate ?n None) ?ps ?cs)"
    unfolding place_predictions_def Let_def ps using step_request_okD(3) [OF ok] len by (simp add: broadcast_def)
  have rk: "?ps ! rank (masked_output r) i = i" "rank (masked_output r) i < length ?ps" "i < ?n"
    if "masked_output r i" for i
    using filter_upt_rank [of i ?n "masked_output r"] that by (auto simp: masked_output_def)
  have x0: "scatter (map mem [0..<?n]) ?ps idx ! i = prediction r idx i" if "masked_output r i" for i
    using scatter_nth [of ?ps "rank (masked_output r) i" idx "map mem [0..<?n]"] rk [OF that] len
    by (simp add: prediction_def)
  have c: "scatter (replicate ?n None) ?ps ?cs ! i = (if i \<in> candidates r then Some (prediction r conf i) else None)"
    if "i < ?n" for i
  proof (cases "masked_output r i")
    case True
    then have "scatter (replicate ?n None) ?ps ?cs ! i = ?cs ! rank (masked_output r) i"
      using scatter_nth [of ?ps "rank (masked_output r) i" ?cs "replicate ?n None"] rk [OF True] len by simp
    also have "\<dots> = (if ?m2 ! i \<and> ?b2 ! i then Some (conf ! rank (masked_output r) i) else None)"
      using rk [OF True] len by simp
    also have "\<dots> = (if i \<in> candidates r then Some (prediction r conf i) else None)"
      using True that by (simp add: mask_2d_def candidates_def prediction_def masked_output_def)
    finally show ?thesis .
  next
    case False
    then show ?thesis using that by (simp add: scatter_nth_other candidates_def)
  qed
  show ?thesis using place x0 c by auto
qed

lemma single_layout:
  assumes "step_request_ok r"
  shows "max_total_len [r] = sr_total_len r" "pad_row (sr_total_len r) m (sr_x r) = Inr (sr_x r)"
    "flat_input_ids [sr_x r] [sr_total_len r] = sr_x r"
    "output_mask_indices m (sr_prompt_len r) (sr_x r) = mask_positions m (drop (nat (sr_prompt_len r)) (sr_x r))"
    "token_positions [sr_total_len r] = map int [0..<length (sr_x r)]"
proof -
  note d = step_request_okD [OF assms]
  show "max_total_len [r] = sr_total_len r" by (simp add: max_total_len_def)
  show "pad_row (sr_total_len r) m (sr_x r) = Inr (sr_x r)" using d(5,6) by (simp add: pad_row_def)
  show "flat_input_ids [sr_x r] [sr_total_len r] = sr_x r" using d(5) by (simp add: flat_input_ids_def)
  show "output_mask_indices m (sr_prompt_len r) (sr_x r) = mask_positions m (drop (nat (sr_prompt_len r)) (sr_x r))"
    using d(2) by (simp add: output_mask_indices_def py_slice_from_nonneg)
  show "token_positions [sr_total_len r] = map int [0..<length (sr_x r)]"
    by (rule nth_equalityI) (simp_all add: token_positions_def d(5))
qed

lemma candidates_bounds: "i \<in> candidates r \<Longrightarrow> i < length (sr_x r) \<and> masked_output r i"
  by (simp add: candidates_def masked_output_def)

text \<open>The step of a single request, in terms of what the model returned.\<close>

lemma execute_single:
  assumes ok: "step_request_ok r" and fwd: "forward_ok (mask_id (sr_params r)) (length (sr_x r)) forward" and tk: "topk_ok topk"
  obtains idx conf sel new_x where "forward (sr_x r) (step_context r) = Inr (idx, conf)"
    "execute_diffusion_once forward topk mem [r] =
       Inr [\<lparr>up_req_id = sr_req_id r, up_new_x = new_x, up_block_idx = sr_block_idx r, up_step_idx = sr_step_idx r\<rparr>]"
    "length new_x = length (sr_x r)" "set sel \<subseteq> candidates r" "distinct sel"
    "length sel = min (step_quota (sr_params r) (sr_step_idx r)) (card (candidates r))"
    "\<forall>i \<in> set sel. new_x ! i = prediction r idx i"
    "\<forall>i < length (sr_x r). i \<notin> set sel \<longrightarrow> new_x ! i = sr_x r ! i"
    "\<forall>i \<in> set sel. \<forall>j \<in> candidates r - set sel. prediction r conf j \<le> prediction r conf i"
    "length idx = length (filter (masked_output r) [0..<length (sr_x r)])"
proof -
  note d = step_request_okD [OF ok] and lay = single_layout [OF ok] and tok = single_request_tokens [OF ok]
  let ?x = "sr_x r" and ?p = "sr_params r" and ?ps = "filter (masked_output r) [0..<length (sr_x r)]"
  let ?mi = "mask_positions (mask_id ?p) (drop (nat (sr_prompt_len r)) ?x)"
  have mi: "length ?mi = length ?ps" using single_mask_positions [OF ok] by (metis length_map)
  have ne: "?mi \<noteq> []"
    using ok by (auto simp: step_request_ok_def mask_positions_def in_set_conv_nth filter_empty_conv)
  obtain idx conf where out: "forward ?x (step_context r) = Inr (idx, conf)"
    "length idx = length ?ps" "length conf = length ?ps"
    using fwd [unfolded forward_ok_def, rule_format, of "step_context r" "sr_prompt_len r" "gen_length ?p" ?x]
      ne ok mi d(2-4,6) by (auto simp: step_context_def step_request_ok_def)
  obtain x0 c where place: "place_predictions mem (length ?x) (sr_prompt_len r) (gen_length ?p) ?mi
      (mask_2d (length ?x) (mask_id ?p) ?x) (map (\<lambda>j. block_start r \<le> j \<and> j < block_end r) [0..<length ?x]) idx conf = Inr (x0, c)"
    and len_c: "length c = length ?x" and x0: "\<forall>i. masked_output r i \<longrightarrow> x0 ! i = prediction r idx i"
    and c: "\<forall>i < length ?x. c ! i = (if i \<in> candidates r then Some (prediction r conf i) else None)"
    using single_place_predictions [OF ok out(2) _ refl, of conf mem] out(2,3) by auto
  define tokens where "tokens = transfer_row (replicate (nat (block_length ?p)) True) (steps_per_block ?p)"
  note tr = transfer_row_props [OF valid_steps_per_block(2) [OF d(1)], of "replicate (nat (block_length ?p)) True",
      folded tokens_def]
  have si: "nat (sr_step_idx r) < length tokens" "0 \<le> sr_step_idx r" "sr_step_idx r < int (length tokens)"
    using ok tr(1) by (auto simp: step_request_ok_def)
  define k where "k = tokens ! nat (sr_step_idx r)"
  have q: "quota tokens (sr_step_idx r) = Inr k" using si by (simp add: quota_def k_def)
  have k: "0 \<le> k" "nat k = step_quota ?p (sr_step_idx r)"
    using tr(3) si by (auto simp: k_def step_quota_def tokens_def)
  define sel where "sel = select topk c k"
  note sel = select_props [OF tk k(1), of c, folded sel_def]
  have cand: "{i. i < length c \<and> c ! i \<noteq> None} = candidates r"
    using c len_c candidates_bounds [of _ r] by (auto split: if_splits)
  then have card: "length (filter (\<lambda>c. c \<noteq> None) c) = card (candidates r)" by (simp add: length_filter_card)
  define new_x where "new_x = final_x sel x0 ?x"
  have exec: "execute_diffusion_once forward topk mem [r] =
       Inr [\<lparr>up_req_id = sr_req_id r, up_new_x = new_x, up_block_idx = sr_block_idx r, up_step_idx = sr_step_idx r\<rparr>]"
    using out(1) ok place q tok lay d(4,5) len_c single_block_mask(2) [OF ok]
    by (simp add: execute_diffusion_once_def step_context_def Let_def step_request_ok_def tokens_def sel_def
        new_x_def final_x_def)
  have in_cand: "set sel \<subseteq> candidates r" using sel(3) cand by blast
  have dom: "\<forall>i \<in> set sel. \<forall>j \<in> candidates r - set sel. prediction r conf j \<le> prediction r conf i"
  proof (intro ballI)
    fix i j assume ij: "i \<in> set sel" "j \<in> candidates r - set sel"
    then have "c ! j \<le> c ! i" "c ! i = Some (prediction r conf i)" "c ! j = Some (prediction r conf j)"
      using sel(3,4) in_cand c len_c cand by (metis (no_types, lifting) DiffE mem_Collect_eq subsetD)+
    then show "prediction r conf j \<le> prediction r conf i" by simp
  qed
  have nx: "length new_x = length ?x" "\<forall>i < length ?x. new_x ! i = (if i \<in> set sel then x0 ! i else ?x ! i)"
    by (simp_all add: new_x_def final_x_def)
  have pr: "\<forall>i \<in> set sel. new_x ! i = prediction r idx i"
  proof
    fix i assume i: "i \<in> set sel"
    then have "masked_output r i" "i < length ?x" using in_cand by (auto simp: candidates_def masked_output_def)
    then show "new_x ! i = prediction r idx i" using x0 nx(2) i by simp
  qed
  show ?thesis
    using that [OF out(1) exec nx(1) in_cand sel(1) _ pr _ dom out(2)] sel(2) card k(2) nx(2) by simp
qed


section \<open>Progress of a request\<close>

text \<open>The shape of the working sequence at a block and a step: earlier blocks are filled in, the
  current one has as many masks left as its remaining steps will transfer, later ones are all
  masks.\<close>

definition block_tokens :: "DiffusionParams \<Rightarrow> int list" where
  "block_tokens p = transfer_row (replicate (nat (block_length p)) True) (steps_per_block p)"

definition masks_left :: "DiffusionParams \<Rightarrow> int list \<Rightarrow> nat \<Rightarrow> nat \<Rightarrow> nat set" where
  "masks_left p x a b = {i. a \<le> i \<and> i < b \<and> i < length x \<and> x ! i = mask_id p}"

definition denoised :: "DiffusionParams \<Rightarrow> nat \<Rightarrow> nat \<Rightarrow> nat \<Rightarrow> int list \<Rightarrow> bool" where
  "denoised p P b i x \<longleftrightarrow> (let L = nat (block_length p) in
     masks_left p x P (P + b * L) = {} \<and>
     (b < nat (num_blocks p) \<longrightarrow>
        int (card (masks_left p x (P + b * L) (P + b * L + L))) = sum_list (drop i (block_tokens p))) \<and>
     (\<forall>j. P + b * L + L \<le> j \<longrightarrow> j < length x \<longrightarrow> x ! j = mask_id p))"

lemma masks_left_finite [simp]: "finite (masks_left p x a b)"
  by (rule finite_subset [of _ "{0..<length x}"]) (auto simp: masks_left_def)

lemma masks_left_all:
  assumes "\<forall>j. a \<le> j \<longrightarrow> j < length x \<longrightarrow> x ! j = mask_id p" "b \<le> length x"
  shows "card (masks_left p x a b) = b - a"
proof -
  have "masks_left p x a b = {a..<b}" using assms by (auto simp: masks_left_def)
  then show ?thesis by simp
qed

lemma masks_left_split:
  "a \<le> b \<Longrightarrow> b \<le> c \<Longrightarrow> masks_left p x a c = masks_left p x a b \<union> masks_left p x b c"
  by (auto simp: masks_left_def)

lemma block_tokens_props:
  assumes "valid_params p"
  shows "length (block_tokens p) = nat (steps_per_block p)" "sum_list (block_tokens p) = block_length p"
    "\<forall>q \<in> set (block_tokens p). 0 \<le> q"
  using transfer_row_props [OF valid_steps_per_block(2) [OF assms], of "replicate (nat (block_length p)) True"] assms
  by (auto simp: block_tokens_def valid_params_def)

lemma denoised_initial:
  assumes "valid_params p" "length xs = P"
  shows "denoised p P 0 0 (xs @ replicate (nat (gen_length p)) (mask_id p))"
proof -
  let ?x = "xs @ replicate (nat (gen_length p)) (mask_id p)" and ?L = "nat (block_length p)"
  have all: "\<forall>j. P \<le> j \<longrightarrow> j < length ?x \<longrightarrow> ?x ! j = mask_id p" using assms(2) by (auto simp: nth_append)
  have "block_length p \<le> gen_length p"
    using assms(1) by (intro zdvd_imp_le) (auto simp: valid_params_def dvd_eq_mod_eq_0)
  then have "card (masks_left p ?x P (P + ?L)) = ?L"
    using masks_left_all [OF all, of "P + ?L"] assms(2) by simp
  moreover have "0 < block_length p" using assms(1) by (simp add: valid_params_def)
  ultimately show ?thesis
    using all block_tokens_props(2) [OF assms(1)] by (auto simp: denoised_def Let_def masks_left_def)
qed

lemma sum_drop_Suc: "i < length (xs::int list) \<Longrightarrow> sum_list (drop i xs) = xs ! i + sum_list (drop (Suc i) xs)"
  by (simp add: Cons_nth_drop_Suc [symmetric])

text \<open>A step that fills in the quota of the current block and changes nothing else makes progress.\<close>

lemma denoised_step:
  assumes p: "valid_params p" and b: "b < nat (num_blocks p)" and i: "i < nat (steps_per_block p)"
    and x: "length x = P + nat (gen_length p)" "length y = length x" and inv: "denoised p P b i x"
    and sel: "sel \<subseteq> masks_left p x (P + b * nat (block_length p)) (P + b * nat (block_length p) + nat (block_length p))"
      "card sel = nat (block_tokens p ! i)"
      "\<forall>j \<in> sel. y ! j \<noteq> mask_id p" "\<forall>j < length x. j \<notin> sel \<longrightarrow> y ! j = x ! j"
  shows "if Suc i < nat (steps_per_block p) then denoised p P b (Suc i) y else denoised p P (Suc b) 0 y"
proof -
  let ?L = "nat (block_length p)" and ?a = "P + b * nat (block_length p)"
  note tok = block_tokens_props [OF p]
  have fin: "finite sel" using sel(1) masks_left_finite by (rule finite_subset)
  have same: "y ! j = x ! j" if "j < length x" "j < ?a \<or> ?a + ?L \<le> j" for j
    using that sel(1,4) by (auto simp: masks_left_def)
  have "masks_left p y P ?a = masks_left p x P ?a" using same x(2) by (auto simp: masks_left_def)
  then have before: "masks_left p y P ?a = {}" using inv by (simp add: denoised_def Let_def)
  have after: "\<forall>j. ?a + ?L \<le> j \<longrightarrow> j < length y \<longrightarrow> y ! j = mask_id p"
    using inv same x(2) by (simp add: denoised_def Let_def)
  have "masks_left p y ?a (?a + ?L) = masks_left p x ?a (?a + ?L) - sel"
    using sel x(2) by (auto simp: masks_left_def)
  then have "card (masks_left p y ?a (?a + ?L)) = card (masks_left p x ?a (?a + ?L)) - nat (block_tokens p ! i)"
    using sel(1,2) fin by (simp add: card_Diff_subset)
  moreover have "int (card (masks_left p x ?a (?a + ?L))) = sum_list (drop i (block_tokens p))"
    using inv b by (simp add: denoised_def Let_def)
  moreover have "card sel \<le> card (masks_left p x ?a (?a + ?L))" using sel(1) by (intro card_mono) simp_all
  moreover have "0 \<le> block_tokens p ! i" using tok(1,3) i by simp
  ultimately have card: "int (card (masks_left p y ?a (?a + ?L))) = sum_list (drop (Suc i) (block_tokens p))"
    using sum_drop_Suc [of i "block_tokens p"] i tok(1) sel(2) by simp
  show ?thesis
  proof (cases "Suc i < nat (steps_per_block p)")
    case True
    then show ?thesis using before after card by (simp add: denoised_def Let_def)
  next
    case False
    then have "masks_left p y ?a (?a + ?L) = {}" using card tok(1) i by simp
    then have none: "masks_left p y P (P + Suc b * ?L) = {}"
      using before masks_left_split [of P ?a "?a + ?L" p y] by (simp add: algebra_simps)
    have "card (masks_left p y (?a + ?L) (?a + ?L + ?L)) = ?L" if "Suc b < nat (num_blocks p)"
    proof -
      have "(Suc b + 1) * ?L \<le> nat (num_blocks p) * ?L" using that by (intro mult_right_mono) auto
      also have "\<dots> = nat (gen_length p)"
        using valid_num_blocks(3) [OF p] valid_steps_per_block(3) [OF p] by (simp add: nat_mult_distrib [symmetric])
      finally show ?thesis using masks_left_all [OF after, of "?a + ?L + ?L"] x by (simp add: algebra_simps)
    qed
    then have "denoised p P (Suc b) 0 y"
      using none after tok(2) p by (simp add: denoised_def Let_def algebra_simps valid_params_def)
    then show ?thesis using False by simp
  qed
qed


lemma step_quota_tokens: "step_quota p (int i) = nat (block_tokens p ! i)"
  by (simp add: step_quota_def block_tokens_def)

lemma candidates_masks_left:
  assumes "step_request_ok r"
  shows "candidates r = masks_left (sr_params r) (sr_x r) (block_start r) (block_end r)"
  using block_bounds(1) [OF assms] by (auto simp: candidates_def masks_left_def masked_output_def)

text \<open>The step keeps the shape, provided the model never predicts the mask itself.\<close>

lemma execute_denoised:
  assumes ok: "step_request_ok r" and fwd: "forward_ok (mask_id (sr_params r)) (length (sr_x r)) forward" and tk: "topk_ok topk"
    and nm: "never_predicts (mask_id (sr_params r)) forward"
    and inv: "denoised (sr_params r) (nat (sr_prompt_len r)) (nat (sr_block_idx r)) (nat (sr_step_idx r)) (sr_x r)"
    and ex: "execute_diffusion_once forward topk mem [r] = Inr [up]"
  shows "if Suc (nat (sr_step_idx r)) < nat (steps_per_block (sr_params r))
    then denoised (sr_params r) (nat (sr_prompt_len r)) (nat (sr_block_idx r)) (Suc (nat (sr_step_idx r))) (up_new_x up)
    else denoised (sr_params r) (nat (sr_prompt_len r)) (Suc (nat (sr_block_idx r))) 0 (up_new_x up)"
proof -
  let ?p = "sr_params r" and ?L = "nat (block_length (sr_params r))"
  note d = step_request_okD [OF ok] and bb = block_bounds [OF ok] and tok = block_tokens_props [OF step_request_okD(1) [OF ok]]
  have idx0: "0 \<le> sr_block_idx r" "sr_block_idx r < num_blocks ?p" "0 \<le> sr_step_idx r"
    "sr_step_idx r < steps_per_block ?p"
    using ok by (simp_all add: step_request_ok_def)
  obtain idx conf sel where out: "forward (sr_x r) (step_context r) = Inr (idx, conf)"
    and new: "length (up_new_x up) = length (sr_x r)" "set sel \<subseteq> candidates r" "distinct sel"
      "length sel = min (step_quota ?p (sr_step_idx r)) (card (candidates r))"
      "\<forall>i \<in> set sel. up_new_x up ! i = prediction r idx i"
      "\<forall>i < length (sr_x r). i \<notin> set sel \<longrightarrow> up_new_x up ! i = sr_x r ! i"
    and li: "length idx = length (filter (masked_output r) [0..<length (sr_x r)])"
    using execute_single [OF ok fwd tk, of mem] ex by (smt (verit) DiffusionStepUpdate.select_convs(2) list.inject sum.inject(2))
  have "nat (sr_prompt_len r) + nat (sr_block_idx r) * ?L = block_start r"
    using d(1,2) idx0(1) by (simp add: block_start_def valid_params_def nat_add_distrib nat_mult_distrib)
  then have pos: "nat (sr_prompt_len r) + nat (sr_block_idx r) * ?L = block_start r" "block_start r + ?L = block_end r"
    by (simp_all add: block_end_def)
  have i: "nat (sr_step_idx r) < length (block_tokens ?p)" using idx0(3,4) tok(1) by simp
  have "\<forall>q \<in> set (drop (Suc (nat (sr_step_idx r))) (block_tokens ?p)). 0 \<le> q" using tok(3) by (meson in_set_dropD)
  then have "0 \<le> sum_list (drop (Suc (nat (sr_step_idx r))) (block_tokens ?p))" by (intro sum_list_nonneg) auto
  moreover have "int (card (candidates r)) = sum_list (drop (nat (sr_step_idx r)) (block_tokens ?p))"
    using inv idx0 pos candidates_masks_left [OF ok] by (simp add: denoised_def Let_def)
  moreover have "step_quota ?p (sr_step_idx r) = nat (block_tokens ?p ! nat (sr_step_idx r))"
    using step_quota_tokens [of ?p "nat (sr_step_idx r)"] idx0(3) by simp
  ultimately have "length sel = nat (block_tokens ?p ! nat (sr_step_idx r))"
    using sum_drop_Suc [OF i] new(4) by linarith
  then have card: "card (set sel) = nat (block_tokens ?p ! nat (sr_step_idx r))" using new(3) by (simp add: distinct_card)
  have pred: "\<forall>j \<in> set sel. up_new_x up ! j \<noteq> mask_id ?p"
  proof
    fix j assume j: "j \<in> set sel"
    then have "rank (masked_output r) j < length idx"
      using new(2) candidates_bounds filter_upt_rank(2) [of j "length (sr_x r)" "masked_output r"] li by auto
    then have "prediction r idx j \<in> set idx" by (simp add: prediction_def)
    moreover have "mask_id ?p \<notin> set idx" using nm out by (metis never_predicts_def)
    ultimately show "up_new_x up ! j \<noteq> mask_id ?p" using j new(5) by auto
  qed
  have x: "length (sr_x r) = nat (sr_prompt_len r) + nat (gen_length ?p)" using d by simp
  show ?thesis
    using denoised_step [OF d(1) _ _ x new(1) inv _ card pred new(6)] idx0 new(2) pos candidates_masks_left [OF ok]
    by simp
qed


section \<open>Properties\<close>

text \<open>Property C5. One denoising step of a well-formed request succeeds and returns one update. It
  fills in as many positions as the quota of the step allows, all of them masked positions of the
  current block, each with the token the model predicted there; no masked position of the block it
  leaves out has a higher confidence than one it fills in. Every other position, the prompt
  included, is unchanged.\<close>

theorem denoise_step_exact:
  assumes "step_request_ok r" "forward_ok (mask_id (sr_params r)) (length (sr_x r)) forward" "topk_ok topk"
  shows "\<exists>idx conf sel up. forward (sr_x r) (step_context r) = Inr (idx, conf) \<and>
    execute_diffusion_once forward topk mem [r] = Inr [up] \<and> up_req_id up = sr_req_id r \<and>
    length (up_new_x up) = length (sr_x r) \<and>
    sel \<subseteq> candidates r \<and> card sel = min (step_quota (sr_params r) (sr_step_idx r)) (card (candidates r)) \<and>
    (\<forall>i \<in> sel. up_new_x up ! i = prediction r idx i) \<and>
    (\<forall>i < length (sr_x r). i \<notin> sel \<longrightarrow> up_new_x up ! i = sr_x r ! i) \<and>
    (\<forall>i \<in> sel. \<forall>j \<in> candidates r - sel. prediction r conf j \<le> prediction r conf i)"
proof -
  obtain idx conf sel new_x where "forward (sr_x r) (step_context r) = Inr (idx, conf)"
    "execute_diffusion_once forward topk mem [r] =
       Inr [\<lparr>up_req_id = sr_req_id r, up_new_x = new_x, up_block_idx = sr_block_idx r, up_step_idx = sr_step_idx r\<rparr>]"
    "length new_x = length (sr_x r)" "set sel \<subseteq> candidates r" "distinct sel"
    "length sel = min (step_quota (sr_params r) (sr_step_idx r)) (card (candidates r))"
    "\<forall>i \<in> set sel. new_x ! i = prediction r idx i"
    "\<forall>i < length (sr_x r). i \<notin> set sel \<longrightarrow> new_x ! i = sr_x r ! i"
    "\<forall>i \<in> set sel. \<forall>j \<in> candidates r - set sel. prediction r conf j \<le> prediction r conf i"
    using execute_single [OF assms, of mem] .
  then show ?thesis
    by (intro exI [of _ idx] exI [of _ conf] exI [of _ "set sel"] exI
        [of _ "\<lparr>up_req_id = sr_req_id r, up_new_x = new_x, up_block_idx = sr_block_idx r, up_step_idx = sr_step_idx r\<rparr>"])
      (simp add: distinct_card)
qed

text \<open>Property C28. The transfer quotas of a mask row over a positive number of steps: one quota per
  step, none negative, together exactly the number of masks, never increasing, and no two of them
  differ by more than one.\<close>

theorem transfer_quota_exact:
  assumes "0 < k"
  shows "\<exists>q. get_num_transfer_tokens [row] k = Inr [q] \<and> length q = nat k \<and>
    sum_list q = int (count_list row True) \<and> sorted_wrt (\<ge>) q \<and>
    (\<forall>a \<in> set q. 0 \<le> a \<and> (\<forall>b \<in> set q. a \<le> b + 1))"
proof -
  note tr = transfer_row_props [OF assms, of row]
  have "sorted_wrt (\<ge>) (transfer_row row k)"
    by (auto simp: transfer_row_def Let_def sorted_wrt_map intro!: sorted_wrt_mono_rel [OF _ sorted_upt])
  moreover have "a \<le> b + 1" if "a \<in> set (transfer_row row k)" "b \<in> set (transfer_row row k)" for a b
    using bspec [OF tr(4) that(1)] bspec [OF tr(4) that(2)] by linarith
  ultimately show ?thesis using assms tr(1-3) by (simp add: get_num_transfer_tokens_def)
qed

theorem transfer_quota_exact_witness:
  "get_num_transfer_tokens [[True, False, True, True, True, True]] 3 = Inr [[2, 2, 1]] \<and>
   (\<exists>q. get_num_transfer_tokens [[True, False, True, True, True, True]] 3 = Inr [q] \<and> sum_list q = 5)"
  using transfer_quota_exact [of 3 "[True, False, True, True, True, True]"]
  by (auto simp: get_num_transfer_tokens_def transfer_row_def upt_rec)

text \<open>With classifier-free guidance switched on (a positive cfg_scale), a denoising
  step of a request that is well formed otherwise raises NameError before the model is called.\<close>

theorem guidance_raises:
  assumes "step_request_ok (r\<lparr>sr_params := (sr_params r)\<lparr>cfg_scale := 0\<rparr>\<rparr>)" "0 < cfg_scale (sr_params r)"
  shows "execute_diffusion_once forward topk mem [r] = Inl NameError"
proof -
  let ?p = "(sr_params r)\<lparr>cfg_scale := 0\<rparr>" and ?r = "r\<lparr>sr_params := (sr_params r)\<lparr>cfg_scale := 0\<rparr>\<rparr>"
  note tok = single_request_tokens [OF assms(1)] and lay = single_layout [OF assms(1)]
  have "request_tokens (block_mask_row (sr_total_len r) r) r = request_tokens (block_mask_row (sr_total_len ?r) ?r) ?r"
    "check_first (sr_params r) = check_first ?p"
    "pad_row (sr_total_len r) (mask_id (sr_params r)) (sr_x r) = pad_row (sr_total_len ?r) (mask_id (sr_params r)) (sr_x ?r)"
    "max_total_len [r] = sr_total_len r"
    by (simp_all add: request_tokens_def block_mask_row_def check_first_def max_total_len_def Let_def)
  then show ?thesis
    using tok lay(2) assms(2) by (simp add: execute_diffusion_once_def Let_def)
qed

section \<open>A concrete model\<close>

definition demo_forward :: model_forward where
  "demo_forward flat ctx = Inr (map (\<lambda>i. 10 + int i) (fc_mask_indices ctx), map (\<lambda>i. of_nat i) (fc_mask_indices ctx))"

definition demo_topk :: "rat option list \<Rightarrow> nat \<Rightarrow> nat list" where
  "demo_topk cs k = take k (rev (sort_key (\<lambda>i. cs ! i) [0..<length cs]))"

lemma demo_forward_ok: "forward_ok m n demo_forward" "m < 10 \<Longrightarrow> never_predicts m demo_forward"
  by (auto simp: forward_ok_def never_predicts_def demo_forward_def)

lemma demo_topk_ok: "topk_ok demo_topk"
  unfolding topk_ok_def
proof (intro allI impI)
  fix cs :: "rat option list" and k assume k: "k \<le> length cs"
  let ?ys = "rev (sort_key (\<lambda>i. cs ! i) [0..<length cs])"
  have ys: "mset ?ys = mset [0..<length cs]" "length ?ys = length cs" "distinct ?ys" "set ?ys = {0..<length cs}"
    by (simp_all add: distinct_sort)
  have "sorted_wrt (\<lambda>i j. cs ! j \<le> cs ! i) ?ys"
    using sorted_sort_key [of "\<lambda>i. cs ! i" "[0..<length cs]"] by (simp add: sorted_wrt_rev sorted_map)
  then have "sorted_wrt (\<lambda>i j. cs ! j \<le> cs ! i) (take k ?ys @ drop k ?ys)" by (metis append_take_drop_id)
  then have dom: "\<forall>i \<in> set (take k ?ys). \<forall>j \<in> set (drop k ?ys). cs ! j \<le> cs ! i"
    unfolding sorted_wrt_append by blast
  have rest: "j \<in> set (drop k ?ys)" if "j < length cs" "j \<notin> set (take k ?ys)" for j
  proof -
    have "j \<in> set (take k ?ys @ drop k ?ys)" using that ys(4) by (metis append_take_drop_id atLeastLessThan_iff zero_le)
    then show ?thesis using that(2) by (metis Un_iff set_append)
  qed
  have "distinct (take k ?ys)" using ys(3) by (rule distinct_take)
  moreover have "set (take k ?ys) \<subseteq> {0..<length cs}" using ys(4) set_take_subset by metis
  ultimately show "distinct (demo_topk cs k) \<and> length (demo_topk cs k) = k \<and> set (demo_topk cs k) \<subseteq> {0..<length cs} \<and>
      (\<forall>i \<in> set (demo_topk cs k). \<forall>j < length cs. j \<notin> set (demo_topk cs k) \<longrightarrow> cs ! j \<le> cs ! i)"
    unfolding demo_topk_def using dom rest k ys(2) by auto
qed

definition demo_step_request :: DiffusionStepRequest where
  "demo_step_request = step_request (initial_state (demo_request ''a''))"

lemmas demo_step_defs = demo_step_request_def step_request_def initial_state_def demo_request_def demo_params_def

lemma demo_step_request_ok: "step_request_ok demo_step_request"
  using demo_params_valid valid_steps_per_block [OF demo_params_valid]
  by (simp add: step_request_ok_def demo_step_defs num_blocks_def steps_per_block_def)

theorem denoise_step_exact_witness:
  "step_request_ok demo_step_request \<and>
   (\<exists>up. execute_diffusion_once demo_forward demo_topk (\<lambda>_. 0) [demo_step_request] = Inr [up] \<and>
     length (up_new_x up) = 6 \<and> up_new_x up ! 0 = 7 \<and> up_new_x up ! 5 = 99)"
proof -
  have len: "length (sr_x demo_step_request) = 6" "sr_x demo_step_request ! 0 = 7" "sr_x demo_step_request ! 5 = 99"
    by (simp_all add: demo_step_defs)
  have nc: "0 \<notin> candidates demo_step_request" "5 \<notin> candidates demo_step_request"
    by (simp_all add: candidates_def masked_output_def block_start_def block_end_def demo_step_defs)
  from denoise_step_exact [OF demo_step_request_ok demo_forward_ok(1) demo_topk_ok, of "\<lambda>_. 0"]
  obtain up sel where "execute_diffusion_once demo_forward demo_topk (\<lambda>_. 0) [demo_step_request] = Inr [up]"
    "length (up_new_x up) = 6" "sel \<subseteq> candidates demo_step_request"
    "\<forall>i < 6. i \<notin> sel \<longrightarrow> up_new_x up ! i = sr_x demo_step_request ! i"
    unfolding len(1) by blast
  moreover from this have "0 \<notin> sel" "5 \<notin> sel"
    using nc by blast+
  ultimately have "up_new_x up ! 0 = 7" "up_new_x up ! 5 = 99" using len(2,3) by simp_all
  then show ?thesis
    using demo_step_request_ok \<open>execute_diffusion_once _ _ _ _ = Inr [up]\<close> \<open>length (up_new_x up) = 6\<close> by blast
qed

theorem guidance_raises_witness:
  "execute_diffusion_once demo_forward demo_topk (\<lambda>_. 0)
     [demo_step_request\<lparr>sr_params := demo_params\<lparr>cfg_scale := 1\<rparr>\<rparr>] = Inl NameError"
proof (rule guidance_raises)
  have "(demo_step_request\<lparr>sr_params := demo_params\<lparr>cfg_scale := 1\<rparr>\<rparr>)\<lparr>sr_params :=
      (sr_params (demo_step_request\<lparr>sr_params := demo_params\<lparr>cfg_scale := 1\<rparr>\<rparr>))\<lparr>cfg_scale := 0\<rparr>\<rparr> = demo_step_request"
    by (simp add: demo_step_defs)
  then show "step_request_ok ((demo_step_request\<lparr>sr_params := demo_params\<lparr>cfg_scale := 1\<rparr>\<rparr>)\<lparr>sr_params :=
      (sr_params (demo_step_request\<lparr>sr_params := demo_params\<lparr>cfg_scale := 1\<rparr>\<rparr>))\<lparr>cfg_scale := 0\<rparr>\<rparr>)"
    using demo_step_request_ok by simp
qed simp

end
