(* ===== verification/Engine_Core.thy ===== *)
theory Engine_Core
  imports Diffusion_Step
begin

text \<open>
  The diffusion path of the engine core, \<^verbatim>\<open>vllm/v1/engine/core.py\<close>: mapping an incoming request to a
  diffusion request, and the step that plans a batch, runs the model on it and turns finished
  requests into outputs. The executor and the worker (\<^verbatim>\<open>vllm/v1/worker/gpu_worker.py\<close>) pass the batch
  on to the model runner; the worker runs the very first batch twice to warm up. The source sets
  \<^verbatim>\<open>diffusion_mode\<close> to true unconditionally, so the path of the ordinary scheduler is not modelled.

  The locale \<open>job_service\<close> states what a stepping service promises about the job it works on and
  derives that running it long enough returns exactly the job's result; it is interpreted on the
  engine. The forward pass is relied on for one sequence at a time, so the service property is about
  requests submitted one after the other.
\<close>

section \<open>Requests and outputs\<close>

record SamplingParams =
  sp_steps :: int
  sp_gen_length :: int
  sp_block_length :: int
  sp_temperature :: rat
  sp_cfg_scale :: rat
  sp_remasking :: string
  sp_mask_id :: int
  sp_prompt_length :: "int option"
  sp_output_length :: "int option"

record engine_request =
  er_request_id :: string
  prompt_token_ids :: "int list"
  sampling_params :: "SamplingParams option"
  pooling_task :: "string option"

datatype finish_reason = FINISH_STOP | FINISH_LENGTH | FINISH_ABORT

record EngineCoreOutput =
  eo_request_id :: string
  new_token_ids :: "int list"
  finish_reason :: finish_reason

record engine =
  diffusion_scheduler :: "scheduler option"
  diffusion_warmed_up :: bool
  supported_pooling_tasks :: "string list"

section \<open>Submitting a request\<close>

definition diffusion_params :: "engine_request \<Rightarrow> DiffusionParams" where
  "diffusion_params request =
     (let sp = sampling_params request;
          field = (\<lambda>get default. case sp of Some s \<Rightarrow> get s | None \<Rightarrow> default);
          gen = field sp_gen_length 128;
          prompt = (case sp of Some s \<Rightarrow> sp_prompt_length s | None \<Rightarrow> None);
          output = (case sp of Some s \<Rightarrow> sp_output_length s | None \<Rightarrow> None)
      in \<lparr>steps = field sp_steps 128, gen_length = gen, block_length = field sp_block_length 32,
          temperature = (case sp of Some s \<Rightarrow> sp_temperature s | None \<Rightarrow> 0),
          cfg_scale = (case sp of Some s \<Rightarrow> sp_cfg_scale s | None \<Rightarrow> 0),
          remasking = (case sp of Some s \<Rightarrow> sp_remasking s | None \<Rightarrow> ''low_confidence''),
          mask_id = field sp_mask_id 126336,
          prompt_length = (case prompt of None \<Rightarrow> Some (int (length (prompt_token_ids request))) | Some n \<Rightarrow> Some n),
          output_length = (case output of None \<Rightarrow> Some gen | Some n \<Rightarrow> Some n)\<rparr>)"

definition diffusion_request :: "engine_request \<Rightarrow> DiffusionRequest" where
  "diffusion_request request =
     \<lparr>dr_req_id = er_request_id request, input_token_ids = prompt_token_ids request,
      dr_params = diffusion_params request\<rparr>"

definition engine_add_request :: "engine_request \<Rightarrow> engine \<Rightarrow> engine result" where
  "engine_add_request request e =
     (if (case pooling_task request of None \<Rightarrow> False | Some task \<Rightarrow> task \<notin> set (supported_pooling_tasks e))
      then Inl ValueError
      else case diffusion_scheduler e of
             None \<Rightarrow> Inl AssertionError
           | Some s \<Rightarrow> Inr (e\<lparr>diffusion_scheduler := Some (add_request (diffusion_request request) s)\<rparr>))"

section \<open>One engine step\<close>

definition has_local_requests :: "engine \<Rightarrow> bool" where
  "has_local_requests e \<longleftrightarrow>
     (case diffusion_scheduler e of None \<Rightarrow> False | Some s \<Rightarrow> has_active_requests s)"

text \<open>The worker: the first batch is executed twice, and only the second result is used.\<close>

definition worker_execute ::
  "(DiffusionStepBatch \<Rightarrow> DiffusionStepUpdate list result) \<Rightarrow> DiffusionStepBatch \<Rightarrow> bool \<Rightarrow>
     (DiffusionStepUpdate list \<times> bool) result" where
  "worker_execute run_model step_batch warmed_up =
     bind_res (if \<not> warmed_up then bind_res (run_model step_batch) (\<lambda>_. Inr ()) else Inr ()) (\<lambda>_.
       bind_res (run_model step_batch) (\<lambda>ret. Inr (ret, True)))"

definition engine_output :: "FinishedDiffusionItem \<Rightarrow> EngineCoreOutput" where
  "engine_output item =
     \<lparr>eo_request_id = fi_req_id item, new_token_ids = tail_token_ids item, finish_reason = FINISH_LENGTH\<rparr>"

text \<open>The outputs are a dictionary from clients to lists, here an association list.\<close>

definition engine_step ::
  "(DiffusionStepBatch \<Rightarrow> DiffusionStepUpdate list result) \<Rightarrow> engine \<Rightarrow>
     (((nat \<times> EngineCoreOutput list) list \<times> bool) \<times> engine) result" where
  "engine_step run_model e =
     (if \<not> has_local_requests e then Inr (([], False), e)
      else case diffusion_scheduler e of
             None \<Rightarrow> Inl AssertionError
           | Some s \<Rightarrow>
               bind_res (schedule_step s) (\<lambda>(b, s1).
                 case b of
                   None \<Rightarrow> Inr (([], False), e\<lparr>diffusion_scheduler := Some s1\<rparr>)
                 | Some step_batch \<Rightarrow>
                     bind_res (worker_execute run_model step_batch (diffusion_warmed_up e)) (\<lambda>(step_updates, warm).
                       let (finished_items, s2) = apply_updates_and_collect_finished step_updates s1;
                           outputs = map engine_output finished_items;
                           e2 = e\<lparr>diffusion_scheduler := Some s2, diffusion_warmed_up := warm\<rparr>
                       in Inr ((if outputs = [] then [] else [(0, outputs)], True), e2))))"

section \<open>Running the engine\<close>

text \<open>A driver that steps a service a number of times and collects what it returns.\<close>

fun run_loop :: "('s \<Rightarrow> ('o list \<times> 's) result) \<Rightarrow> nat \<Rightarrow> 's \<Rightarrow> ('o list \<times> 's) result" where
  "run_loop step 0 s = Inr ([], s)"
| "run_loop step (Suc n) s =
     bind_res (step s) (\<lambda>(outs, s1). bind_res (run_loop step n s1) (\<lambda>(outs', s2). Inr (outs @ outs', s2)))"

definition step_outputs ::
  "(DiffusionStepBatch \<Rightarrow> DiffusionStepUpdate list result) \<Rightarrow> engine \<Rightarrow> (EngineCoreOutput list \<times> engine) result" where
  "step_outputs run_model e = bind_res (engine_step run_model e) (\<lambda>((outs, _), e1). Inr (concat (map snd outs), e1))"

text \<open>Submitting requests one after the other, stepping the engine after each.\<close>

fun serve_all ::
  "(DiffusionStepBatch \<Rightarrow> DiffusionStepUpdate list result) \<Rightarrow> engine_request list \<Rightarrow> engine \<Rightarrow>
     (EngineCoreOutput list \<times> engine) result" where
  "serve_all run_model [] e = Inr ([], e)"
| "serve_all run_model (req # reqs) e =
     bind_res (engine_add_request req e) (\<lambda>e1.
     bind_res (run_loop (step_outputs run_model) (nat (steps (diffusion_params req))) e1) (\<lambda>(outs, e2).
     bind_res (serve_all run_model reqs e2) (\<lambda>(outs', e3). Inr (outs @ outs', e3))))"

section \<open>Services that work on one job\<close>

locale job_service =
  fixes step :: "'s \<Rightarrow> ('o list \<times> 's) result" and idle :: "'s \<Rightarrow> bool" and active :: "'j \<Rightarrow> 's \<Rightarrow> bool"
    and work :: "'s \<Rightarrow> nat" and result_of :: "'j \<Rightarrow> 'o \<Rightarrow> bool"
  assumes step_idle: "idle s \<Longrightarrow> step s = Inr ([], s)"
    and step_active: "active j s \<Longrightarrow> \<exists>outs s'. step s = Inr (outs, s') \<and>
      (outs = [] \<and> active j s' \<and> work s' < work s \<or> (\<exists>r. outs = [r] \<and> result_of j r \<and> idle s'))"
begin

lemma run_idle: "idle s \<Longrightarrow> run_loop step n s = Inr ([], s)"
  by (induction n) (simp_all add: step_idle)

lemma run_active:
  "active j s \<Longrightarrow> work s < n \<Longrightarrow> \<exists>r s'. run_loop step n s = Inr ([r], s') \<and> result_of j r \<and> idle s'"
proof (induction n arbitrary: s)
  case (Suc n)
  from step_active [OF Suc.prems(1)] obtain outs s' where s': "step s = Inr (outs, s')"
    "outs = [] \<and> active j s' \<and> work s' < work s \<or> (\<exists>r. outs = [r] \<and> result_of j r \<and> idle s')" by blast
  then consider "outs = []" "active j s'" "work s' < n" | r where "outs = [r]" "result_of j r" "idle s'"
    using Suc.prems(2) by auto
  then show ?case
  proof cases
    case 1
    then show ?thesis using Suc.IH [of s'] s'(1) by auto
  next
    case 2
    then show ?thesis using s'(1) by (auto simp: run_idle)
  qed
qed simp

end


section \<open>The engine as such a service\<close>

text \<open>Requests the engine can serve: a prompt, valid parameters, no guidance, and declared lengths that agree
  with the prompt and the generated part.\<close>

definition servable :: "DiffusionRequest \<Rightarrow> bool" where
  "servable req \<longleftrightarrow> input_token_ids req \<noteq> [] \<and> valid_params (dr_params req) \<and> \<not> 0 < cfg_scale (dr_params req) \<and>
     prompt_length (dr_params req) = Some (int (length (input_token_ids req))) \<and>
     output_length (dr_params req) = Some (gen_length (dr_params req))"

text \<open>The state of a request that still has masks to fill in. The shape of the sequence is known
  only when the model never predicts the mask.\<close>

definition working :: "model_forward \<Rightarrow> DiffusionRequest \<Rightarrow> DiffusionRuntimeState \<Rightarrow> bool" where
  "working fwd req st \<longleftrightarrow> in_progress st \<and> st_req_id st = dr_req_id req \<and> st_params st = dr_params req \<and>
     st_prompt_len st = int (length (input_token_ids req)) \<and>
     mask_id (dr_params req) \<in> set (drop (length (input_token_ids req)) (st_x st)) \<and>
     (never_predicts (mask_id (dr_params req)) fwd \<longrightarrow>
        denoised (dr_params req) (length (input_token_ids req)) (nat (st_block_idx st)) (nat (st_step_idx st)) (st_x st))"

definition ready_scheduler :: "scheduler \<Rightarrow> bool" where
  "ready_scheduler s \<longleftrightarrow> sched_inv s \<and> pool_ready s \<and> 1 \<le> max_batch_size s"

text \<open>The number of tokens the model sees at every step of a request.\<close>

definition request_len :: "DiffusionRequest \<Rightarrow> nat" where
  "request_len req = length (input_token_ids req) + nat (gen_length (dr_params req))"

definition engine_idle :: "engine \<Rightarrow> bool" where
  "engine_idle e \<longleftrightarrow> (\<exists>s. diffusion_scheduler e = Some s \<and> ready_scheduler s \<and> waiting s = [] \<and> running s = [])"

definition engine_active :: "model_forward \<Rightarrow> (rat option list \<Rightarrow> nat \<Rightarrow> nat list) \<Rightarrow> DiffusionRequest \<Rightarrow> engine \<Rightarrow> bool" where
  "engine_active fwd topk req e \<longleftrightarrow> forward_ok (mask_id (dr_params req)) (request_len req) fwd \<and> topk_ok topk \<and> servable req \<and>
     (\<exists>s st. diffusion_scheduler e = Some s \<and> ready_scheduler s \<and>
        (waiting s = [req] \<and> running s = [] \<or> waiting s = [] \<and> running s = [dr_req_id req]) \<and>
        states s (dr_req_id req) = Some st \<and> working fwd req st)"

definition engine_work :: "engine \<Rightarrow> nat" where
  "engine_work e =
     (case diffusion_scheduler e of
        None \<Rightarrow> 0
      | Some s \<Rightarrow> (case running s @ ids (waiting s) of
                   [] \<Rightarrow> 0
                 | rid # _ \<Rightarrow> nat (remaining (the (states s rid))) - 1))"

definition served :: "model_forward \<Rightarrow> DiffusionRequest \<Rightarrow> EngineCoreOutput \<Rightarrow> bool" where
  "served fwd req r \<longleftrightarrow> eo_request_id r = dr_req_id req \<and> finish_reason r = FINISH_LENGTH \<and>
     int (length (new_token_ids r)) = gen_length (dr_params req) \<and>
     (never_predicts (mask_id (dr_params req)) fwd \<longrightarrow> mask_id (dr_params req) \<notin> set (new_token_ids r))"

lemma working_step_request:
  assumes "servable req" "working fwd req st"
  shows "step_request_ok (step_request st)"
proof -
  have "st_params st = dr_params req" using assms(2) by (simp add: working_def)
  then show ?thesis
    using assms by (auto simp: step_request_ok_def step_request_def servable_def working_def in_progress_def wf_state_def)
qed

lemma working_params: "working fwd req st \<Longrightarrow> sr_params (step_request st) = dr_params req"
  by (simp add: working_def step_request_def)

lemma working_len: "working fwd req st \<Longrightarrow> length (sr_x (step_request st)) = request_len req"
  by (auto simp: working_def step_request_def in_progress_def wf_state_def valid_params_def request_len_def)

lemma working_initial:
  assumes "servable req"
  shows "working fwd req (initial_state req)"
proof -
  have p: "valid_params (dr_params req)" using assms by (simp add: servable_def)
  then have "0 < nat (gen_length (dr_params req))" by (simp add: valid_params_def)
  then show ?thesis
    using initial_state_in_progress [OF p] denoised_initial [OF p refl, of "input_token_ids req"]
    by (simp add: working_def) (simp add: initial_state_def Let_def)
qed

text \<open>When the budget is used up or the masks are gone, no mask is left in the generated part.\<close>

lemma denoised_done:
  assumes "valid_params p" "length x = P + nat (gen_length p)" "denoised p P (nat (num_blocks p)) 0 x"
  shows "mask_id p \<notin> set (drop P x)"
proof
  assume "mask_id p \<in> set (drop P x)"
  then obtain j where j: "P + j < length x" "x ! (P + j) = mask_id p"
    by (auto simp: in_set_conv_nth less_diff_conv add.commute)
  have "nat (num_blocks p) * nat (block_length p) = nat (gen_length p)"
    using valid_num_blocks(3) [OF assms(1)] valid_steps_per_block(3) [OF assms(1)]
    by (simp add: nat_mult_distrib [symmetric])
  then have "P + j \<in> masks_left p x P (P + nat (num_blocks p) * nat (block_length p))"
    using j assms(2) by (auto simp: masks_left_def)
  then show False using assms(3) by (auto simp: denoised_def Let_def)
qed

text \<open>One step of a working request: it keeps working with one step less, or it is done and its
  output is as promised.\<close>

lemma working_advance:
  assumes w: "working fwd req st" and s: "servable req" and fwd: "forward_ok (mask_id (dr_params req)) (request_len req) fwd" "topk_ok topk"
    and ex: "execute_diffusion_once fwd topk mem [step_request st] = Inr [up]"
  shows "up_req_id up = dr_req_id req" "int (length (up_new_x up)) = st_total_len st"
    and "\<not> finishes (advance up st) \<Longrightarrow> working fwd req (advance up st) \<and> remaining (advance up st) = remaining st - 1"
    and "finishes (advance up st) \<Longrightarrow> served fwd req (engine_output (finished_item (advance up st)))"
proof -
  let ?p = "dr_params req" and ?P = "length (input_token_ids req)" and ?m = "mask_id (dr_params req)"
  note ok = working_step_request [OF s w]
  have fwd': "forward_ok (mask_id (sr_params (step_request st))) (length (sr_x (step_request st))) fwd" "topk_ok topk"
    using fwd working_params [OF w] working_len [OF w] by simp_all
  have st: "in_progress st" "st_params st = ?p" "st_prompt_len st = int ?P" "st_req_id st = dr_req_id req"
    "wf_state st" using w by (auto simp: working_def in_progress_def)
  obtain new_x where "execute_diffusion_once fwd topk mem [step_request st] =
      Inr [\<lparr>up_req_id = sr_req_id (step_request st), up_new_x = new_x, up_block_idx = sr_block_idx (step_request st),
        up_step_idx = sr_step_idx (step_request st)\<rparr>]" "length new_x = length (sr_x (step_request st))"
    using execute_single [OF ok fwd'] by metis
  then have up: "up_req_id up = st_req_id st" "length (up_new_x up) = length (st_x st)"
    using ex by (auto simp: step_request_def)
  then show id: "up_req_id up = dr_req_id req" and len: "int (length (up_new_x up)) = st_total_len st"
    using st by (auto simp: wf_state_def)
  note count = advance_countdown [OF st(1) len] and wf = advance_wf [OF st(1) len]
  have bounds: "0 \<le> st_step_idx st" "0 \<le> st_block_idx st" "st_step_idx st < steps_per_block ?p"
    "st_block_idx st < num_blocks ?p" "0 \<le> st_block_idx (advance up st)"
    using st(1,2) wf(1) by (auto simp: in_progress_def wf_state_def)
  have shape: "denoised ?p ?P (nat (st_block_idx (advance up st))) (nat (st_step_idx (advance up st))) (up_new_x up)"
    if nm: "never_predicts ?m fwd"
  proof -
    have sr: "sr_params (step_request st) = ?p" "nat (sr_prompt_len (step_request st)) = ?P"
      "sr_block_idx (step_request st) = st_block_idx st" "sr_step_idx (step_request st) = st_step_idx st"
      "sr_x (step_request st) = st_x st"
      using st by (simp_all add: step_request_def)
    have "denoised (sr_params (step_request st)) (nat (sr_prompt_len (step_request st)))
        (nat (sr_block_idx (step_request st))) (nat (sr_step_idx (step_request st))) (sr_x (step_request st))"
      using w nm unfolding sr by (simp add: working_def)
    moreover have "never_predicts (mask_id (sr_params (step_request st))) fwd" using nm unfolding sr .
    ultimately have "if Suc (nat (st_step_idx st)) < nat (steps_per_block ?p)
        then denoised ?p ?P (nat (st_block_idx st)) (Suc (nat (st_step_idx st))) (up_new_x up)
        else denoised ?p ?P (Suc (nat (st_block_idx st))) 0 (up_new_x up)"
      using execute_denoised [OF ok fwd' _ _ ex] unfolding sr by simp
    moreover have "Suc (nat (st_step_idx st)) < nat (steps_per_block ?p) \<longleftrightarrow>
        \<not> steps_per_block (st_params st) \<le> st_step_idx st + 1" "nat (st_step_idx st + 1) = Suc (nat (st_step_idx st))"
      "nat (st_block_idx st + 1) = Suc (nat (st_block_idx st))"
      using bounds st(2) by auto
    ultimately show ?thesis
      by (cases "steps_per_block (st_params st) \<le> st_step_idx st + 1") (simp_all add: advance_def)
  qed
  have mask: "finished_by_mask (advance up st) \<longleftrightarrow> ?m \<notin> set (drop ?P (up_new_x up))"
    using st by (simp add: finished_by_mask_def py_slice_from_nonneg count_list_0_iff)
  show "working fwd req (advance up st) \<and> remaining (advance up st) = remaining st - 1" if "\<not> finishes (advance up st)"
    using that count(2) st shape mask unfolding working_def finishes_def by simp
  show "served fwd req (engine_output (finished_item (advance up st)))" if "finishes (advance up st)"
  proof -
    note tail = finished_item_length [OF wf(1)]
    have "?m \<notin> set (drop ?P (up_new_x up))" if nm: "never_predicts ?m fwd"
    proof (cases "finished_by_budget (advance up st)")
      case True
      have p: "valid_params ?p" using s by (simp add: servable_def)
      have "remaining st = 1" using count(1) True by simp
      then have eq: "(num_blocks ?p - st_block_idx (advance up st)) * steps_per_block ?p = st_step_idx (advance up st)"
        using remaining_in_progress(1) [OF st(1)] wf(2) st(2) by (simp add: algebra_simps)
      have le: "num_blocks ?p \<le> st_block_idx (advance up st)" using True st(2) by (simp add: finished_by_budget_def)
      then have "(num_blocks ?p - st_block_idx (advance up st)) * steps_per_block ?p \<le> 0"
        using valid_steps_per_block(2) [OF p] by (intro mult_nonpos_nonneg) auto
      moreover have "0 \<le> st_step_idx (advance up st)" using wf(1) by (simp add: wf_state_def)
      ultimately have "st_step_idx (advance up st) = 0" "st_block_idx (advance up st) = num_blocks ?p"
        using eq valid_steps_per_block(2) [OF p] by auto
      then have "denoised ?p ?P (nat (num_blocks ?p)) 0 (up_new_x up)" using shape [OF nm] by simp
      moreover have "length (up_new_x up) = ?P + nat (gen_length ?p)"
        using len st by (auto simp: wf_state_def valid_params_def)
      ultimately show ?thesis using denoised_done [OF p] by blast
    next
      case False
      then show ?thesis using that mask \<open>finishes (advance up st)\<close> by (simp add: finishes_def)
    qed
    then show ?thesis
      using tail st by (simp add: served_def engine_output_def) (simp add: finished_item_def)
  qed
qed


lemma engine_step_idle: "engine_idle e \<Longrightarrow> step_outputs run_model e = Inr ([], e)"
  by (auto simp: engine_idle_def step_outputs_def engine_step_def has_local_requests_def has_active_requests_def)

lemma worker_execute_ok: "run_model b = Inr ups \<Longrightarrow> worker_execute run_model b warm = Inr (ups, True)"
  by (simp add: worker_execute_def)

text \<open>Planning with one active request admits it and batches its state.\<close>

lemma schedule_single:
  assumes "ready_scheduler s" "states s (dr_req_id req) = Some st"
    "waiting s = [req] \<and> running s = [] \<or> waiting s = [] \<and> running s = [dr_req_id req]"
  shows "schedule_step s = Inr (Some [step_request st], s\<lparr>waiting := [], running := [dr_req_id req]\<rparr>)"
    "ready_scheduler (s\<lparr>waiting := [], running := [dr_req_id req]\<rparr>)"
proof -
  let ?n = "nat (max_batch_size s) - length (running s)" and ?s = "s\<lparr>waiting := [], running := [dr_req_id req]\<rparr>"
  have s: "sched_inv s" "pool_ready s" "1 \<le> max_batch_size s" using assms(1) by (simp_all add: ready_scheduler_def)
  have "?s = s\<lparr>waiting := drop ?n (waiting s), running := running s @ take ?n (ids (waiting s))\<rparr>"
    using assms(3) s(3) by (cases s) (auto simp: take_Cons' drop_Cons')
  from schedule_step_ready [OF s(1,2) refl this] assms(2)
  show "schedule_step s = Inr (Some [step_request st], ?s)" "ready_scheduler ?s"
    using s by (simp_all add: ready_scheduler_def pool_ready_def)
qed

lemma engine_work_single:
  assumes "diffusion_scheduler e = Some s" "states s (dr_req_id req) = Some st"
    "waiting s = [req] \<and> running s = [] \<or> waiting s = [] \<and> running s = [dr_req_id req]"
  shows "engine_work e = nat (remaining st) - 1"
  using assms by (auto simp: engine_work_def)

lemma engine_step_active:
  assumes "engine_active fwd topk req e"
  shows "\<exists>outs e'. step_outputs (execute_diffusion_once fwd topk mem) e = Inr (outs, e') \<and>
    (outs = [] \<and> engine_active fwd topk req e' \<and> engine_work e' < engine_work e \<or>
     (\<exists>r. outs = [r] \<and> served fwd req r \<and> engine_idle e'))"
proof -
  from assms obtain s st where a: "forward_ok (mask_id (dr_params req)) (request_len req) fwd" "topk_ok topk" "servable req" "diffusion_scheduler e = Some s"
    "ready_scheduler s" "states s (dr_req_id req) = Some st" "working fwd req st"
    "waiting s = [req] \<and> running s = [] \<or> waiting s = [] \<and> running s = [dr_req_id req]"
    by (auto simp: engine_active_def)
  let ?s1 = "s\<lparr>waiting := [], running := [dr_req_id req]\<rparr>"
  note plan = schedule_single [OF a(5,6,8)]
  obtain up where up: "execute_diffusion_once fwd topk mem [step_request st] = Inr [up]"
    using execute_single [OF working_step_request [OF a(3,7)] _ a(2), of fwd] a(1) working_params [OF a(7)] working_len [OF a(7)] by metis
  note adv = working_advance [OF a(7,3,1,2) up]
  have st_id: "st_req_id st = up_req_id up" using a(7) adv(1) by (simp add: working_def)
  have states1: "states ?s1 (up_req_id up) = Some st" using a(6) adv(1) by simp
  define s2 where "s2 = ?s1\<lparr>states := (states s)(up_req_id up \<mapsto> advance up st),
        running := if finishes (advance up st) then [] else [dr_req_id req],
        finished_req_ids := (if finishes (advance up st) then {up_req_id up} else {}) \<union> finished_req_ids s\<rparr>"
  then have s2: "apply_updates_and_collect_finished [up] ?s1 =
      (if finishes (advance up st) then [finished_item (advance up st)] else [], s2)"
    using apply_update_known [OF states1 st_id, of "[]"] adv(1)
    by (cases "finishes (advance up st)") (simp_all add: apply_updates_and_collect_finished_def)
  note s2 = s2 s2_def
  let ?e2 = "e\<lparr>diffusion_scheduler := Some s2, diffusion_warmed_up := True\<rparr>"
  have "has_local_requests e" using a(4,8) by (auto simp: has_local_requests_def has_active_requests_def)
  then have step: "step_outputs (execute_diffusion_once fwd topk mem) e =
      Inr (if finishes (advance up st) then [engine_output (finished_item (advance up st))] else [], ?e2)"
    using a(4) plan(1) worker_execute_ok [of "execute_diffusion_once fwd topk mem", OF up] s2(1) by (simp add: step_outputs_def engine_step_def)
  have "update_ok ?s1 up" using states1 adv(1,2) by (simp add: update_ok_def)
  then have "sched_inv s2"
    using apply_updates_inv [of ?s1 "[up]" "[]"] plan(2) s2(1)
    by (simp add: ready_scheduler_def apply_updates_and_collect_finished_def)
  then have ready: "ready_scheduler s2"
    using plan(2) s2(2) by (simp add: ready_scheduler_def pool_ready_def)
  show ?thesis
  proof (cases "finishes (advance up st)")
    case True
    then have "engine_idle ?e2" using ready s2(2) by (simp add: engine_idle_def)
    then show ?thesis using step True adv(4) by simp
  next
    case False
    have st2: "states s2 (dr_req_id req) = Some (advance up st)" "waiting s2 = []" "running s2 = [dr_req_id req]"
      using s2(2) False adv(1) by simp_all
    then have "engine_active fwd topk req ?e2"
      using a(1-3) ready adv(3) [OF False] by (auto simp: engine_active_def)
    moreover have "engine_work ?e2 < engine_work e"
    proof -
      have "0 < remaining (advance up st)"
        using adv(3) [OF False] by (intro remaining_in_progress(2)) (simp add: working_def)
      then show ?thesis
        using engine_work_single [of ?e2 s2 req "advance up st"] engine_work_single [OF a(4,6,8)] st2 adv(3) [OF False]
        by simp
    qed
    ultimately show ?thesis using step False by simp
  qed
qed

interpretation engine: job_service "step_outputs (execute_diffusion_once fwd topk mem)" engine_idle
  "engine_active fwd topk" engine_work "served fwd" for fwd topk mem
  by unfold_locales (use engine_step_idle engine_step_active in auto)

section \<open>Properties\<close>

lemma engine_add_active:
  assumes "engine_idle e" "servable (diffusion_request req)" "pooling_task req = None"
    "forward_ok (mask_id (diffusion_params req)) (request_len (diffusion_request req)) fwd" "topk_ok topk" "engine_add_request req e = Inr e1"
  shows "engine_active fwd topk (diffusion_request req) e1"
    "engine_work e1 = nat (steps (diffusion_params req)) - 1"
proof -
  let ?r = "diffusion_request req"
  from assms(1) obtain s where s: "diffusion_scheduler e = Some s" "ready_scheduler s" "waiting s = []" "running s = []"
    by (auto simp: engine_idle_def)
  have valid: "valid_params (dr_params ?r)" using assms(2) by (simp add: servable_def)
  have e1: "e1 = e\<lparr>diffusion_scheduler := Some (add_request ?r s)\<rparr>"
    using assms(3,6) s(1) by (simp add: engine_add_request_def)
  have "sched_inv (add_request ?r s)" using s valid by (intro sched_inv_add) (auto simp: ready_scheduler_def)
  then have "ready_scheduler (add_request ?r s)"
    using s(2) by (simp add: ready_scheduler_def pool_ready_def add_request_def)
  moreover have add: "states (add_request ?r s) (dr_req_id ?r) = Some (initial_state ?r)"
    "waiting (add_request ?r s) = [?r] \<and> running (add_request ?r s) = []"
    using s by (simp_all add: add_request_def fcfs_add_request_def)
  ultimately show "engine_active fwd topk ?r e1"
    using assms(2,4,5) working_initial e1 by (auto simp: engine_active_def diffusion_request_def)
  show "engine_work e1 = nat (steps (diffusion_params req)) - 1"
    using engine_work_single [of e1 "add_request ?r s" ?r "initial_state ?r"] add e1 remaining_initial [OF valid]
    by (simp add: diffusion_request_def)
qed

lemma engine_serves:
  assumes "engine_idle e" "topk_ok topk"
    "\<forall>req \<in> set reqs. servable (diffusion_request req) \<and> pooling_task req = None \<and>
       forward_ok (mask_id (diffusion_params req)) (request_len (diffusion_request req)) fwd"
  shows "\<exists>outs e'. serve_all (execute_diffusion_once fwd topk mem) reqs e = Inr (outs, e') \<and> engine_idle e' \<and>
    list_all2 (\<lambda>req out. served fwd (diffusion_request req) out) reqs outs"
  using assms
proof (induction reqs arbitrary: e)
  case (Cons req reqs)
  have r: "servable (diffusion_request req)" "pooling_task req = None" "forward_ok (mask_id (diffusion_params req)) (request_len (diffusion_request req)) fwd"
    using Cons.prems(3) by simp_all
  obtain e1 where e1: "engine_add_request req e = Inr e1"
    using Cons.prems(1) r(2) by (auto simp: engine_add_request_def engine_idle_def)
  note act = engine_add_active [OF Cons.prems(1) r Cons.prems(2) e1]
  have "0 < steps (diffusion_params req)" using r(1) by (simp add: servable_def valid_params_def diffusion_request_def)
  then have "engine_work e1 < nat (steps (diffusion_params req))" using act(2) by simp
  from engine.run_active [OF act(1) this, of mem] obtain out e2 where
    run: "run_loop (step_outputs (execute_diffusion_once fwd topk mem)) (nat (steps (diffusion_params req))) e1 = Inr ([out], e2)"
    and out: "served fwd (diffusion_request req) out" "engine_idle e2" by blast
  from Cons.IH [OF out(2) Cons.prems(2)] Cons.prems(3) obtain outs e3 where
    "serve_all (execute_diffusion_once fwd topk mem) reqs e2 = Inr (outs, e3)" "engine_idle e3"
    "list_all2 (\<lambda>req out. served fwd (diffusion_request req) out) reqs outs" by auto
  then show ?case using e1 run out(1) by simp
qed simp

text \<open>Property C3. A servable request submitted to an idle engine is answered: within as many engine
  steps as it has denoising steps the engine returns exactly one output, for this request, with
  gen_length tokens, and is idle again. None of the tokens is the mask if the model never predicts
  it. Submitting a list of requests one after the other returns their outputs in order.\<close>

theorem requests_served_in_order:
  assumes "engine_idle e" "topk_ok topk"
    "\<forall>req \<in> set reqs. servable (diffusion_request req) \<and> pooling_task req = None \<and>
       forward_ok (mask_id (diffusion_params req)) (request_len (diffusion_request req)) fwd"
  shows "\<exists>outs e'. serve_all (execute_diffusion_once fwd topk mem) reqs e = Inr (outs, e') \<and> engine_idle e' \<and>
    list_all2 (\<lambda>req out. served fwd (diffusion_request req) out) reqs outs"
  using engine_serves [OF assms] .

definition demo_engine :: engine where
  "demo_engine = \<lparr>diffusion_scheduler = Some (set_model_runner demo_runner (DiffusionScheduler 999)),
     diffusion_warmed_up = False, supported_pooling_tasks = []\<rparr>"

definition demo_engine_request :: engine_request where
  "demo_engine_request = \<lparr>er_request_id = ''a'', prompt_token_ids = [7, 8],
     sampling_params = Some \<lparr>sp_steps = 4, sp_gen_length = 4, sp_block_length = 2, sp_temperature = 0,
       sp_cfg_scale = 0, sp_remasking = ''low_confidence'', sp_mask_id = 9, sp_prompt_length = None,
       sp_output_length = None\<rparr>, pooling_task = None\<rparr>"

lemma demo_engine_idle: "engine_idle demo_engine"
  using sched_inv_init by (auto simp: engine_idle_def demo_engine_def ready_scheduler_def pool_ready_def
      set_model_runner_def DiffusionScheduler_def demo_runner_def sched_inv_def)

lemma demo_engine_request_servable: "servable (diffusion_request demo_engine_request)"
  by (simp add: servable_def diffusion_request_def diffusion_params_def demo_engine_request_def valid_params_def Let_def)

theorem requests_served_in_order_witness:
  "\<exists>out e'. serve_all (execute_diffusion_once demo_forward demo_topk (\<lambda>_. 0)) [demo_engine_request] demo_engine =
     Inr ([out], e') \<and> length (new_token_ids out) = 4 \<and> 9 \<notin> set (new_token_ids out)"
proof -
  have "\<forall>req \<in> set [demo_engine_request]. servable (diffusion_request req) \<and> pooling_task req = None \<and>
      forward_ok (mask_id (diffusion_params req)) (request_len (diffusion_request req)) demo_forward"
    using demo_engine_request_servable demo_forward_ok(1) by (simp add: demo_engine_request_def)
  from requests_served_in_order [OF demo_engine_idle demo_topk_ok this, of "\<lambda>_. 0"]
  obtain out e' where o: "serve_all (execute_diffusion_once demo_forward demo_topk (\<lambda>_. 0)) [demo_engine_request] demo_engine =
      Inr ([out], e')" "served demo_forward (diffusion_request demo_engine_request) out"
    by (auto simp: list_all2_Cons1)
  moreover have "gen_length (dr_params (diffusion_request demo_engine_request)) = 4"
    "mask_id (dr_params (diffusion_request demo_engine_request)) = 9"
    by (simp_all add: diffusion_request_def diffusion_params_def demo_engine_request_def Let_def)
  ultimately show ?thesis using demo_forward_ok(2) [of 9] by (auto simp: served_def)
qed

end
