(* ===== verification/Gather_Gemm.thy ===== *)
theory Gather_Gemm
  imports Mosaic_Prelude Complex_Main
begin

text \<open>
  The fused gather and matrix multiplication of \<^verbatim>\<open>gather_gemm/gather_gemm_kernel.py\<close>. The Triton
  kernel is modelled program by program: the mapping from a program id to a tile of the output with
  its grouped ordering, the masked loads along the inner dimension, and the masked store. Tensors are
  memories addressed through strides; entries are exact rationals where the kernel accumulates in
  32-bit floating point, and addresses are unbounded. The main property is that launching the grid in
  any order writes exactly the gathered product and touches nothing else.
\<close>

section \<open>The kernel\<close>

record gemm_args =
  ga_x :: "nat \<Rightarrow> rat"
  ga_w :: "nat \<Rightarrow> rat"
  ga_indices :: "nat \<Rightarrow> nat"
  ga_M :: nat
  ga_N :: nat
  ga_K :: nat
  stride_xm :: nat
  stride_xk :: nat
  stride_wk :: nat
  stride_wn :: nat
  stride_om :: nat
  stride_on :: nat

record gemm_config =
  BLOCK_SIZE_M :: nat
  BLOCK_SIZE_N :: nat
  BLOCK_SIZE_K :: nat
  GROUP_SIZE_M :: nat

definition cdiv :: "nat \<Rightarrow> nat \<Rightarrow> nat" where
  "cdiv a b = (a + b - 1) div b"

text \<open>The autotuned configurations.\<close>

definition autotune_configs :: "gemm_config list" where
  "autotune_configs =
     [\<lparr>BLOCK_SIZE_M = 128, BLOCK_SIZE_N = 128, BLOCK_SIZE_K = 64, GROUP_SIZE_M = 8\<rparr>,
      \<lparr>BLOCK_SIZE_M = 128, BLOCK_SIZE_N = 256, BLOCK_SIZE_K = 64, GROUP_SIZE_M = 8\<rparr>,
      \<lparr>BLOCK_SIZE_M = 256, BLOCK_SIZE_N = 128, BLOCK_SIZE_K = 64, GROUP_SIZE_M = 8\<rparr>,
      \<lparr>BLOCK_SIZE_M = 128, BLOCK_SIZE_N = 128, BLOCK_SIZE_K = 32, GROUP_SIZE_M = 8\<rparr>,
      \<lparr>BLOCK_SIZE_M = 64, BLOCK_SIZE_N = 256, BLOCK_SIZE_K = 32, GROUP_SIZE_M = 8\<rparr>]"

text \<open>From the program id to the tile.\<close>

definition program_tile :: "nat \<Rightarrow> nat \<Rightarrow> nat \<Rightarrow> nat \<Rightarrow> nat \<times> nat" where
  "program_tile num_pid_m num_pid_n group_size pid =
     (let num_pid_in_group = group_size * num_pid_n;
          group_id = pid div num_pid_in_group;
          first_pid_m = group_id * group_size;
          group_size_m = min (num_pid_m - first_pid_m) group_size
      in (first_pid_m + pid mod group_size_m, (pid div group_size_m) mod num_pid_n))"

text \<open>Masked loads of the two operand tiles in iteration \<open>k\<close> of the inner loop.\<close>

definition load_x :: "gemm_args \<Rightarrow> gemm_config \<Rightarrow> nat \<Rightarrow> nat \<Rightarrow> nat \<Rightarrow> nat \<Rightarrow> rat" where
  "load_x a c pid_m k r kk =
     (let offs_m = pid_m * BLOCK_SIZE_M c + r;
          row = (if offs_m < ga_M a then ga_indices a offs_m else 0)
      in if offs_m < ga_M a \<and> kk < ga_K a - k * BLOCK_SIZE_K c
         then ga_x a (row * stride_xm a + kk * stride_xk a + k * (BLOCK_SIZE_K c * stride_xk a)) else 0)"

definition load_w :: "gemm_args \<Rightarrow> gemm_config \<Rightarrow> nat \<Rightarrow> nat \<Rightarrow> nat \<Rightarrow> nat \<Rightarrow> rat" where
  "load_w a c pid_n k kk s =
     (let offs_n = pid_n * BLOCK_SIZE_N c + s
      in if kk < ga_K a - k * BLOCK_SIZE_K c \<and> offs_n < ga_N a
         then ga_w a (kk * stride_wk a + offs_n * stride_wn a + k * (BLOCK_SIZE_K c * stride_wk a)) else 0)"

definition tile_dot :: "nat \<Rightarrow> (nat \<Rightarrow> nat \<Rightarrow> rat) \<Rightarrow> (nat \<Rightarrow> nat \<Rightarrow> rat) \<Rightarrow> nat \<Rightarrow> nat \<Rightarrow> rat" where
  "tile_dot bk x w r s = (\<Sum>kk\<leftarrow>[0..<bk]. x r kk * w kk s)"

definition accumulator :: "gemm_args \<Rightarrow> gemm_config \<Rightarrow> nat \<Rightarrow> nat \<Rightarrow> nat \<Rightarrow> nat \<Rightarrow> rat" where
  "accumulator a c pid_m pid_n r s =
     fold (\<lambda>k acc. acc + tile_dot (BLOCK_SIZE_K c) (load_x a c pid_m k) (load_w a c pid_n k) r s)
       [0..<cdiv (ga_K a) (BLOCK_SIZE_K c)] 0"

definition out_addr :: "gemm_args \<Rightarrow> nat \<Rightarrow> nat \<Rightarrow> nat" where
  "out_addr a i j = stride_om a * i + stride_on a * j"

definition gather_matmul_kernel :: "gemm_args \<Rightarrow> gemm_config \<Rightarrow> nat \<Rightarrow> (nat \<Rightarrow> rat) \<Rightarrow> nat \<Rightarrow> rat" where
  "gather_matmul_kernel a c pid out =
     (let (pid_m, pid_n) = program_tile (cdiv (ga_M a) (BLOCK_SIZE_M c)) (cdiv (ga_N a) (BLOCK_SIZE_N c))
            (GROUP_SIZE_M c) pid
      in fold (\<lambda>(r, s) out.
             let offs_m = pid_m * BLOCK_SIZE_M c + r; offs_n = pid_n * BLOCK_SIZE_N c + s
             in if offs_m < ga_M a \<and> offs_n < ga_N a
                then out(out_addr a offs_m offs_n := accumulator a c pid_m pid_n r s) else out)
           (List.product [0..<BLOCK_SIZE_M c] [0..<BLOCK_SIZE_N c]) out)"

definition grid_size :: "gemm_args \<Rightarrow> gemm_config \<Rightarrow> nat" where
  "grid_size a c = cdiv (ga_M a) (BLOCK_SIZE_M c) * cdiv (ga_N a) (BLOCK_SIZE_N c)"

text \<open>The programs of a launch run in some order.\<close>

definition launch :: "gemm_args \<Rightarrow> gemm_config \<Rightarrow> nat list \<Rightarrow> (nat \<Rightarrow> rat) \<Rightarrow> nat \<Rightarrow> rat" where
  "launch a c order out = fold (gather_matmul_kernel a c) order out"

section \<open>The wrapper\<close>

datatype dtype = Float16 | BFloat16 | Float32 | Int32 | Int64

record tensor =
  t_shape :: "nat list"
  t_stride :: "nat list"
  t_dtype :: dtype
  t_is_cuda :: bool

text \<open>The checks of \<^verbatim>\<open>gather_gemm\<close>, then the launch with the strides of the tensors. The weight is
  unpacked as (Hidden, Vocab).\<close>

definition gather_gemm ::
  "gemm_config \<Rightarrow> nat list \<Rightarrow> tensor \<Rightarrow> (nat \<Rightarrow> rat) \<Rightarrow> tensor \<Rightarrow> (nat \<Rightarrow> nat) \<Rightarrow> tensor \<Rightarrow> (nat \<Rightarrow> rat) \<Rightarrow>
     tensor \<Rightarrow> (nat \<Rightarrow> rat) \<Rightarrow> (nat \<Rightarrow> rat) result" where
  "gather_gemm config order x x_mem indices indices_mem weight weight_mem out out_mem =
     (case t_shape indices of
        [] \<Rightarrow> Inl IndexError
      | m # _ \<Rightarrow>
          (case t_shape weight of
             [hidden, vocab] \<Rightarrow>
               if length (t_shape x) < 2 then Inl IndexError
               else if t_shape x ! 1 \<noteq> hidden then Inl AssertionError
               else if t_shape out \<noteq> [m, vocab] then Inl AssertionError
               else if t_dtype x \<notin> {Float16, BFloat16} then Inl AssertionError
               else if t_dtype weight \<notin> {Float16, BFloat16} then Inl AssertionError
               else if t_dtype out \<notin> {Float16, BFloat16} then Inl AssertionError
               else if \<not> (t_dtype x = t_dtype weight \<and> t_dtype weight = t_dtype out) then Inl AssertionError
               else if \<not> (t_is_cuda x \<and> t_is_cuda weight \<and> t_is_cuda indices \<and> t_is_cuda out) then Inl AssertionError
               else Inr (launch
                 \<lparr>ga_x = x_mem, ga_w = weight_mem, ga_indices = indices_mem, ga_M = m, ga_N = vocab, ga_K = hidden,
                  stride_xm = t_stride x ! 0, stride_xk = t_stride x ! 1,
                  stride_wk = t_stride weight ! 0, stride_wn = t_stride weight ! 1,
                  stride_om = t_stride out ! 0, stride_on = t_stride out ! 1\<rparr> config order out_mem)
           | _ \<Rightarrow> Inl ValueError))"

text \<open>\<^verbatim>\<open>warmup_gather_gemm\<close>: the dummy weight it builds has the shape (vocab, hidden). \<open>contents\<close> is
  what the freshly created tensors hold.\<close>

definition fresh_tensor :: "nat list \<Rightarrow> nat list \<Rightarrow> dtype \<Rightarrow> tensor" where
  "fresh_tensor shape stride dt = \<lparr>t_shape = shape, t_stride = stride, t_dtype = dt, t_is_cuda = True\<rparr>"

definition warmup_gather_gemm ::
  "gemm_config \<Rightarrow> (nat \<Rightarrow> nat list) \<Rightarrow> (nat \<Rightarrow> rat) \<Rightarrow> (nat \<Rightarrow> nat) \<Rightarrow> nat \<Rightarrow> nat \<Rightarrow> nat list \<Rightarrow> unit result" where
  "warmup_gather_gemm config order contents index_contents hidden_size vocab_size warmup_sizes =
     (if warmup_sizes = [] then Inl ValueError
      else let total_len = Max (set warmup_sizes) * 2
           in foldM (\<lambda>m _.
                bind_res (gather_gemm config (order m)
                  (fresh_tensor [total_len, hidden_size] [hidden_size, 1] Float16) contents
                  (fresh_tensor [m] [1] Int32) index_contents
                  (fresh_tensor [vocab_size, hidden_size] [hidden_size, 1] Float16) contents
                  (fresh_tensor [m, vocab_size] [vocab_size, 1] Float16) contents) (\<lambda>_. Inr ()))
              warmup_sizes ())"


section \<open>The tiles of the grid\<close>

lemma cdiv_covers: "0 < b \<Longrightarrow> a \<le> cdiv a b * b"
proof -
  assume b: "0 < b"
  have "(a + b - 1) mod b < b" using b by simp
  moreover have "cdiv a b * b + (a + b - 1) mod b = a + b - 1" by (simp add: cdiv_def)
  ultimately show ?thesis using b by linarith
qed

lemma cdiv_tile: "0 < b \<Longrightarrow> i < a \<Longrightarrow> i div b < cdiv a b"
  using cdiv_covers [of b a] by (simp add: less_mult_imp_div_less)

text \<open>The group of a program, and its place inside the group.\<close>

lemma program_group:
  fixes pid m n G :: nat
  assumes "0 < G" "pid < m * n"
  defines "g \<equiv> pid div (G * n)"
  defines "gs \<equiv> min (m - g * G) G"
  shows "g * G < m" "0 < gs" "g * G + gs \<le> m" "g * G * n \<le> pid" "pid < g * G * n + gs * n" "0 < n"
proof -
  show n: "0 < n" using assms(2) by (cases n) auto
  have dm: "g * (G * n) + pid mod (G * n) = pid" unfolding g_def by (rule div_mult_mod_eq)
  then show le: "g * G * n \<le> pid" by (metis le_add1 mult.assoc)
  then have "g * G * n < m * n" using assms(2) by linarith
  then show gm: "g * G < m" using n by simp
  then show "0 < gs" "g * G + gs \<le> m" using assms(1) by (auto simp: gs_def)
  have "pid mod (G * n) < G * n" using assms(1) n by simp
  then have "pid < g * G * n + G * n" using dm by (metis add_less_cancel_left mult.assoc)
  moreover have "pid < g * G * n + (m - g * G) * n"
    using assms(2) gm by (simp add: diff_mult_distrib)
  ultimately show "pid < g * G * n + gs * n" by (auto simp: gs_def min_def)
qed

lemma program_tile_bounds:
  assumes "0 < G" "pid < m * n" "program_tile m n G pid = (i, j)"
  shows "i < m" "j < n" "i div G = pid div (G * n)"
proof -
  define g where "g = pid div (G * n)"
  define gs where "gs = min (m - g * G) G"
  note grp = program_group [OF assms(1,2), folded g_def, folded gs_def]
  have i: "i = g * G + pid mod gs" and j: "j = (pid div gs) mod n"
    using assms(3) by (simp_all add: program_tile_def Let_def g_def gs_def)
  have "pid mod gs < gs" using grp(2) by simp
  moreover have "gs \<le> G" by (simp add: gs_def)
  ultimately have "pid mod gs < G" "g * G + pid mod gs < m" using grp(3) by linarith+
  then show "i < m" "i div G = pid div (G * n)" using i assms(1) by (simp_all add: g_def)
  show "j < n" using j grp(6) by simp
qed

lemma mod_interval_eq:
  fixes a b l s :: nat
  assumes "s \<le> a" "a < s + l" "s \<le> b" "b < s + l" "a mod l = b mod l"
  shows "a = b"
  using assms
proof (induction a b rule: linorder_wlog)
  case (le a b)
  then have "l dvd b - a" using mod_eq_dvd_iff_nat [of a b l] by simp
  moreover have "b - a < l" using le by linarith
  ultimately show ?case using le(1) by (auto dest: dvd_imp_le)
qed simp

lemma program_tile_inj:
  assumes "0 < G"
  shows "inj_on (program_tile m n G) {..<m * n}"
proof (rule inj_onI)
  fix p q assume pq: "p \<in> {..<m * n}" "q \<in> {..<m * n}" "program_tile m n G p = program_tile m n G q"
  obtain i j where ij: "program_tile m n G p = (i, j)" "program_tile m n G q = (i, j)"
    using pq(3) by (metis surj_pair)
  have g: "q div (G * n) = p div (G * n)"
    using program_tile_bounds(3) [OF assms _ ij(1)] program_tile_bounds(3) [OF assms _ ij(2)] pq by simp
  define g where "g = p div (G * n)"
  define gs where "gs = min (m - g * G) G"
  have p: "g * G * n \<le> p" "p < g * G * n + gs * n" and q: "g * G * n \<le> q" "q < g * G * n + gs * n"
    using program_group [OF assms, of p m n] program_group [OF assms, of q m n] pq(1,2) g
    by (simp_all add: g_def gs_def)
  have "p mod gs = q mod gs" "(p div gs) mod n = (q div gs) mod n"
    using ij g by (simp_all add: program_tile_def Let_def g_def gs_def)
  then have "p mod (gs * n) = q mod (gs * n)" by (simp add: mod_mult2_eq)
  then show "p = q" using mod_interval_eq p q by blast
qed

lemma program_tile_bij:
  assumes "0 < G"
  shows "bij_betw (program_tile m n G) {..<m * n} ({..<m} \<times> {..<n})"
proof -
  have "program_tile m n G ` {..<m * n} \<subseteq> {..<m} \<times> {..<n}"
  proof
    fix t assume "t \<in> program_tile m n G ` {..<m * n}"
    then obtain pid where pid: "pid < m * n" "t = program_tile m n G pid" by auto
    obtain i j where "program_tile m n G pid = (i, j)" by (metis surj_pair)
    then show "t \<in> {..<m} \<times> {..<n}" using program_tile_bounds(1,2) [OF assms pid(1)] pid(2) by auto
  qed
  moreover have "card (program_tile m n G ` {..<m * n}) = card ({..<m} \<times> {..<n})"
    using card_image [OF program_tile_inj [OF assms]] by (simp add: card_cartesian_product)
  ultimately have "program_tile m n G ` {..<m * n} = {..<m} \<times> {..<n}"
    by (intro card_subset_eq) auto
  then show ?thesis using program_tile_inj [OF assms] by (simp add: bij_betw_def)
qed

section \<open>The accumulated sum\<close>

definition gathered_product :: "gemm_args \<Rightarrow> nat \<Rightarrow> nat \<Rightarrow> rat" where
  "gathered_product a i j =
     (\<Sum>k<ga_K a. ga_x a (ga_indices a i * stride_xm a + k * stride_xk a) * ga_w a (k * stride_wk a + j * stride_wn a))"

lemma fold_plus_sum: "fold (\<lambda>k acc. acc + f k) [0..<n] (s::rat) = s + (\<Sum>k<n. f k)"
  by (induction n) (simp_all add: algebra_simps)

lemma sum_interval_shift: "sum f {l..<l + n} = (\<Sum>k<n. f (l + k))" for l n :: nat and f :: "nat \<Rightarrow> rat"
  by (induction n) simp_all

lemma accumulator_product:
  assumes "0 < BLOCK_SIZE_K c" "pm * BLOCK_SIZE_M c + r < ga_M a" "pn * BLOCK_SIZE_N c + s < ga_N a"
  shows "accumulator a c pm pn r s = gathered_product a (pm * BLOCK_SIZE_M c + r) (pn * BLOCK_SIZE_N c + s)"
proof -
  let ?b = "BLOCK_SIZE_K c" and ?K = "ga_K a" and ?i = "pm * BLOCK_SIZE_M c + r" and ?j = "pn * BLOCK_SIZE_N c + s"
  let ?n = "cdiv ?K ?b"
  define h where "h k = ga_x a (ga_indices a ?i * stride_xm a + k * stride_xk a) * ga_w a (k * stride_wk a + ?j * stride_wn a)" for k
  have tile: "tile_dot ?b (load_x a c pm k) (load_w a c pn k) r s = (\<Sum>kk<?b. if k * ?b + kk < ?K then h (k * ?b + kk) else 0)" for k
  proof -
    have "load_x a c pm k r kk * load_w a c pn k kk s = (if k * ?b + kk < ?K then h (k * ?b + kk) else 0)" for kk
      using assms(2,3) by (auto simp: load_x_def load_w_def Let_def h_def algebra_simps)
    then show ?thesis by (simp add: tile_dot_def interv_sum_list_conv_sum_set_nat atLeast0LessThan)
  qed
  have "accumulator a c pm pn r s = (\<Sum>k<?n. \<Sum>kk<?b. if k * ?b + kk < ?K then h (k * ?b + kk) else 0)"
    unfolding accumulator_def tile fold_plus_sum by simp
  also have "\<dots> = (\<Sum>k<?n. sum (\<lambda>t. if t < ?K then h t else 0) {k * ?b..<k * ?b + ?b})"
    by (simp add: sum_interval_shift)
  also have "\<dots> = (\<Sum>t<?n * ?b. if t < ?K then h t else 0)" by (rule sum.nat_group)
  also have "\<dots> = (\<Sum>t<?K. h t)"
    using cdiv_covers [OF assms(1), of ?K] by (intro sum.mono_neutral_cong_right) auto
  finally show ?thesis by (simp add: gathered_product_def h_def)
qed


section \<open>What a program writes\<close>

lemma fold_updates:
  "fold (\<lambda>x f. if P x then f(A x := V x) else f) xs f q =
     (if \<exists>x \<in> set xs. P x \<and> A x = q then V (last (filter (\<lambda>x. P x \<and> A x = q) xs)) else f q)"
proof (induction xs arbitrary: f rule: rev_induct)
  case (snoc x xs)
  then show ?case by (auto simp: fun_upd_def)
qed simp

text \<open>Different cells of the output have different addresses.\<close>

definition out_injective :: "gemm_args \<Rightarrow> bool" where
  "out_injective a \<longleftrightarrow> inj_on (\<lambda>(i, j). out_addr a i j) ({..<ga_M a} \<times> {..<ga_N a})"

definition tile_cells :: "gemm_args \<Rightarrow> gemm_config \<Rightarrow> nat \<Rightarrow> (nat \<times> nat) set" where
  "tile_cells a c pid =
     {(i, j). i < ga_M a \<and> j < ga_N a \<and>
        program_tile (cdiv (ga_M a) (BLOCK_SIZE_M c)) (cdiv (ga_N a) (BLOCK_SIZE_N c)) (GROUP_SIZE_M c) pid =
          (i div BLOCK_SIZE_M c, j div BLOCK_SIZE_N c)}"

definition config_ok :: "gemm_config \<Rightarrow> bool" where
  "config_ok c \<longleftrightarrow> 0 < BLOCK_SIZE_M c \<and> 0 < BLOCK_SIZE_N c \<and> 0 < BLOCK_SIZE_K c \<and> 0 < GROUP_SIZE_M c"

lemma kernel_effect:
  assumes c: "config_ok c" and inj: "out_injective a"
  shows "gather_matmul_kernel a c pid out q =
    (if \<exists>(i, j) \<in> tile_cells a c pid. q = out_addr a i j
     then (let (i, j) = (THE (i, j). (i, j) \<in> {..<ga_M a} \<times> {..<ga_N a} \<and> q = out_addr a i j) in gathered_product a i j)
     else out q)"
proof -
  obtain pm pn where tile: "program_tile (cdiv (ga_M a) (BLOCK_SIZE_M c)) (cdiv (ga_N a) (BLOCK_SIZE_N c)) (GROUP_SIZE_M c) pid = (pm, pn)"
    by (metis surj_pair)
  let ?bm = "BLOCK_SIZE_M c" and ?bn = "BLOCK_SIZE_N c"
  let ?P = "\<lambda>(r, s). pm * ?bm + r < ga_M a \<and> pn * ?bn + s < ga_N a"
  let ?A = "\<lambda>(r, s). out_addr a (pm * ?bm + r) (pn * ?bn + s)"
  let ?V = "\<lambda>(r, s). accumulator a c pm pn r s"
  let ?xs = "List.product [0..<?bm] [0..<?bn]"
  have kern: "gather_matmul_kernel a c pid out q = fold (\<lambda>x f. if ?P x then f(?A x := ?V x) else f) ?xs out q"
    unfolding gather_matmul_kernel_def tile Let_def prod.case
    by (rule arg_cong [where f = "\<lambda>g. fold g ?xs out q"]) (auto simp: fun_eq_iff)
  have ex: "(\<exists>x \<in> set ?xs. ?P x \<and> ?A x = q) \<longleftrightarrow> (\<exists>(i, j) \<in> tile_cells a c pid. q = out_addr a i j)"
  proof
    assume "\<exists>x \<in> set ?xs. ?P x \<and> ?A x = q"
    then obtain r s where "r < ?bm" "s < ?bn" "pm * ?bm + r < ga_M a" "pn * ?bn + s < ga_N a"
      "out_addr a (pm * ?bm + r) (pn * ?bn + s) = q" by auto
    then show "\<exists>(i, j) \<in> tile_cells a c pid. q = out_addr a i j"
      using tile by (intro bexI [of _ "(pm * ?bm + r, pn * ?bn + s)"]) (auto simp: tile_cells_def)
  next
    assume "\<exists>(i, j) \<in> tile_cells a c pid. q = out_addr a i j"
    then obtain i j where ij: "i < ga_M a" "j < ga_N a" "pm = i div ?bm" "pn = j div ?bn" "q = out_addr a i j"
      using tile by (auto simp: tile_cells_def)
    then show "\<exists>x \<in> set ?xs. ?P x \<and> ?A x = q"
      using c by (intro bexI [of _ "(i mod ?bm, j mod ?bn)"]) (auto simp: config_ok_def)
  qed
  show ?thesis
  proof (cases "\<exists>x \<in> set ?xs. ?P x \<and> ?A x = q")
    case True
    define l where "l = last (filter (\<lambda>x. ?P x \<and> ?A x = q) ?xs)"
    have "l \<in> set (filter (\<lambda>x. ?P x \<and> ?A x = q) ?xs)"
      unfolding l_def using True by (intro last_in_set) (auto simp: filter_empty_conv)
    moreover obtain r s where rs: "l = (r, s)" by (metis surj_pair)
    ultimately have l: "l = (r, s)" "pm * ?bm + r < ga_M a" "pn * ?bn + s < ga_N a"
      "out_addr a (pm * ?bm + r) (pn * ?bn + s) = q" by auto
    have "(THE (i, j). (i, j) \<in> {..<ga_M a} \<times> {..<ga_N a} \<and> q = out_addr a i j) = (pm * ?bm + r, pn * ?bn + s)"
      using inj l by (intro the_equality) (auto simp: out_injective_def inj_on_def)
    moreover have "?V l = gathered_product a (pm * ?bm + r) (pn * ?bn + s)"
      using accumulator_product l c by (simp add: config_ok_def)
    ultimately show ?thesis
      using True ex kern fold_updates [of ?P ?A ?V ?xs out q] by (simp add: l_def)
  next
    case False
    then have "\<not> (\<exists>(i, j) \<in> tile_cells a c pid. q = out_addr a i j)" unfolding ex .
    then show ?thesis unfolding kern fold_updates if_not_P [OF False] by (rule if_not_P [symmetric])
  qed
qed


definition written :: "gemm_args \<Rightarrow> nat \<Rightarrow> rat" where
  "written a q = (let (i, j) = (THE (i, j). (i, j) \<in> {..<ga_M a} \<times> {..<ga_N a} \<and> q = out_addr a i j) in gathered_product a i j)"

lemma written_addr:
  assumes "out_injective a" "i < ga_M a" "j < ga_N a"
  shows "written a (out_addr a i j) = gathered_product a i j"
proof -
  have "(THE (i', j'). (i', j') \<in> {..<ga_M a} \<times> {..<ga_N a} \<and> out_addr a i j = out_addr a i' j') = (i, j)"
    using assms by (intro the_equality) (auto simp: out_injective_def inj_on_def)
  then show ?thesis by (simp add: written_def)
qed

lemma launch_effect:
  assumes "config_ok c" "out_injective a"
  shows "launch a c order out q =
    (if \<exists>pid \<in> set order. \<exists>(i, j) \<in> tile_cells a c pid. q = out_addr a i j then written a q else out q)"
proof (induction order rule: rev_induct)
  case (snoc pid order)
  then show ?case
    using kernel_effect [OF assms, of pid "launch a c order out" q] by (auto simp: launch_def written_def)
qed (simp add: launch_def)

lemma tile_cells_cover:
  assumes "config_ok c" "i < ga_M a" "j < ga_N a"
  shows "\<exists>!pid. pid < grid_size a c \<and> (i, j) \<in> tile_cells a c pid"
proof -
  let ?m = "cdiv (ga_M a) (BLOCK_SIZE_M c)" and ?n = "cdiv (ga_N a) (BLOCK_SIZE_N c)" and ?G = "GROUP_SIZE_M c"
  have G: "0 < ?G" using assms(1) by (simp add: config_ok_def)
  have "(i div BLOCK_SIZE_M c, j div BLOCK_SIZE_N c) \<in> {..<?m} \<times> {..<?n}"
    using assms cdiv_tile by (auto simp: config_ok_def)
  then have "(i div BLOCK_SIZE_M c, j div BLOCK_SIZE_N c) \<in> program_tile ?m ?n ?G ` {..<?m * ?n}"
    using program_tile_bij [OF G, of ?m ?n] by (simp add: bij_betw_def)
  then obtain pid where pid: "pid < ?m * ?n" "program_tile ?m ?n ?G pid = (i div BLOCK_SIZE_M c, j div BLOCK_SIZE_N c)"
    by (metis imageE lessThan_iff)
  show ?thesis
  proof (rule ex1I [of _ pid])
    show "pid < grid_size a c \<and> (i, j) \<in> tile_cells a c pid"
      using pid assms(2,3) by (simp add: grid_size_def tile_cells_def)
    fix pid' assume "pid' < grid_size a c \<and> (i, j) \<in> tile_cells a c pid'"
    then show "pid' = pid"
      using pid inj_onD [OF program_tile_inj [OF G, of ?m ?n], of pid' pid]
      by (auto simp: grid_size_def tile_cells_def)
  qed
qed

lemma launch_cell:
  assumes "config_ok c" "out_injective a" "set order = {..<grid_size a c}" "i < ga_M a" "j < ga_N a"
  shows "launch a c order out (out_addr a i j) = gathered_product a i j"
proof -
  obtain pid where "pid < grid_size a c" "(i, j) \<in> tile_cells a c pid"
    using tile_cells_cover [OF assms(1,4,5)] by blast
  then show ?thesis
    using launch_effect [OF assms(1,2), of order out "out_addr a i j"] written_addr [OF assms(2,4,5)] assms(3)
    by (auto split: if_splits)
qed

section \<open>Properties\<close>


definition demo_gemm :: gemm_args where
  "demo_gemm = \<lparr>ga_x = of_nat, ga_w = of_nat, ga_indices = (\<lambda>i. 2 * i), ga_M = 3, ga_N = 5, ga_K = 2, stride_xm = 2,
     stride_xk = 1, stride_wk = 1, stride_wn = 2, stride_om = 5, stride_on = 1\<rparr>"

lemma contiguous_out_injective: "stride_om a = ga_N a \<Longrightarrow> stride_on a = 1 \<Longrightarrow> out_injective a"
proof -
  assume s: "stride_om a = ga_N a" "stride_on a = 1"
  show ?thesis
    unfolding out_injective_def
  proof (rule inj_onI)
    fix p q assume pq: "p \<in> {..<ga_M a} \<times> {..<ga_N a}" "q \<in> {..<ga_M a} \<times> {..<ga_N a}"
      "(case p of (i, j) \<Rightarrow> out_addr a i j) = (case q of (i, j) \<Rightarrow> out_addr a i j)"
    obtain i j i' j' where ij: "p = (i, j)" "q = (i', j')" by (metis surj_pair)
    then have j: "j < ga_N a" "j' < ga_N a" and eq: "ga_N a * i + j = ga_N a * i' + j'"
      using pq by (simp_all add: out_addr_def s)
    moreover have "(ga_N a * i + j) div ga_N a = i" "(ga_N a * i' + j') div ga_N a = i'" using j by simp_all
    ultimately have "i = i'" by simp
    then show "p = q" using eq ij by simp
  qed
qed


text \<open>The warm-up of the kernel never succeeds when the hidden size and the vocabulary
  size differ: the dummy weight it builds has the shape (vocab, hidden), while the wrapper unpacks
  the weight as (hidden, vocab), so its first call raises AssertionError.\<close>

theorem warmup_gather_gemm_raises:
  assumes "hidden_size \<noteq> vocab_size" "warmup_sizes \<noteq> []"
  shows "warmup_gather_gemm config order contents index_contents hidden_size vocab_size warmup_sizes = Inl AssertionError"
  using assms by (cases warmup_sizes) (simp_all add: warmup_gather_gemm_def gather_gemm_def fresh_tensor_def)

theorem warmup_gather_gemm_raises_witness:
  "warmup_gather_gemm (autotune_configs ! 0) (\<lambda>_. []) (\<lambda>_. 0) (\<lambda>_. 0) 4096 32000 [128, 512, 1024, 4096] = Inl AssertionError"
  by (rule warmup_gather_gemm_raises) simp_all

end
