(* ===== verification/Model_Forward.thy ===== *)
theory Model_Forward
  imports Engine_Core Gather_Gemm Block_Graphs
begin

text \<open>
  The forward passes of the models: \<^verbatim>\<open>vllm_add_llada/llada_model.py\<close> with the block of
  \<^verbatim>\<open>llada_blocks.py\<close>, \<^verbatim>\<open>vllm_add_dream/dream_model.py\<close> with the layer of \<^verbatim>\<open>dream_blocks.py\<close>, and
  the logits part of \<^verbatim>\<open>vllm_add_llada_moe/llada_moe_model.py\<close>. The point of these files is the
  chunk-wise computation: the feed-forward part and the logits are computed tile by tile in small
  buffers that every tile reuses. A matrix is a list of rows of exact numbers; the buffers are
  explicit and written in place. The kernels outside the repository (norms, attention, sampling) are
  parameters.

  Shown here: the chunk-wise computation gives what the whole one gives, for every number of chunks,
  whatever the buffers held before; and the modelled forward passes meet the contract \<open>forward_ok\<close>
  that the denoising step and the engine rely on, given the allocation contract \<open>alloc_ok\<close>.
\<close>

section \<open>Matrices and buffers\<close>

type_synonym row = "rat list"
type_synonym matrix = "row list"

definition dot :: "row \<Rightarrow> row \<Rightarrow> rat" where
  "dot r w = sum_list (map2 (*) r w)"

text \<open>\<^verbatim>\<open>torch.mm(x, w.t())\<close> for a weight with one row per output feature.\<close>

definition mm_t :: "matrix \<Rightarrow> matrix \<Rightarrow> matrix" where
  "mm_t x w = map (\<lambda>r. map (dot r) w) x"

definition mat_add :: "matrix \<Rightarrow> matrix \<Rightarrow> matrix" where
  "mat_add = map2 (map2 (+))"

definition mat_mul :: "matrix \<Rightarrow> matrix \<Rightarrow> matrix" where
  "mat_mul = map2 (map2 (*))"

text \<open>Writing into rows \<open>i\<close> to \<open>e\<close> of a buffer. A target of another height is an error here (the
  library would reallocate the view instead of writing into the pool).\<close>

definition out_slice :: "matrix \<Rightarrow> nat \<Rightarrow> nat \<Rightarrow> matrix \<Rightarrow> matrix result" where
  "out_slice buf i e rows =
     (if min e (length buf) - min i (length buf) = length rows
      then Inr (take i buf @ rows @ drop e buf) else Inl RuntimeError)"

definition rows_of :: "'a list \<Rightarrow> nat \<Rightarrow> nat \<Rightarrow> 'a list" where
  "rows_of x i e = take (e - i) (drop i x)"

text \<open>The loop over tiles: \<^verbatim>\<open>tile_size = (N + num_chunks - 1) // num_chunks\<close>, then
  \<^verbatim>\<open>range(0, N, tile_size)\<close>.\<close>

definition tile_loop :: "nat \<Rightarrow> nat \<Rightarrow> (nat \<Rightarrow> nat \<Rightarrow> 's \<Rightarrow> 's result) \<Rightarrow> 's \<Rightarrow> 's result" where
  "tile_loop n num_chunks body s =
     (if num_chunks = 0 then Inl ZeroDivisionError
      else let tile_size = (n + num_chunks - 1) div num_chunks
           in if tile_size = 0 then Inl ValueError
              else foldM (\<lambda>k. body (k * tile_size) (min (k * tile_size + tile_size) n))
                     [0..<(n + tile_size - 1) div tile_size] s)"

record chunk_strategy =
  cs_chunk_mlp :: bool
  cs_chunk_logits :: bool
  cs_num_chunks_mlp :: nat
  cs_num_chunks_logits :: nat

section \<open>The feed-forward part\<close>

record mlp_weights =
  ff_proj :: matrix
  up_proj :: matrix
  ff_out :: matrix

record mlp_buffers =
  mlp_x :: matrix
  mlp_x_up :: matrix
  mlp_gated :: matrix
  mlp_output :: matrix

definition mlp_tile ::
  "(rat \<Rightarrow> rat) \<Rightarrow> mlp_weights \<Rightarrow> matrix \<Rightarrow> nat \<Rightarrow> nat \<Rightarrow> mlp_buffers \<Rightarrow> mlp_buffers result" where
  "mlp_tile silu w x i e b =
     (let t = e - i
      in bind_res (out_slice (mlp_x b) 0 t (mm_t (rows_of x i e) (ff_proj w))) (\<lambda>gate.
         bind_res (out_slice (mlp_x_up b) 0 t (mm_t (rows_of x i e) (up_proj w))) (\<lambda>up.
         let gate' = map (map silu) (take t gate) @ drop t gate
         in bind_res (out_slice (mlp_gated b) 0 t (mat_mul (take t gate') (take t up))) (\<lambda>gated.
            bind_res (out_slice (mlp_output b) i e (mm_t (take t gated) (ff_out w))) (\<lambda>output.
              Inr \<lparr>mlp_x = gate', mlp_x_up = up, mlp_gated = gated, mlp_output = output\<rparr>)))))"

text \<open>The whole computation is the tile that covers all rows, into buffers of exactly that height.\<close>

definition gated_mlp ::
  "(rat \<Rightarrow> rat) \<Rightarrow> chunk_strategy option \<Rightarrow> mlp_weights \<Rightarrow> matrix \<Rightarrow> mlp_buffers \<Rightarrow> mlp_buffers result" where
  "gated_mlp silu strategy w x b =
     (case strategy of
        Some s \<Rightarrow>
          if cs_chunk_mlp s then tile_loop (length x) (cs_num_chunks_mlp s) (mlp_tile silu w x) b
          else if length (mlp_x b) = length x \<and> length (mlp_x_up b) = length x \<and>
                  length (mlp_gated b) = length x \<and> length (mlp_output b) = length x
               then mlp_tile silu w x 0 (length x) b else Inl RuntimeError
      | None \<Rightarrow>
          if length (mlp_x b) = length x \<and> length (mlp_x_up b) = length x \<and>
             length (mlp_gated b) = length x \<and> length (mlp_output b) = length x
          then mlp_tile silu w x 0 (length x) b else Inl RuntimeError)"

section \<open>The decoder layers\<close>

text \<open>Norms and attention kernels are functions on matrices; \<open>attention\<close> includes the rotary
  embedding and reads the forward context.\<close>

record decoder_layer =
  attn_norm :: "matrix \<Rightarrow> matrix"
  q_proj :: matrix
  k_proj :: matrix
  v_proj :: matrix
  q_bias :: "row option"
  k_bias :: "row option"
  v_bias :: "row option"
  attention :: "forward_context \<Rightarrow> matrix \<Rightarrow> matrix \<Rightarrow> matrix \<Rightarrow> matrix"
  o_proj :: matrix
  ff_norm :: "matrix \<Rightarrow> matrix \<Rightarrow> matrix \<times> matrix"
  layer_mlp :: mlp_weights

definition add_bias :: "row option \<Rightarrow> matrix \<Rightarrow> matrix" where
  "add_bias bias x = (case bias of None \<Rightarrow> x | Some b \<Rightarrow> map (\<lambda>r. map2 (+) r b) x)"

text \<open>The second half of a layer: fused residual and norm, feed-forward part, second residual.\<close>

definition finish_layer ::
  "(rat \<Rightarrow> rat) \<Rightarrow> chunk_strategy option \<Rightarrow> decoder_layer \<Rightarrow> matrix \<Rightarrow> matrix \<Rightarrow> mlp_buffers \<Rightarrow>
     (matrix \<times> mlp_buffers) result" where
  "finish_layer silu strategy l x att_out b =
     (let (x_normed_2, residual) = ff_norm l x att_out
      in bind_res (gated_mlp silu strategy (layer_mlp l) x_normed_2 b) (\<lambda>b'.
           Inr (mat_add residual (mlp_output b'), b')))"

definition llada_block ::
  "(rat \<Rightarrow> rat) \<Rightarrow> chunk_strategy option \<Rightarrow> forward_context \<Rightarrow> decoder_layer \<Rightarrow> matrix \<times> mlp_buffers \<Rightarrow>
     (matrix \<times> mlp_buffers) result" where
  "llada_block silu strategy ctx l = (\<lambda>(x, b).
     let x_normed = attn_norm l x;
         q = mm_t x_normed (q_proj l); k = mm_t x_normed (k_proj l); v = mm_t x_normed (v_proj l);
         att_out = mm_t (attention l ctx q k v) (o_proj l)
     in finish_layer silu strategy l x att_out b)"

definition dream_layer ::
  "(rat \<Rightarrow> rat) \<Rightarrow> chunk_strategy option \<Rightarrow> forward_context \<Rightarrow> decoder_layer \<Rightarrow> matrix \<times> mlp_buffers \<Rightarrow>
     (matrix \<times> mlp_buffers) result" where
  "dream_layer silu strategy ctx l = (\<lambda>(x, b).
     let x_normed = attn_norm l x;
         q = add_bias (q_bias l) (mm_t x_normed (q_proj l));
         k = add_bias (k_bias l) (mm_t x_normed (k_proj l));
         v = add_bias (v_bias l) (mm_t x_normed (v_proj l));
         att_out = mm_t (attention l ctx q k v) (o_proj l)
     in finish_layer silu strategy l x att_out b)"

section \<open>Logits and sampling\<close>

text \<open>\<^verbatim>\<open>gather_gemm\<close> on rows: the selected rows times the weight, into a target of exactly that height.
  The kernel itself is the subject of the theory on the fused kernel. An index outside the matrix is
  an error here (the kernel would read foreign memory).\<close>

definition gather_rows :: "matrix \<Rightarrow> nat list \<Rightarrow> matrix \<Rightarrow> nat \<Rightarrow> matrix result" where
  "gather_rows x idx w target_rows =
     (if target_rows \<noteq> length idx then Inl AssertionError
      else if \<exists>i \<in> set idx. length x \<le> i then Inl IndexError
      else Inr (mm_t (map (\<lambda>i. x ! i) idx) w))"

type_synonym sampler = "matrix \<Rightarrow> int list \<times> rat list"

definition logits_tile ::
  "sampler \<Rightarrow> matrix \<Rightarrow> matrix \<Rightarrow> nat list \<Rightarrow> nat \<Rightarrow> nat \<Rightarrow> matrix \<times> int list \<times> rat list \<Rightarrow>
     (matrix \<times> int list \<times> rat list) result" where
  "logits_tile sample w x_output mask_indices i e = (\<lambda>(logits, x0, x0_p).
     let t = e - i; tile = take t logits
     in bind_res (gather_rows x_output (rows_of mask_indices i e) w (length tile)) (\<lambda>rows.
          let (fused_indices, fused_probs) = sample rows
          in Inr (rows @ drop t logits, x0 @ fused_indices, x0_p @ fused_probs)))"

definition masked_logits ::
  "sampler \<Rightarrow> chunk_strategy option \<Rightarrow> matrix \<Rightarrow> matrix \<Rightarrow> nat list \<Rightarrow> matrix \<Rightarrow> (int list \<times> rat list) result" where
  "masked_logits sample strategy w x_output mask_indices logits =
     (if (case strategy of None \<Rightarrow> False | Some s \<Rightarrow> cs_chunk_logits s)
      then bind_res (tile_loop (length mask_indices) (cs_num_chunks_logits (the strategy))
             (logits_tile sample w x_output mask_indices) (logits, [], [])) (\<lambda>(_, x0, x0_p). Inr (x0, x0_p))
      else bind_res (gather_rows x_output mask_indices w (length logits)) (\<lambda>rows. Inr (sample rows)))"

section \<open>The forward passes\<close>

record model_weights =
  embedding :: "int \<Rightarrow> row"
  layers :: "decoder_layer list"
  final_norm :: "matrix \<Rightarrow> matrix"
  lm_head :: matrix
  silu :: "rat \<Rightarrow> rat"

text \<open>The tensors taken from the activation pool, with the chunk strategy the allocation stored in
  \<^verbatim>\<open>_current_chunk_strategy\<close>; \<open>None\<close> is the failed allocation, which the source goes on to
  subscript.\<close>

record pool_tensors =
  pt_x :: matrix
  pt_mlp :: mlp_buffers
  pt_logits :: matrix

type_synonym allocator = "int \<Rightarrow> int \<Rightarrow> (chunk_strategy option \<times> pool_tensors) option"

definition run_layers ::
  "(forward_context \<Rightarrow> decoder_layer \<Rightarrow> matrix \<times> mlp_buffers \<Rightarrow> (matrix \<times> mlp_buffers) result) \<Rightarrow>
     model_weights \<Rightarrow> int list \<Rightarrow> forward_context \<Rightarrow> pool_tensors \<Rightarrow> matrix result" where
  "run_layers layer m input_ids ctx tensors =
     (if length (pt_x tensors) \<noteq> length input_ids then Inl RuntimeError
      else bind_res (foldM (layer ctx) (layers m) (map (embedding m) input_ids, pt_mlp tensors)) (\<lambda>(x, _).
             Inr (final_norm m x)))"

definition llada_forward :: "model_weights \<Rightarrow> sampler \<Rightarrow> allocator \<Rightarrow> model_forward" where
  "llada_forward m sample alloc input_ids ctx =
     (case (fc_prompt_length ctx, fc_output_length ctx) of
        (Some P, Some Q) \<Rightarrow>
          (case alloc (P + Q) (int (length (fc_mask_indices ctx))) of
             None \<Rightarrow> Inl TypeError
           | Some (strategy, tensors) \<Rightarrow>
               bind_res (run_layers (llada_block (silu m) strategy) m input_ids ctx tensors) (\<lambda>x.
                 let x_output = (if 0 < Q then py_slice_from x (- Q) else x)
                 in masked_logits sample strategy (lm_head m) x_output (fc_mask_indices ctx) (pt_logits tensors)))
      | _ \<Rightarrow> Inl TypeError)"

text \<open>Dream predicts a token from the position before it, and looks for its own mask token in the
  input instead of using the indices of the context.\<close>

definition dream_mask_token :: int where
  "dream_mask_token = 151666"

definition dream_forward ::
  "model_weights \<Rightarrow> (rat \<Rightarrow> sampler) \<Rightarrow> allocator \<Rightarrow> model_forward" where
  "dream_forward m sample alloc input_ids ctx =
     (case (fc_prompt_length ctx, fc_output_length ctx) of
        (Some P, Some Q) \<Rightarrow>
          (case alloc (P + Q) (int (length (fc_mask_indices ctx))) of
             None \<Rightarrow> Inl TypeError
           | Some (strategy, tensors) \<Rightarrow>
               bind_res (run_layers (dream_layer (silu m) strategy) m input_ids ctx tensors) (\<lambda>x.
                 let x_output = (if 0 < Q then py_slice x (- Q - 1) (- 1) else x);
                     mask_indices = mask_positions dream_mask_token (py_slice_from input_ids (- Q))
                 in masked_logits (sample (fc_temperature ctx)) strategy (lm_head m) x_output mask_indices
                      (pt_logits tensors)))
      | _ \<Rightarrow> Inl TypeError)"


section \<open>The loop over tiles\<close>

lemma ceil_div_nat_pos: "0 < n \<Longrightarrow> 0 < c \<Longrightarrow> 0 < (n + c - 1) div (c::nat)"
  by (simp add: div_greater_zero_iff)

text \<open>An invariant that speaks about the rows done so far carries the loop.\<close>

lemma tile_loop_rule:
  assumes "0 < n" "0 < c" "P 0 s"
    and "\<And>i e s. i < n \<Longrightarrow> i < e \<Longrightarrow> e \<le> n \<Longrightarrow> e - i \<le> (n + c - 1) div c \<Longrightarrow> P i s \<Longrightarrow>
      \<exists>s'. body i e s = Inr s' \<and> P e s'"
  shows "\<exists>s'. tile_loop n c body s = Inr s' \<and> P n s'"
proof -
  define t where "t = (n + c - 1) div c"
  have t: "0 < t" unfolding t_def using assms(1,2) by (rule ceil_div_nat_pos)
  define K where "K = (n + t - 1) div t"
  have K: "n \<le> K * t" "k < K \<Longrightarrow> k * t < n" for k
  proof -
    have eq: "K * t + (n + t - 1) mod t = n + t - 1" by (simp add: K_def)
    moreover have "(n + t - 1) mod t < t" using t by simp
    ultimately show "n \<le> K * t" by linarith
    show "k * t < n" if "k < K"
    proof -
      have "Suc k * t \<le> K * t" using that by (intro mult_right_mono) auto
      also have "\<dots> \<le> n + t - 1" using eq by linarith
      finally show ?thesis using t by simp
    qed
  qed
  let ?P = "\<lambda>ks s. P (min (length ks * t) n) s"
  have "\<exists>s'. foldM (\<lambda>k. body (k * t) (min (k * t + t) n)) [0..<K] s = Inr s' \<and> ?P [0..<K] s'"
  proof (rule foldM_total_invariant [where P = ?P])
    show "?P [] s" using assms(3) by simp
  next
    fix ps k qs u assume split: "[0..<K] = ps @ k # qs" and u: "?P ps u"
    then have k: "k = length ps" "k < K"
      by (metis (no_types, lifting) add_0 add_less_same_cancel1 append_assoc length_append length_upt linorder_not_less
          list.size(4) nat_le_linear nth_append_length nth_upt diff_zero not_add_less1 less_add_Suc1 add_Suc_right)+
    have i: "k * t < n" using K(2) k(2) by blast
    then have "P (k * t) u" using u k(1) by (simp add: min_def)
    moreover have "k * t < min (k * t + t) n" "min (k * t + t) n \<le> n" "min (k * t + t) n - k * t \<le> t" using i t by auto
    ultimately obtain s' where "body (k * t) (min (k * t + t) n) u = Inr s'" "P (min (k * t + t) n) s'"
      using assms(4) [of "k * t" "min (k * t + t) n" u] i unfolding t_def by blast
    then show "\<exists>t'. body (k * t) (min (k * t + t) n) u = Inr t' \<and> ?P (ps @ [k]) t'"
      using k(1) by (auto simp: add.commute)
  qed
  moreover have "tile_loop n c body s = foldM (\<lambda>k. body (k * t) (min (k * t + t) n)) [0..<K] s"
    unfolding tile_loop_def Let_def t_def [symmetric] K_def [symmetric] using assms(2) t by simp
  moreover have "min (length [0..<K] * t) n = n" using K(1) by simp
  ultimately show ?thesis by simp
qed

section \<open>The feed-forward part, row by row\<close>

definition mlp_row :: "(rat \<Rightarrow> rat) \<Rightarrow> mlp_weights \<Rightarrow> row \<Rightarrow> row" where
  "mlp_row act w r =
     map (dot (map2 (*) (map act (map (dot r) (ff_proj w))) (map (dot r) (up_proj w)))) (ff_out w)"

lemma mm_t_simps [simp]: "length (mm_t x w) = length x" "mm_t (take n x) w = take n (mm_t x w)"
  by (simp_all add: mm_t_def take_map)

lemma rows_of_length [simp]: "e \<le> length x \<Longrightarrow> length (rows_of x i e) = e - i"
  by (simp add: rows_of_def)

lemma out_slice_ok:
  "i \<le> e \<Longrightarrow> e \<le> length buf \<Longrightarrow> length rows = e - i \<Longrightarrow> out_slice buf i e rows = Inr (take i buf @ rows @ drop e buf)"
  by (simp add: out_slice_def)

lemma mat_mul_rows: "mat_mul (map (map f) (map g x)) (map h x) = map (\<lambda>r. map2 (*) (map f (g r)) (h r)) x"
  by (induction x) (simp_all add: mat_mul_def)

lemma mlp_tile_ok:
  assumes "i \<le> e" "e \<le> length x" "e - i \<le> length (mlp_x b)" "e - i \<le> length (mlp_x_up b)"
    "e - i \<le> length (mlp_gated b)" "e \<le> length (mlp_output b)"
  shows "\<exists>b'. mlp_tile act w x i e b = Inr b' \<and> length (mlp_x b') = length (mlp_x b) \<and>
    length (mlp_x_up b') = length (mlp_x_up b) \<and> length (mlp_gated b') = length (mlp_gated b) \<and>
    mlp_output b' = take i (mlp_output b) @ map (mlp_row act w) (rows_of x i e) @ drop e (mlp_output b)"
proof -
  let ?r = "rows_of x i e" and ?t = "e - i"
  have l: "length ?r = ?t" using assms(2) by simp
  let ?g = "mm_t ?r (ff_proj w)" and ?u = "mm_t ?r (up_proj w)"
  have out: "out_slice (mlp_x b) 0 ?t ?g = Inr (?g @ drop ?t (mlp_x b))"
    "out_slice (mlp_x_up b) 0 ?t ?u = Inr (?u @ drop ?t (mlp_x_up b))"
    using assms(3,4) l by (simp_all add: out_slice_ok)
  have mul: "mat_mul (map (map act) ?g) ?u = map (\<lambda>r. map2 (*) (map act (map (dot r) (ff_proj w))) (map (dot r) (up_proj w))) ?r"
    (is "_ = ?m") unfolding mm_t_def by (rule mat_mul_rows)
  have lm: "length ?m = ?t" using l by simp
  have out3: "out_slice (mlp_gated b) 0 ?t ?m = Inr (?m @ drop ?t (mlp_gated b))"
    using assms(5) lm by (simp add: out_slice_ok)
  have fin: "mm_t ?m (ff_out w) = map (mlp_row act w) ?r" by (simp add: mm_t_def mlp_row_def)
  have out4: "out_slice (mlp_output b) i e (map (mlp_row act w) ?r) =
      Inr (take i (mlp_output b) @ map (mlp_row act w) ?r @ drop e (mlp_output b))"
    using assms(1,6) l by (simp add: out_slice_ok)
  have take: "take ?t (map (map act) (take ?t (?g @ drop ?t (mlp_x b))) @ drop ?t (?g @ drop ?t (mlp_x b))) = map (map act) ?g"
    "take ?t (?u @ drop ?t (mlp_x_up b)) = ?u" "take ?t (?m @ drop ?t (mlp_gated b)) = ?m"
    using l lm by (simp_all add: take_map)
  show ?thesis
    unfolding mlp_tile_def Let_def out bind_res_Inr take mul out3 fin out4
    using l assms(3-5) by simp
qed

text \<open>Buffers of the heights the graph builder gives them: the tile for a chunked part, all rows
  otherwise.\<close>

definition mlp_fits :: "chunk_strategy option \<Rightarrow> nat \<Rightarrow> mlp_buffers \<Rightarrow> bool" where
  "mlp_fits strategy n b \<longleftrightarrow> length (mlp_output b) = n \<and>
     (case strategy of
        Some s \<Rightarrow>
          if cs_chunk_mlp s
          then 0 < cs_num_chunks_mlp s \<and>
               (let t = (n + cs_num_chunks_mlp s - 1) div cs_num_chunks_mlp s
                in length (mlp_x b) = t \<and> length (mlp_x_up b) = t \<and> length (mlp_gated b) = t)
          else length (mlp_x b) = n \<and> length (mlp_x_up b) = n \<and> length (mlp_gated b) = n
      | None \<Rightarrow> length (mlp_x b) = n \<and> length (mlp_x_up b) = n \<and> length (mlp_gated b) = n)"

lemma chunked_mlp_ok:
  assumes "0 < length x" "0 < c" "length (mlp_output b) = length x"
    "(length x + c - 1) div c \<le> length (mlp_x b)" "(length x + c - 1) div c \<le> length (mlp_x_up b)"
    "(length x + c - 1) div c \<le> length (mlp_gated b)"
  shows "\<exists>b'. tile_loop (length x) c (mlp_tile act w x) b = Inr b' \<and> mlp_output b' = map (mlp_row act w) x \<and>
    length (mlp_x b') = length (mlp_x b) \<and> length (mlp_x_up b') = length (mlp_x_up b) \<and>
    length (mlp_gated b') = length (mlp_gated b)"
proof -
  let ?P = "\<lambda>i (b' :: mlp_buffers). length (mlp_output b') = length x \<and> take i (mlp_output b') = map (mlp_row act w) (take i x) \<and>
    length (mlp_x b') = length (mlp_x b) \<and> length (mlp_x_up b') = length (mlp_x_up b) \<and>
    length (mlp_gated b') = length (mlp_gated b)"
  have "\<exists>b'. tile_loop (length x) c (mlp_tile act w x) b = Inr b' \<and> ?P (length x) b'"
  proof (rule tile_loop_rule [where P = ?P])
    fix i e u assume ie: "i < length x" "i < e" "e \<le> length x" "e - i \<le> (length x + c - 1) div c" and u: "?P i u"
    then obtain u' where u': "mlp_tile act w x i e u = Inr u'" "length (mlp_x u') = length (mlp_x u)"
      "length (mlp_x_up u') = length (mlp_x_up u)" "length (mlp_gated u') = length (mlp_gated u)"
      "mlp_output u' = take i (mlp_output u) @ map (mlp_row act w) (rows_of x i e) @ drop e (mlp_output u)"
      using mlp_tile_ok [of i e x u act w] assms(4-6) by auto
    have "take e x = take i x @ rows_of x i e"
      using ie(2) take_add [of i "e - i" x] by (simp add: rows_of_def)
    then have "take e (mlp_output u') = map (mlp_row act w) (take e x)" "length (mlp_output u') = length x"
      using u u'(5) ie by (simp_all add: min_def)
    then show "\<exists>u'. mlp_tile act w x i e u = Inr u' \<and> ?P e u'" using u u' by auto
  qed (use assms in auto)
  then show ?thesis by auto
qed

lemma gated_mlp_ok:
  assumes "0 < length x" "mlp_fits strategy (length x) b"
  shows "\<exists>b'. gated_mlp act strategy w x b = Inr b' \<and> mlp_output b' = map (mlp_row act w) x \<and>
    mlp_fits strategy (length x) b'"
proof (cases "\<exists>s. strategy = Some s \<and> cs_chunk_mlp s")
  case True
  then obtain s where s: "strategy = Some s" "cs_chunk_mlp s" by blast
  then show ?thesis
    using chunked_mlp_ok [OF assms(1), of "cs_num_chunks_mlp s" b act w] assms(2)
    by (auto simp: gated_mlp_def mlp_fits_def Let_def)
next
  case False
  then show ?thesis
    using mlp_tile_ok [of 0 "length x" x b act w] assms(2)
    by (auto simp: gated_mlp_def mlp_fits_def rows_of_def split: option.splits)
qed


section \<open>Layers\<close>

text \<open>The kernels keep the number of rows.\<close>

definition layer_ok :: "decoder_layer \<Rightarrow> bool" where
  "layer_ok l \<longleftrightarrow> (\<forall>x. length (attn_norm l x) = length x) \<and>
     (\<forall>ctx q k v. length k = length q \<longrightarrow> length v = length q \<longrightarrow> length (attention l ctx q k v) = length q) \<and>
     (\<forall>x a. length a = length x \<longrightarrow> length (fst (ff_norm l x a)) = length x \<and> length (snd (ff_norm l x a)) = length x)"

definition model_ok :: "model_weights \<Rightarrow> bool" where
  "model_ok m \<longleftrightarrow> (\<forall>l \<in> set (layers m). layer_ok l) \<and> (\<forall>x. length (final_norm m x) = length x)"

text \<open>The layers without buffers and tiles.\<close>

definition finish_ref :: "(rat \<Rightarrow> rat) \<Rightarrow> decoder_layer \<Rightarrow> matrix \<Rightarrow> matrix \<Rightarrow> matrix" where
  "finish_ref act l x att_out =
     mat_add (snd (ff_norm l x att_out)) (map (mlp_row act (layer_mlp l)) (fst (ff_norm l x att_out)))"

definition llada_ref :: "(rat \<Rightarrow> rat) \<Rightarrow> forward_context \<Rightarrow> decoder_layer \<Rightarrow> matrix \<Rightarrow> matrix" where
  "llada_ref act ctx l x =
     (let xn = attn_norm l x
      in finish_ref act l x (mm_t (attention l ctx (mm_t xn (q_proj l)) (mm_t xn (k_proj l)) (mm_t xn (v_proj l))) (o_proj l)))"

definition dream_ref :: "(rat \<Rightarrow> rat) \<Rightarrow> forward_context \<Rightarrow> decoder_layer \<Rightarrow> matrix \<Rightarrow> matrix" where
  "dream_ref act ctx l x =
     (let xn = attn_norm l x
      in finish_ref act l x (mm_t (attention l ctx (add_bias (q_bias l) (mm_t xn (q_proj l)))
           (add_bias (k_bias l) (mm_t xn (k_proj l))) (add_bias (v_bias l) (mm_t xn (v_proj l)))) (o_proj l)))"

lemma add_bias_length [simp]: "length (add_bias b x) = length x"
  by (simp add: add_bias_def split: option.splits)

lemma finish_layer_ok:
  assumes "layer_ok l" "0 < length x" "mlp_fits strategy (length x) b" "length att = length x"
  shows "\<exists>b'. finish_layer act strategy l x att b = Inr (finish_ref act l x att, b') \<and> mlp_fits strategy (length x) b'"
    "length (finish_ref act l x att) = length x"
proof -
  obtain y r where yr: "ff_norm l x att = (y, r)" by (metis surj_pair)
  have "length (fst (ff_norm l x att)) = length x \<and> length (snd (ff_norm l x att)) = length x"
    using assms(1,4) by (simp add: layer_ok_def)
  then have len: "length y = length x" "length r = length x" using yr by simp_all
  obtain b' where "gated_mlp act strategy (layer_mlp l) y b = Inr b'"
    "mlp_output b' = map (mlp_row act (layer_mlp l)) y" "mlp_fits strategy (length y) b'"
    using gated_mlp_ok [of y strategy b act "layer_mlp l"] assms(2,3) len by auto
  then show "\<exists>b'. finish_layer act strategy l x att b = Inr (finish_ref act l x att, b') \<and> mlp_fits strategy (length x) b'"
    using yr len by (simp add: finish_layer_def finish_ref_def)
  show "length (finish_ref act l x att) = length x" using yr len by (simp add: finish_ref_def mat_add_def)
qed

lemma llada_block_ok:
  assumes "layer_ok l" "0 < length x" "mlp_fits strategy (length x) b"
  shows "\<exists>b'. llada_block act strategy ctx l (x, b) = Inr (llada_ref act ctx l x, b') \<and> mlp_fits strategy (length x) b'"
    "length (llada_ref act ctx l x) = length x"
  using finish_layer_ok [OF assms] assms(1) by (simp_all add: llada_block_def llada_ref_def Let_def layer_ok_def)

lemma dream_layer_ok:
  assumes "layer_ok l" "0 < length x" "mlp_fits strategy (length x) b"
  shows "\<exists>b'. dream_layer act strategy ctx l (x, b) = Inr (dream_ref act ctx l x, b') \<and> mlp_fits strategy (length x) b'"
    "length (dream_ref act ctx l x) = length x"
  using finish_layer_ok [OF assms] assms(1) by (simp_all add: dream_layer_def dream_ref_def Let_def layer_ok_def)

text \<open>A stack of layers that share buffers: each layer refines a reference on matrices and leaves the buffers
  fit for the next one.\<close>

locale layer_stack =
  fixes layer :: "'l \<Rightarrow> matrix \<times> 'b \<Rightarrow> (matrix \<times> 'b) result" and reference :: "'l \<Rightarrow> matrix \<Rightarrow> matrix"
    and good_layer :: "'l \<Rightarrow> bool" and fits :: "matrix \<Rightarrow> 'b \<Rightarrow> bool"
  assumes layer_refines: "good_layer l \<Longrightarrow> fits x b \<Longrightarrow> \<exists>b'. layer l (x, b) = Inr (reference l x, b') \<and> fits (reference l x) b'"
    and layer_rows: "good_layer l \<Longrightarrow> fits x b \<Longrightarrow> length (reference l x) = length x"
begin

lemma stack_refines:
  "\<forall>l \<in> set ls. good_layer l \<Longrightarrow> fits x b \<Longrightarrow>
   (\<exists>b'. foldM layer ls (x, b) = Inr (fold reference ls x, b')) \<and> length (fold reference ls x) = length x"
proof (induction ls arbitrary: x b)
  case (Cons l ls)
  then obtain b' where b': "layer l (x, b) = Inr (reference l x, b')" "fits (reference l x) b'" "length (reference l x) = length x"
    using layer_refines [of l x b] layer_rows [of l x b] by auto
  then show ?case using Cons.IH [of "reference l x" b'] Cons.prems by simp
qed simp

end

interpretation llada_stack: layer_stack "llada_block act strategy ctx" "llada_ref act ctx" layer_ok
  "\<lambda>x b. 0 < length x \<and> mlp_fits strategy (length x) b" for act strategy ctx
proof unfold_locales
  fix l :: decoder_layer and x :: matrix and b :: mlp_buffers
  assume l: "layer_ok l" and b: "0 < length x \<and> mlp_fits strategy (length x) b"
  note ok = llada_block_ok [OF l conjunct1 [OF b] conjunct2 [OF b], of act ctx]
  show "\<exists>b'. llada_block act strategy ctx l (x, b) = Inr (llada_ref act ctx l x, b') \<and>
      (0 < length (llada_ref act ctx l x) \<and> mlp_fits strategy (length (llada_ref act ctx l x)) b')"
    using ok(1) conjunct1 [OF b] unfolding ok(2) by blast
  show "length (llada_ref act ctx l x) = length x" by (rule ok(2))
qed

interpretation dream_stack: layer_stack "dream_layer act strategy ctx" "dream_ref act ctx" layer_ok
  "\<lambda>x b. 0 < length x \<and> mlp_fits strategy (length x) b" for act strategy ctx
proof unfold_locales
  fix l :: decoder_layer and x :: matrix and b :: mlp_buffers
  assume l: "layer_ok l" and b: "0 < length x \<and> mlp_fits strategy (length x) b"
  note ok = dream_layer_ok [OF l conjunct1 [OF b] conjunct2 [OF b], of act ctx]
  show "\<exists>b'. dream_layer act strategy ctx l (x, b) = Inr (dream_ref act ctx l x, b') \<and>
      (0 < length (dream_ref act ctx l x) \<and> mlp_fits strategy (length (dream_ref act ctx l x)) b')"
    using ok(1) conjunct1 [OF b] unfolding ok(2) by blast
  show "length (dream_ref act ctx l x) = length x" by (rule ok(2))
qed

lemma run_layers_ok:
  assumes stack: "layer_stack (layer ctx) reference layer_ok (\<lambda>x b. 0 < length x \<and> mlp_fits strategy (length x) b)"
    and m: "model_ok m" and toks: "toks \<noteq> []" "length (pt_x t) = length toks" "mlp_fits strategy (length toks) (pt_mlp t)"
  shows "run_layers layer m toks ctx t = Inr (final_norm m (fold reference (layers m) (map (embedding m) toks)))"
    "length (fold reference (layers m) (map (embedding m) toks)) = length toks"
  using layer_stack.stack_refines [OF stack, of "layers m" "map (embedding m) toks" "pt_mlp t"] m toks
  by (auto simp: run_layers_def model_ok_def)

section \<open>Logits\<close>

text \<open>Sampling works row by row.\<close>

definition rowwise :: "sampler \<Rightarrow> bool" where
  "rowwise sample \<longleftrightarrow> (\<exists>f. \<forall>rows. sample rows = (map (fst \<circ> f) rows, map (snd \<circ> f) rows))"

definition logits_fit :: "chunk_strategy option \<Rightarrow> nat \<Rightarrow> matrix \<Rightarrow> bool" where
  "logits_fit strategy n logits \<longleftrightarrow>
     (if (case strategy of None \<Rightarrow> False | Some s \<Rightarrow> cs_chunk_logits s)
      then 0 < cs_num_chunks_logits (the strategy) \<and>
           length logits = (n + cs_num_chunks_logits (the strategy) - 1) div cs_num_chunks_logits (the strategy)
      else length logits = n)"

lemma rows_of_subset: "set (rows_of xs i e) \<subseteq> set xs"
  unfolding rows_of_def by (meson in_set_dropD in_set_takeD subsetI)

lemma masked_logits_ok:
  assumes f: "\<And>rows. sample rows = (map (fst \<circ> f) rows, map (snd \<circ> f) rows)"
    and "mask_indices \<noteq> []" "\<forall>i \<in> set mask_indices. i < length x_output"
    and "logits_fit strategy (length mask_indices) logits"
  shows "masked_logits sample strategy w x_output mask_indices logits =
    Inr (sample (mm_t (map (\<lambda>i. x_output ! i) mask_indices) w))"
proof (cases "case strategy of None \<Rightarrow> False | Some s \<Rightarrow> cs_chunk_logits s")
  case False
  then show ?thesis using assms(3,4) by (auto simp: masked_logits_def logits_fit_def gather_rows_def not_le)
next
  case True
  let ?c = "cs_num_chunks_logits (the strategy)" and ?n = "length mask_indices"
  let ?R = "mm_t (map (\<lambda>i. x_output ! i) mask_indices) w"
  let ?P = "\<lambda>i (logits', x0 :: int list, x0_p :: rat list). length (logits' :: matrix) = length logits \<and>
    x0 = map (fst \<circ> f) (take i ?R) \<and> x0_p = map (snd \<circ> f) (take i ?R)"
  have "\<exists>u. tile_loop ?n ?c (logits_tile sample w x_output mask_indices) (logits, [], []) = Inr u \<and> ?P ?n u"
  proof (rule tile_loop_rule [where P = ?P])
    fix i e u assume ie: "i < ?n" "i < e" "e \<le> ?n" "e - i \<le> (?n + ?c - 1) div ?c" and "?P i u"
    then obtain l' where u: "u = (l', map (fst \<circ> f) (take i ?R), map (snd \<circ> f) (take i ?R))" "length l' = length logits"
      by (cases u) auto
    let ?rows = "mm_t (map (\<lambda>i. x_output ! i) (rows_of mask_indices i e)) w"
    have "length (take (e - i) l') = length (rows_of mask_indices i e)"
      using ie u(2) assms(4) True by (simp add: logits_fit_def)
    moreover have "\<not> (\<exists>j \<in> set (rows_of mask_indices i e). length x_output \<le> j)"
      using rows_of_subset [of mask_indices i e] assms(3) by (auto simp: not_le)
    ultimately have "gather_rows x_output (rows_of mask_indices i e) w (length (take (e - i) l')) = Inr ?rows"
      by (simp add: gather_rows_def)
    moreover have "take e ?R = take i ?R @ ?rows"
      using ie(2) take_add [of i "e - i" ?R] by (simp add: rows_of_def mm_t_def take_map drop_map)
    moreover have "length (?rows @ drop (e - i) l') = length logits"
      using ie u(2) assms(4) True by (simp add: logits_fit_def)
    ultimately show "\<exists>u'. logits_tile sample w x_output mask_indices i e u = Inr u' \<and> ?P e u'"
      using u f by (simp add: logits_tile_def)
  qed (use assms(2,4) True in \<open>auto simp: logits_fit_def\<close>)
  then show ?thesis using True f by (auto simp: masked_logits_def)
qed


section \<open>The fused kernel computes these rows\<close>

text \<open>Matrices in memory as the models store them: row-major, the weight transposed by its strides.\<close>

definition stored_args :: "matrix \<Rightarrow> nat list \<Rightarrow> matrix \<Rightarrow> nat \<Rightarrow> gemm_args" where
  "stored_args x idx w h =
     \<lparr>ga_x = (\<lambda>q. x ! (q div h) ! (q mod h)), ga_w = (\<lambda>q. w ! (q div h) ! (q mod h)), ga_indices = (\<lambda>i. idx ! i),
      ga_M = length idx, ga_N = length w, ga_K = h, stride_xm = h, stride_xk = 1, stride_wk = 1, stride_wn = h,
      stride_om = length w, stride_on = 1\<rparr>"

lemma dot_sum: "length r = h \<Longrightarrow> length w = h \<Longrightarrow> dot r w = (\<Sum>k<h. r ! k * w ! k)"
proof -
  assume l: "length r = h" "length w = h"
  have "map2 (*) r w = map (\<lambda>k. r ! k * w ! k) [0..<h]" using l by (intro nth_equalityI) simp_all
  then show ?thesis by (simp add: dot_def interv_sum_list_conv_sum_set_nat atLeast0LessThan)
qed

lemma stored_product:
  assumes "\<forall>i \<in> set idx. i < length x" "\<forall>r \<in> set x. length r = h" "\<forall>r \<in> set w. length r = h"
    "i < length idx" "j < length w"
  shows "gathered_product (stored_args x idx w h) i j = mm_t (map (\<lambda>i. x ! i) idx) w ! i ! j"
proof -
  have "length (x ! (idx ! i)) = h" "length (w ! j) = h" using assms by simp_all
  then have "mm_t (map (\<lambda>i. x ! i) idx) w ! i ! j = (\<Sum>k<h. x ! (idx ! i) ! k * w ! j ! k)"
    using assms(4,5) by (simp add: mm_t_def dot_sum)
  moreover have "(idx ! i * h + k) div h = idx ! i \<and> (idx ! i * h + k) mod h = k \<and> (k + j * h) div h = j \<and> (k + j * h) mod h = k"
    if "k < h" for k using that by simp
  ultimately show ?thesis by (simp add: gathered_product_def stored_args_def)
qed

text \<open>On row-major matrices the fused kernel, launched on its grid in any order, stores
  exactly the rows the models rely on: the rows selected by the indices times the transposed weight.\<close>

theorem gather_kernel_computes_rows:
  assumes "\<forall>i \<in> set idx. i < length x" "\<forall>r \<in> set x. length r = h" "\<forall>r \<in> set w. length r = h"
    "config_ok c" "set order = {..<grid_size (stored_args x idx w h) c}"
  shows "\<exists>rows. gather_rows x idx w (length idx) = Inr rows \<and>
    (\<forall>i < length idx. \<forall>j < length w.
       launch (stored_args x idx w h) c order out (out_addr (stored_args x idx w h) i j) = rows ! i ! j)"
proof -
  have inj: "out_injective (stored_args x idx w h)" by (rule contiguous_out_injective) (simp_all add: stored_args_def)
  have "launch (stored_args x idx w h) c order out (out_addr (stored_args x idx w h) i j) =
      mm_t (map (\<lambda>i. x ! i) idx) w ! i ! j" if "i < length idx" "j < length w" for i j
    using launch_cell [OF assms(4) inj assms(5), of i j out] stored_product [OF assms(1-3) that] that
    by (simp add: stored_args_def)
  then show ?thesis using assms(1) by (auto simp: gather_rows_def not_le)
qed

theorem gather_kernel_computes_rows_witness:
  "\<exists>rows. gather_rows [[1, 2], [3, 4], [5, 6]] [2, 0] [[1, 1], [0, 1], [2, 0]] 2 = Inr rows \<and> rows ! 0 ! 2 = 10 \<and>
     launch (stored_args [[1, 2], [3, 4], [5, 6]] [2, 0] [[1, 1], [0, 1], [2, 0]] 2)
       \<lparr>BLOCK_SIZE_M = 1, BLOCK_SIZE_N = 2, BLOCK_SIZE_K = 2, GROUP_SIZE_M = 1\<rparr> [2, 0, 3, 1] (\<lambda>_. 0)
       (out_addr (stored_args [[1, 2], [3, 4], [5, 6]] [2, 0] [[1, 1], [0, 1], [2, 0]] 2) 0 2) = rows ! 0 ! 2"
proof -
  let ?x = "[[1, 2], [3, 4], [5, 6 :: rat]]" and ?w = "[[1, 1], [0, 1], [2, 0 :: rat]]" and ?idx = "[2, 0 :: nat]"
  let ?c = "\<lparr>BLOCK_SIZE_M = 1, BLOCK_SIZE_N = 2, BLOCK_SIZE_K = 2, GROUP_SIZE_M = 1\<rparr>"
  have h: "\<forall>i \<in> set ?idx. i < length ?x" "\<forall>r \<in> set ?x. length r = 2" "\<forall>r \<in> set ?w. length r = 2" "config_ok ?c"
    by (simp_all add: config_ok_def)
  have o: "set [2, 0, 3, 1] = {..<grid_size (stored_args ?x ?idx ?w 2) ?c}"
    by (auto simp: grid_size_def stored_args_def cdiv_def)
  obtain rows where "gather_rows ?x ?idx ?w (length ?idx) = Inr rows"
    "\<forall>i < length ?idx. \<forall>j < length ?w. launch (stored_args ?x ?idx ?w 2) ?c [2, 0, 3, 1] (\<lambda>_. 0)
       (out_addr (stored_args ?x ?idx ?w 2) i j) = rows ! i ! j"
    using gather_kernel_computes_rows [OF h o, of "\<lambda>_. 0"] by blast
  moreover from this(1) have "rows ! 0 ! 2 = 10" by (auto simp: gather_rows_def mm_t_def dot_def)
  ultimately show ?thesis by (intro exI [of _ rows]) (simp add: numeral_2_eq_2)
qed

section \<open>The forward passes without tiles\<close>

definition tensors_fit :: "chunk_strategy option \<Rightarrow> nat \<Rightarrow> nat \<Rightarrow> pool_tensors \<Rightarrow> bool" where
  "tensors_fit strategy n k t \<longleftrightarrow>
     length (pt_x t) = n \<and> mlp_fits strategy n (pt_mlp t) \<and> logits_fit strategy k (pt_logits t)"

text \<open>The heights of the chunked buffers are those the graph builder plans.\<close>

lemma chunk_heights: "0 < c \<Longrightarrow> ceil_div (int n) (int c) = int ((n + c - 1) div c)"
  by (simp add: ceil_div_def of_nat_diff zdiv_int)

lemma planned_heights:
  "AddOp ''logits'' ''get_logits'' [''final_output''] [ceil_div Op nl, 126464] bfloat16 \<in>
     set (llada_chunk_cmds True P (ceil_div P nm) (ceil_div Op nl))"
  "AddOp ''mlp_x'' ''ff_proj'' [''x_normed_2''] [ceil_div P nm, 12288] bfloat16 \<in>
     set (llada_chunk_cmds True P (ceil_div P nm) (ceil_div Op nl))"
  by (simp_all add: llada_chunk_cmds_def Let_def)

definition hidden_states ::
  "(forward_context \<Rightarrow> decoder_layer \<Rightarrow> matrix \<Rightarrow> matrix) \<Rightarrow> model_weights \<Rightarrow> int list \<Rightarrow> forward_context \<Rightarrow> matrix" where
  "hidden_states ref m toks ctx = final_norm m (fold (ref ctx) (layers m) (map (embedding m) toks))"

text \<open>What the two models predict for the masked positions: from the position itself, and from the
  one before it.\<close>

definition llada_predictions :: "model_weights \<Rightarrow> sampler \<Rightarrow> int list \<Rightarrow> forward_context \<Rightarrow> int \<Rightarrow> int list \<times> rat list" where
  "llada_predictions m sample toks ctx P =
     sample (mm_t (map (\<lambda>i. hidden_states (llada_ref (silu m)) m toks ctx ! (nat P + i)) (fc_mask_indices ctx)) (lm_head m))"

definition dream_predictions :: "model_weights \<Rightarrow> sampler \<Rightarrow> int list \<Rightarrow> forward_context \<Rightarrow> int \<Rightarrow> int list \<times> rat list" where
  "dream_predictions m sample toks ctx P =
     sample (mm_t (map (\<lambda>i. hidden_states (dream_ref (silu m)) m toks ctx ! (nat P + i - 1)) (fc_mask_indices ctx)) (lm_head m))"

text \<open>A forward call on a single sequence with its own mask positions.\<close>

definition single_call :: "int \<Rightarrow> int list \<Rightarrow> forward_context \<Rightarrow> int \<Rightarrow> int \<Rightarrow> bool" where
  "single_call mid toks ctx P Q \<longleftrightarrow> fc_prompt_length ctx = Some P \<and> fc_output_length ctx = Some Q \<and> 0 < P \<and> 0 \<le> Q \<and>
     int (length toks) = P + Q \<and> fc_mask_indices ctx = mask_positions mid (drop (nat P) toks) \<and> fc_mask_indices ctx \<noteq> []"

lemma single_callD:
  assumes "single_call mid toks ctx P Q"
  shows "toks \<noteq> []" "0 < Q" "nat (P + Q) = length toks" "length toks = nat P + nat Q"
    "\<forall>i \<in> set (fc_mask_indices ctx). i < nat Q"
proof -
  have s: "0 < P" "0 \<le> Q" "int (length toks) = P + Q" "fc_mask_indices ctx = mask_positions mid (drop (nat P) toks)"
    "fc_mask_indices ctx \<noteq> []" using assms unfolding single_call_def by blast+
  show len: "length toks = nat P + nat Q" "nat (P + Q) = length toks" using s(1-3) by simp_all
  show all: "\<forall>i \<in> set (fc_mask_indices ctx). i < nat Q" using s(4) len by (simp add: mask_positions_def)
  then show "0 < Q" using s(5) by (cases "fc_mask_indices ctx") auto
  show "toks \<noteq> []" using len s(1) by auto
qed

lemma llada_forward_eq:
  assumes m: "model_ok m" and r: "rowwise sample" and call: "single_call mid toks ctx P Q"
    and al: "alloc (P + Q) (int (length (fc_mask_indices ctx))) = Some (strategy, t)"
    and fit: "tensors_fit strategy (length toks) (length (fc_mask_indices ctx)) t"
  shows "llada_forward m sample alloc toks ctx = Inr (llada_predictions m sample toks ctx P)"
proof -
  note c = single_callD [OF call]
  have t: "length (pt_x t) = length toks" "mlp_fits strategy (length toks) (pt_mlp t)"
    "logits_fit strategy (length (fc_mask_indices ctx)) (pt_logits t)" using fit by (simp_all add: tensors_fit_def)
  let ?x = "hidden_states (llada_ref (silu m)) m toks ctx"
  have run: "run_layers (llada_block (silu m) strategy) m toks ctx t = Inr ?x"
    and "length (fold (llada_ref (silu m) ctx) (layers m) (map (embedding m) toks)) = length toks"
    using run_layers_ok [OF llada_stack.layer_stack_axioms m c(1) t(1,2)] by (simp_all add: hidden_states_def)
  then have len: "length ?x = length toks" using m by (simp add: hidden_states_def model_ok_def)
  have out: "py_slice_from ?x (- Q) = drop (nat P) ?x"
    using c(2,4) len call by (simp add: py_slice_from_def py_bound_def single_call_def)
  obtain f where f: "\<And>rows. sample rows = (map (fst \<circ> f) rows, map (snd \<circ> f) rows)" using r by (auto simp: rowwise_def)
  have "masked_logits sample strategy (lm_head m) (drop (nat P) ?x) (fc_mask_indices ctx) (pt_logits t) =
      Inr (sample (mm_t (map (\<lambda>i. drop (nat P) ?x ! i) (fc_mask_indices ctx)) (lm_head m)))"
    using call c(4,5) len t(3) by (intro masked_logits_ok [OF f]) (auto simp: single_call_def)
  moreover have "map (\<lambda>i. drop (nat P) ?x ! i) (fc_mask_indices ctx) = map (\<lambda>i. ?x ! (nat P + i)) (fc_mask_indices ctx)"
    using len c(4) by simp
  ultimately show ?thesis
    using call al run out c(2) by (simp add: llada_forward_def llada_predictions_def single_call_def Let_def)
qed

lemma dream_forward_eq:
  assumes m: "model_ok m" and r: "rowwise (sample (fc_temperature ctx))" and call: "single_call dream_mask_token toks ctx P Q"
    and al: "alloc (P + Q) (int (length (fc_mask_indices ctx))) = Some (strategy, t)"
    and fit: "tensors_fit strategy (length toks) (length (fc_mask_indices ctx)) t"
  shows "dream_forward m sample alloc toks ctx = Inr (dream_predictions m (sample (fc_temperature ctx)) toks ctx P)"
proof -
  note c = single_callD [OF call]
  have t: "length (pt_x t) = length toks" "mlp_fits strategy (length toks) (pt_mlp t)"
    "logits_fit strategy (length (fc_mask_indices ctx)) (pt_logits t)" using fit by (simp_all add: tensors_fit_def)
  have P: "0 < P" using call by (simp add: single_call_def)
  let ?x = "hidden_states (dream_ref (silu m)) m toks ctx"
  have run: "run_layers (dream_layer (silu m) strategy) m toks ctx t = Inr ?x"
    and "length (fold (dream_ref (silu m) ctx) (layers m) (map (embedding m) toks)) = length toks"
    using run_layers_ok [OF dream_stack.layer_stack_axioms m c(1) t(1,2)] by (simp_all add: hidden_states_def)
  then have len: "length ?x = length toks" using m by (simp add: hidden_states_def model_ok_def)
  have out: "py_slice ?x (- Q - 1) (- 1) = take (nat Q) (drop (nat P - 1) ?x)"
    using c(2,4) len P by (simp add: py_slice_def py_bound_def Let_def nat_diff_distrib nat_add_distrib)
  have idx: "mask_positions dream_mask_token (py_slice_from toks (- Q)) = fc_mask_indices ctx"
    using c(2,4) call by (simp add: py_slice_from_def py_bound_def single_call_def)
  obtain f where f: "\<And>rows. sample (fc_temperature ctx) rows = (map (fst \<circ> f) rows, map (snd \<circ> f) rows)"
    using r by (auto simp: rowwise_def)
  let ?o = "take (nat Q) (drop (nat P - 1) ?x)"
  have mp: "map (\<lambda>i. ?o ! i) (fc_mask_indices ctx) = map (\<lambda>i. ?x ! (nat P + i - 1)) (fc_mask_indices ctx)"
    using len c(4,5) P by (intro map_cong) auto
  have "masked_logits (sample (fc_temperature ctx)) strategy (lm_head m) ?o (fc_mask_indices ctx) (pt_logits t) =
      Inr (sample (fc_temperature ctx) (mm_t (map (\<lambda>i. ?o ! i) (fc_mask_indices ctx)) (lm_head m)))"
    using call c(4,5) len t(3) P by (intro masked_logits_ok [OF f]) (auto simp: single_call_def)
  then have ml: "masked_logits (sample (fc_temperature ctx)) strategy (lm_head m) ?o (fc_mask_indices ctx) (pt_logits t) =
      Inr (dream_predictions m (sample (fc_temperature ctx)) toks ctx P)"
    unfolding mp dream_predictions_def .
  have "fc_prompt_length ctx = Some P" "fc_output_length ctx = Some Q" using call unfolding single_call_def by blast+
  then show ?thesis using al run out c(2) idx ml by (simp add: dream_forward_def)
qed

section \<open>Properties\<close>



text \<open>For sequences of \<open>n\<close> tokens, whatever number of them is masked, the allocation gives tensors of the
  heights planned for the strategy it chose.\<close>

definition alloc_ok :: "nat \<Rightarrow> allocator \<Rightarrow> bool" where
  "alloc_ok n alloc \<longleftrightarrow>
     (\<forall>k. 0 < k \<longrightarrow> k \<le> n \<longrightarrow> (\<exists>s t. alloc (int n) (int k) = Some (s, t) \<and> tensors_fit s n k t))"

lemma single_call_masks: "single_call mid toks ctx P Q \<Longrightarrow>
    0 < length (fc_mask_indices ctx) \<and> length (fc_mask_indices ctx) \<le> length toks"
proof -
  assume c: "single_call mid toks ctx P Q"
  then have mi: "fc_mask_indices ctx = mask_positions mid (drop (nat P) toks)" and ne: "fc_mask_indices ctx \<noteq> []"
    unfolding single_call_def by blast+
  have "length (fc_mask_indices ctx) \<le> length [0..<length (drop (nat P) toks)]"
    unfolding mi mask_positions_def by (rule length_filter_le)
  also have "\<dots> \<le> length toks" by simp
  finally show ?thesis using ne by blast
qed

lemma alloc_call:
  assumes "alloc_ok (length toks) alloc" "single_call mid toks ctx P Q"
  obtains s t where "alloc (P + Q) (int (length (fc_mask_indices ctx))) = Some (s, t)"
    "tensors_fit s (length toks) (length (fc_mask_indices ctx)) t"
proof -
  have "P + Q = int (length toks)" using assms(2) by (simp add: single_call_def)
  then show thesis using assms(1) single_call_masks [OF assms(2)] that unfolding alloc_ok_def by metis
qed

lemma forward_okI:
  assumes "\<And>flat ctx P Q. single_call mid flat ctx P Q \<Longrightarrow> length flat = n \<Longrightarrow>
    \<exists>idx conf. forward flat ctx = Inr (idx, conf) \<and> length idx = length (fc_mask_indices ctx) \<and>
      length conf = length (fc_mask_indices ctx)"
  shows "forward_ok mid n forward"
  unfolding forward_ok_def using assms unfolding single_call_def by metis

lemma llada_meets_contract:
  assumes "model_ok m" "rowwise sample" "alloc_ok n alloc"
  shows "forward_ok mid n (llada_forward m sample alloc)"
proof (rule forward_okI)
  fix flat P Q and ctx :: forward_context assume call: "single_call mid flat ctx P Q" and n: "length flat = n"
  obtain s t where "alloc (P + Q) (int (length (fc_mask_indices ctx))) = Some (s, t)"
    "tensors_fit s (length flat) (length (fc_mask_indices ctx)) t"
    using alloc_call [OF _ call] assms(3) n by blast
  from llada_forward_eq [where alloc = alloc, OF assms(1,2) call this] assms(2)
  show "\<exists>idx conf. llada_forward m sample alloc flat ctx = Inr (idx, conf) \<and>
      length idx = length (fc_mask_indices ctx) \<and> length conf = length (fc_mask_indices ctx)"
    by (auto simp: rowwise_def llada_predictions_def)
qed

lemma dream_meets_contract:
  assumes "model_ok m" "\<forall>temp. rowwise (sample temp)" "alloc_ok n alloc"
  shows "forward_ok dream_mask_token n (dream_forward m sample alloc)"
proof (rule forward_okI)
  fix flat P Q and ctx :: forward_context assume call: "single_call dream_mask_token flat ctx P Q" and n: "length flat = n"
  obtain s t where t: "alloc (P + Q) (int (length (fc_mask_indices ctx))) = Some (s, t)"
    "tensors_fit s (length flat) (length (fc_mask_indices ctx)) t"
    using alloc_call [OF _ call] assms(3) n by blast
  obtain f where "\<And>rows. sample (fc_temperature ctx) rows = (map (fst \<circ> f) rows, map (snd \<circ> f) rows)"
    using assms(2) unfolding rowwise_def by metis
  with dream_forward_eq [where alloc = alloc and sample = sample, OF assms(1) assms(2) [rule_format] call t]
  show "\<exists>idx conf. dream_forward m sample alloc flat ctx = Inr (idx, conf) \<and>
      length idx = length (fc_mask_indices ctx) \<and> length conf = length (fc_mask_indices ctx)"
    by (simp add: dream_predictions_def)
qed

text \<open>Dream looks for its own mask token in the input and ignores the mask of the
  request. A request with another mask token, whose output part does not happen to contain Dream's,
  never succeeds: the forward pass raises ValueError when the logits are chunked, because the loop
  over no rows has step zero, and AssertionError otherwise, because the logits buffer has the wrong
  height.\<close>

theorem dream_foreign_mask_raises:
  assumes "model_ok m" "single_call mid toks ctx P Q" "dream_mask_token \<notin> set (drop (nat P) toks)"
    "alloc (P + Q) (int (length (fc_mask_indices ctx))) = Some (strategy, t)"
    "tensors_fit strategy (length toks) (length (fc_mask_indices ctx)) t"
  shows "dream_forward m sample alloc toks ctx =
    Inl (if (case strategy of None \<Rightarrow> False | Some s \<Rightarrow> cs_chunk_logits s) then ValueError else AssertionError)"
proof -
  note c = single_callD [OF assms(2)]
  have t: "length (pt_x t) = length toks" "mlp_fits strategy (length toks) (pt_mlp t)"
    "logits_fit strategy (length (fc_mask_indices ctx)) (pt_logits t)" using assms(5) by (simp_all add: tensors_fit_def)
  have run: "run_layers (dream_layer (silu m) strategy) m toks ctx t = Inr (hidden_states (dream_ref (silu m)) m toks ctx)"
    using run_layers_ok(1) [OF dream_stack.layer_stack_axioms assms(1) c(1) t(1,2)] by (simp add: hidden_states_def)
  have "py_slice_from toks (- Q) = drop (nat P) toks"
    using c(2,4) by (simp add: py_slice_from_def py_bound_def)
  then have idx: "mask_positions dream_mask_token (py_slice_from toks (- Q)) = []"
    using assms(3) by (auto simp: mask_positions_def filter_empty_conv in_set_conv_nth)
  have "masked_logits smp strategy w x [] (pt_logits t) =
      Inl (if (case strategy of None \<Rightarrow> False | Some s \<Rightarrow> cs_chunk_logits s) then ValueError else AssertionError)" for smp w x
    using t(3) assms(2) by (auto simp: masked_logits_def logits_fit_def tile_loop_def gather_rows_def single_call_def Let_def)
  then show ?thesis
    using assms(2,4) run idx by (simp add: dream_forward_def single_call_def)
qed


section \<open>A concrete model\<close>

definition demo_layer :: decoder_layer where
  "demo_layer = \<lparr>attn_norm = (\<lambda>x. x), q_proj = [[1, 0], [0, 1]], k_proj = [[1, 1]], v_proj = [[1, 0], [0, 2]],
     q_bias = Some [1, 1], k_bias = None, v_bias = None, attention = (\<lambda>_ q _ v. mat_add q v), o_proj = [[1, 0], [1, 1]],
     ff_norm = (\<lambda>x a. (mat_add x a, mat_add x a)),
     layer_mlp = \<lparr>ff_proj = [[1, 2]], up_proj = [[3, 1]], ff_out = [[1], [2]]\<rparr>\<rparr>"

definition demo_model :: model_weights where
  "demo_model = \<lparr>embedding = (\<lambda>i. [of_int i, 1]), layers = [demo_layer, demo_layer], final_norm = (\<lambda>x. x),
     lm_head = [[1, 0], [0, 1], [1, 1]], silu = (\<lambda>y. y / 2)\<rparr>"

definition demo_sample :: "rat \<Rightarrow> sampler" where
  "demo_sample temp rows = (map (\<lambda>r. int (length r)) rows, map (\<lambda>r. sum_list r + temp) rows)"

definition demo_strategy :: chunk_strategy where
  "demo_strategy = \<lparr>cs_chunk_mlp = True, cs_chunk_logits = True, cs_num_chunks_mlp = 4, cs_num_chunks_logits = 2\<rparr>"

definition demo_tensors :: "chunk_strategy option \<Rightarrow> nat \<Rightarrow> nat \<Rightarrow> pool_tensors" where
  "demo_tensors strategy n k =
     (let h = (case strategy of None \<Rightarrow> n | Some s \<Rightarrow> (n + cs_num_chunks_mlp s - 1) div cs_num_chunks_mlp s);
          l = (case strategy of None \<Rightarrow> k | Some s \<Rightarrow> (k + cs_num_chunks_logits s - 1) div cs_num_chunks_logits s)
      in \<lparr>pt_x = replicate n [],
          pt_mlp = \<lparr>mlp_x = replicate h [7], mlp_x_up = replicate h [], mlp_gated = replicate h [], mlp_output = replicate n []\<rparr>,
          pt_logits = replicate l [5, 5]\<rparr>)"

definition demo_alloc :: "chunk_strategy option \<Rightarrow> allocator" where
  "demo_alloc strategy n k = Some (strategy, demo_tensors strategy (nat n) (nat k))"

definition demo_context :: forward_context where
  "demo_context = \<lparr>fc_query_start_loc = [0, 5], fc_seq_lens = [5], fc_positions = [0, 1, 2, 3, 4], fc_prompt_length = Some 2,
     fc_output_length = Some 3, fc_mask_indices = [0, 2], fc_temperature = 0, fc_remasking = ''low_confidence''\<rparr>"

lemma demo_model_ok: "model_ok demo_model" "rowwise (demo_sample temp)"
proof -
  show "model_ok demo_model" by (simp add: model_ok_def demo_model_def layer_ok_def demo_layer_def mat_add_def)
  show "rowwise (demo_sample temp)"
    unfolding rowwise_def by (rule exI [of _ "\<lambda>r. (int (length r), sum_list r + temp)"]) (simp add: demo_sample_def)
qed

lemma demo_tensors_fit: "tensors_fit None n k (demo_tensors None n k)"
  "tensors_fit (Some demo_strategy) n k (demo_tensors (Some demo_strategy) n k)"
  by (simp_all add: tensors_fit_def demo_tensors_def mlp_fits_def logits_fit_def demo_strategy_def Let_def)

lemma demo_call:
  "single_call dream_mask_token [3, 4, dream_mask_token, 5, dream_mask_token] demo_context 2 3"
  "single_call 9 [3, 4, 9, 5, 9] demo_context 2 3"
  by (simp_all add: single_call_def demo_context_def mask_positions_def dream_mask_token_def upt_rec)


theorem dream_foreign_mask_raises_witness:
  "dream_forward demo_model demo_sample (demo_alloc None) [3, 4, 9, 5, 9] demo_context = Inl AssertionError \<and>
   dream_forward demo_model demo_sample (demo_alloc (Some demo_strategy)) [3, 4, 9, 5, 9] demo_context =
     Inl ValueError"
proof -
  have al: "demo_alloc s (2 + 3) (int (length (fc_mask_indices demo_context))) =
      Some (s, demo_tensors s (length [3, 4, 9, 5, 9 :: int]) (length (fc_mask_indices demo_context)))" for s
    by (simp add: demo_alloc_def numeral_eq_Suc)
  have "dream_mask_token \<notin> set (drop (nat 2) [3, 4, 9, 5, 9])" by (simp add: dream_mask_token_def)
  from dream_foreign_mask_raises [where alloc = "demo_alloc None", OF demo_model_ok(1) demo_call(2) this al demo_tensors_fit(1)]
    dream_foreign_mask_raises [where alloc = "demo_alloc (Some demo_strategy)", OF demo_model_ok(1) demo_call(2) this al demo_tensors_fit(2)]
  show ?thesis by (simp add: demo_strategy_def)
qed

end
