(* ===== verification/Moe_Align.thy ===== *)
theory Moe_Align
  imports Gather_Gemm
begin

text \<open>
  Sorting token-expert pairs by expert and padding them to whole blocks: the wrapper
  \<^verbatim>\<open>vllm/model_executor/layers/fused_moe/moe_align_block_size.py\<close> and the operator it calls,
  \<^verbatim>\<open>csrc/moe/moe_align_sum_kernels.cu\<close>. The operator counts the pairs of every expert, rounds the counts
  up to whole blocks, takes prefix sums, labels the blocks with their expert and scatters the pairs.
  On large inputs the scatter uses atomic counters, so the order in which the pairs reach their
  expert's segment is not fixed: it is a parameter (\<open>sched\<close>). On small inputs every thread has
  counters of its own. Indices are natural numbers.

  Shown here: whatever the order, every pair lands in a block of its expert, exactly as the kernels that
  consume the result rely on (\<open>aligned_for\<close>), and the padded pairs fit the array the wrapper allocates.
\<close>

section \<open>The operator\<close>

definition padded_count :: "nat list \<Rightarrow> nat \<Rightarrow> nat \<Rightarrow> nat" where
  "padded_count topk_ids block_size e = cdiv (count_list topk_ids e) block_size * block_size"

definition cumsum :: "nat list \<Rightarrow> nat \<Rightarrow> nat \<Rightarrow> nat" where
  "cumsum topk_ids block_size e = sum_list (map (padded_count topk_ids block_size) [0..<e])"

text \<open>The thread of an expert labels the blocks of its segment; the remaining labels are 0.\<close>

definition label_blocks :: "nat list \<Rightarrow> nat \<Rightarrow> nat \<Rightarrow> nat \<Rightarrow> int" where
  "label_blocks topk_ids num_experts block_size =
     fold (\<lambda>e f. fold (\<lambda>m f. f((cumsum topk_ids block_size e + m * block_size) div block_size := int e))
                   [0..<cdiv (cumsum topk_ids block_size (Suc e) - cumsum topk_ids block_size e) block_size] f)
       [0..<num_experts] (\<lambda>_. 0)"

text \<open>One pair taking the next place of its expert's segment.\<close>

definition take_place :: "nat list \<Rightarrow> nat \<Rightarrow> (nat \<Rightarrow> nat) \<times> (nat \<Rightarrow> nat) \<Rightarrow> (nat \<Rightarrow> nat) \<times> (nat \<Rightarrow> nat)" where
  "take_place topk_ids i s =
     (let expert_id = topk_ids ! i; rank_post_pad = fst s expert_id
      in ((fst s)(expert_id := rank_post_pad + 1), (snd s)(rank_post_pad := i)))"

definition count_and_sort_expert_tokens :: "nat list \<Rightarrow> nat \<Rightarrow> nat list \<Rightarrow> nat \<Rightarrow> nat" where
  "count_and_sort_expert_tokens topk_ids block_size sched =
     snd (fold (take_place topk_ids) sched (cumsum topk_ids block_size, \<lambda>_. length topk_ids))"

text \<open>The kernel for small batches: thread \<open>tid\<close> handles every \<open>threads\<close>-th pair and starts behind the pairs of
  the threads before it.\<close>

definition thread_pairs :: "nat \<Rightarrow> nat \<Rightarrow> nat \<Rightarrow> nat list" where
  "thread_pairs numel threads tid = filter (\<lambda>i. i mod threads = tid) [0..<numel]"

definition tokens_cnts :: "nat list \<Rightarrow> nat \<Rightarrow> nat \<Rightarrow> nat \<Rightarrow> nat" where
  "tokens_cnts topk_ids threads tid e =
     (\<Sum>t\<leftarrow>[0..<tid]. count_list (map (\<lambda>i. topk_ids ! i) (thread_pairs (length topk_ids) threads t)) e)"

definition small_batch_sort :: "nat list \<Rightarrow> nat \<Rightarrow> nat \<Rightarrow> nat \<Rightarrow> nat" where
  "small_batch_sort topk_ids block_size threads =
     fold (\<lambda>tid srt. snd (fold (take_place topk_ids) (thread_pairs (length topk_ids) threads tid)
              (\<lambda>e. tokens_cnts topk_ids threads tid e + cumsum topk_ids block_size e, srt)))
       [0..<threads] (\<lambda>_. length topk_ids)"

definition align_op :: "(nat \<Rightarrow> nat list) \<Rightarrow> nat list \<Rightarrow> nat \<Rightarrow> nat \<Rightarrow> ((nat \<Rightarrow> nat) \<times> (nat \<Rightarrow> int) \<times> nat) result" where
  "align_op sched topk_ids num_experts block_size =
     (let padded_num_experts = (num_experts + 32 - 1) div 32 * 32; numel = length topk_ids
      in if 1024 \<le> padded_num_experts then Inl RuntimeError
         else Inr (if numel < 1024 \<and> num_experts \<le> 64
                   then small_batch_sort topk_ids block_size (max num_experts 32)
                   else count_and_sort_expert_tokens topk_ids block_size (sched numel),
                   label_blocks topk_ids num_experts block_size, cumsum topk_ids block_size num_experts))"

section \<open>The wrapper\<close>

record aligned =
  sorted_token_ids :: "nat \<Rightarrow> nat"
  sorted_size :: nat
  expert_ids :: "nat \<Rightarrow> int"
  num_tokens_post_padded :: nat

text \<open>\<^verbatim>\<open>moe_align_block_size\<close> without an expert map and without padding the array, on the flattened expert
  indices.\<close>

definition moe_align_block_size :: "(nat \<Rightarrow> nat list) \<Rightarrow> nat list \<Rightarrow> nat \<Rightarrow> nat \<Rightarrow> aligned result" where
  "moe_align_block_size sched topk_ids block_size num_experts =
     (let max_num_tokens_padded = length topk_ids + num_experts * (block_size - 1)
      in bind_res (align_op sched topk_ids num_experts block_size) (\<lambda>(sorted_ids, experts, num_tokens_post_pad).
           Inr \<lparr>sorted_token_ids = sorted_ids, sorted_size = max_num_tokens_padded, expert_ids = experts,
                num_tokens_post_padded = num_tokens_post_pad\<rparr>))"

text \<open>What the consumers rely on: every pair has a place, a place that holds a pair lies in a block of the
  pair's expert, and there are not more blocks than the array and the number of pairs allow.\<close>

definition aligned_for :: "aligned \<Rightarrow> nat \<Rightarrow> nat list \<Rightarrow> bool" where
  "aligned_for al block_size ids \<longleftrightarrow>
     (\<forall>t < length ids. \<exists>i < num_tokens_post_padded al. sorted_token_ids al i = t) \<and>
     (\<forall>i < num_tokens_post_padded al. sorted_token_ids al i < length ids \<longrightarrow>
        expert_ids al (i div block_size) = int (ids ! sorted_token_ids al i)) \<and>
     block_size dvd num_tokens_post_padded al \<and>
     num_tokens_post_padded al \<le> sorted_size al \<and> num_tokens_post_padded al \<le> length ids * block_size"

section \<open>Segments\<close>

lemma cdiv_le: "0 < b \<Longrightarrow> cdiv a b * b \<le> a + (b - 1)" "0 < b \<Longrightarrow> cdiv a b \<le> a"
proof -
  assume b: "0 < b"
  have "(a + b - 1) div b * b \<le> a + b - 1" by simp
  then show "cdiv a b * b \<le> a + (b - 1)" using b by (simp add: cdiv_def)
  show "cdiv a b \<le> a"
  proof (cases a)
    case (Suc a')
    have "a' div b \<le> a'" by simp
    then show ?thesis using b Suc by (simp add: cdiv_def)
  qed (use b in \<open>simp add: cdiv_def\<close>)
qed

lemma cumsum_Suc [simp]: "cumsum ids b (Suc e) = cumsum ids b e + padded_count ids b e"
  by (simp add: cumsum_def)

lemma cumsum_mono: "e \<le> e' \<Longrightarrow> cumsum ids b e \<le> cumsum ids b e'"
  by (induction e' rule: dec_induct) auto

lemma cumsum_dvd: "b dvd cumsum ids b e"
  by (induction e) (simp_all add: cumsum_def padded_count_def)

lemma count_padded: "0 < b \<Longrightarrow> count_list ids e \<le> padded_count ids b e"
  by (simp add: padded_count_def cdiv_covers)

lemma cdiv_mult [simp]: "0 < b \<Longrightarrow> cdiv (k * b) b = k"
proof -
  assume b: "0 < b"
  then have "k * b + b - 1 = (b - 1) + k * b" by simp
  then have "cdiv (k * b) b = ((b - 1) + k * b) div b" by (simp only: cdiv_def)
  also have "\<dots> = k" using b by (subst div_mult_self1) simp_all
  finally show ?thesis .
qed

lemma sum_count_list: "\<forall>e \<in> set ids. e < (E::nat) \<Longrightarrow> (\<Sum>e<E. count_list ids e) = length ids"
proof (induction ids)
  case (Cons x ids)
  have "(\<Sum>e<E. count_list (x # ids) e) = (\<Sum>e<E. (if x = e then 1 else 0) + count_list ids e)"
    by (intro sum.cong) auto
  also have "\<dots> = 1 + length ids" using Cons by (simp add: sum.distrib)
  finally show ?case by simp
qed simp

lemma cumsum_sum: "cumsum ids b E = (\<Sum>e<E. padded_count ids b e)"
  by (induction E) (simp_all add: cumsum_def)

lemma cumsum_bounds:
  assumes "0 < b" "\<forall>e \<in> set ids. e < E"
  shows "cumsum ids b E \<le> length ids + E * (b - 1)" "cumsum ids b E \<le> length ids * b"
proof -
  have "cumsum ids b E \<le> (\<Sum>e<E. count_list ids e + (b - 1))"
    unfolding cumsum_sum padded_count_def by (intro sum_mono cdiv_le(1) assms(1))
  then show "cumsum ids b E \<le> length ids + E * (b - 1)" using sum_count_list [OF assms(2)] by (simp add: sum.distrib)
  have "cumsum ids b E \<le> (\<Sum>e<E. count_list ids e * b)"
    unfolding cumsum_sum padded_count_def by (intro sum_mono mult_right_mono cdiv_le(2) assms(1)) simp
  then show "cumsum ids b E \<le> length ids * b" using sum_count_list [OF assms(2)] by (simp add: sum_distrib_right [symmetric])
qed

text \<open>A place lies in the segment of one expert only.\<close>

definition in_segment :: "nat list \<Rightarrow> nat \<Rightarrow> nat \<Rightarrow> nat \<Rightarrow> bool" where
  "in_segment ids b e i \<longleftrightarrow> cumsum ids b e \<le> i \<and> i < cumsum ids b (Suc e)"

lemma segment_unique: "in_segment ids b e i \<Longrightarrow> in_segment ids b e' i \<Longrightarrow> e = e'"
proof (rule ccontr)
  assume a: "in_segment ids b e i" "in_segment ids b e' i" "e \<noteq> e'"
  then consider "Suc e \<le> e'" | "Suc e' \<le> e" by linarith
  then show False using a(1,2) cumsum_mono [of "Suc e" e' ids b] cumsum_mono [of "Suc e'" e ids b]
    by cases (auto simp: in_segment_def)
qed

section \<open>Labels\<close>

lemma fold_const: "fold (\<lambda>m f. f(A m := v)) xs f k = (if k \<in> A ` set xs then v else f k)"
  by (induction xs arbitrary: f) auto

lemma label_blocks_ok:
  assumes b: "0 < b" and e: "e < E" "in_segment ids b e (k * b)"
  shows "label_blocks ids E b k = int e"
  using e
proof (induction E)
  case (Suc E)
  let ?A = "\<lambda>m. (cumsum ids b E + m * b) div b"
  let ?n = "cdiv (cumsum ids b (Suc E) - cumsum ids b E) b"
  obtain q where q: "cumsum ids b E = q * b" using cumsum_dvd [of b ids E] by (metis dvdE mult.commute)
  have A: "?A m = q + m" for m using b unfolding q by (simp add: add_mult_distrib [symmetric])
  have n: "?n = cdiv (count_list ids E) b" using b by (simp add: padded_count_def)
  have step: "label_blocks ids (Suc E) b k = (if k \<in> ?A ` set [0..<?n] then int E else label_blocks ids E b k)"
    by (simp add: label_blocks_def fold_const)
  show ?case
  proof (cases "e = E")
    case True
    then have "q * b \<le> k * b" "k * b < q * b + cdiv (count_list ids E) b * b"
      using Suc.prems(2) q by (auto simp: in_segment_def padded_count_def)
    then have k: "q \<le> k" "k * b < (q + cdiv (count_list ids E) b) * b" using b by (simp_all add: add_mult_distrib)
    then have "k - q < ?n" using b n by auto
    then show ?thesis using step True k(1) unfolding A by (force simp: image_iff)
  next
    case False
    then have e: "e < E" using Suc.prems(1) by simp
    then have "k * b < q * b"
      using Suc.prems(2) cumsum_mono [of "Suc e" E ids b] q unfolding in_segment_def by linarith
    then have "k < q" by simp
    then show ?thesis using step Suc.IH [OF e Suc.prems(2)] unfolding A by auto
  qed
qed simp

lemma segment_block:
  assumes "0 < b" "in_segment ids b e i"
  shows "in_segment ids b e (i div b * b)"
proof -
  obtain q where q: "cumsum ids b e = q * b" using cumsum_dvd [of b ids e] by (metis dvdE mult.commute)
  then have "q \<le> i div b" using assms by (simp add: in_segment_def less_eq_div_iff_mult_less_eq)
  then have "q * b \<le> i div b * b" by simp
  moreover have "i div b * b \<le> i" by simp
  ultimately show ?thesis using assms(2) q unfolding in_segment_def by linarith
qed

section \<open>Sorting\<close>

lemma count_positions:
  assumes "distinct ps"
  shows "count_list (map (\<lambda>i. ids ! i) ps) e = card {i \<in> set ps. ids ! i = e}"
  using assms
proof (induction ps)
  case (Cons p ps)
  have "{i \<in> set (p # ps). ids ! i = e} = (if ids ! p = e then insert p else id) {i \<in> set ps. ids ! i = e}" by auto
  then show ?case using Cons by simp
qed simp

lemma count_le:
  assumes "distinct ps" "set ps \<subseteq> {..<length ids}"
  shows "count_list (map (\<lambda>i. ids ! i) ps) e \<le> count_list ids e"
proof -
  have "count_list ids e = card {i \<in> {..<length ids}. ids ! i = e}"
    using count_positions [of "[0..<length ids]" ids e] by (simp add: map_nth atLeast0LessThan)
  moreover have "card {i \<in> set ps. ids ! i = e} \<le> card {i \<in> {..<length ids}. ids ! i = e}"
    using assms(2) by (intro card_mono) auto
  ultimately show ?thesis unfolding count_positions [OF assms(1)] by simp
qed

text \<open>The invariant of the scatter: the counters, and what lies in front of them.\<close>

definition sorted_inv :: "nat list \<Rightarrow> nat \<Rightarrow> nat list \<Rightarrow> (nat \<Rightarrow> nat) \<times> (nat \<Rightarrow> nat) \<Rightarrow> bool" where
  "sorted_inv ids b ps s \<longleftrightarrow>
     (\<forall>e. fst s e = cumsum ids b e + count_list (map (\<lambda>i. ids ! i) ps) e) \<and>
     (\<forall>i \<in> set ps. \<exists>q. snd s q = i \<and> cumsum ids b (ids ! i) \<le> q \<and> q < fst s (ids ! i)) \<and>
     (\<forall>q. snd s q < length ids \<longrightarrow> cumsum ids b (ids ! snd s q) \<le> q \<and> q < fst s (ids ! snd s q))"

lemma take_place_inv:
  assumes b: "0 < b" and ps: "distinct (ps @ [i])" "set (ps @ [i]) \<subseteq> {..<length ids}" and inv: "sorted_inv ids b ps s"
  shows "sorted_inv ids b (ps @ [i]) (take_place ids i s)"
proof -
  let ?e = "ids ! i"
  let ?q = "fst s ?e"
  have cs: "fst s e = cumsum ids b e + count_list (map (\<lambda>i. ids ! i) ps) e" for e using inv by (simp add: sorted_inv_def)
  have "count_list (map (\<lambda>i. ids ! i) (ps @ [i])) ?e \<le> padded_count ids b ?e"
    using count_le [OF ps, of ?e] count_padded [OF b, of ids ?e] by (rule order_trans)
  then have seg: "in_segment ids b ?e ?q" using cs [of ?e] by (simp add: in_segment_def)
  have fresh: "q \<noteq> ?q" if q: "cumsum ids b e \<le> q" "q < fst s e" for e q
  proof
    assume eq: "q = ?q"
    have "count_list (map (\<lambda>i. ids ! i) ps) e \<le> padded_count ids b e"
      using count_le [of ps ids e] ps count_padded [OF b, of ids e] by (auto intro: order_trans)
    then have "in_segment ids b e q" using q cs [of e] by (simp add: in_segment_def)
    then have "e = ?e" using segment_unique seg eq by blast
    then show False using q(2) eq by simp
  qed
  show ?thesis
    unfolding sorted_inv_def
  proof (intro conjI allI ballI impI)
    show "fst (take_place ids i s) e = cumsum ids b e + count_list (map (\<lambda>i. ids ! i) (ps @ [i])) e" for e
      using cs [of e] cs [of ?e] by (simp add: take_place_def Let_def)
  next
    fix j assume "j \<in> set (ps @ [i])"
    show "\<exists>q. snd (take_place ids i s) q = j \<and> cumsum ids b (ids ! j) \<le> q \<and> q < fst (take_place ids i s) (ids ! j)"
    proof (cases "j = i")
      case True
      then show ?thesis using cs [of ?e] by (intro exI [of _ ?q]) (simp add: take_place_def Let_def)
    next
      case False
      then have "j \<in> set ps" using \<open>j \<in> set (ps @ [i])\<close> by simp
      then obtain q where "snd s q = j" "cumsum ids b (ids ! j) \<le> q" "q < fst s (ids ! j)"
        using inv by (auto simp: sorted_inv_def)
      then show ?thesis using fresh [of "ids ! j" q]
        by (intro exI [of _ q]) (auto simp: take_place_def Let_def)
    qed
  next
    fix q assume "snd (take_place ids i s) q < length ids"
    then have "q = ?q \<or> snd (take_place ids i s) q = snd s q \<and> snd s q < length ids"
      by (simp add: take_place_def Let_def split: if_splits)
    then show "cumsum ids b (ids ! snd (take_place ids i s) q) \<le> q" "q < fst (take_place ids i s) (ids ! snd (take_place ids i s) q)"
      using inv cs [of ?e] by (auto simp: sorted_inv_def take_place_def Let_def)
  qed
qed

lemma sort_inv:
  assumes "0 < b" "distinct ps" "set ps \<subseteq> {..<length ids}"
  shows "sorted_inv ids b ps (fold (take_place ids) ps (cumsum ids b, \<lambda>_. length ids))"
  using assms(2,3)
proof (induction ps rule: rev_induct)
  case (snoc i ps)
  then have "sorted_inv ids b ps (fold (take_place ids) ps (cumsum ids b, \<lambda>_. length ids))" by simp
  from take_place_inv [OF assms(1) snoc.prems this] show ?case by simp
qed (simp add: sorted_inv_def)

text \<open>The small kernel is the scatter in thread order.\<close>

definition thread_order :: "nat \<Rightarrow> nat \<Rightarrow> nat \<Rightarrow> nat list" where
  "thread_order numel threads n = concat (map (thread_pairs numel threads) [0..<n])"

lemma take_places_counters:
  "fst (fold (take_place ids) ps s) e = fst s e + count_list (map (\<lambda>i. ids ! i) ps) e"
  by (induction ps arbitrary: s) (auto simp: take_place_def Let_def)

lemma small_batch_fold:
  "fold (\<lambda>tid srt. snd (fold (take_place ids) (thread_pairs (length ids) threads tid)
       (\<lambda>e. tokens_cnts ids threads tid e + cumsum ids b e, srt))) [0..<n] (\<lambda>_. length ids) =
   snd (fold (take_place ids) (thread_order (length ids) threads n) (cumsum ids b, \<lambda>_. length ids))"
proof (induction n)
  case (Suc n)
  let ?s = "fold (take_place ids) (thread_order (length ids) threads n) (cumsum ids b, \<lambda>_. length ids)"
  have "fst ?s e = tokens_cnts ids threads n e + cumsum ids b e" for e
    unfolding take_places_counters
    by (simp add: tokens_cnts_def thread_order_def map_concat count_list_concat comp_def)
  then have "(\<lambda>e. tokens_cnts ids threads n e + cumsum ids b e, snd ?s) = ?s" by (simp add: prod_eq_iff fun_eq_iff)
  then show ?case using Suc by (simp add: thread_order_def)
qed (simp add: thread_order_def)

lemma thread_order_all:
  assumes "0 < threads"
  shows "distinct (thread_order n threads threads)" "set (thread_order n threads threads) = {..<n}"
proof -
  show "set (thread_order n threads threads) = {..<n}" using assms by (auto simp: thread_order_def thread_pairs_def)
  have "distinct (thread_order n threads k)" for k
  proof (induction k)
    case (Suc k)
    then show ?case by (auto simp: thread_order_def thread_pairs_def)
  qed (simp add: thread_order_def)
  then show "distinct (thread_order n threads threads)" .
qed

section \<open>The result of the wrapper\<close>

text \<open>The atomic counters serve every pair once.\<close>

definition sched_ok :: "(nat \<Rightarrow> nat list) \<Rightarrow> bool" where
  "sched_ok sched \<longleftrightarrow> (\<forall>n. distinct (sched n) \<and> set (sched n) = {..<n})"

lemma moe_align_aligned:
  assumes "sched_ok sched" "0 < block_size" "\<forall>e \<in> set ids. e < num_experts" "num_experts \<le> 992"
  shows "\<exists>al. moe_align_block_size sched ids block_size num_experts = Inr al \<and> aligned_for al block_size ids"
proof -
  let ?srt = "if length ids < 1024 \<and> num_experts \<le> 64 then small_batch_sort ids block_size (max num_experts 32)
    else count_and_sort_expert_tokens ids block_size (sched (length ids))"
  let ?al = "\<lparr>sorted_token_ids = ?srt, sorted_size = length ids + num_experts * (block_size - 1),
    expert_ids = label_blocks ids num_experts block_size, num_tokens_post_padded = cumsum ids block_size num_experts\<rparr>"
  have "(num_experts + 32 - 1) div 32 * 32 < 1024" using assms(4) by linarith
  then have al: "moe_align_block_size sched ids block_size num_experts = Inr ?al"
    by (simp add: moe_align_block_size_def align_op_def Let_def not_le)
  obtain ps where ps: "?srt = snd (fold (take_place ids) ps (cumsum ids block_size, \<lambda>_. length ids))"
    "distinct ps" "set ps = {..<length ids}"
  proof (cases "length ids < 1024 \<and> num_experts \<le> 64")
    case True
    then show thesis
      using that [of "thread_order (length ids) (max num_experts 32) (max num_experts 32)"] thread_order_all
      by (simp add: small_batch_sort_def small_batch_fold)
  next
    case False
    then show thesis using that [of "sched (length ids)"] assms(1) by (auto simp: count_and_sort_expert_tokens_def sched_ok_def)
  qed
  define st where "st = fold (take_place ids) ps (cumsum ids block_size, \<lambda>_. length ids)"
  have inv: "sorted_inv ids block_size ps st" unfolding st_def using sort_inv [OF assms(2) ps(2)] ps(3) by simp
  have seg: "in_segment ids block_size (ids ! i) q" if "cumsum ids block_size (ids ! i) \<le> q" "q < fst st (ids ! i)" for i q
  proof -
    have "count_list (map (\<lambda>i. ids ! i) ps) (ids ! i) \<le> padded_count ids block_size (ids ! i)"
      using count_le [OF ps(2), of ids "ids ! i"] ps(3) count_padded [OF assms(2), of ids "ids ! i"] by simp
    then show ?thesis using that inv by (auto simp: sorted_inv_def in_segment_def)
  qed
  have post: "q < cumsum ids block_size num_experts" if "in_segment ids block_size e q" "e < num_experts" for e q
    using that cumsum_mono [of "Suc e" num_experts ids block_size] by (simp add: in_segment_def)
  have "\<exists>q < cumsum ids block_size num_experts. ?srt q = t" if t: "t < length ids" for t
  proof -
    obtain q where q: "snd st q = t" "cumsum ids block_size (ids ! t) \<le> q" "q < fst st (ids ! t)"
      using inv t ps(3) unfolding sorted_inv_def by blast
    have "q < cumsum ids block_size num_experts" using post [OF seg [OF q(2,3)]] assms(3) t by simp
    then show ?thesis unfolding ps(1) using q(1) unfolding st_def by blast
  qed
  moreover have "label_blocks ids num_experts block_size (q div block_size) = int (ids ! ?srt q)" if q: "?srt q < length ids" for q
  proof -
    have "in_segment ids block_size (ids ! ?srt q) q"
      using inv q ps(1) seg unfolding st_def [symmetric] by (auto simp: sorted_inv_def)
    then show ?thesis
      using label_blocks_ok [OF assms(2) _ segment_block [OF assms(2)]] assms(3) q by auto
  qed
  ultimately have "aligned_for ?al block_size ids"
    using cumsum_bounds [OF assms(2,3)] cumsum_dvd by (simp add: aligned_for_def)
  then show ?thesis using al by blast
qed

section \<open>Properties\<close>



end
