(* ===== verification/Fused_Experts.thy ===== *)
theory Fused_Experts
  imports Moe_Align
begin

text \<open>
  The expert layer of LLaDA-MoE, \<^verbatim>\<open>vllm_add_llada_moe/fused_moe_minimal.py\<close>, over the Triton kernel of
  \<^verbatim>\<open>vllm/model_executor/layers/fused_moe/fused_moe.py\<close>. Every token is sent to several experts; the
  token-expert pairs are sorted by expert and padded to whole blocks, so that each program of the kernel
  multiplies one block of pairs with the weight of a single expert. The kernel is modelled program by
  program for the way this layer calls it (no quantisation, no bias). Tensors are memories addressed
  through strides, entries are exact rationals.

  The main property: whatever the caches held before, and in whatever order the programs run, the layer
  computes the weighted sum of the selected experts.
\<close>

section \<open>The kernel\<close>

record moe_args =
  ma_a :: "nat \<Rightarrow> rat"
  ma_b :: "nat \<Rightarrow> rat"
  ma_topk_weights :: "nat \<Rightarrow> rat"
  ma_align :: aligned
  ma_N :: nat
  ma_K :: nat
  ma_EM :: nat
  num_valid_tokens :: nat
  stride_am :: nat
  stride_ak :: nat
  stride_be :: nat
  stride_bk :: nat
  stride_bn :: nat
  stride_cm :: nat
  stride_cn :: nat
  mul_routed_weight :: bool
  ma_top_k :: nat

definition moe_program_tile :: "nat \<Rightarrow> nat \<Rightarrow> nat \<Rightarrow> nat \<Rightarrow> nat \<times> nat" where
  "moe_program_tile num_pid_m num_pid_n group_size pid =
     (let num_pid_in_group = group_size * num_pid_n;
          group_id = pid div num_pid_in_group;
          first_pid_m = group_id * group_size;
          group_size_m = min (num_pid_m - first_pid_m) group_size
      in (first_pid_m + (pid mod num_pid_in_group) mod group_size_m, (pid mod num_pid_in_group) div group_size_m))"

definition moe_load_a :: "moe_args \<Rightarrow> gemm_config \<Rightarrow> nat \<Rightarrow> nat \<Rightarrow> nat \<Rightarrow> nat \<Rightarrow> rat" where
  "moe_load_a a c pid_m k r kk =
     (let offs_token = sorted_token_ids (ma_align a) (pid_m * BLOCK_SIZE_M c + r)
      in if offs_token < num_valid_tokens a \<and> kk < ma_K a - k * BLOCK_SIZE_K c
         then ma_a a (offs_token div ma_top_k a * stride_am a + kk * stride_ak a + k * (BLOCK_SIZE_K c * stride_ak a)) else 0)"

definition moe_load_b :: "moe_args \<Rightarrow> gemm_config \<Rightarrow> nat \<Rightarrow> nat \<Rightarrow> nat \<Rightarrow> nat \<Rightarrow> nat \<Rightarrow> rat" where
  "moe_load_b a c off_experts pid_n k kk s =
     (let offs_bn = (pid_n * BLOCK_SIZE_N c + s) mod ma_N a
      in if kk < ma_K a - k * BLOCK_SIZE_K c
         then ma_b a (off_experts * stride_be a + (kk * stride_bk a + offs_bn * stride_bn a) +
                k * (BLOCK_SIZE_K c * stride_bk a)) else 0)"

definition moe_accumulator :: "moe_args \<Rightarrow> gemm_config \<Rightarrow> nat \<Rightarrow> nat \<Rightarrow> nat \<Rightarrow> nat \<Rightarrow> nat \<Rightarrow> rat" where
  "moe_accumulator a c off_experts pid_m pid_n r s =
     (let acc = fold (\<lambda>k acc. acc + tile_dot (BLOCK_SIZE_K c) (moe_load_a a c pid_m k) (moe_load_b a c off_experts pid_n k) r s)
                  [0..<cdiv (ma_K a) (BLOCK_SIZE_K c)] 0;
          offs_token = sorted_token_ids (ma_align a) (pid_m * BLOCK_SIZE_M c + r)
      in if mul_routed_weight a
         then acc * (if offs_token < num_valid_tokens a then ma_topk_weights a offs_token else 0) else acc)"

text \<open>A program returns at once when its block lies behind the padded pairs; the block of an expert that is
  not on this rank is filled with zeros.\<close>

definition fused_moe_kernel :: "moe_args \<Rightarrow> gemm_config \<Rightarrow> nat \<Rightarrow> (nat \<Rightarrow> rat) \<Rightarrow> nat \<Rightarrow> rat" where
  "fused_moe_kernel a c pid out =
     (let (pid_m, pid_n) = moe_program_tile (cdiv (ma_EM a) (BLOCK_SIZE_M c)) (cdiv (ma_N a) (BLOCK_SIZE_N c))
            (GROUP_SIZE_M c) pid
      in if num_tokens_post_padded (ma_align a) \<le> pid_m * BLOCK_SIZE_M c then out
         else let off_experts = expert_ids (ma_align a) pid_m
              in fold (\<lambda>(r, s) out.
                   let offs_token = sorted_token_ids (ma_align a) (pid_m * BLOCK_SIZE_M c + r);
                       offs_cn = pid_n * BLOCK_SIZE_N c + s
                   in if offs_token < num_valid_tokens a \<and> offs_cn < ma_N a
                      then out(stride_cm a * offs_token + stride_cn a * offs_cn :=
                             if off_experts = - 1 then 0
                             else moe_accumulator a c (nat off_experts) pid_m pid_n r s)
                      else out)
                 (List.product [0..<BLOCK_SIZE_M c] [0..<BLOCK_SIZE_N c]) out)"

text \<open>\<^verbatim>\<open>invoke_fused_moe_kernel\<close>: \<open>a_rows\<close> tokens of \<open>K\<close> features, the experts' weights as a contiguous
  tensor of shape (E, N, K), and an output of shape (rows, top_k, N). The programs run in some order.\<close>

definition moe_EM :: "gemm_config \<Rightarrow> nat \<Rightarrow> nat \<Rightarrow> aligned \<Rightarrow> nat" where
  "moe_EM c a_rows top_k al =
     (if a_rows < BLOCK_SIZE_M c then min (sorted_size al) (a_rows * top_k * BLOCK_SIZE_M c) else sorted_size al)"

definition moe_grid_size :: "moe_args \<Rightarrow> gemm_config \<Rightarrow> nat" where
  "moe_grid_size a c = cdiv (ma_EM a) (BLOCK_SIZE_M c) * cdiv (ma_N a) (BLOCK_SIZE_N c)"

definition moe_kernel_args ::
  "gemm_config \<Rightarrow> nat \<Rightarrow> nat \<Rightarrow> nat \<Rightarrow> (nat \<Rightarrow> rat) \<Rightarrow> (nat \<Rightarrow> rat) \<Rightarrow> (nat \<Rightarrow> rat) \<Rightarrow> aligned \<Rightarrow> bool \<Rightarrow> nat \<Rightarrow> moe_args" where
  "moe_kernel_args c a_rows N K A B topk_weights al mul top_k =
     \<lparr>ma_a = A, ma_b = B, ma_topk_weights = topk_weights, ma_align = al, ma_N = N, ma_K = K,
      ma_EM = moe_EM c a_rows top_k al, num_valid_tokens = a_rows * top_k, stride_am = K, stride_ak = 1,
      stride_be = N * K, stride_bk = 1, stride_bn = K, stride_cm = N, stride_cn = 1,
      mul_routed_weight = mul, ma_top_k = top_k\<rparr>"

definition invoke_fused_moe_kernel ::
  "gemm_config \<Rightarrow> (nat \<Rightarrow> nat list) \<Rightarrow> nat \<Rightarrow> nat \<Rightarrow> nat \<Rightarrow> (nat \<Rightarrow> rat) \<Rightarrow> (nat \<Rightarrow> rat) \<Rightarrow> (nat \<Rightarrow> rat) \<Rightarrow>
     aligned \<Rightarrow> bool \<Rightarrow> nat \<Rightarrow> (nat \<Rightarrow> rat) \<Rightarrow> nat \<Rightarrow> rat" where
  "invoke_fused_moe_kernel c order a_rows N K A B topk_weights al mul top_k C =
     (let a = moe_kernel_args c a_rows N K A B topk_weights al mul top_k
      in fold (fused_moe_kernel a c) (order (moe_grid_size a c)) C)"

section \<open>Every tile of the output has a program\<close>

lemma moe_tile_onto:
  assumes "0 < G" "i < m" "j < n"
  shows "\<exists>pid < m * n. moe_program_tile m n G pid = (i, j)"
proof -
  define g where "g = i div G"
  define gs where "gs = min (m - g * G) G"
  define off where "off = i - g * G + gs * j"
  have gi: "g * G \<le> i" "i < g * G + G" using dividend_less_div_times [OF assms(1), of i] by (simp_all add: g_def)
  then have lt: "i - g * G < gs" using assms(2) by (auto simp: gs_def)
  then have "off < gs * Suc j" by (simp add: off_def)
  also have "\<dots> \<le> gs * n" using assms(3) by (intro mult_left_mono) auto
  finally have off: "off < gs * n" .
  have n: "0 < n" using assms(3) by simp
  have "gs * n \<le> G * n" by (intro mult_right_mono) (simp_all add: gs_def)
  then have offG: "off < G * n" using off by linarith
  let ?pid = "g * (G * n) + off"
  have q: "?pid div (G * n) = g" "?pid mod (G * n) = off" 
    using offG div_mult_self3 [of "G * n" g off] assms(1) n by (simp_all add: add.commute)
  have "off mod gs = i - g * G" "off div gs = j" using lt by (simp_all add: off_def)
  then have "moe_program_tile m n G ?pid = (i, j)"
    using gi(1) unfolding moe_program_tile_def Let_def q gs_def [symmetric] by simp
  moreover have "?pid < m * n"
  proof -
    have "g * G + gs \<le> m" using gi assms(2) by (simp add: gs_def)
    then have "(g * G + gs) * n \<le> m * n" by (rule mult_right_mono) simp
    then show ?thesis using off by (simp add: algebra_simps)
  qed
  ultimately show ?thesis by blast
qed

section \<open>What the kernel computes\<close>

text \<open>The product of a pair's token with the weight of its expert.\<close>

definition pair_product :: "moe_args \<Rightarrow> nat \<Rightarrow> nat \<Rightarrow> nat \<Rightarrow> rat" where
  "pair_product a e t j =
     (\<Sum>k<ma_K a. ma_a a (t div ma_top_k a * stride_am a + k * stride_ak a) *
        ma_b a (e * stride_be a + (k * stride_bk a + j * stride_bn a)))"

lemma sum_in_tiles:
  assumes "0 < b"
  shows "(\<Sum>k<cdiv K b. \<Sum>kk<b. if k * b + kk < K then h (k * b + kk) else (0::rat)) = (\<Sum>t<K. h t)"
proof -
  have "(\<Sum>k<cdiv K b. \<Sum>kk<b. if k * b + kk < K then h (k * b + kk) else 0) =
      (\<Sum>k<cdiv K b. sum (\<lambda>t. if t < K then h t else 0) {k * b..<k * b + b})"
    by (simp add: sum_interval_shift)
  also have "\<dots> = (\<Sum>t<cdiv K b * b. if t < K then h t else 0)" by (rule sum.nat_group)
  also have "\<dots> = (\<Sum>t<K. h t)"
    using cdiv_covers [OF assms, of K] by (intro sum.mono_neutral_cong_right) auto
  finally show ?thesis .
qed

lemma moe_accumulator_product:
  assumes "0 < BLOCK_SIZE_K c" "pid_n * BLOCK_SIZE_N c + s < ma_N a"
    and t: "sorted_token_ids (ma_align a) (pid_m * BLOCK_SIZE_M c + r) = t" "t < num_valid_tokens a"
  shows "moe_accumulator a c e pid_m pid_n r s =
    pair_product a e t (pid_n * BLOCK_SIZE_N c + s) * (if mul_routed_weight a then ma_topk_weights a t else 1)"
proof -
  let ?b = "BLOCK_SIZE_K c" and ?K = "ma_K a" and ?j = "pid_n * BLOCK_SIZE_N c + s"
  define h where "h k = ma_a a (t div ma_top_k a * stride_am a + k * stride_ak a) *
        ma_b a (e * stride_be a + (k * stride_bk a + ?j * stride_bn a))" for k
  have "tile_dot ?b (moe_load_a a c pid_m k) (moe_load_b a c e pid_n k) r s =
      (\<Sum>kk<?b. if k * ?b + kk < ?K then h (k * ?b + kk) else 0)" for k
  proof -
    have "moe_load_a a c pid_m k r kk * moe_load_b a c e pid_n k kk s = (if k * ?b + kk < ?K then h (k * ?b + kk) else 0)" for kk
      using assms by (auto simp: moe_load_a_def moe_load_b_def Let_def h_def algebra_simps)
    then show ?thesis by (simp add: tile_dot_def interv_sum_list_conv_sum_set_nat atLeast0LessThan)
  qed
  then have "fold (\<lambda>k acc. acc + tile_dot ?b (moe_load_a a c pid_m k) (moe_load_b a c e pid_n k) r s) [0..<cdiv ?K ?b] 0 =
      pair_product a e t ?j"
    unfolding fold_plus_sum using sum_in_tiles [OF assms(1), of ?K h] by (simp add: pair_product_def h_def)
  then show ?thesis unfolding moe_accumulator_def Let_def t(1) using t(2) by simp
qed

text \<open>Updates that agree on what belongs at each address can be done in any order.\<close>

lemma fold_consistent:
  assumes "\<And>x. x \<in> set xs \<Longrightarrow> P x \<Longrightarrow> V x = W (A x)"
  shows "fold (\<lambda>x f. if P x then f(A x := V x) else f) xs f q = (if \<exists>x \<in> set xs. P x \<and> A x = q then W q else f q)"
  using assms by (induction xs arbitrary: f) (auto simp: fun_upd_def)

text \<open>What belongs at an address of the output: the entry of a pair, multiplied with its weight on demand.\<close>

definition pair_entry :: "moe_args \<Rightarrow> nat list \<Rightarrow> nat \<Rightarrow> rat" where
  "pair_entry a ids q =
     (let t = q div ma_N a
      in pair_product a (ids ! t) t (q mod ma_N a) * (if mul_routed_weight a then ma_topk_weights a t else 1))"

definition moe_writes :: "moe_args \<Rightarrow> gemm_config \<Rightarrow> nat \<Rightarrow> nat \<Rightarrow> bool" where
  "moe_writes a c pid q \<longleftrightarrow> (\<exists>pid_m pid_n r s.
     moe_program_tile (cdiv (ma_EM a) (BLOCK_SIZE_M c)) (cdiv (ma_N a) (BLOCK_SIZE_N c)) (GROUP_SIZE_M c) pid = (pid_m, pid_n) \<and>
     r < BLOCK_SIZE_M c \<and> s < BLOCK_SIZE_N c \<and> pid_m * BLOCK_SIZE_M c < num_tokens_post_padded (ma_align a) \<and>
     sorted_token_ids (ma_align a) (pid_m * BLOCK_SIZE_M c + r) < num_valid_tokens a \<and> pid_n * BLOCK_SIZE_N c + s < ma_N a \<and>
     q = sorted_token_ids (ma_align a) (pid_m * BLOCK_SIZE_M c + r) * ma_N a + (pid_n * BLOCK_SIZE_N c + s))"

lemma block_in_range:
  assumes "b dvd (n::nat)" "i * b < n" "r < b"
  shows "i * b + r < n"
proof -
  obtain k where n: "n = b * k" using assms(1) by blast
  then have "i < k" using assms(2) by (simp add: mult.commute)
  then have "Suc i * b \<le> k * b" by (intro mult_right_mono) auto
  then show ?thesis using assms(3) n by (simp add: mult.commute)
qed

lemma moe_kernel_effect:
  assumes c: "config_ok c" and al: "aligned_for (ma_align a) (BLOCK_SIZE_M c) ids" and n: "num_valid_tokens a = length ids"
    and st: "stride_cm a = ma_N a" "stride_cn a = 1"
  shows "fused_moe_kernel a c pid out q = (if moe_writes a c pid q then pair_entry a ids q else out q)"
proof -
  obtain pm pn where tile: "moe_program_tile (cdiv (ma_EM a) (BLOCK_SIZE_M c)) (cdiv (ma_N a) (BLOCK_SIZE_N c)) (GROUP_SIZE_M c) pid = (pm, pn)"
    by (metis surj_pair)
  let ?bm = "BLOCK_SIZE_M c" and ?bn = "BLOCK_SIZE_N c" and ?al = "ma_align a"
  let ?t = "\<lambda>r. sorted_token_ids ?al (pm * ?bm + r)" and ?j = "\<lambda>s. pn * ?bn + s"
  let ?P = "\<lambda>(r, s). ?t r < num_valid_tokens a \<and> ?j s < ma_N a"
  let ?A = "\<lambda>(r, s). stride_cm a * ?t r + stride_cn a * ?j s"
  let ?V = "\<lambda>(r, s). if expert_ids ?al pm = - 1 then 0 else moe_accumulator a c (nat (expert_ids ?al pm)) pm pn r s"
  let ?xs = "List.product [0..<?bm] [0..<?bn]"
  show ?thesis
  proof (cases "num_tokens_post_padded ?al \<le> pm * ?bm")
    case True
    then show ?thesis using tile by (auto simp: fused_moe_kernel_def moe_writes_def)
  next
    case False
    then have kern: "fused_moe_kernel a c pid out q = fold (\<lambda>x f. if ?P x then f(?A x := ?V x) else f) ?xs out q"
      unfolding fused_moe_kernel_def tile Let_def prod.case
      by (simp only: if_False) (rule arg_cong [where f = "\<lambda>g. fold g ?xs out q"], auto simp: fun_eq_iff)
    have "?V x = pair_entry a ids (?A x)" if x: "x \<in> set ?xs" "?P x" for x
    proof -
      obtain r s where rs: "x = (r, s)" by (metis surj_pair)
      have r: "r < ?bm" "?t r < num_valid_tokens a" "?j s < ma_N a" using x rs by auto
      have "pm * ?bm + r < num_tokens_post_padded ?al"
        using al False r(1) by (intro block_in_range) (auto simp: aligned_for_def)
      moreover have "(pm * ?bm + r) div ?bm = pm" using r(1) by simp
      ultimately have "expert_ids ?al pm = int (ids ! ?t r)"
        using al r(2) n unfolding aligned_for_def by metis
      then show ?thesis
        using moe_accumulator_product [OF _ r(3) refl r(2), of "ids ! ?t r"] c r(3) rs st
        by (simp add: pair_entry_def Let_def config_ok_def mult.commute)
    qed
    then have "fused_moe_kernel a c pid out q = (if \<exists>x \<in> set ?xs. ?P x \<and> ?A x = q then pair_entry a ids q else out q)"
      unfolding kern by (intro fold_consistent) blast
    moreover have "(\<exists>x \<in> set ?xs. ?P x \<and> ?A x = q) \<longleftrightarrow> moe_writes a c pid q"
      using tile False st by (auto simp: moe_writes_def mult.commute)
    ultimately show ?thesis by simp
  qed
qed

lemma moe_launch_effect:
  assumes "config_ok c" "aligned_for (ma_align a) (BLOCK_SIZE_M c) ids" "num_valid_tokens a = length ids"
    "stride_cm a = ma_N a" "stride_cn a = 1"
  shows "fold (fused_moe_kernel a c) pids out q = (if \<exists>pid \<in> set pids. moe_writes a c pid q then pair_entry a ids q else out q)"
  by (induction pids arbitrary: out) (auto simp: moe_kernel_effect [OF assms])

text \<open>The grid covers every pair: no block of the padded pairs lies outside it, not even when the grid is
  cut for small batches.\<close>

lemma moe_grid_covers:
  assumes c: "config_ok c" and al: "aligned_for (ma_align a) (BLOCK_SIZE_M c) ids" and n: "num_valid_tokens a = length ids"
    and post: "num_tokens_post_padded (ma_align a) \<le> ma_EM a" and q: "q < length ids * ma_N a"
  shows "\<exists>pid < moe_grid_size a c. moe_writes a c pid q"
proof -
  let ?bm = "BLOCK_SIZE_M c" and ?bn = "BLOCK_SIZE_N c" and ?t = "q div ma_N a" and ?j = "q mod ma_N a"
  have N: "0 < ma_N a" using q by (cases "ma_N a") auto
  have t: "?t < length ids" using q by (simp add: less_mult_imp_div_less)
  have j: "?j < ma_N a" using N by simp
  obtain i where i: "i < num_tokens_post_padded (ma_align a)" "sorted_token_ids (ma_align a) i = ?t"
    using al t by (auto simp: aligned_for_def)
  have c': "0 < ?bm" "0 < ?bn" "0 < GROUP_SIZE_M c" using c by (simp_all add: config_ok_def)
  have "i div ?bm < cdiv (ma_EM a) ?bm" "?j div ?bn < cdiv (ma_N a) ?bn"
    using cdiv_tile [OF c'(1), of i "ma_EM a"] cdiv_tile [OF c'(2) j] i(1) post by simp_all
  from moe_tile_onto [OF c'(3) this] obtain pid where pid: "pid < moe_grid_size a c"
    "moe_program_tile (cdiv (ma_EM a) ?bm) (cdiv (ma_N a) ?bn) (GROUP_SIZE_M c) pid = (i div ?bm, ?j div ?bn)"
    by (auto simp: moe_grid_size_def)
  have "i div ?bm * ?bm \<le> i" by simp
  then have "i div ?bm * ?bm < num_tokens_post_padded (ma_align a)" using i(1) by linarith
  then have "moe_writes a c pid q"
    unfolding moe_writes_def using pid(2) i(2) t j n c'
    by (intro exI [of _ "i div ?bm"] exI [of _ "?j div ?bn"] exI [of _ "i mod ?bm"] exI [of _ "?j mod ?bn"]) simp
  then show ?thesis using pid(1) by blast
qed

lemma moe_writes_inside:
  "moe_writes a c pid q \<Longrightarrow> num_valid_tokens a = n \<Longrightarrow> q < n * ma_N a"
proof -
  assume w: "moe_writes a c pid q" and n: "num_valid_tokens a = n"
  obtain t j where tj: "t < n" "j < ma_N a" "q = t * ma_N a + j" using w n by (auto simp: moe_writes_def)
  then have "Suc t * ma_N a \<le> n * ma_N a" by (intro mult_right_mono) auto
  then show ?thesis using tj by simp
qed

definition orders_ok :: "(nat \<Rightarrow> nat list) \<Rightarrow> bool" where
  "orders_ok order \<longleftrightarrow> (\<forall>n. set (order n) = {..<n})"

lemma invoke_effect:
  assumes c: "config_ok c" and o: "orders_ok order" and al: "aligned_for al (BLOCK_SIZE_M c) ids"
    and n: "length ids = a_rows * top_k"
  shows "invoke_fused_moe_kernel c order a_rows N K A B tw al mul top_k C q =
    (if q < length ids * N then pair_entry (moe_kernel_args c a_rows N K A B tw al mul top_k) ids q else C q)"
proof -
  let ?a = "moe_kernel_args c a_rows N K A B tw al mul top_k"
  have s: "ma_align ?a = al" "num_valid_tokens ?a = length ids" "stride_cm ?a = ma_N ?a" "stride_cn ?a = 1" "ma_N ?a = N"
    by (simp_all add: moe_kernel_args_def n)
  have al': "aligned_for (ma_align ?a) (BLOCK_SIZE_M c) ids" using al s(1) by simp
  have post: "num_tokens_post_padded (ma_align ?a) \<le> ma_EM ?a"
    using al by (simp add: aligned_for_def moe_kernel_args_def moe_EM_def n)
  have "(\<exists>pid \<in> set (order (moe_grid_size ?a c)). moe_writes ?a c pid q) \<longleftrightarrow> q < length ids * N"
    using moe_grid_covers [OF c al' s(2) post, of q] moe_writes_inside [OF _ s(2)] o s(5)
    by (auto simp: orders_ok_def)
  then show ?thesis
    unfolding invoke_fused_moe_kernel_def Let_def moe_launch_effect [OF c al' s(2-4)] by simp
qed

section \<open>The expert layer\<close>

text \<open>The merged weights of all experts are contiguous tensors of shape (experts, 2 * intermediate, hidden)
  and (experts, hidden, intermediate).\<close>

record expert_weights =
  num_experts :: nat
  ew_top_k :: nat
  hidden_size :: nat
  intermediate_size :: nat
  renormalize :: bool
  w13_weight :: "nat \<Rightarrow> rat"
  w2_weight :: "nat \<Rightarrow> rat"

text \<open>A cache is a view from the start of its buffer: its first dimension, and the memory behind it.\<close>

record moe_cache =
  cache_rows :: nat
  cache_mem :: "nat \<Rightarrow> rat"

record moe_caches =
  moe_cache1 :: moe_cache
  moe_cache2 :: moe_cache
  moe_cache3 :: moe_cache

text \<open>\<^verbatim>\<open>fused_topk\<close>; the softmax with selection is a compiled operator that works row by row.\<close>

definition fused_topk ::
  "(rat list \<Rightarrow> nat \<Rightarrow> rat list \<times> nat list) \<Rightarrow> rat list list \<Rightarrow> nat \<Rightarrow> bool \<Rightarrow> rat list list \<times> nat list list" where
  "fused_topk topk_softmax gating_output topk renorm =
     (let rows = map (\<lambda>g. topk_softmax g topk) gating_output; topk_weights = map fst rows
      in (if renorm then map (\<lambda>w. map (\<lambda>v. v / sum_list w) w) topk_weights else topk_weights, map snd rows))"

definition row_major :: "nat \<Rightarrow> rat list list \<Rightarrow> nat \<Rightarrow> rat" where
  "row_major w x q = x ! (q div w) ! (q mod w)"

text \<open>The operators \<^verbatim>\<open>silu_and_mul\<close> on rows of width \<open>2 * d\<close> and \<^verbatim>\<open>moe_sum\<close>.\<close>

definition silu_and_mul :: "(rat \<Rightarrow> rat) \<Rightarrow> nat \<Rightarrow> nat \<Rightarrow> (nat \<Rightarrow> rat) \<Rightarrow> (nat \<Rightarrow> rat) \<Rightarrow> nat \<Rightarrow> rat" where
  "silu_and_mul silu d rows inp out q =
     (if q < rows * d
      then silu (inp (q div d * (2 * d) + q mod d)) * inp (q div d * (2 * d) + d + q mod d) else out q)"

definition moe_sum :: "nat \<Rightarrow> nat \<Rightarrow> nat \<Rightarrow> (nat \<Rightarrow> rat) \<Rightarrow> rat list list" where
  "moe_sum rows topk width inp =
     map (\<lambda>i. map (\<lambda>j. \<Sum>s\<leftarrow>[0..<topk]. inp ((i * topk + s) * width + j)) [0..<width]) [0..<rows]"

text \<open>\<^verbatim>\<open>fused_experts_impl_minimal\<close> with the activation the layer passes. A cache of another height than the
  kernels write is an error here; in the source the kernels would write past its end or leave rows
  over. The result is what \<^verbatim>\<open>moe_sum\<close> stores in the output tensor.\<close>

definition fused_experts_impl_minimal ::
  "gemm_config \<Rightarrow> (nat \<Rightarrow> nat list) \<Rightarrow> (nat \<Rightarrow> nat list) \<Rightarrow> (rat \<Rightarrow> rat) \<Rightarrow> expert_weights \<Rightarrow> rat list list \<Rightarrow>
     rat list list \<Rightarrow> nat list list \<Rightarrow> moe_caches \<Rightarrow> (rat list list \<times> moe_caches) result" where
  "fused_experts_impl_minimal config order sched silu w hidden_states topk_weights topk_ids caches =
     (let M = length hidden_states; K = hidden_size w; d = intermediate_size w; N = 2 * d; topk = ew_top_k w
      in if \<not> list_all (\<lambda>r. length r = K) hidden_states then Inl AssertionError
         else if map length topk_weights \<noteq> map length topk_ids then Inl AssertionError
         else if cache_rows (moe_cache1 caches) \<noteq> M \<or> cache_rows (moe_cache2 caches) \<noteq> M * topk \<or>
                 cache_rows (moe_cache3 caches) \<noteq> M then Inl RuntimeError
         else bind_res (moe_align_block_size sched (concat topk_ids) (BLOCK_SIZE_M config) (num_experts w)) (\<lambda>al.
              let tw = (\<lambda>t. concat topk_weights ! t);
                  c1 = invoke_fused_moe_kernel config order M N K (row_major K hidden_states) (w13_weight w) tw al False topk
                         (cache_mem (moe_cache1 caches));
                  c2 = silu_and_mul silu d (M * topk) c1 (cache_mem (moe_cache2 caches));
                  c3 = invoke_fused_moe_kernel config order (M * topk) K d c2 (w2_weight w) tw al True 1
                         (cache_mem (moe_cache3 caches))
              in Inr (moe_sum M topk K c3,
                   \<lparr>moe_cache1 = \<lparr>cache_rows = M, cache_mem = c1\<rparr>, moe_cache2 = \<lparr>cache_rows = M * topk, cache_mem = c2\<rparr>,
                    moe_cache3 = \<lparr>cache_rows = M, cache_mem = c3\<rparr>\<rparr>)))"

text \<open>\<^verbatim>\<open>SimpleFusedMoE.forward\<close>.\<close>

definition simple_fused_moe ::
  "gemm_config \<Rightarrow> (nat \<Rightarrow> nat list) \<Rightarrow> (nat \<Rightarrow> nat list) \<Rightarrow> (rat list \<Rightarrow> nat \<Rightarrow> rat list \<times> nat list) \<Rightarrow> (rat \<Rightarrow> rat) \<Rightarrow>
     expert_weights \<Rightarrow> rat list list \<Rightarrow> rat list list \<Rightarrow> moe_caches \<Rightarrow> (rat list list \<times> moe_caches) result" where
  "simple_fused_moe config order sched topk_softmax silu w x_normed_2 router_logits caches =
     (let (topk_weights, topk_ids) = fused_topk topk_softmax router_logits (ew_top_k w) (renormalize w)
      in fused_experts_impl_minimal config order sched silu w x_normed_2 topk_weights topk_ids caches)"

section \<open>The reference: a weighted sum of experts\<close>

definition expert_hidden :: "expert_weights \<Rightarrow> nat \<Rightarrow> rat list \<Rightarrow> nat \<Rightarrow> rat" where
  "expert_hidden w e r n = (\<Sum>k<hidden_size w. r ! k * w13_weight w (e * (2 * intermediate_size w * hidden_size w) + (k + n * hidden_size w)))"

definition expert_out :: "(rat \<Rightarrow> rat) \<Rightarrow> expert_weights \<Rightarrow> nat \<Rightarrow> rat list \<Rightarrow> nat \<Rightarrow> rat" where
  "expert_out silu w e r j =
     (\<Sum>l<intermediate_size w. silu (expert_hidden w e r l) * expert_hidden w e r (intermediate_size w + l) *
        w2_weight w (e * (hidden_size w * intermediate_size w) + (l + j * intermediate_size w)))"

definition moe_row :: "(rat \<Rightarrow> rat) \<Rightarrow> expert_weights \<Rightarrow> rat list \<Rightarrow> rat list \<Rightarrow> nat list \<Rightarrow> rat list" where
  "moe_row silu w r weights experts =
     map (\<lambda>j. \<Sum>s\<leftarrow>[0..<ew_top_k w]. expert_out silu w (experts ! s) r j * weights ! s) [0..<hidden_size w]"

lemma concat_nth:
  "\<forall>r \<in> set xs. length r = k \<Longrightarrow> i < length xs \<Longrightarrow> s < k \<Longrightarrow> concat xs ! (i * k + s) = xs ! i ! s"
proof (induction xs arbitrary: i)
  case (Cons x xs)
  then show ?case by (cases i) (simp_all add: nth_append add.assoc)
qed simp

lemma pair_index: "s < (k::nat) \<Longrightarrow> i < m \<Longrightarrow> i * k + s < m * k"
proof -
  assume "s < k" "i < m"
  then have "Suc i * k \<le> m * k" by (intro mult_right_mono) auto
  then show ?thesis using \<open>s < k\<close> by simp
qed

lemma fused_experts_ok:
  assumes c: "config_ok config" and o: "orders_ok order" and sched: "sched_ok sched"
    and x: "\<forall>r \<in> set x. length r = hidden_size w" and k: "0 < ew_top_k w"
    and E: "num_experts w \<le> 992" and ids: "length ids = length x" "\<forall>e \<in> set ids. length e = ew_top_k w" "\<forall>es \<in> set ids. \<forall>e \<in> set es. e < num_experts w"
    and ws: "length ws = length x" "\<forall>e \<in> set ws. length e = ew_top_k w"
    and caches: "cache_rows (moe_cache1 caches) = length x" "cache_rows (moe_cache2 caches) = length x * ew_top_k w"
      "cache_rows (moe_cache3 caches) = length x"
  shows "\<exists>caches'. fused_experts_impl_minimal config order sched silu w x ws ids caches =
      Inr (map (\<lambda>i. moe_row silu w (x ! i) (ws ! i) (ids ! i)) [0..<length x], caches') \<and>
    cache_rows (moe_cache1 caches') = length x \<and> cache_rows (moe_cache2 caches') = length x * ew_top_k w \<and>
    cache_rows (moe_cache3 caches') = length x"
proof -
  let ?M = "length x" and ?K = "hidden_size w" and ?d = "intermediate_size w" and ?k = "ew_top_k w"
  let ?ids = "concat ids" and ?tw = "\<lambda>t. concat ws ! t"
  have "0 < BLOCK_SIZE_M config" "\<forall>e \<in> set ?ids. e < num_experts w" using c ids(3) by (auto simp: config_ok_def)
  then obtain A where align: "moe_align_block_size sched ?ids (BLOCK_SIZE_M config) (num_experts w) = Inr A"
    and A: "aligned_for A (BLOCK_SIZE_M config) ?ids"
    using moe_align_aligned [OF sched _ _ E] by blast
  define c1 where "c1 = invoke_fused_moe_kernel config order ?M (2 * ?d) ?K (row_major ?K x) (w13_weight w) ?tw A False ?k
     (cache_mem (moe_cache1 caches))"
  define c2 where "c2 = silu_and_mul silu ?d (?M * ?k) c1 (cache_mem (moe_cache2 caches))"
  define c3 where "c3 = invoke_fused_moe_kernel config order (?M * ?k) ?K ?d c2 (w2_weight w) ?tw A True 1
     (cache_mem (moe_cache3 caches))"
  have len: "length ?ids = ?M * ?k"
    using ids(1,2) by (simp add: length_concat cong: map_cong) (simp add: map_replicate_const sum_list_replicate)
  have e1: "c1 (t * (2 * ?d) + n) = expert_hidden w (?ids ! t) (x ! (t div ?k)) n" if t: "t < ?M * ?k" "n < 2 * ?d" for t n
  proof -
    have tk: "t div ?k < ?M" using t(1) by (simp add: less_mult_imp_div_less)
    then have "length (x ! (t div ?k)) = ?K" using x by simp
    moreover have "t * (2 * ?d) + n < length ?ids * (2 * ?d)" unfolding len using t by (intro pair_index)
    ultimately show ?thesis
      unfolding c1_def invoke_effect [OF c o A len] using t(2)
      by (simp add: pair_entry_def pair_product_def moe_kernel_args_def Let_def expert_hidden_def row_major_def algebra_simps)
  qed
  have e2: "c2 (t * ?d + l) = silu (expert_hidden w (?ids ! t) (x ! (t div ?k)) l) * expert_hidden w (?ids ! t) (x ! (t div ?k)) (?d + l)"
    if t: "t < ?M * ?k" "l < ?d" for t l
  proof -
    have "t * ?d + l < ?M * ?k * ?d" using t by (intro pair_index)
    then show ?thesis
      using e1 [OF t(1), of l] e1 [OF t(1), of "?d + l"] t(2)
      by (simp add: c2_def silu_and_mul_def add.assoc)
  qed
  have e3: "c3 (t * ?K + j) = expert_out silu w (?ids ! t) (x ! (t div ?k)) j * ?tw t" if t: "t < ?M * ?k" "j < ?K" for t j
  proof -
    have "t * ?K + j < length ?ids * ?K" unfolding len using t by (intro pair_index)
    then show ?thesis
      unfolding c3_def invoke_effect [OF c o A, of "?M * ?k" 1, unfolded len, OF refl [THEN trans [OF _ mult_1_right [symmetric]]]]
      using t(2) e2 [OF t(1)]
      by (simp add: len pair_entry_def pair_product_def moe_kernel_args_def Let_def expert_out_def)
  qed
  have row: "map (\<lambda>j. \<Sum>s\<leftarrow>[0..<?k]. c3 ((i * ?k + s) * ?K + j)) [0..<?K] = moe_row silu w (x ! i) (ws ! i) (ids ! i)"
    if i: "i < ?M" for i
  proof -
    have "c3 ((i * ?k + s) * ?K + j) = expert_out silu w (ids ! i ! s) (x ! i) j * ws ! i ! s" if "s < ?k" "j < ?K" for s j
    proof -
      have "(i * ?k + s) div ?k = i" using that(1) by simp
      then show ?thesis
        using e3 [OF pair_index [OF that(1) i] that(2)] concat_nth [OF ids(2) _ that(1), of i] concat_nth [OF ws(2) _ that(1), of i]
          i ids(1) ws(1) by simp
    qed
    then show ?thesis by (auto simp: moe_row_def intro!: arg_cong [where f = sum_list])
  qed
  have "map length ws = map length ids"
    using ids(1,2) ws by (intro nth_equalityI) auto
  then have "fused_experts_impl_minimal config order sched silu w x ws ids caches =
      Inr (moe_sum ?M ?k ?K c3, \<lparr>moe_cache1 = \<lparr>cache_rows = ?M, cache_mem = c1\<rparr>,
        moe_cache2 = \<lparr>cache_rows = ?M * ?k, cache_mem = c2\<rparr>, moe_cache3 = \<lparr>cache_rows = ?M, cache_mem = c3\<rparr>\<rparr>)"
    using x caches
    by (simp add: fused_experts_impl_minimal_def Let_def list_all_iff align c1_def c2_def c3_def)
  moreover have "moe_sum ?M ?k ?K c3 = map (\<lambda>i. moe_row silu w (x ! i) (ws ! i) (ids ! i)) [0..<?M]"
    using row by (simp add: moe_sum_def)
  ultimately show ?thesis by simp
qed

section \<open>Routing\<close>

text \<open>The selection returns as many weights and experts as asked for, for each token.\<close>

definition topk_softmax_ok :: "(rat list \<Rightarrow> nat \<Rightarrow> rat list \<times> nat list) \<Rightarrow> bool" where
  "topk_softmax_ok topk_softmax \<longleftrightarrow> (\<forall>g k. k \<le> length g \<longrightarrow>
     length (fst (topk_softmax g k)) = k \<and> length (snd (topk_softmax g k)) = k \<and> (\<forall>e \<in> set (snd (topk_softmax g k)). e < length g))"

definition routed_weights :: "(rat list \<Rightarrow> nat \<Rightarrow> rat list \<times> nat list) \<Rightarrow> expert_weights \<Rightarrow> rat list \<Rightarrow> rat list" where
  "routed_weights topk_softmax w g =
     (let ws = fst (topk_softmax g (ew_top_k w)) in if renormalize w then map (\<lambda>v. v / sum_list ws) ws else ws)"

text \<open>A token's output: the experts selected by its router logits, each with its weight.\<close>

definition token_out ::
  "(rat list \<Rightarrow> nat \<Rightarrow> rat list \<times> nat list) \<Rightarrow> (rat \<Rightarrow> rat) \<Rightarrow> expert_weights \<Rightarrow> rat list \<Rightarrow> rat list \<Rightarrow> rat list" where
  "token_out topk_softmax silu w r g =
     moe_row silu w r (routed_weights topk_softmax w g) (snd (topk_softmax g (ew_top_k w)))"

definition experts_ok :: "expert_weights \<Rightarrow> bool" where
  "experts_ok w \<longleftrightarrow> 0 < ew_top_k w \<and> ew_top_k w \<le> num_experts w \<and> num_experts w \<le> 992"

definition caches_fit :: "expert_weights \<Rightarrow> nat \<Rightarrow> moe_caches \<Rightarrow> bool" where
  "caches_fit w n caches \<longleftrightarrow> cache_rows (moe_cache1 caches) = n \<and> cache_rows (moe_cache2 caches) = n * ew_top_k w \<and>
     cache_rows (moe_cache3 caches) = n"

lemma simple_fused_moe_ok:
  assumes "config_ok config" "orders_ok order" "sched_ok sched" "topk_softmax_ok topk_softmax" "experts_ok w"
    and x: "\<forall>r \<in> set x. length r = hidden_size w" and g: "length g = length x" "\<forall>r \<in> set g. length r = num_experts w"
    and caches: "caches_fit w (length x) caches"
  shows "\<exists>caches'. simple_fused_moe config order sched topk_softmax silu w x g caches =
      Inr (map2 (token_out topk_softmax silu w) x g, caches') \<and> caches_fit w (length x) caches'"
proof -
  let ?ids = "map (\<lambda>g. snd (topk_softmax g (ew_top_k w))) g" and ?ws = "map (routed_weights topk_softmax w) g"
  have k: "0 < ew_top_k w" "ew_top_k w \<le> num_experts w" "num_experts w \<le> 992" using assms(5) by (simp_all add: experts_ok_def)
  have sel: "length (fst (topk_softmax r (ew_top_k w))) = ew_top_k w" "length (snd (topk_softmax r (ew_top_k w))) = ew_top_k w"
    "\<forall>e \<in> set (snd (topk_softmax r (ew_top_k w))). e < num_experts w" if "r \<in> set g" for r
    using assms(4) [unfolded topk_softmax_ok_def, rule_format, of "ew_top_k w" r] g(2) that k(2) by simp_all
  have ids: "length ?ids = length x" "\<forall>e \<in> set ?ids. length e = ew_top_k w" "\<forall>es \<in> set ?ids. \<forall>e \<in> set es. e < num_experts w"
    and ws: "length ?ws = length x" "\<forall>e \<in> set ?ws. length e = ew_top_k w"
    using g(1) sel by (simp_all add: routed_weights_def Let_def)
  have "simple_fused_moe config order sched topk_softmax silu w x g caches =
      fused_experts_impl_minimal config order sched silu w x ?ws ?ids caches"
    unfolding simple_fused_moe_def fused_topk_def routed_weights_def Let_def by (cases "renormalize w") (simp_all add: comp_def)
  moreover have "map (\<lambda>i. moe_row silu w (x ! i) (?ws ! i) (?ids ! i)) [0..<length x] = map2 (token_out topk_softmax silu w) x g"
    using g(1) by (intro nth_equalityI) (simp_all add: token_out_def)
  ultimately show ?thesis
    using fused_experts_ok [OF assms(1-3) x k(1,3) ids ws, of caches silu] caches by (simp add: caches_fit_def)
qed

section \<open>Properties\<close>

text \<open>Property C33. The fused expert layer computes the mixture of experts: for every token, the sum over
  its selected experts of the expert's gated feed-forward output, times the routing weight. This holds
  for all block sizes, in whatever order the programs of both kernel launches run and the pairs are
  sorted, and whatever the three caches held before.\<close>

theorem fused_experts_weighted_sum:
  assumes "config_ok config" "orders_ok order" "sched_ok sched" "topk_softmax_ok topk_softmax" "experts_ok w"
    "\<forall>r \<in> set x. length r = hidden_size w" "length g = length x" "\<forall>r \<in> set g. length r = num_experts w"
    "caches_fit w (length x) caches"
  shows "\<exists>caches'. simple_fused_moe config order sched topk_softmax silu w x g caches =
      Inr (map (\<lambda>(r, g). map (\<lambda>j. \<Sum>s\<leftarrow>[0..<ew_top_k w].
                expert_out silu w (snd (topk_softmax g (ew_top_k w)) ! s) r j * routed_weights topk_softmax w g ! s)
              [0..<hidden_size w]) (zip x g), caches') \<and> caches_fit w (length x) caches'"
  using simple_fused_moe_ok [OF assms, of silu] by (simp add: token_out_def moe_row_def case_prod_unfold)

text \<open>Two experts on two features, one intermediate feature; each token takes both.\<close>

definition demo_experts :: expert_weights where
  "demo_experts = \<lparr>num_experts = 2, ew_top_k = 2, hidden_size = 2, intermediate_size = 1, renormalize = True,
     w13_weight = (\<lambda>q. [1, 0, 0, 1, 1, 1, 2, 0] ! q), w2_weight = (\<lambda>q. [1, 2, 3, 4] ! q)\<rparr>"

definition demo_topk_softmax :: "rat list \<Rightarrow> nat \<Rightarrow> rat list \<times> nat list" where
  "demo_topk_softmax g k = (take k g, take k [0..<length g])"

definition demo_caches :: "nat \<Rightarrow> nat \<Rightarrow> moe_caches" where
  "demo_caches n k = \<lparr>moe_cache1 = \<lparr>cache_rows = n, cache_mem = (\<lambda>_. 7)\<rparr>,
     moe_cache2 = \<lparr>cache_rows = n * k, cache_mem = (\<lambda>_. 7)\<rparr>, moe_cache3 = \<lparr>cache_rows = n, cache_mem = (\<lambda>_. 7)\<rparr>\<rparr>"

lemma demo_routing: "topk_softmax_ok demo_topk_softmax" "orders_ok (\<lambda>n. rev [0..<n])" "sched_ok (\<lambda>n. rev [0..<n])"
  by (auto simp: topk_softmax_ok_def demo_topk_softmax_def orders_ok_def sched_ok_def dest: in_set_takeD)

theorem fused_experts_weighted_sum_witness:
  "\<exists>caches'. simple_fused_moe \<lparr>BLOCK_SIZE_M = 2, BLOCK_SIZE_N = 1, BLOCK_SIZE_K = 1, GROUP_SIZE_M = 2\<rparr>
       (\<lambda>n. rev [0..<n]) (\<lambda>n. rev [0..<n]) demo_topk_softmax (\<lambda>v. v) demo_experts [[1, 2], [3, 1]] [[1, 1], [1, 3]]
       (demo_caches 2 2) = Inr ([[10, 14], [219 / 4, 147 / 2]], caches')"
proof -
  let ?c = "\<lparr>BLOCK_SIZE_M = 2, BLOCK_SIZE_N = 1, BLOCK_SIZE_K = 1, GROUP_SIZE_M = 2\<rparr>"
  let ?x = "[[1, 2], [3, 1 :: rat]]" and ?g = "[[1, 1], [1, 3 :: rat]]"
  have h: "config_ok ?c" "experts_ok demo_experts" "\<forall>r \<in> set ?x. length r = hidden_size demo_experts" "length ?g = length ?x"
    "\<forall>r \<in> set ?g. length r = num_experts demo_experts" "caches_fit demo_experts (length ?x) (demo_caches 2 2)"
    by (simp_all add: config_ok_def experts_ok_def demo_experts_def caches_fit_def demo_caches_def)
  have "map (\<lambda>(r, g). map (\<lambda>j. \<Sum>s\<leftarrow>[0..<ew_top_k demo_experts].
      expert_out (\<lambda>v. v) demo_experts (snd (demo_topk_softmax g (ew_top_k demo_experts)) ! s) r j *
        routed_weights demo_topk_softmax demo_experts g ! s) [0..<hidden_size demo_experts]) (zip ?x ?g) =
      [[10, 14], [219 / 4, 147 / 2]]" by code_simp
  then show ?thesis using fused_experts_weighted_sum [OF h(1) demo_routing(2,3,1) h(2-), of "\<lambda>v. v"] by auto
qed

end
