(* ===== verification/Moe_Forward.thy ===== *)
theory Moe_Forward
  imports Model_Forward Fused_Experts
begin

text \<open>
  The forward pass of LLaDA-MoE: \<^verbatim>\<open>vllm_add_llada_moe/llada_moe_model.py\<close> with the decoder layer of
  \<^verbatim>\<open>llada_moe_blocks.py\<close> and the sparse block of \<^verbatim>\<open>llada_moe_mlp.py\<close>. The sparse block computes the
  router logits of all tokens at once and then runs the fused experts, of the theory on fused experts, on
  one tile of tokens after the other, in three caches that every tile reuses.

  Shown here: the tiles give what the experts give on all tokens at once, for every number of chunks,
  whatever the caches held before, and the forward pass meets the contract of the denoising step.
\<close>

section \<open>The sparse block\<close>

record sparse_block =
  gate :: matrix
  expert_bias :: "row option"
  experts :: expert_weights

text \<open>The kernels outside the repository and their launch: the configuration chosen for a number of tokens,
  the order of the programs and of the sorted pairs, selection, activation.\<close>

record moe_kernels =
  mk_config :: "nat \<Rightarrow> gemm_config"
  mk_order :: "nat \<Rightarrow> nat list"
  mk_sched :: "nat \<Rightarrow> nat list"
  mk_topk_softmax :: "rat list \<Rightarrow> nat \<Rightarrow> rat list \<times> nat list"
  mk_silu :: "rat \<Rightarrow> rat"

record moe_buffers =
  mb_caches :: moe_caches
  moe_output :: matrix

definition run_experts ::
  "moe_kernels \<Rightarrow> expert_weights \<Rightarrow> matrix \<Rightarrow> matrix \<Rightarrow> moe_caches \<Rightarrow> (matrix \<times> moe_caches) result" where
  "run_experts ks w x router_logits caches =
     simple_fused_moe (mk_config ks (length x)) (mk_order ks) (mk_sched ks) (mk_topk_softmax ks) (mk_silu ks) w x
       router_logits caches"

text \<open>The view \<^verbatim>\<open>cache[0:t]\<close>, and what the buffer holds once the view has been written.\<close>

definition cache_slice :: "nat \<Rightarrow> moe_cache \<Rightarrow> moe_cache" where
  "cache_slice t c = c\<lparr>cache_rows := min t (cache_rows c)\<rparr>"

definition cache_written :: "moe_cache \<Rightarrow> moe_cache \<Rightarrow> moe_cache" where
  "cache_written c view = c\<lparr>cache_mem := cache_mem view\<rparr>"

definition moe_tile ::
  "moe_kernels \<Rightarrow> sparse_block \<Rightarrow> matrix \<Rightarrow> matrix \<Rightarrow> nat \<Rightarrow> nat \<Rightarrow> moe_buffers \<Rightarrow> moe_buffers result" where
  "moe_tile ks w x_normed_2 router_logits_full i end_i b =
     (let t = end_i - i; c = mb_caches b;
          chunk_caches = \<lparr>moe_cache1 = cache_slice t (moe_cache1 c),
            moe_cache2 = cache_slice (t * ew_top_k (experts w)) (moe_cache2 c), moe_cache3 = cache_slice t (moe_cache3 c)\<rparr>
      in bind_res (run_experts ks (experts w) (rows_of x_normed_2 i end_i) (rows_of router_logits_full i end_i) chunk_caches)
           (\<lambda>(out, c').
             bind_res (out_slice (moe_output b) i end_i out) (\<lambda>output.
               Inr \<lparr>mb_caches = \<lparr>moe_cache1 = cache_written (moe_cache1 c) (moe_cache1 c'),
                      moe_cache2 = cache_written (moe_cache2 c) (moe_cache2 c'),
                      moe_cache3 = cache_written (moe_cache3 c) (moe_cache3 c')\<rparr>, moe_output = output\<rparr>)))"

text \<open>\<^verbatim>\<open>LLaDAMoESparseMoeBlock.forward\<close>. An output tensor of another height than the input is an error here.\<close>

definition sparse_moe_block ::
  "moe_kernels \<Rightarrow> chunk_strategy option \<Rightarrow> sparse_block \<Rightarrow> matrix \<Rightarrow> moe_buffers \<Rightarrow> moe_buffers result" where
  "sparse_moe_block ks strategy w x_normed_2 b =
     (let router_logits = add_bias (expert_bias w) (mm_t x_normed_2 (gate w))
      in if (case strategy of None \<Rightarrow> False | Some s \<Rightarrow> cs_chunk_mlp s)
         then tile_loop (length x_normed_2) (cs_num_chunks_mlp (the strategy)) (moe_tile ks w x_normed_2 router_logits) b
         else bind_res (run_experts ks (experts w) x_normed_2 router_logits (mb_caches b)) (\<lambda>(out, c').
              if length (moe_output b) = length out then Inr \<lparr>mb_caches = c', moe_output = out\<rparr> else Inl RuntimeError))"

section \<open>The decoder layer and the forward pass\<close>

text \<open>A layer whose frequency entry is 0 has a dense feed-forward part instead of a sparse block. It is called
  with the dictionary of tensors like the sparse one, but expects a tensor.\<close>

datatype moe_mlp = SparseMoe sparse_block | DenseMlp mlp_weights

record moe_decoder_layer =
  input_layernorm :: "matrix \<Rightarrow> matrix"
  ml_q_proj :: matrix
  ml_k_proj :: matrix
  ml_v_proj :: matrix
  qk_norm :: "((matrix \<Rightarrow> matrix) \<times> (matrix \<Rightarrow> matrix)) option"
  ml_attention :: "forward_context \<Rightarrow> matrix \<Rightarrow> matrix \<Rightarrow> matrix \<Rightarrow> matrix"
  ml_o_proj :: matrix
  post_attention_layernorm :: "matrix \<Rightarrow> matrix \<Rightarrow> matrix \<times> matrix"
  ml_mlp :: moe_mlp

definition moe_self_attn :: "forward_context \<Rightarrow> moe_decoder_layer \<Rightarrow> matrix \<Rightarrow> matrix" where
  "moe_self_attn ctx l x_normed =
     (let q = mm_t x_normed (ml_q_proj l); k = mm_t x_normed (ml_k_proj l); v = mm_t x_normed (ml_v_proj l);
          (q', k') = (case qk_norm l of None \<Rightarrow> (q, k) | Some (q_norm, k_norm) \<Rightarrow> (q_norm q, k_norm k))
      in mm_t (ml_attention l ctx q' k' v) (ml_o_proj l))"

definition llada_moe_layer ::
  "moe_kernels \<Rightarrow> chunk_strategy option \<Rightarrow> forward_context \<Rightarrow> moe_decoder_layer \<Rightarrow> matrix \<times> moe_buffers \<Rightarrow>
     (matrix \<times> moe_buffers) result" where
  "llada_moe_layer ks strategy ctx l = (\<lambda>(x, b).
     let x_normed = input_layernorm l x;
         att_out = moe_self_attn ctx l x_normed;
         (x_normed_2, residual) = post_attention_layernorm l x att_out
     in case ml_mlp l of
          DenseMlp _ \<Rightarrow> Inl TypeError
        | SparseMoe w \<Rightarrow> bind_res (sparse_moe_block ks strategy w x_normed_2 b) (\<lambda>b'.
            Inr (mat_add residual (moe_output b'), b')))"

record moe_model =
  embed_tokens :: "int \<Rightarrow> row"
  moe_layers :: "moe_decoder_layer list"
  moe_norm :: "matrix \<Rightarrow> matrix"
  moe_lm_head :: matrix
  moe_kernels_of :: moe_kernels

record moe_pool_tensors =
  mt_x :: matrix
  mt_moe :: moe_buffers
  mt_logits :: matrix

type_synonym moe_allocator = "int \<Rightarrow> int \<Rightarrow> (chunk_strategy option \<times> moe_pool_tensors) option"

definition run_moe_layers ::
  "moe_model \<Rightarrow> chunk_strategy option \<Rightarrow> int list \<Rightarrow> forward_context \<Rightarrow> moe_pool_tensors \<Rightarrow> matrix result" where
  "run_moe_layers m strategy input_ids ctx tensors =
     (if length (mt_x tensors) \<noteq> length input_ids then Inl RuntimeError
      else bind_res (foldM (llada_moe_layer (moe_kernels_of m) strategy ctx) (moe_layers m)
               (map (embed_tokens m) input_ids, mt_moe tensors)) (\<lambda>(x, _). Inr (moe_norm m x)))"

definition llada_moe_forward :: "moe_model \<Rightarrow> sampler \<Rightarrow> moe_allocator \<Rightarrow> model_forward" where
  "llada_moe_forward m sample alloc input_ids ctx =
     (case (fc_prompt_length ctx, fc_output_length ctx) of
        (Some P, Some Q) \<Rightarrow>
          (case alloc (P + Q) (int (length (fc_mask_indices ctx))) of
             None \<Rightarrow> Inl TypeError
           | Some (strategy, tensors) \<Rightarrow>
               bind_res (run_moe_layers m strategy input_ids ctx tensors) (\<lambda>x.
                 let x_output = (if 0 < Q then py_slice_from x (- Q) else x)
                 in masked_logits sample strategy (moe_lm_head m) x_output (fc_mask_indices ctx) (mt_logits tensors)))
      | _ \<Rightarrow> Inl TypeError)"

section \<open>The sparse block, token by token\<close>

definition kernels_ok :: "moe_kernels \<Rightarrow> bool" where
  "kernels_ok ks \<longleftrightarrow> (\<forall>n. config_ok (mk_config ks n)) \<and> orders_ok (mk_order ks) \<and> sched_ok (mk_sched ks) \<and>
     topk_softmax_ok (mk_topk_softmax ks)"

definition wide :: "nat \<Rightarrow> matrix \<Rightarrow> bool" where
  "wide h x \<longleftrightarrow> list_all (\<lambda>r. length r = h) x"

definition sparse_ok :: "nat \<Rightarrow> nat \<Rightarrow> sparse_block \<Rightarrow> bool" where
  "sparse_ok h k w \<longleftrightarrow> experts_ok (experts w) \<and> hidden_size (experts w) = h \<and> ew_top_k (experts w) = k \<and>
     length (gate w) = num_experts (experts w) \<and> (\<forall>b. expert_bias w = Some b \<longrightarrow> length b = num_experts (experts w))"

definition router_row :: "sparse_block \<Rightarrow> row \<Rightarrow> row" where
  "router_row w r = (let g = map (dot r) (gate w) in case expert_bias w of None \<Rightarrow> g | Some b \<Rightarrow> map2 (+) g b)"

text \<open>The mixture of a token's experts.\<close>

definition moe_token :: "moe_kernels \<Rightarrow> sparse_block \<Rightarrow> row \<Rightarrow> row" where
  "moe_token ks w r = token_out (mk_topk_softmax ks) (mk_silu ks) (experts w) r (router_row w r)"

lemma router_rows: "add_bias (expert_bias w) (mm_t x (gate w)) = map (router_row w) x"
  by (simp add: add_bias_def mm_t_def router_row_def split: option.splits)

lemma rows_of_map [simp]: "rows_of (map f x) i e = map f (rows_of x i e)"
  by (simp add: rows_of_def take_map drop_map)

lemma wide_simps [simp]: "wide h []" "wide h (r # x) \<longleftrightarrow> length r = h \<and> wide h x"
  by (simp_all add: wide_def)

lemma wide_rows_of: "wide h x \<Longrightarrow> wide h (rows_of x i e)"
  unfolding wide_def list_all_iff using subsetD [OF rows_of_subset [of x i e]] by blast

lemma wide_iff: "wide h x \<longleftrightarrow> (\<forall>r \<in> set x. length r = h)"
  by (simp add: wide_def list_all_iff)

lemma run_experts_ok:
  assumes ks: "kernels_ok ks" and w: "sparse_ok h k w" and x: "wide h x"
    and c: "caches_fit (experts w) (length x) c"
  shows "\<exists>c'. run_experts ks (experts w) x (map (router_row w) x) c = Inr (map (moe_token ks w) x, c') \<and>
    caches_fit (experts w) (length x) c'"
proof -
  have g: "length (map (router_row w) x) = length x" "\<forall>r \<in> set (map (router_row w) x). length r = num_experts (experts w)"
    using w by (auto simp: router_row_def sparse_ok_def Let_def split: option.splits)
  have x': "\<forall>r \<in> set x. length r = hidden_size (experts w)" using x w by (auto simp: wide_iff sparse_ok_def)
  have "map2 (token_out (mk_topk_softmax ks) (mk_silu ks) (experts w)) x (map (router_row w) x) = map (moe_token ks w) x"
    by (intro nth_equalityI) (simp_all add: moe_token_def)
  then show ?thesis
    unfolding run_experts_def
    using simple_fused_moe_ok [OF _ _ _ _ _ x' g c, of "mk_config ks (length x)" "mk_order ks" "mk_sched ks" "mk_topk_softmax ks" "mk_silu ks"]
      ks w by (simp add: kernels_ok_def sparse_ok_def)
qed

text \<open>Caches of the heights the graph builder gives them.\<close>

definition tile_height :: "chunk_strategy option \<Rightarrow> nat \<Rightarrow> nat" where
  "tile_height strategy n =
     (case strategy of
        Some s \<Rightarrow> if cs_chunk_mlp s then (n + cs_num_chunks_mlp s - 1) div cs_num_chunks_mlp s else n
      | None \<Rightarrow> n)"

definition moe_fits :: "nat \<Rightarrow> chunk_strategy option \<Rightarrow> nat \<Rightarrow> moe_buffers \<Rightarrow> bool" where
  "moe_fits k strategy n b \<longleftrightarrow> length (moe_output b) = n \<and>
     (\<forall>s. strategy = Some s \<longrightarrow> cs_chunk_mlp s \<longrightarrow> 0 < cs_num_chunks_mlp s) \<and>
     cache_rows (moe_cache1 (mb_caches b)) = tile_height strategy n \<and>
     cache_rows (moe_cache2 (mb_caches b)) = tile_height strategy n * k \<and>
     cache_rows (moe_cache3 (mb_caches b)) = tile_height strategy n"

lemma moe_tile_ok:
  assumes ks: "kernels_ok ks" and w: "sparse_ok h k w" and x: "wide h x"
    and ie: "i \<le> e" "e \<le> length x" "e - i \<le> t" and out: "length (moe_output b) = length x"
    and c: "cache_rows (moe_cache1 (mb_caches b)) = t" "cache_rows (moe_cache2 (mb_caches b)) = t * k"
      "cache_rows (moe_cache3 (mb_caches b)) = t"
  shows "\<exists>b'. moe_tile ks w x (map (router_row w) x) i e b = Inr b' \<and>
    moe_output b' = take i (moe_output b) @ map (moe_token ks w) (rows_of x i e) @ drop e (moe_output b) \<and>
    cache_rows (moe_cache1 (mb_caches b')) = t \<and> cache_rows (moe_cache2 (mb_caches b')) = t * k \<and>
    cache_rows (moe_cache3 (mb_caches b')) = t"
proof -
  let ?r = "rows_of x i e" and ?c = "mb_caches b"
  let ?cc = "\<lparr>moe_cache1 = cache_slice (e - i) (moe_cache1 ?c),
      moe_cache2 = cache_slice ((e - i) * ew_top_k (experts w)) (moe_cache2 ?c), moe_cache3 = cache_slice (e - i) (moe_cache3 ?c)\<rparr>"
  have k: "ew_top_k (experts w) = k" using w by (simp add: sparse_ok_def)
  have l: "length ?r = e - i" using ie(2) by simp
  have "(e - i) * k \<le> t * k" using ie(3) by (rule mult_right_mono) simp
  then have "caches_fit (experts w) (length ?r) ?cc"
    using c ie(3) k l by (simp add: caches_fit_def cache_slice_def min_def)
  then obtain c' where c': "run_experts ks (experts w) ?r (map (router_row w) ?r) ?cc = Inr (map (moe_token ks w) ?r, c')"
    using run_experts_ok [OF ks w wide_rows_of [OF x]] by blast
  have "out_slice (moe_output b) i e (map (moe_token ks w) ?r) =
      Inr (take i (moe_output b) @ map (moe_token ks w) ?r @ drop e (moe_output b))"
    using ie out l by (simp add: out_slice_ok)
  then show ?thesis
    unfolding moe_tile_def Let_def rows_of_map c' using c by (simp add: cache_written_def)
qed

lemma chunked_moe_ok:
  assumes ks: "kernels_ok ks" and w: "sparse_ok h k w" and x: "wide h x" and n: "0 < length x" "0 < nc"
    and t: "t = (length x + nc - 1) div nc" and out: "length (moe_output b) = length x"
    and c: "cache_rows (moe_cache1 (mb_caches b)) = t" "cache_rows (moe_cache2 (mb_caches b)) = t * k"
      "cache_rows (moe_cache3 (mb_caches b)) = t"
  shows "\<exists>b'. tile_loop (length x) nc (moe_tile ks w x (map (router_row w) x)) b = Inr b' \<and>
    moe_output b' = map (moe_token ks w) x \<and> cache_rows (moe_cache1 (mb_caches b')) = t \<and>
    cache_rows (moe_cache2 (mb_caches b')) = t * k \<and> cache_rows (moe_cache3 (mb_caches b')) = t"
proof -
  let ?P = "\<lambda>i (b' :: moe_buffers). length (moe_output b') = length x \<and> take i (moe_output b') = map (moe_token ks w) (take i x) \<and>
    cache_rows (moe_cache1 (mb_caches b')) = t \<and> cache_rows (moe_cache2 (mb_caches b')) = t * k \<and>
    cache_rows (moe_cache3 (mb_caches b')) = t"
  have "\<exists>b'. tile_loop (length x) nc (moe_tile ks w x (map (router_row w) x)) b = Inr b' \<and> ?P (length x) b'"
  proof (rule tile_loop_rule [where P = ?P])
    fix i e u assume ie: "i < length x" "i < e" "e \<le> length x" "e - i \<le> (length x + nc - 1) div nc" and u: "?P i u"
    have u': "length (moe_output u) = length x" "take i (moe_output u) = map (moe_token ks w) (take i x)"
      "cache_rows (moe_cache1 (mb_caches u)) = t" "cache_rows (moe_cache2 (mb_caches u)) = t * k"
      "cache_rows (moe_cache3 (mb_caches u)) = t" using u by blast+
    have ie': "i \<le> e" "e - i \<le> t" using ie t by simp_all
    from moe_tile_ok [OF ks w x ie'(1) ie(3) ie'(2) u'(1,3,4,5)] obtain v where
      v: "moe_tile ks w x (map (router_row w) x) i e u = Inr v"
        "moe_output v = take i (moe_output u) @ map (moe_token ks w) (rows_of x i e) @ drop e (moe_output u)"
        "cache_rows (moe_cache1 (mb_caches v)) = t" "cache_rows (moe_cache2 (mb_caches v)) = t * k"
        "cache_rows (moe_cache3 (mb_caches v)) = t" by blast
    have "take e x = take i x @ rows_of x i e"
      using ie(2) take_add [of i "e - i" x] by (simp add: rows_of_def)
    then have "take e (moe_output v) = map (moe_token ks w) (take e x)" "length (moe_output v) = length x"
      using u'(1,2) v(2) ie by (simp_all add: min_def)
    then show "\<exists>u'. moe_tile ks w x (map (router_row w) x) i e u = Inr u' \<and> ?P e u'" using v by blast
  qed (use n out c in simp_all)
  then show ?thesis by auto
qed

lemma sparse_moe_block_ok:
  assumes ks: "kernels_ok ks" and w: "sparse_ok h k w" and x: "wide h x" and n: "0 < length x"
    and b: "moe_fits k strategy (length x) b"
  shows "\<exists>b'. sparse_moe_block ks strategy w x b = Inr b' \<and> moe_output b' = map (moe_token ks w) x \<and>
    moe_fits k strategy (length x) b'"
proof (cases "case strategy of None \<Rightarrow> False | Some s \<Rightarrow> cs_chunk_mlp s")
  case True
  then obtain s where s: "strategy = Some s" "cs_chunk_mlp s" by (auto split: option.splits)
  let ?t = "(length x + cs_num_chunks_mlp s - 1) div cs_num_chunks_mlp s"
  have h: "tile_height strategy (length x) = ?t" using s by (simp add: tile_height_def)
  have f: "length (moe_output b) = length x" "0 < cs_num_chunks_mlp s" "cache_rows (moe_cache1 (mb_caches b)) = ?t"
    "cache_rows (moe_cache2 (mb_caches b)) = ?t * k" "cache_rows (moe_cache3 (mb_caches b)) = ?t"
    using b s unfolding moe_fits_def h by blast+
  have "sparse_moe_block ks strategy w x b = tile_loop (length x) (cs_num_chunks_mlp s) (moe_tile ks w x (map (router_row w) x)) b"
    using True s by (simp add: sparse_moe_block_def router_rows)
  then show ?thesis
    using chunked_moe_ok [OF ks w x n f(2) refl f(1,3-5)] s f(2) unfolding moe_fits_def h by auto
next
  case False
  have h: "tile_height strategy (length x) = length x" using False by (auto simp: tile_height_def split: option.splits)
  have k: "ew_top_k (experts w) = k" using w by (simp add: sparse_ok_def)
  have "caches_fit (experts w) (length x) (mb_caches b)" using b by (simp add: moe_fits_def caches_fit_def h k)
  then obtain c' where c': "run_experts ks (experts w) x (map (router_row w) x) (mb_caches b) = Inr (map (moe_token ks w) x, c')"
    "caches_fit (experts w) (length x) c'" using run_experts_ok [OF ks w x] by blast
  have "sparse_moe_block ks strategy w x b = Inr \<lparr>mb_caches = c', moe_output = map (moe_token ks w) x\<rparr>"
    using False b by (simp add: sparse_moe_block_def router_rows c'(1) moe_fits_def)
  then show ?thesis using c'(2) b by (simp add: moe_fits_def caches_fit_def h k)
qed

section \<open>Layers\<close>

text \<open>The kernels keep the number of rows, and the norm after the attention their width; the layer is sparse.\<close>

definition moe_layer_ok :: "nat \<Rightarrow> nat \<Rightarrow> moe_decoder_layer \<Rightarrow> bool" where
  "moe_layer_ok h k l \<longleftrightarrow> (\<forall>x. length (input_layernorm l x) = length x) \<and>
     (\<forall>f g x. qk_norm l = Some (f, g) \<longrightarrow> length (f x) = length x \<and> length (g x) = length x) \<and>
     (\<forall>ctx q k v. length k = length q \<longrightarrow> length v = length q \<longrightarrow> length (ml_attention l ctx q k v) = length q) \<and>
     length (ml_o_proj l) = h \<and>
     (\<forall>x a. length a = length x \<longrightarrow> wide h x \<longrightarrow> wide h a \<longrightarrow>
        length (fst (post_attention_layernorm l x a)) = length x \<and> length (snd (post_attention_layernorm l x a)) = length x \<and>
        wide h (fst (post_attention_layernorm l x a)) \<and> wide h (snd (post_attention_layernorm l x a))) \<and>
     (\<exists>w. ml_mlp l = SparseMoe w \<and> sparse_ok h k w)"

definition moe_ref :: "moe_kernels \<Rightarrow> forward_context \<Rightarrow> moe_decoder_layer \<Rightarrow> matrix \<Rightarrow> matrix" where
  "moe_ref ks ctx l x =
     (let (y, residual) = post_attention_layernorm l x (moe_self_attn ctx l (input_layernorm l x))
      in case ml_mlp l of SparseMoe w \<Rightarrow> mat_add residual (map (moe_token ks w) y) | DenseMlp _ \<Rightarrow> [])"

lemma wide_mm_t: "length w = h \<Longrightarrow> wide h (mm_t x w)"
  by (auto simp: wide_iff mm_t_def)

lemma wide_mat_add: "wide h x \<Longrightarrow> wide h y \<Longrightarrow> wide h (mat_add x y)"
  unfolding wide_def list_all_length mat_add_def by simp

lemma wide_moe_token: "sparse_ok h k w \<Longrightarrow> wide h (map (moe_token ks w) y)"
  by (simp add: wide_iff moe_token_def token_out_def moe_row_def sparse_ok_def)

lemma moe_self_attn_shape:
  assumes "moe_layer_ok h k l"
  shows "length (moe_self_attn ctx l x) = length x" "wide h (moe_self_attn ctx l x)"
proof -
  have a: "length (ml_attention l ctx q k' v) = length q" if "length k' = length q" "length v = length q" for q k' v
    using assms that unfolding moe_layer_ok_def by blast
  have n: "length (f x) = length x \<and> length (g x) = length x" if "qk_norm l = Some (f, g)" for f g x
    using assms that unfolding moe_layer_ok_def by blast
  show "length (moe_self_attn ctx l x) = length x"
    by (cases "qk_norm l") (auto simp: moe_self_attn_def Let_def a n)
  have "length (ml_o_proj l) = h" using assms unfolding moe_layer_ok_def by blast
  then show "wide h (moe_self_attn ctx l x)"
    by (auto simp: moe_self_attn_def Let_def split_beta intro: wide_mm_t)
qed

lemma moe_layer_refines:
  assumes ks: "kernels_ok ks" and l: "moe_layer_ok h k l" and x: "0 < length x" "wide h x" "moe_fits k strategy (length x) b"
  shows "\<exists>b'. llada_moe_layer ks strategy ctx l (x, b) = Inr (moe_ref ks ctx l x, b') \<and> moe_fits k strategy (length x) b'"
    and "length (moe_ref ks ctx l x) = length x" "wide h (moe_ref ks ctx l x)"
proof -
  let ?a = "moe_self_attn ctx l (input_layernorm l x)"
  obtain w where w: "ml_mlp l = SparseMoe w" "sparse_ok h k w" using l unfolding moe_layer_ok_def by blast
  obtain y r where yr: "post_attention_layernorm l x ?a = (y, r)" by (metis surj_pair)
  have "length (input_layernorm l x) = length x" using l unfolding moe_layer_ok_def by blast
  then have a: "length ?a = length x" "wide h ?a" using moe_self_attn_shape [OF l] by simp_all
  have "\<forall>x a. length a = length x \<longrightarrow> wide h x \<longrightarrow> wide h a \<longrightarrow>
        length (fst (post_attention_layernorm l x a)) = length x \<and> length (snd (post_attention_layernorm l x a)) = length x \<and>
        wide h (fst (post_attention_layernorm l x a)) \<and> wide h (snd (post_attention_layernorm l x a))"
    using l unfolding moe_layer_ok_def by blast
  from this [rule_format, OF a(1) x(2) a(2)] have yr': "length y = length x" "length r = length x" "wide h y" "wide h r"
    using yr by simp_all
  obtain b' where b': "sparse_moe_block ks strategy w y b = Inr b'" "moe_output b' = map (moe_token ks w) y"
    "moe_fits k strategy (length y) b'"
    using sparse_moe_block_ok [OF ks w(2) yr'(3), of strategy b] x yr'(1) by auto
  have eq: "moe_ref ks ctx l x = mat_add r (map (moe_token ks w) y)" by (simp add: moe_ref_def yr w(1))
  have "llada_moe_layer ks strategy ctx l (x, b) = Inr (moe_ref ks ctx l x, b')"
    unfolding eq llada_moe_layer_def Let_def prod.case yr w(1) moe_mlp.case b'(1) bind_res_Inr b'(2) ..
  then show "\<exists>b'. llada_moe_layer ks strategy ctx l (x, b) = Inr (moe_ref ks ctx l x, b') \<and> moe_fits k strategy (length x) b'"
    using b'(3) yr'(1) by auto
  show "length (moe_ref ks ctx l x) = length x" unfolding eq using yr' by (simp add: mat_add_def)
  show "wide h (moe_ref ks ctx l x)" unfolding eq by (rule wide_mat_add [OF yr'(4) wide_moe_token [OF w(2)]])
qed

interpretation moe_stack: layer_stack "llada_moe_layer ks strategy ctx" "moe_ref ks ctx" "\<lambda>l. kernels_ok ks \<and> moe_layer_ok h k l"
  "\<lambda>x b. 0 < length x \<and> wide h x \<and> moe_fits k strategy (length x) b" for ks strategy ctx h k
proof unfold_locales
  fix l :: moe_decoder_layer and x :: matrix and b :: moe_buffers
  assume l: "kernels_ok ks \<and> moe_layer_ok h k l" and b: "0 < length x \<and> wide h x \<and> moe_fits k strategy (length x) b"
  then have l': "kernels_ok ks" "moe_layer_ok h k l" and b': "0 < length x" "wide h x" "moe_fits k strategy (length x) b" by blast+
  note ok = moe_layer_refines [OF l' b', of ctx]
  show "\<exists>b'. llada_moe_layer ks strategy ctx l (x, b) = Inr (moe_ref ks ctx l x, b') \<and>
      (0 < length (moe_ref ks ctx l x) \<and> wide h (moe_ref ks ctx l x) \<and> moe_fits k strategy (length (moe_ref ks ctx l x)) b')"
    using ok(1,3) b'(1) unfolding ok(2) by blast
  show "length (moe_ref ks ctx l x) = length x" by (rule ok(2))
qed

section \<open>The forward pass without tiles\<close>

definition moe_model_ok :: "nat \<Rightarrow> nat \<Rightarrow> moe_model \<Rightarrow> bool" where
  "moe_model_ok h k m \<longleftrightarrow> kernels_ok (moe_kernels_of m) \<and> (\<forall>l \<in> set (moe_layers m). moe_layer_ok h k l) \<and>
     (\<forall>t. length (embed_tokens m t) = h) \<and> (\<forall>x. length (moe_norm m x) = length x)"

definition moe_tensors_fit :: "nat \<Rightarrow> chunk_strategy option \<Rightarrow> nat \<Rightarrow> nat \<Rightarrow> moe_pool_tensors \<Rightarrow> bool" where
  "moe_tensors_fit k strategy n masks t \<longleftrightarrow>
     length (mt_x t) = n \<and> moe_fits k strategy n (mt_moe t) \<and> logits_fit strategy masks (mt_logits t)"

definition moe_hidden_states :: "moe_model \<Rightarrow> int list \<Rightarrow> forward_context \<Rightarrow> matrix" where
  "moe_hidden_states m toks ctx =
     moe_norm m (fold (moe_ref (moe_kernels_of m) ctx) (moe_layers m) (map (embed_tokens m) toks))"

definition moe_predictions :: "moe_model \<Rightarrow> sampler \<Rightarrow> int list \<Rightarrow> forward_context \<Rightarrow> int \<Rightarrow> int list \<times> rat list" where
  "moe_predictions m sample toks ctx P =
     sample (mm_t (map (\<lambda>i. moe_hidden_states m toks ctx ! (nat P + i)) (fc_mask_indices ctx)) (moe_lm_head m))"

lemma run_moe_layers_ok:
  assumes m: "moe_model_ok h k m" and toks: "toks \<noteq> []" "length (mt_x t) = length toks" "moe_fits k strategy (length toks) (mt_moe t)"
  shows "run_moe_layers m strategy toks ctx t = Inr (moe_hidden_states m toks ctx)"
    "length (moe_hidden_states m toks ctx) = length toks"
proof -
  let ?x = "map (embed_tokens m) toks"
  have "\<forall>l \<in> set (moe_layers m). kernels_ok (moe_kernels_of m) \<and> moe_layer_ok h k l"
    "0 < length ?x \<and> wide h ?x \<and> moe_fits k strategy (length ?x) (mt_moe t)"
    using m toks by (simp_all add: moe_model_ok_def wide_iff)
  from moe_stack.stack_refines [where ctx = ctx, OF this] m toks(2)
  show "run_moe_layers m strategy toks ctx t = Inr (moe_hidden_states m toks ctx)"
    "length (moe_hidden_states m toks ctx) = length toks"
    by (auto simp: run_moe_layers_def moe_hidden_states_def moe_model_ok_def)
qed

lemma llada_moe_forward_eq:
  assumes m: "moe_model_ok h k m" and r: "rowwise sample" and call: "single_call mid toks ctx P Q"
    and al: "alloc (P + Q) (int (length (fc_mask_indices ctx))) = Some (strategy, t)"
    and fit: "moe_tensors_fit k strategy (length toks) (length (fc_mask_indices ctx)) t"
  shows "llada_moe_forward m sample alloc toks ctx = Inr (moe_predictions m sample toks ctx P)"
proof -
  note c = single_callD [OF call]
  have t: "length (mt_x t) = length toks" "moe_fits k strategy (length toks) (mt_moe t)"
    "logits_fit strategy (length (fc_mask_indices ctx)) (mt_logits t)" using fit by (simp_all add: moe_tensors_fit_def)
  let ?x = "moe_hidden_states m toks ctx"
  note run = run_moe_layers_ok [OF m c(1) t(1,2)]
  have out: "py_slice_from ?x (- Q) = drop (nat P) ?x"
    using c(2,4) run(2) call by (simp add: py_slice_from_def py_bound_def single_call_def)
  obtain f where f: "\<And>rows. sample rows = (map (fst \<circ> f) rows, map (snd \<circ> f) rows)" using r by (auto simp: rowwise_def)
  have "masked_logits sample strategy (moe_lm_head m) (drop (nat P) ?x) (fc_mask_indices ctx) (mt_logits t) =
      Inr (sample (mm_t (map (\<lambda>i. drop (nat P) ?x ! i) (fc_mask_indices ctx)) (moe_lm_head m)))"
    using call c(4,5) run(2) t(3) by (intro masked_logits_ok [OF f]) (auto simp: single_call_def)
  moreover have "map (\<lambda>i. drop (nat P) ?x ! i) (fc_mask_indices ctx) = map (\<lambda>i. ?x ! (nat P + i)) (fc_mask_indices ctx)"
    using run(2) c(4) by simp
  ultimately show ?thesis
    using call al run(1) out c(2) by (simp add: llada_moe_forward_def moe_predictions_def single_call_def Let_def)
qed

text \<open>The contract of an allocation, for a model that sends each token to \<open>k\<close> experts.\<close>

definition moe_alloc_ok :: "nat \<Rightarrow> nat \<Rightarrow> moe_allocator \<Rightarrow> bool" where
  "moe_alloc_ok k n alloc \<longleftrightarrow> (\<forall>masks. 0 < masks \<longrightarrow> masks \<le> n \<longrightarrow>
     (\<exists>s t. alloc (int n) (int masks) = Some (s, t) \<and> moe_tensors_fit k s n masks t))"

lemma moe_alloc_call:
  assumes "moe_alloc_ok k (length toks) alloc" "single_call mid toks ctx P Q"
  obtains s t where "alloc (P + Q) (int (length (fc_mask_indices ctx))) = Some (s, t)"
    "moe_tensors_fit k s (length toks) (length (fc_mask_indices ctx)) t"
proof -
  have "P + Q = int (length toks)" using assms(2) by (simp add: single_call_def)
  then show thesis using assms(1) single_call_masks [OF assms(2)] that unfolding moe_alloc_ok_def by metis
qed

lemma llada_moe_meets_contract:
  assumes "moe_model_ok h k m" "rowwise sample" "moe_alloc_ok k n alloc"
  shows "forward_ok mid n (llada_moe_forward m sample alloc)"
proof (rule forward_okI)
  fix flat P Q and ctx :: forward_context assume call: "single_call mid flat ctx P Q" and n: "length flat = n"
  obtain s t where "alloc (P + Q) (int (length (fc_mask_indices ctx))) = Some (s, t)"
    "moe_tensors_fit k s (length flat) (length (fc_mask_indices ctx)) t"
    using moe_alloc_call [OF _ call] assms(3) n by blast
  from llada_moe_forward_eq [where alloc = alloc, OF assms(1,2) call this] assms(2)
  show "\<exists>idx conf. llada_moe_forward m sample alloc flat ctx = Inr (idx, conf) \<and>
      length idx = length (fc_mask_indices ctx) \<and> length conf = length (fc_mask_indices ctx)"
    by (auto simp: rowwise_def moe_predictions_def)
qed

section \<open>Properties\<close>

text \<open>Property C34. LLaDA-MoE predicts the same tokens and confidences under any two chunk strategies and
  whatever the caches and buffers of the pool held before, as long as they have the heights planned for
  the strategy. The prediction is that of a model that computes, for each token, the weighted sum of the
  experts its router selects, on all tokens at once and without any buffer.\<close>

theorem moe_chunked_forward_equivalent:
  assumes "moe_model_ok h k m" "rowwise sample" "single_call mid toks ctx P Q"
    "alloc1 (P + Q) (int (length (fc_mask_indices ctx))) = Some (s1, t1)"
    "moe_tensors_fit k s1 (length toks) (length (fc_mask_indices ctx)) t1"
    "alloc2 (P + Q) (int (length (fc_mask_indices ctx))) = Some (s2, t2)"
    "moe_tensors_fit k s2 (length toks) (length (fc_mask_indices ctx)) t2"
  shows "llada_moe_forward m sample alloc1 toks ctx = Inr (moe_predictions m sample toks ctx P) \<and>
    llada_moe_forward m sample alloc1 toks ctx = llada_moe_forward m sample alloc2 toks ctx"
  using llada_moe_forward_eq [where alloc = alloc1, OF assms(1-5)] llada_moe_forward_eq [where alloc = alloc2, OF assms(1-3,6,7)]
  by simp

text \<open>A model with a dense layer, which the configuration provides for, cannot
  run: the dense feed-forward part is called with the dictionary of tensors and raises TypeError, whatever
  the strategy and the tensors.\<close>

theorem moe_dense_layer_raises:
  assumes "moe_layers m = before @ l # after" "ml_mlp l = DenseMlp w"
    "\<forall>l \<in> set before. moe_layer_ok h k l" "kernels_ok (moe_kernels_of m)" "\<forall>t. length (embed_tokens m t) = h"
    "single_call mid toks ctx P Q" "alloc (P + Q) (int (length (fc_mask_indices ctx))) = Some (strategy, t)"
    "moe_tensors_fit k strategy (length toks) (length (fc_mask_indices ctx)) t"
  shows "llada_moe_forward m sample alloc toks ctx = Inl TypeError"
proof -
  note c = single_callD [OF assms(6)]
  let ?x = "map (embed_tokens m) toks" and ?layer = "llada_moe_layer (moe_kernels_of m) strategy ctx"
  have "\<forall>l \<in> set before. kernels_ok (moe_kernels_of m) \<and> moe_layer_ok h k l"
    "0 < length ?x \<and> wide h ?x \<and> moe_fits k strategy (length ?x) (mt_moe t)"
    using assms(3-5,8) c(1) by (simp_all add: wide_iff moe_tensors_fit_def)
  from moe_stack.stack_refines [where ctx = ctx, OF this] obtain y b where
    "foldM ?layer before (?x, mt_moe t) = Inr (y, b)" by blast
  moreover have "?layer l (y, b) = Inl TypeError" using assms(2) by (simp add: llada_moe_layer_def split_beta)
  ultimately have "run_moe_layers m strategy toks ctx t = Inl TypeError"
    using assms(8) by (simp add: run_moe_layers_def assms(1) foldM_append moe_tensors_fit_def)
  then show ?thesis using assms(6,7) by (simp add: llada_moe_forward_def single_call_def)
qed

section \<open>A concrete model\<close>

definition demo_sparse :: sparse_block where
  "demo_sparse = \<lparr>gate = [[1, 0], [0, 1]], expert_bias = Some [1, 2], experts = demo_experts\<rparr>"

definition demo_kernels :: moe_kernels where
  "demo_kernels = \<lparr>mk_config = (\<lambda>n. \<lparr>BLOCK_SIZE_M = 2, BLOCK_SIZE_N = 1, BLOCK_SIZE_K = 1, GROUP_SIZE_M = n + 1\<rparr>),
     mk_order = (\<lambda>n. rev [0..<n]), mk_sched = (\<lambda>n. rev [0..<n]), mk_topk_softmax = demo_topk_softmax, mk_silu = (\<lambda>v. v)\<rparr>"

definition demo_moe_layer :: "moe_mlp \<Rightarrow> moe_decoder_layer" where
  "demo_moe_layer mlp = \<lparr>input_layernorm = (\<lambda>x. x), ml_q_proj = [[1, 0], [0, 1]], ml_k_proj = [[1, 1]],
     ml_v_proj = [[1, 0], [0, 2]], qk_norm = Some (\<lambda>q. q, \<lambda>k. k), ml_attention = (\<lambda>_ q _ v. mat_add q v),
     ml_o_proj = [[1, 0], [1, 1]], post_attention_layernorm = (\<lambda>x a. (mat_add x a, mat_add x a)), ml_mlp = mlp\<rparr>"

definition demo_moe_model :: "moe_mlp \<Rightarrow> moe_model" where
  "demo_moe_model mlp = \<lparr>embed_tokens = (\<lambda>i. [of_int i, 1]),
     moe_layers = [demo_moe_layer (SparseMoe demo_sparse), demo_moe_layer mlp], moe_norm = (\<lambda>x. x),
     moe_lm_head = [[1, 0], [0, 1], [1, 1]], moe_kernels_of = demo_kernels\<rparr>"

definition demo_moe_tensors :: "nat \<Rightarrow> chunk_strategy option \<Rightarrow> nat \<Rightarrow> nat \<Rightarrow> moe_pool_tensors" where
  "demo_moe_tensors k strategy n masks =
     \<lparr>mt_x = replicate n [], mt_moe = \<lparr>mb_caches = demo_caches (tile_height strategy n) k, moe_output = replicate n []\<rparr>,
      mt_logits = pt_logits (demo_tensors strategy n masks)\<rparr>"

definition demo_moe_alloc :: "chunk_strategy option \<Rightarrow> moe_allocator" where
  "demo_moe_alloc strategy n masks = Some (strategy, demo_moe_tensors 2 strategy (nat n) (nat masks))"

lemma demo_kernels_ok: "kernels_ok demo_kernels"
  using demo_routing by (simp add: kernels_ok_def demo_kernels_def config_ok_def)

lemma demo_moe_layer_ok: "moe_layer_ok 2 2 (demo_moe_layer (SparseMoe demo_sparse))"
proof -
  have "sparse_ok 2 2 demo_sparse"
    by (simp add: sparse_ok_def demo_sparse_def experts_ok_def demo_experts_def)
  then show ?thesis
    unfolding moe_layer_ok_def demo_moe_layer_def by (simp add: wide_mat_add) (simp add: mat_add_def)
qed

lemma demo_moe_model_ok: "moe_model_ok 2 2 (demo_moe_model (SparseMoe demo_sparse))"
  using demo_moe_layer_ok demo_kernels_ok by (simp add: moe_model_ok_def demo_moe_model_def)

lemma demo_moe_tensors_fit: "moe_tensors_fit k None n masks (demo_moe_tensors k None n masks)"
  "moe_tensors_fit k (Some demo_strategy) n masks (demo_moe_tensors k (Some demo_strategy) n masks)"
  by (simp_all add: moe_tensors_fit_def demo_moe_tensors_def moe_fits_def demo_caches_def demo_tensors_def logits_fit_def
      demo_strategy_def Let_def)

lemma demo_moe_alloc_call:
  "demo_moe_alloc s (2 + 3) (int (length (fc_mask_indices demo_context))) =
     Some (s, demo_moe_tensors 2 s (length [3, 4, 9, 5, 9 :: int]) (length (fc_mask_indices demo_context)))"
  by (simp add: demo_moe_alloc_def numeral_eq_Suc)

theorem moe_chunked_forward_equivalent_witness:
  "llada_moe_forward (demo_moe_model (SparseMoe demo_sparse)) (demo_sample 0) (demo_moe_alloc None) [3, 4, 9, 5, 9] demo_context =
   llada_moe_forward (demo_moe_model (SparseMoe demo_sparse)) (demo_sample 0) (demo_moe_alloc (Some demo_strategy))
     [3, 4, 9, 5, 9] demo_context"
  using moe_chunked_forward_equivalent [where ?alloc1.0 = "demo_moe_alloc None" and ?alloc2.0 = "demo_moe_alloc (Some demo_strategy)"
      and sample = "demo_sample 0", OF demo_moe_model_ok demo_model_ok(2) demo_call(2) demo_moe_alloc_call
      demo_moe_tensors_fit(1) demo_moe_alloc_call demo_moe_tensors_fit(2)] by blast

theorem moe_dense_layer_raises_witness:
  "llada_moe_forward (demo_moe_model (DenseMlp (layer_mlp demo_layer))) (demo_sample 0) (demo_moe_alloc None)
     [3, 4, 9, 5, 9] demo_context = Inl TypeError"
proof -
  let ?m = "demo_moe_model (DenseMlp (layer_mlp demo_layer))"
  have h: "moe_layers ?m = [demo_moe_layer (SparseMoe demo_sparse)] @ demo_moe_layer (DenseMlp (layer_mlp demo_layer)) # []"
    "ml_mlp (demo_moe_layer (DenseMlp (layer_mlp demo_layer))) = DenseMlp (layer_mlp demo_layer)"
    "\<forall>l \<in> set [demo_moe_layer (SparseMoe demo_sparse)]. moe_layer_ok 2 2 l" "kernels_ok (moe_kernels_of ?m)"
    "\<forall>t. length (embed_tokens ?m t) = 2"
    using demo_moe_layer_ok demo_kernels_ok by (simp_all add: demo_moe_model_def demo_moe_layer_def)
  show ?thesis
    using moe_dense_layer_raises [where alloc = "demo_moe_alloc None", OF h demo_call(2) demo_moe_alloc_call
      demo_moe_tensors_fit(1)] .
qed

end
