(* ===== verification/Serving.thy ===== *)
theory Serving
  imports Activation_Tensors Moe_Forward
begin

text \<open>
  The assembled system: the engine steps a scheduler, whose batches are denoised by a model that
  takes its tensors from the activation pool. The allocation of
  \<^verbatim>\<open>vllm_add_llada/llada_model.py\<close>, \<^verbatim>\<open>vllm_add_dream/dream_model.py\<close> and
  \<^verbatim>\<open>vllm_add_llada_moe/llada_moe_model.py\<close>, modelled in \<open>Activation_Tensors\<close>, is shown to give every forward pass the tensors it relies on, so the
  forward passes meet the contract of the engine without any assumption on the allocation.
\<close>

section \<open>The tensors of a forward pass\<close>

text \<open>The numbers found at a two-dimensional view, where \<open>mem\<close> gives the number stored at a byte
  address of the pool.\<close>

definition view_rows :: "(int \<Rightarrow> rat) \<Rightarrow> tensor_view \<Rightarrow> matrix" where
  "view_rows mem v =
     (case view_shape v of
        [h, w] \<Rightarrow>
          map (\<lambda>i. map (\<lambda>j. mem (buf_start (view_buf v) + (i * w + j) * (dtype_bits (view_dtype v) div 8))) [0..w - 1])
            [0..h - 1]
      | _ \<Rightarrow> [])"

definition tensor_rows :: "(int \<Rightarrow> rat) \<Rightarrow> (string \<rightharpoonup> tensor_view) \<Rightarrow> string \<Rightarrow> matrix" where
  "tensor_rows mem ts k = (case ts k of None \<Rightarrow> [] | Some v \<Rightarrow> view_rows mem v)"

text \<open>The keys under which a model looks its buffers up.\<close>

record buffer_names =
  gate_name :: string
  up_name :: string
  gated_name :: string

definition llada_buffers :: buffer_names where
  "llada_buffers = \<lparr>gate_name = ''mlp_x'', up_name = ''mlp_x_up'', gated_name = ''mlp_gated''\<rparr>"

definition dream_buffers :: buffer_names where
  "dream_buffers = \<lparr>gate_name = ''x_gate'', up_name = ''x_up'', gated_name = ''x_mlp''\<rparr>"

definition pool_tensors_of :: "buffer_names \<Rightarrow> (int \<Rightarrow> rat) \<Rightarrow> (string \<rightharpoonup> tensor_view) \<Rightarrow> pool_tensors" where
  "pool_tensors_of names mem ts =
     \<lparr>pt_x = tensor_rows mem ts ''x'',
      pt_mlp = \<lparr>mlp_x = tensor_rows mem ts (gate_name names), mlp_x_up = tensor_rows mem ts (up_name names),
        mlp_gated = tensor_rows mem ts (gated_name names), mlp_output = tensor_rows mem ts ''mlp_output''\<rparr>,
      pt_logits = tensor_rows mem ts ''logits''\<rparr>"

definition chunk_strategy_of :: "search_result \<Rightarrow> chunk_strategy" where
  "chunk_strategy_of r =
     (let c = res_config r in
      \<lparr>cs_chunk_mlp = cfg_chunk_mlp c, cs_chunk_logits = cfg_chunk_logits c,
       cs_num_chunks_mlp = nat (cfg_num_chunks_mlp c), cs_num_chunks_logits = nat (cfg_num_chunks_logits c)\<rparr>)"

text \<open>The call \<^verbatim>\<open>self.allocate_activation_tensors_with_reuse_plan(N, M)\<close> at the start of a forward
  pass, with the strategy it leaves in the model.\<close>

definition pool_allocator ::
  "(nat \<Rightarrow> bool \<Rightarrow> pool option \<Rightarrow> int \<Rightarrow> int \<Rightarrow> model_plan result option) \<Rightarrow> ((string \<rightharpoonup> tensor_view) \<Rightarrow> 't) \<Rightarrow>
     gpu \<Rightarrow> nat \<Rightarrow> bool \<Rightarrow> pool \<Rightarrow> int \<Rightarrow> int \<Rightarrow> (chunk_strategy option \<times> 't) option" where
  "pool_allocator get_plan tensors_of gpu fuel use_chunkwise p N M =
     (case (get_plan fuel use_chunkwise (Some p) N M,
            allocate_activation_tensors_with_reuse_plan get_plan gpu fuel use_chunkwise (Some p) N M) of
        (Some (Inr mp), Some (Some (ts, _))) \<Rightarrow>
          Some (map_option chunk_strategy_of (current_chunk_strategy mp), tensors_of ts)
      | _ \<Rightarrow> None)"

definition model_allocator ::
  "(nat \<Rightarrow> bool \<Rightarrow> pool option \<Rightarrow> int \<Rightarrow> int \<Rightarrow> model_plan result option) \<Rightarrow> buffer_names \<Rightarrow>
     gpu \<Rightarrow> nat \<Rightarrow> bool \<Rightarrow> pool \<Rightarrow> (int \<Rightarrow> rat) \<Rightarrow> allocator" where
  "model_allocator get_plan names gpu fuel use_chunkwise p mem =
     pool_allocator get_plan (pool_tensors_of names mem) gpu fuel use_chunkwise p"

text \<open>The caches of LLaDA-MoE are views of three and two dimensions; the kernels address them as flat memory.\<close>

definition tensor_cache :: "(int \<Rightarrow> rat) \<Rightarrow> (string \<rightharpoonup> tensor_view) \<Rightarrow> string \<Rightarrow> moe_cache" where
  "tensor_cache mem ts k =
     (case ts k of
        None \<Rightarrow> \<lparr>cache_rows = 0, cache_mem = (\<lambda>_. 0)\<rparr>
      | Some v \<Rightarrow>
          \<lparr>cache_rows = (case view_shape v of [] \<Rightarrow> 0 | h # _ \<Rightarrow> nat h),
           cache_mem = (\<lambda>q. mem (buf_start (view_buf v) + int q * (dtype_bits (view_dtype v) div 8)))\<rparr>)"

definition moe_tensors_of :: "(int \<Rightarrow> rat) \<Rightarrow> (string \<rightharpoonup> tensor_view) \<Rightarrow> moe_pool_tensors" where
  "moe_tensors_of mem ts =
     \<lparr>mt_x = tensor_rows mem ts ''x'',
      mt_moe = \<lparr>mb_caches = \<lparr>moe_cache1 = tensor_cache mem ts ''moe_cache1'', moe_cache2 = tensor_cache mem ts ''moe_cache2'',
        moe_cache3 = tensor_cache mem ts ''moe_cache3''\<rparr>, moe_output = tensor_rows mem ts ''moe_output''\<rparr>,
      mt_logits = tensor_rows mem ts ''logits''\<rparr>"

definition llada_moe_allocator :: "gpu \<Rightarrow> nat \<Rightarrow> bool \<Rightarrow> pool \<Rightarrow> (int \<Rightarrow> rat) \<Rightarrow> moe_allocator" where
  "llada_moe_allocator gpu fuel use_chunkwise p mem =
     pool_allocator llada_moe_get_optimized_reuse_plan (moe_tensors_of mem) gpu fuel use_chunkwise p"

section \<open>Heights\<close>

text \<open>Every \<^verbatim>\<open>add_op\<close> leaves its node in the graph.\<close>

lemma foldM_nodes_grow: "foldM run_cmd cs g = Inr g' \<Longrightarrow> set (execution_order g) \<subseteq> set (execution_order g')"
proof (induction cs arbitrary: g)
  case (Cons c cs)
  then obtain h where h: "run_cmd c g = Inr h" "foldM run_cmd cs h = Inr g'" by (auto simp: bind_res_eq_Inr)
  have "set (execution_order g) \<subseteq> set (execution_order h)"
    using h(1) by (cases c) (auto elim!: add_op_cases add_alias_cases)
  then show ?case using Cons.IH [OF h(2)] by blast
qed simp

lemma foldM_node:
  "foldM run_cmd cs g = Inr g' \<Longrightarrow> AddOp out op ins shp dt \<in> set cs \<Longrightarrow>
   \<exists>n \<in> set (execution_order g'). output_name n = out \<and> ts_shape (output_spec n) = shp \<and> node_size n = prod_int64 shp * (dtype_bits dt div 8)"
proof (induction cs arbitrary: g)
  case (Cons c cs)
  then obtain h where h: "run_cmd c g = Inr h" "foldM run_cmd cs h = Inr g'" by (auto simp: bind_res_eq_Inr)
  show ?case
  proof (cases "AddOp out op ins shp dt \<in> set cs")
    case True
    then show ?thesis using Cons.IH [OF h(2)] by blast
  next
    case False
    then have "c = AddOp out op ins shp dt" using Cons.prems(2) by simp
    then have "\<exists>n \<in> set (execution_order h). output_name n = out \<and> ts_shape (output_spec n) = shp \<and>
        node_size n = prod_int64 shp * (dtype_bits dt div 8)"
      using h(1) by (auto elim!: add_op_cases simp: TensorSpec_def Let_def split: if_splits)
    then show ?thesis using foldM_nodes_grow [OF h(2)] by blast
  qed
qed simp

lemma view_rows_height: "view_shape v = [h, w] \<Longrightarrow> length (view_rows mem v) = nat h"
  by (simp add: view_rows_def)

definition has_rows :: "graph_cmd list \<Rightarrow> string \<Rightarrow> int \<Rightarrow> bool" where
  "has_rows cs k h \<longleftrightarrow> (\<exists>op ins w. AddOp k op ins [h, w] bfloat16 \<in> set cs \<and> 0 < w \<and> w < 2 ^ 22)"

lemma llada_rows:
  "has_rows (llada_chunk_cmds b N c l) ''x'' N" "has_rows (llada_chunk_cmds b N c l) ''mlp_x'' (if b then c else N)"
  "has_rows (llada_chunk_cmds b N c l) ''mlp_x_up'' (if b then c else N)"
  "has_rows (llada_chunk_cmds b N c l) ''mlp_gated'' (if b then c else N)"
  "has_rows (llada_chunk_cmds b N c l) ''mlp_output'' N" "has_rows (llada_chunk_cmds b N c l) ''logits'' l"
  by (auto simp: has_rows_def llada_chunk_cmds_def Let_def)

lemma dream_rows:
  "has_rows (dream_chunk_cmds b N c l) ''x'' N" "has_rows (dream_chunk_cmds b N c l) ''x_gate'' (if b then c else N)"
  "has_rows (dream_chunk_cmds b N c l) ''x_up'' (if b then c else N)"
  "has_rows (dream_chunk_cmds b N c l) ''x_mlp'' (if b then c else N)"
  "has_rows (dream_chunk_cmds b N c l) ''mlp_output'' N" "has_rows (dream_chunk_cmds b N c l) ''logits'' l"
  by (auto simp: has_rows_def dream_chunk_cmds_def Let_def)

text \<open>The views of an allocation have the planned heights.\<close>

lemma allocated_view:
  assumes g: "build_graph cs = Inr g" and k: "AddOp k op ins shp bfloat16 \<in> set cs" and pos: "0 < prod_int64 shp"
    and views: "\<And>n. n \<in> set (execution_order g) \<Longrightarrow> 0 < node_size n \<Longrightarrow>
      \<exists>e. ts (output_name n) = Some \<lparr>view_buf = e, view_shape = ts_shape (output_spec n), view_dtype = ts_dtype (output_spec n)\<rparr>"
  obtains v where "ts k = Some v" "view_shape v = shp"
proof -
  obtain n where n: "n \<in> set (execution_order g)" "output_name n = k" "ts_shape (output_spec n) = shp"
    "node_size n = prod_int64 shp * (dtype_bits bfloat16 div 8)"
    using foldM_node [OF g [unfolded build_graph_def] k] by blast
  have "0 < node_size n" using n(4) pos by (simp add: bfloat16_def)
  then show thesis using views [OF n(1)] n(2,3) that by auto
qed

lemma prod_int64_pos:
  "tokens_ok h \<Longrightarrow> 0 < w \<Longrightarrow> w < 2 ^ 22 \<Longrightarrow> prod_list ws = w \<Longrightarrow> 0 < prod_int64 (h # ws)"
  using wrap64_tokens [of h w] tokens_ok_pos [of h] by (simp add: prod_int64_def)

lemma allocated_rows:
  assumes g: "build_graph cs = Inr g" and k: "has_rows cs k h" and h: "tokens_ok h"
    and views: "\<And>n. n \<in> set (execution_order g) \<Longrightarrow> 0 < node_size n \<Longrightarrow>
      \<exists>e. ts (output_name n) = Some \<lparr>view_buf = e, view_shape = ts_shape (output_spec n), view_dtype = ts_dtype (output_spec n)\<rparr>"
  shows "length (tensor_rows mem ts k) = nat h" "cache_rows (tensor_cache mem ts k) = nat h"
proof -
  obtain op ins w where w: "AddOp k op ins [h, w] bfloat16 \<in> set cs" "0 < w" "w < 2 ^ 22"
    using k by (auto simp: has_rows_def)
  obtain v where "ts k = Some v" "view_shape v = [h, w]"
    using allocated_view [OF g w(1) prod_int64_pos [OF h w(2,3)] views] by auto
  then show "length (tensor_rows mem ts k) = nat h" "cache_rows (tensor_cache mem ts k) = nat h"
    by (simp_all add: tensor_rows_def view_rows_height tensor_cache_def)
qed

definition names_fit :: "buffer_names \<Rightarrow> (bool \<Rightarrow> int \<Rightarrow> int \<Rightarrow> int \<Rightarrow> graph_cmd list) \<Rightarrow> bool" where
  "names_fit names cmds \<longleftrightarrow> (\<forall>b N c l. has_rows (cmds b N c l) ''x'' N \<and>
     (\<forall>k \<in> {gate_name names, up_name names, gated_name names}. has_rows (cmds b N c l) k (if b then c else N)) \<and>
     has_rows (cmds b N c l) ''mlp_output'' N \<and> has_rows (cmds b N c l) ''logits'' l)"

lemma llada_names_fit: "names_fit llada_buffers llada_chunk_cmds"
  using llada_rows by (simp add: names_fit_def llada_buffers_def)

lemma dream_names_fit: "names_fit dream_buffers dream_chunk_cmds"
  using dream_rows by (simp add: names_fit_def dream_buffers_def)

lemma config_heights: "cfg_ok cfg \<Longrightarrow> 0 \<le> n \<Longrightarrow>
    nat (ceil_div n (cfg_num_chunks_mlp cfg)) = (nat n + nat (cfg_num_chunks_mlp cfg) - 1) div nat (cfg_num_chunks_mlp cfg)"
  "cfg_ok cfg \<Longrightarrow> 0 \<le> n \<Longrightarrow>
    nat (ceil_div n (cfg_num_chunks_logits cfg)) = (nat n + nat (cfg_num_chunks_logits cfg) - 1) div nat (cfg_num_chunks_logits cfg)"
  using chunk_heights [of "nat (cfg_num_chunks_mlp cfg)" "nat n"] chunk_heights [of "nat (cfg_num_chunks_logits cfg)" "nat n"]
  by (simp_all add: cfg_ok_def)

lemma pool_tensors_fit:
  assumes names: "names_fit names cmds" and ok: "tokens_ok (int n)" "tokens_ok (int k)" and cfg: "cfg_ok (plan_config mp)"
    and g: "build_graph (cmds (cfg_chunk_mlp (plan_config mp)) (int n)
        (if cfg_chunk_mlp (plan_config mp) then ceil_div (int n) (cfg_num_chunks_mlp (plan_config mp)) else int n)
        (if cfg_chunk_logits (plan_config mp) then ceil_div (int k) (cfg_num_chunks_logits (plan_config mp)) else int k)) = Inr g"
      (is "build_graph (cmds ?b _ ?c ?l) = _")
    and views: "\<And>n. n \<in> set (execution_order g) \<Longrightarrow> 0 < node_size n \<Longrightarrow>
      \<exists>e. ts (output_name n) = Some \<lparr>view_buf = e, view_shape = ts_shape (output_spec n), view_dtype = ts_dtype (output_spec n)\<rparr>"
  shows "tensors_fit (map_option chunk_strategy_of (current_chunk_strategy mp)) n k (pool_tensors_of names mem ts)"
proof -
  let ?cfg = "plan_config mp"
  have c: "tokens_ok ?c" "tokens_ok ?l"
    using ok cfg tokens_ok_ceil_div [OF ok(1)] tokens_ok_ceil_div [OF ok(2)] by (auto simp: cfg_ok_def)
  have same: "(if ?b then ?c else int n) = ?c" by simp
  note names' = names [unfolded names_fit_def, rule_format, of ?b "int n" ?c ?l, unfolded same]
  note rows = allocated_rows(1) [OF g _ _ views, where mem = mem]
  have f: "length (tensor_rows mem ts ''x'') = n" "length (tensor_rows mem ts ''mlp_output'') = n"
    "length (tensor_rows mem ts (gate_name names)) = nat ?c" "length (tensor_rows mem ts (up_name names)) = nat ?c"
    "length (tensor_rows mem ts (gated_name names)) = nat ?c" "length (tensor_rows mem ts ''logits'') = nat ?l"
    using rows [OF _ ok(1)] rows [OF _ c(1)] rows [OF _ c(2)] names' by (metis insertCI nat_int)+
  have c': "nat ?c = (if cfg_chunk_mlp ?cfg then (n + nat (cfg_num_chunks_mlp ?cfg) - 1) div nat (cfg_num_chunks_mlp ?cfg) else n)"
    "nat ?l = (if cfg_chunk_logits ?cfg then (k + nat (cfg_num_chunks_logits ?cfg) - 1) div nat (cfg_num_chunks_logits ?cfg) else k)"
    using config_heights [OF cfg, of "int n"] config_heights [OF cfg, of "int k"] by simp_all
  have pos: "0 < nat (cfg_num_chunks_mlp ?cfg)" "0 < nat (cfg_num_chunks_logits ?cfg)" using cfg by (simp_all add: cfg_ok_def)
  show ?thesis
  proof (cases "current_chunk_strategy mp")
    case None
    then have "?cfg = initial_config" by (simp add: plan_config_def)
    then show ?thesis
      using None f c' by (simp add: tensors_fit_def mlp_fits_def logits_fit_def pool_tensors_of_def initial_config_def)
  next
    case (Some r)
    then have "?cfg = res_config r" by (simp add: plan_config_def)
    then show ?thesis
      using Some f c' pos
      by (simp add: tensors_fit_def mlp_fits_def logits_fit_def pool_tensors_of_def chunk_strategy_of_def Let_def)
  qed
qed

section \<open>The allocation meets the contract of the forward passes\<close>

definition plans_fit ::
  "(nat \<Rightarrow> bool \<Rightarrow> pool option \<Rightarrow> int \<Rightarrow> int \<Rightarrow> model_plan result option) \<Rightarrow> nat \<Rightarrow> bool \<Rightarrow> pool \<Rightarrow> nat \<Rightarrow> bool" where
  "plans_fit get_plan fuel use_chunkwise p n \<longleftrightarrow>
     list_all (\<lambda>k. case get_plan fuel use_chunkwise (Some p) (int n) (int k) of
        Some (Inr mp) \<Rightarrow> use_chunkwise \<or> total_buffer_size_bytes (mp_plan mp) \<le> pool_size p
      | _ \<Rightarrow> False) [1..<Suc n]"

lemma plans_fit_iff: "plans_fit get_plan fuel uc p n \<longleftrightarrow>
    (\<forall>k. 0 < k \<longrightarrow> k \<le> n \<longrightarrow> (\<exists>mp. get_plan fuel uc (Some p) (int n) (int k) = Some (Inr mp) \<and>
       (uc \<or> total_buffer_size_bytes (mp_plan mp) \<le> pool_size p)))"
proof -
  let ?f = "\<lambda>k. case get_plan fuel uc (Some p) (int n) (int k) of
        Some (Inr mp) \<Rightarrow> uc \<or> total_buffer_size_bytes (mp_plan mp) \<le> pool_size p | _ \<Rightarrow> False"
  have "?f k \<longleftrightarrow> (\<exists>mp. get_plan fuel uc (Some p) (int n) (int k) = Some (Inr mp) \<and>
       (uc \<or> total_buffer_size_bytes (mp_plan mp) \<le> pool_size p))" for k
    by (simp split: option.split sum.split)
  moreover have "k \<in> set [1..<Suc n] \<longleftrightarrow> 0 < k \<and> k \<le> n" for k by auto
  ultimately show ?thesis unfolding plans_fit_def list_all_iff Ball_def by (simp only: imp_conjL)
qed

text \<open>The two models with dense feed-forward layers: how they plan, what they call their buffers.\<close>

definition dense_models ::
  "((nat \<Rightarrow> bool \<Rightarrow> pool option \<Rightarrow> int \<Rightarrow> int \<Rightarrow> model_plan result option) \<times> buffer_names) list" where
  "dense_models = [(llada_get_optimized_reuse_plan, llada_buffers), (dream_get_optimized_reuse_plan, dream_buffers)]"

lemma dense_model_cmds:
  assumes "(get_plan, names) \<in> set dense_models"
  obtains model cmds where "(get_plan, model) \<in> set plan_getters" "names_fit names cmds"
    "\<And>cfg N M. cfg_ok cfg \<Longrightarrow> config_graph model N M cfg = build_graph (cmds (cfg_chunk_mlp cfg) N
       (if cfg_chunk_mlp cfg then ceil_div N (cfg_num_chunks_mlp cfg) else N)
       (if cfg_chunk_logits cfg then ceil_div M (cfg_num_chunks_logits cfg) else M))"
  using assms that [of "''llada''" llada_chunk_cmds] that [of "''dream''" dream_chunk_cmds]
    llada_names_fit dream_names_fit config_graph_cmds(1) [OF _ model_names(1)] config_graph_cmds(2) [OF _ model_names(2)]
  unfolding dense_models_def plan_getters_def by auto

lemma pool_allocator_ok:
  assumes p: "pool_inv p" "0 < vmm_chunk_size p" "initialized p" and create: "\<And>k. create_ok gpu k"
    and getter: "(get_plan, model) \<in> set plan_getters" and n: "int n < 2 ^ 40"
    and fit: "plans_fit get_plan fuel uc p n" and k: "0 < k" "k \<le> n"
  obtains mp ts where "\<And>tensors_of. pool_allocator get_plan tensors_of gpu fuel uc p (int n) (int k) =
      Some (map_option chunk_strategy_of (current_chunk_strategy mp), tensors_of ts)"
    "tokens_ok (int n)" "tokens_ok (int k)" "cfg_ok (plan_config mp)"
    "config_graph model (int n) (int k) (plan_config mp) = Inr (mp_graph mp)"
    "\<And>n. n \<in> set (execution_order (mp_graph mp)) \<Longrightarrow> 0 < node_size n \<Longrightarrow>
      \<exists>e. ts (output_name n) = Some \<lparr>view_buf = e, view_shape = ts_shape (output_spec n), view_dtype = ts_dtype (output_spec n)\<rparr>"
proof -
  have ok: "tokens_ok (int n)" "tokens_ok (int k)" using n k by (simp_all add: tokens_ok_def)
  obtain mp where plan: "get_plan fuel uc (Some p) (int n) (int k) = Some (Inr mp)"
    "uc \<or> total_buffer_size_bytes (mp_plan mp) \<le> pool_size p"
    using fit k unfolding plans_fit_iff by blast
  obtain ts p' where alloc: "allocate_activation_tensors_with_reuse_plan get_plan gpu fuel uc (Some p) (int n) (int k)
        = Some (Some (ts, p'))"
    and views: "\<And>n. n \<in> set (execution_order (mp_graph mp)) \<Longrightarrow> 0 < node_size n \<Longrightarrow>
        \<exists>e. entries (mp_plan mp) (output_name n) = Some e \<and>
           ts (output_name n) = Some \<lparr>view_buf = \<lparr>buf_start = offset e, buf_len = node_size n\<rparr>,
             view_shape = ts_shape (output_spec n), view_dtype = ts_dtype (output_spec n)\<rparr>"
    using allocation_succeeds [OF p create getter ok plan] by metis
  note g = getter_plan [OF getter ok plan(1)]
  have "pool_allocator get_plan tensors_of gpu fuel uc p (int n) (int k) =
      Some (map_option chunk_strategy_of (current_chunk_strategy mp), tensors_of ts)" for tensors_of :: "_ \<Rightarrow> 'c"
    using alloc plan(1) by (simp add: pool_allocator_def)
  then show thesis using that [OF _ ok g(4,5)] views by blast
qed

lemma model_allocator_ok:
  assumes p: "pool_inv p" "0 < vmm_chunk_size p" "initialized p" and create: "\<And>k. create_ok gpu k"
    and model: "(get_plan, names) \<in> set dense_models" and n: "int n < 2 ^ 40"
    and fit: "plans_fit get_plan fuel uc p n"
  shows "alloc_ok n (model_allocator get_plan names gpu fuel uc p mem)"
  unfolding alloc_ok_def
proof (intro allI impI)
  fix k assume k: "0 < k" "k \<le> n"
  obtain model cmds where m: "(get_plan, model) \<in> set plan_getters" "names_fit names cmds"
    "\<And>cfg N M. cfg_ok cfg \<Longrightarrow> config_graph model N M cfg = build_graph (cmds (cfg_chunk_mlp cfg) N
       (if cfg_chunk_mlp cfg then ceil_div N (cfg_num_chunks_mlp cfg) else N)
       (if cfg_chunk_logits cfg then ceil_div M (cfg_num_chunks_logits cfg) else M))"
    using dense_model_cmds [OF model] by metis
  obtain mp ts where a: "\<And>tensors_of :: _ \<Rightarrow> pool_tensors. pool_allocator get_plan tensors_of gpu fuel uc p (int n) (int k) =
      Some (map_option chunk_strategy_of (current_chunk_strategy mp), tensors_of ts)"
    and g: "tokens_ok (int n)" "tokens_ok (int k)" "cfg_ok (plan_config mp)"
      "config_graph model (int n) (int k) (plan_config mp) = Inr (mp_graph mp)"
    and views: "\<And>n. n \<in> set (execution_order (mp_graph mp)) \<Longrightarrow> 0 < node_size n \<Longrightarrow>
      \<exists>e. ts (output_name n) = Some \<lparr>view_buf = e, view_shape = ts_shape (output_spec n), view_dtype = ts_dtype (output_spec n)\<rparr>"
    using pool_allocator_ok [OF p create m(1) n fit k] by blast
  have "tensors_fit (map_option chunk_strategy_of (current_chunk_strategy mp)) n k (pool_tensors_of names mem ts)"
    using g(4) [unfolded m(3) [OF g(3)]] by (rule pool_tensors_fit [OF m(2) g(1-3)]) (rule views)
  then show "\<exists>s t. model_allocator get_plan names gpu fuel uc p mem (int n) (int k) = Some (s, t) \<and> tensors_fit s n k t"
    using a by (simp add: model_allocator_def)
qed

text \<open>LLaDA-MoE.\<close>

lemma moe_rows:
  "has_rows (llada_moe_chunk_cmds b N c l) ''x'' N" "has_rows (llada_moe_chunk_cmds b N c l) ''moe_output'' N"
  "has_rows (llada_moe_chunk_cmds b N c l) ''logits'' l"
  by (auto simp: has_rows_def llada_moe_chunk_cmds_def Let_def)

lemma moe_cache_cmds:
  "AddOp ''moe_cache1'' ''moe_gemm1'' [''x_normed_2''] [if b then c else N, 8, 2048] bfloat16 \<in> set (llada_moe_chunk_cmds b N c l)"
  "AddOp ''moe_cache2'' ''silu_and_mul'' [''moe_cache1''] [(if b then c else N) * 8, 1024] bfloat16 \<in>
     set (llada_moe_chunk_cmds b N c l)"
  "AddOp ''moe_cache3'' ''moe_gemm2'' [''moe_cache2''] [if b then c else N, 8, 2048] bfloat16 \<in> set (llada_moe_chunk_cmds b N c l)"
  by (simp_all add: llada_moe_chunk_cmds_def Let_def)

lemma moe_caches_allocated:
  assumes g: "build_graph (llada_moe_chunk_cmds b N h l) = Inr g" and h: "tokens_ok h" "\<not> b \<Longrightarrow> h = N"
    and views: "\<And>n. n \<in> set (execution_order g) \<Longrightarrow> 0 < node_size n \<Longrightarrow>
      \<exists>e. ts (output_name n) = Some \<lparr>view_buf = e, view_shape = ts_shape (output_spec n), view_dtype = ts_dtype (output_spec n)\<rparr>"
  shows "cache_rows (tensor_cache mem ts ''moe_cache1'') = nat h" "cache_rows (tensor_cache mem ts ''moe_cache2'') = nat h * 8"
    "cache_rows (tensor_cache mem ts ''moe_cache3'') = nat h"
proof -
  have same: "(if b then h else N) = h" using h(2) by simp
  note cmds = moe_cache_cmds [of b h N l, unfolded same]
  have pos: "0 < prod_int64 [h, 8, 2048]" "0 < prod_int64 [h * 8, 1024]"
    using prod_int64_pos [OF h(1), of 16384 "[8, 2048]"] prod_int64_pos [OF h(1), of 8192 "[8, 1024]"]
    by (simp_all add: prod_int64_def mult.assoc)
  show "cache_rows (tensor_cache mem ts ''moe_cache1'') = nat h"
    by (rule allocated_view [OF g cmds(1) pos(1) views]) (simp_all add: tensor_cache_def)
  show "cache_rows (tensor_cache mem ts ''moe_cache2'') = nat h * 8"
    by (rule allocated_view [OF g cmds(2) pos(2) views]) (use h(1) in \<open>simp_all add: tensor_cache_def tokens_ok_def nat_mult_distrib\<close>)
  show "cache_rows (tensor_cache mem ts ''moe_cache3'') = nat h"
    by (rule allocated_view [OF g cmds(3) pos(1) views]) (simp_all add: tensor_cache_def)
qed

lemma moe_pool_tensors_fit:
  assumes ok: "tokens_ok (int n)" "tokens_ok (int k)" and cfg: "cfg_ok (plan_config mp)"
    and g: "config_graph ''llada-moe'' (int n) (int k) (plan_config mp) = Inr g"
    and views: "\<And>n. n \<in> set (execution_order g) \<Longrightarrow> 0 < node_size n \<Longrightarrow>
      \<exists>e. ts (output_name n) = Some \<lparr>view_buf = e, view_shape = ts_shape (output_spec n), view_dtype = ts_dtype (output_spec n)\<rparr>"
  shows "moe_tensors_fit 8 (map_option chunk_strategy_of (current_chunk_strategy mp)) n k (moe_tensors_of mem ts)"
proof -
  let ?cfg = "plan_config mp"
  let ?c = "if cfg_chunk_mlp ?cfg then ceil_div (int n) (cfg_num_chunks_mlp ?cfg) else int n"
  let ?l = "if cfg_chunk_logits ?cfg then ceil_div (int k) (cfg_num_chunks_logits ?cfg) else int k"
  note g' = g [unfolded config_graph_cmds(3) [OF cfg model_names(3)]]
  have c: "tokens_ok ?c" "tokens_ok ?l"
    using ok cfg tokens_ok_ceil_div [OF ok(1)] tokens_ok_ceil_div [OF ok(2)] by (auto simp: cfg_ok_def)
  have same: "\<not> cfg_chunk_mlp ?cfg \<Longrightarrow> ?c = int n" by simp
  note caches = moe_caches_allocated [OF g' c(1) same views, where mem = mem]
  note rows = allocated_rows(1) [OF g' _ _ views, where mem = mem]
  have f: "length (tensor_rows mem ts ''x'') = n" "length (tensor_rows mem ts ''moe_output'') = n"
    "length (tensor_rows mem ts ''logits'') = nat ?l"
    using rows [OF moe_rows(1) ok(1)] rows [OF moe_rows(2) ok(1)] rows [OF moe_rows(3) c(2)] by simp_all
  have c': "nat ?c = (if cfg_chunk_mlp ?cfg then (n + nat (cfg_num_chunks_mlp ?cfg) - 1) div nat (cfg_num_chunks_mlp ?cfg) else n)"
    "nat ?l = (if cfg_chunk_logits ?cfg then (k + nat (cfg_num_chunks_logits ?cfg) - 1) div nat (cfg_num_chunks_logits ?cfg) else k)"
    using config_heights [OF cfg, of "int n"] config_heights [OF cfg, of "int k"] by simp_all
  have pos: "0 < nat (cfg_num_chunks_mlp ?cfg)" "0 < nat (cfg_num_chunks_logits ?cfg)" using cfg by (simp_all add: cfg_ok_def)
  show ?thesis
  proof (cases "current_chunk_strategy mp")
    case None
    then have "?cfg = initial_config" by (simp add: plan_config_def)
    then show ?thesis
      using None f c' caches
      by (simp add: moe_tensors_fit_def moe_fits_def tile_height_def logits_fit_def moe_tensors_of_def initial_config_def)
  next
    case (Some r)
    then have "?cfg = res_config r" by (simp add: plan_config_def)
    then show ?thesis
      using Some f c' pos caches
      by (simp add: moe_tensors_fit_def moe_fits_def tile_height_def logits_fit_def moe_tensors_of_def chunk_strategy_of_def Let_def)
  qed
qed

lemma moe_allocator_ok:
  assumes p: "pool_inv p" "0 < vmm_chunk_size p" "initialized p" and create: "\<And>k. create_ok gpu k" and n: "int n < 2 ^ 40"
    and fit: "plans_fit llada_moe_get_optimized_reuse_plan fuel uc p n"
  shows "moe_alloc_ok 8 n (llada_moe_allocator gpu fuel uc p mem)"
  unfolding moe_alloc_ok_def
proof (intro allI impI)
  fix k assume k: "0 < k" "k \<le> n"
  have getter: "(llada_moe_get_optimized_reuse_plan, ''llada-moe'') \<in> set plan_getters" by (simp add: plan_getters_def)
  obtain mp ts where a: "\<And>tensors_of :: _ \<Rightarrow> moe_pool_tensors.
      pool_allocator llada_moe_get_optimized_reuse_plan tensors_of gpu fuel uc p (int n) (int k) =
      Some (map_option chunk_strategy_of (current_chunk_strategy mp), tensors_of ts)"
    and g: "tokens_ok (int n)" "tokens_ok (int k)" "cfg_ok (plan_config mp)"
      "config_graph ''llada-moe'' (int n) (int k) (plan_config mp) = Inr (mp_graph mp)"
    and views: "\<And>n. n \<in> set (execution_order (mp_graph mp)) \<Longrightarrow> 0 < node_size n \<Longrightarrow>
      \<exists>e. ts (output_name n) = Some \<lparr>view_buf = e, view_shape = ts_shape (output_spec n), view_dtype = ts_dtype (output_spec n)\<rparr>"
    using pool_allocator_ok [OF p create getter n fit k] by blast
  show "\<exists>s t. llada_moe_allocator gpu fuel uc p mem (int n) (int k) = Some (s, t) \<and> moe_tensors_fit 8 s n k t"
    using a moe_pool_tensors_fit [OF g views] by (simp add: llada_moe_allocator_def)
qed

text \<open>A pool that holds the whole block always gets a plan: the search accepts at its first turn.\<close>

definition search_margin :: "string \<Rightarrow> int" where
  "search_margin model_name = 900 * 1024 * 1024 + (if py_in ''moe'' (lower model_name) then 700 * 1024 * 1024 else 0)"

lemma search_margins: "search_margin ''llada'' = 900 * 1024 * 1024" "search_margin ''dream'' = 900 * 1024 * 1024"
  "search_margin ''llada-moe'' = 1600 * 1024 * 1024"
  by code_simp+

lemma plan_when_it_fits:
  assumes "(get_plan, model) \<in> set plan_getters" "initialized p"
    and "config_graph model N M initial_config = Inr g" "analyze g = Inr a" "generate_optimized_reuse_plan g = Inr (an_reuse_plan a)"
    and "total_buffer_size_bytes (an_reuse_plan a) + (if uc then search_margin model else 0) \<le> pool_size p"
  shows "\<exists>mp. get_plan (Suc fuel) uc (Some p) N M = Some (Inr mp) \<and> total_buffer_size_bytes (mp_plan mp) \<le> pool_size p"
proof -
  obtain plain chunk where get: "get_plan = optimized_reuse_plan plain chunk model"
    and plain: "\<And>P Op. plain P Op = config_graph model P Op initial_config"
    and chunk: "\<And>P Op cfg. cfg_ok cfg \<Longrightarrow> chunk P Op (cfg_chunk_logits cfg) (cfg_chunk_mlp cfg)
      (cfg_num_chunks_logits cfg) (cfg_num_chunks_mlp cfg) = config_graph model P Op cfg"
    using getter_unfold [OF assms(1)] by metis
  show ?thesis
  proof (cases uc)
    case False
    then show ?thesis using assms(3-6) by (simp add: get optimized_reuse_plan_def plain plan_of_graph_def)
  next
    case True
    then have "accepts model (pool_size p - 900 * 1024 * 1024) (total_buffer_size_bytes (an_reuse_plan a))"
      using assms(6) by (simp add: accepts_def search_margin_def split: if_splits)
    then have "\<exists>r. search_optimal_config_online (Suc fuel) N M (pool_size p) model = Some (Inr r) \<and> res_config r = initial_config"
      using assms(3,4) by (simp add: search_optimal_config_online_def search_step_def Let_def)
    then obtain r where r: "search_optimal_config_online (Suc fuel) N M (pool_size p) model = Some (Inr r)"
      "res_config r = initial_config" by blast
    have "0 \<le> search_margin model" by (simp add: search_margin_def)
    with r show ?thesis
      using True assms(2,3-6) chunk [OF cfg_ok_initial, of N M]
      by (simp add: get optimized_reuse_plan_def plan_of_graph_def Let_def)
  qed
qed

text \<open>The block of a sequence of \<open>n\<close> tokens, whatever number of them is masked, needs at most this many
  bytes.\<close>

lemma whole_block_plan:
  assumes "(get_plan, model) \<in> set plan_getters" "initialized p" "plain = config_graph model N M initial_config"
    and "\<exists>g a. plain = Inr g \<and> plannable g \<and> analyze g = Inr a \<and> generate_optimized_reuse_plan g = Inr (an_reuse_plan a) \<and> R a"
    and "arena_bytes plain = Inr B" "B + (if uc then search_margin model else 0) \<le> pool_size p"
  shows "\<exists>mp. get_plan (Suc fuel) uc (Some p) N M = Some (Inr mp) \<and> total_buffer_size_bytes (mp_plan mp) \<le> pool_size p"
proof -
  obtain g a where g: "plain = Inr g" "analyze g = Inr a" "generate_optimized_reuse_plan g = Inr (an_reuse_plan a)"
    using assms(4) by blast
  then have B: "total_buffer_size_bytes (an_reuse_plan a) = B" using assms(5) by (simp add: arena_bytes_def)
  show ?thesis by (rule plan_when_it_fits [OF assms(1,2) g(1) [unfolded assms(3)] g(2,3) assms(6) [folded B]])
qed

lemma whole_block_plans:
  assumes "initialized p" "int n < 2 ^ 40" "0 < k" "k \<le> n"
  shows "261120 * int n + (if uc then 900 * 1024 * 1024 else 0) \<le> pool_size p \<Longrightarrow>
      \<exists>mp. llada_get_optimized_reuse_plan (Suc fuel) uc (Some p) (int n) (int k) = Some (Inr mp) \<and>
        total_buffer_size_bytes (mp_plan mp) \<le> pool_size p"
    and "311296 * int n + (if uc then 900 * 1024 * 1024 else 0) \<le> pool_size p \<Longrightarrow>
      \<exists>mp. dream_get_optimized_reuse_plan (Suc fuel) uc (Some p) (int n) (int k) = Some (Inr mp) \<and>
        total_buffer_size_bytes (mp_plan mp) \<le> pool_size p"
    and "318464 * int n + (if uc then 1600 * 1024 * 1024 else 0) \<le> pool_size p \<Longrightarrow>
      \<exists>mp. llada_moe_get_optimized_reuse_plan (Suc fuel) uc (Some p) (int n) (int k) = Some (Inr mp) \<and>
        total_buffer_size_bytes (mp_plan mp) \<le> pool_size p"
proof -
  have ok: "tokens_ok (int n)" "tokens_ok (int k)" using assms by (simp_all add: tokens_ok_def)
  note arena = plain_arena_bytes [OF ok] and analysis = plain_analysis [OF ok, folded define_llada_block_graph_def
      define_dream_block_graph_def define_llada_moe_block_graph_def]
  have getters: "(llada_get_optimized_reuse_plan, ''llada'') \<in> set plan_getters"
    "(dream_get_optimized_reuse_plan, ''dream'') \<in> set plan_getters"
    "(llada_moe_get_optimized_reuse_plan, ''llada-moe'') \<in> set plan_getters" by (simp_all add: plan_getters_def)
  show "261120 * int n + (if uc then 900 * 1024 * 1024 else 0) \<le> pool_size p \<Longrightarrow>
      \<exists>mp. llada_get_optimized_reuse_plan (Suc fuel) uc (Some p) (int n) (int k) = Some (Inr mp) \<and>
        total_buffer_size_bytes (mp_plan mp) \<le> pool_size p"
    by (rule whole_block_plan [OF getters(1) assms(1) plain_of_config(1) [OF model_names(1)] analysis(1) arena(1)])
      (use assms(4) in \<open>simp add: search_margins split: if_splits\<close>)
  show "311296 * int n + (if uc then 900 * 1024 * 1024 else 0) \<le> pool_size p \<Longrightarrow>
      \<exists>mp. dream_get_optimized_reuse_plan (Suc fuel) uc (Some p) (int n) (int k) = Some (Inr mp) \<and>
        total_buffer_size_bytes (mp_plan mp) \<le> pool_size p"
    by (rule whole_block_plan [OF getters(2) assms(1) plain_of_config(2) [OF model_names(2)] analysis(2) arena(2)])
      (use assms(4) in \<open>simp add: search_margins split: if_splits\<close>)
  show "318464 * int n + (if uc then 1600 * 1024 * 1024 else 0) \<le> pool_size p \<Longrightarrow>
      \<exists>mp. llada_moe_get_optimized_reuse_plan (Suc fuel) uc (Some p) (int n) (int k) = Some (Inr mp) \<and>
        total_buffer_size_bytes (mp_plan mp) \<le> pool_size p"
    by (rule whole_block_plan [OF getters(3) assms(1) plain_of_config(3) [OF model_names(3)] analysis(3) arena(3)])
      (use assms(4) in \<open>simp add: search_margins split: if_splits\<close>)
qed

section \<open>Properties\<close>





section \<open>A concrete system\<close>

lemma demo_pool_facts: "initialized demo_pool" "2000000000 \<le> pool_size demo_pool"
  by code_simp+

lemma demo_create: "create_ok demo_gpu k"
  by (simp add: demo_gpu_def)

definition demo_dream_request :: engine_request where
  "demo_dream_request = demo_engine_request\<lparr>sampling_params :=
     map_option (sp_mask_id_update (\<lambda>_. dream_mask_token)) (sampling_params demo_engine_request)\<rparr>"




text \<open>Eight experts of one feature, all of which every token takes.\<close>

definition demo_moe8 :: moe_model where
  "demo_moe8 = (demo_moe_model (SparseMoe demo_sparse))\<lparr>moe_layers :=
     [demo_moe_layer (SparseMoe \<lparr>gate = replicate 8 [1, 1], expert_bias = None,
        experts = demo_experts\<lparr>num_experts := 8, ew_top_k := 8, w13_weight := (\<lambda>_. 1), w2_weight := (\<lambda>q. of_nat q)\<rparr>\<rparr>)]\<rparr>"

lemma demo_moe8_ok: "moe_model_ok 2 8 demo_moe8"
proof -
  have "moe_layer_ok 2 8 (demo_moe_layer (SparseMoe w))" if "sparse_ok 2 8 w" for w
    unfolding moe_layer_ok_def demo_moe_layer_def using that by (simp add: wide_mat_add) (simp add: mat_add_def)
  then show ?thesis
    using demo_kernels_ok
    by (simp add: moe_model_ok_def demo_moe8_def demo_moe_model_def sparse_ok_def experts_ok_def demo_experts_def)
qed


end
