(* ===== verification/Free_Block_Queue.thy ===== *)
theory Free_Block_Queue
  imports Mosaic_Prelude
begin

text \<open>
  The queue of free cache blocks, \<^verbatim>\<open>FreeKVCacheBlockQueue\<close> of \<^verbatim>\<open>vllm/v1/core/kv_cache_utils.py\<close>: a doubly
  linked list threaded through the block objects themselves, between a fake head and a fake tail, so that a
  block can be taken out of the middle in constant time. Objects live in an explicit store and the links
  are references into it, because the operations rely on sharing.

  The locale \<open>block_queue\<close> states what users of the queue rely on: it holds a list of distinct blocks, takes
  blocks from the front, appends at the end, and leaves the other fields of the blocks alone. The
  interpretation at the end shows that the linked structure provides it.
\<close>

section \<open>Blocks and links\<close>

text \<open>References to the two fake blocks and to the real blocks, which are named by their \<^verbatim>\<open>block_id\<close>.\<close>

datatype node = Head | Tail | Block nat

record 'h kv_block =
  ref_cnt :: int
  block_hash :: "'h option"
  prev_free_block :: "node option"
  next_free_block :: "node option"
  is_null :: bool

definition KVCacheBlock :: "'h kv_block" where
  "KVCacheBlock = \<lparr>ref_cnt = 0, block_hash = None, prev_free_block = None, next_free_block = None, is_null = False\<rparr>"

record 'h free_queue =
  heap :: "node \<Rightarrow> 'h kv_block"
  num_free_blocks :: int

definition nx :: "'h free_queue \<Rightarrow> node \<Rightarrow> node option" where
  "nx q n = next_free_block (heap q n)"

definition pv :: "'h free_queue \<Rightarrow> node \<Rightarrow> node option" where
  "pv q n = prev_free_block (heap q n)"

definition set_next :: "node \<Rightarrow> node option \<Rightarrow> 'h free_queue \<Rightarrow> 'h free_queue" where
  "set_next n v q = q\<lparr>heap := (heap q)(n := (heap q n)\<lparr>next_free_block := v\<rparr>)\<rparr>"

definition set_prev :: "node \<Rightarrow> node option \<Rightarrow> 'h free_queue \<Rightarrow> 'h free_queue" where
  "set_prev n v q = q\<lparr>heap := (heap q)(n := (heap q n)\<lparr>prev_free_block := v\<rparr>)\<rparr>"

definition add_free :: "int \<Rightarrow> 'h free_queue \<Rightarrow> 'h free_queue" where
  "add_free k q = q\<lparr>num_free_blocks := num_free_blocks q + k\<rparr>"

section \<open>Operations\<close>

definition link_step :: "node list \<Rightarrow> nat \<Rightarrow> 'h free_queue \<Rightarrow> 'h free_queue" where
  "link_step blocks i q =
     (let q = (if 0 < i then set_prev (blocks ! i) (Some (blocks ! (i - 1))) q else q)
      in if i < length blocks - 1 then set_next (blocks ! i) (Some (blocks ! (i + 1))) q else q)"

definition FreeKVCacheBlockQueue :: "(node \<Rightarrow> 'h kv_block) \<Rightarrow> node list \<Rightarrow> 'h free_queue" where
  "FreeKVCacheBlockQueue h blocks =
     (let q = fold (link_step blocks) [0..<length blocks] \<lparr>heap = h, num_free_blocks = int (length blocks)\<rparr>;
          q = q\<lparr>heap := (heap q)(Head := KVCacheBlock, Tail := KVCacheBlock)\<rparr>
      in if blocks \<noteq> []
         then set_next (last blocks) (Some Tail) (set_prev Tail (Some (last blocks))
               (set_prev (blocks ! 0) (Some Head) (set_next Head (Some (blocks ! 0)) q)))
         else set_prev Tail (Some Head) (set_next Head (Some Tail) q))"

definition popleft :: "'h free_queue \<Rightarrow> (node \<times> 'h free_queue) result" where
  "popleft q =
     (case nx q Head of
        None \<Rightarrow> Inl (if num_free_blocks q = 0 then ValueError else AssertionError)
      | Some first_block \<Rightarrow>
          if first_block = Tail then Inl (if num_free_blocks q = 0 then ValueError else AssertionError)
          else case nx q first_block of
                 None \<Rightarrow> Inl RuntimeError
               | Some second \<Rightarrow>
                   Inr (first_block,
                     add_free (- 1) (set_next first_block None (set_prev first_block None
                       (set_prev second (Some Head) (set_next Head (Some second) q))))))"

fun pop_loop :: "nat \<Rightarrow> node option \<Rightarrow> 'h free_queue \<Rightarrow> (node list \<times> node option \<times> 'h free_queue) result" where
  "pop_loop 0 curr_block q = Inr ([], curr_block, q)"
| "pop_loop (Suc n) None q = Inl AssertionError"
| "pop_loop (Suc n) (Some last_block) q =
     bind_res (pop_loop n (nx q last_block) (set_next last_block None (set_prev last_block None q)))
       (\<lambda>(ret, curr_block, q'). Inr (last_block # ret, curr_block, q'))"

definition popleft_n :: "nat \<Rightarrow> 'h free_queue \<Rightarrow> (node list \<times> 'h free_queue) result" where
  "popleft_n n q =
     (if n = 0 then Inr ([], q)
      else if num_free_blocks q < int n then Inl AssertionError
      else bind_res (pop_loop n (nx q Head) (add_free (- int n) q)) (\<lambda>(ret, curr_block, q').
             case curr_block of
               None \<Rightarrow> Inr (ret, q')
             | Some b \<Rightarrow> Inr (ret, set_prev b (Some Head) (set_next Head (Some b) q'))))"

definition queue_remove :: "node \<Rightarrow> 'h free_queue \<Rightarrow> 'h free_queue result" where
  "queue_remove block q =
     (case (pv q block, nx q block) of
        (Some p, Some n) \<Rightarrow>
          Inr (add_free (- 1) (set_next block None (set_prev block None (set_prev n (Some p) (set_next p (Some n) q)))))
      | _ \<Rightarrow> Inl RuntimeError)"

definition queue_append :: "node \<Rightarrow> 'h free_queue \<Rightarrow> 'h free_queue result" where
  "queue_append block q =
     (case pv q Tail of
        None \<Rightarrow> Inl RuntimeError
      | Some last_block \<Rightarrow>
          Inr (add_free 1 (set_prev Tail (Some block) (set_next block (Some Tail)
            (set_prev block (Some last_block) (set_next last_block (Some block) q))))))"

definition append_n :: "node list \<Rightarrow> 'h free_queue \<Rightarrow> 'h free_queue result" where
  "append_n blocks q =
     (if blocks = [] then Inr q
      else case pv q Tail of
             None \<Rightarrow> Inl AssertionError
           | Some last_block \<Rightarrow>
               let (last_block, q') = fold (\<lambda>block (last_block, q). (block, set_next last_block (Some block) (set_prev block (Some last_block) q)))
                     blocks (last_block, add_free (int (length blocks)) q)
               in Inr (set_prev Tail (Some last_block) (set_next last_block (Some Tail) q')))"

text \<open>The loop of \<^verbatim>\<open>get_all_free_blocks\<close> follows the links; on a broken list it may run forever.\<close>

partial_function (option) collect :: "'h free_queue \<Rightarrow> node \<Rightarrow> node list option" where
  "collect q curr_block =
     (case nx q curr_block of
        None \<Rightarrow> Some []
      | Some n \<Rightarrow> Option.bind (collect q n) (\<lambda>ret. Some (curr_block # ret)))"

definition get_all_free_blocks :: "'h free_queue \<Rightarrow> node list result option" where
  "get_all_free_blocks q =
     (case nx q Head of None \<Rightarrow> Some (Inl RuntimeError) | Some n \<Rightarrow> map_option Inr (collect q n))"

section \<open>Linked sequences\<close>

fun linked :: "(node \<Rightarrow> node option) \<Rightarrow> (node \<Rightarrow> node option) \<Rightarrow> node list \<Rightarrow> bool" where
  "linked nxt prv (m # n # ns) \<longleftrightarrow> nxt m = Some n \<and> prv n = Some m \<and> linked nxt prv (n # ns)"
| "linked nxt prv ns \<longleftrightarrow> True"

lemma linked_append: "linked nxt prv (ms @ n # ns) \<longleftrightarrow> linked nxt prv (ms @ [n]) \<and> linked nxt prv (n # ns)"
proof (induction ms)
  case (Cons m ms)
  then show ?case by (cases ms) auto
qed simp

lemma linked_upd_next [simp]: "n \<notin> set (butlast ns) \<Longrightarrow> linked (nxt(n := v)) prv ns = linked nxt prv ns"
  by (induction nxt prv ns rule: linked.induct) auto

lemma linked_upd_prev [simp]: "n \<notin> set (tl ns) \<Longrightarrow> linked nxt (prv(n := v)) ns = linked nxt prv ns"
proof (induction nxt prv ns rule: linked.induct)
  case (1 nxt prv m k ns)
  then show ?case by (cases ns) auto
qed auto

lemma linked_upd [simp]:
  "n \<notin> set ns \<Longrightarrow> linked (nxt(n := v)) prv ns = linked nxt prv ns" "n \<notin> set ns \<Longrightarrow> linked nxt (prv(n := v)) ns = linked nxt prv ns"
proof -
  assume n: "n \<notin> set ns"
  then have b: "n \<notin> set (butlast ns)" by (blast dest: in_set_butlastD)
  have t: "n \<notin> set (tl ns)" using n by (cases ns) simp_all
  show "linked (nxt(n := v)) prv ns = linked nxt prv ns" "linked nxt (prv(n := v)) ns = linked nxt prv ns"
    by (rule linked_upd_next [OF b], rule linked_upd_prev [OF t])
qed

lemma linked_cong: "(\<And>n. n \<in> set ns \<Longrightarrow> nxt n = nxt' n \<and> prv n = prv' n) \<Longrightarrow> linked nxt prv ns = linked nxt' prv' ns"
  by (induction nxt prv ns rule: linked.induct) auto

text \<open>What the elementary updates do to the links, the count and the other fields.\<close>

definition meta :: "'h free_queue \<Rightarrow> nat \<Rightarrow> 'h kv_block" where
  "meta q i = (heap q (Block i))\<lparr>prev_free_block := None, next_free_block := None\<rparr>"

lemma link_simps [simp]:
  "nx (set_next n v q) = (nx q)(n := v)" "pv (set_next n v q) = pv q" "nx (set_prev n v q) = nx q"
  "pv (set_prev n v q) = (pv q)(n := v)" "nx (add_free k q) = nx q" "pv (add_free k q) = pv q"
  "num_free_blocks (set_next n v q) = num_free_blocks q" "num_free_blocks (set_prev n v q) = num_free_blocks q"
  "num_free_blocks (add_free k q) = num_free_blocks q + k"
  "meta (set_next n v q) = meta q" "meta (set_prev n v q) = meta q" "meta (add_free k q) = meta q"
  by (auto simp: nx_def pv_def set_next_def set_prev_def add_free_def meta_def fun_eq_iff)

section \<open>The queue as a list\<close>

definition ends :: "nat list \<Rightarrow> node list" where
  "ends xs = Head # map Block xs @ [Tail]"

definition content :: "'h free_queue \<Rightarrow> nat list \<Rightarrow> bool" where
  "content q xs \<longleftrightarrow> distinct xs \<and> linked (nx q) (pv q) (ends xs) \<and> nx q Tail = None \<and> pv q Head = None \<and>
     (\<forall>i. i \<notin> set xs \<longrightarrow> nx q (Block i) = None \<and> pv q (Block i) = None) \<and> num_free_blocks q = int (length xs)"

lemma distinct_ends: "distinct (ends xs) \<longleftrightarrow> distinct xs"
  by (auto simp: ends_def distinct_map inj_on_def)

lemma contentI:
  assumes "distinct xs" "linked (nx q) (pv q) (ends xs)" "nx q Tail = None" "pv q Head = None"
    "\<And>i. i \<notin> set xs \<Longrightarrow> nx q (Block i) = None \<and> pv q (Block i) = None" "num_free_blocks q = int (length xs)"
  shows "content q xs"
  using assms by (simp add: content_def)

lemma contentD:
  assumes "content q xs"
  shows "distinct xs" "linked (nx q) (pv q) (ends xs)" "nx q Tail = None" "pv q Head = None"
    "\<And>i. i \<notin> set xs \<Longrightarrow> nx q (Block i) = None" "\<And>i. i \<notin> set xs \<Longrightarrow> pv q (Block i) = None"
    "num_free_blocks q = int (length xs)"
  using assms by (simp_all add: content_def)

lemma popleft_ok:
  "content q [] \<Longrightarrow> popleft q = Inl ValueError"
  "content q (x # xs) \<Longrightarrow> \<exists>q'. popleft q = Inr (Block x, q') \<and> content q' xs \<and> meta q' = meta q"
proof -
  assume "content q []"
  then show "popleft q = Inl ValueError" by (simp add: content_def ends_def popleft_def)
next
  assume q: "content q (x # xs)"
  note c = contentD [OF q]
  obtain n ns where n: "map Block xs @ [Tail] = n # ns" by (cases "map Block xs @ [Tail]") auto
  have l: "nx q Head = Some (Block x)" "nx q (Block x) = Some n" "linked (nx q) (pv q) (n # ns)"
    using c(2) n by (simp_all add: ends_def)
  have d: "distinct (Head # Block x # n # ns)" using c(1) distinct_ends [of "x # xs"] n by (simp add: ends_def)
  let ?q = "add_free (- 1) (set_next (Block x) None (set_prev (Block x) None (set_prev n (Some Head) (set_next Head (Some n) q))))"
  have "popleft q = Inr (Block x, ?q)" using l by (simp add: popleft_def)
  moreover have "content ?q xs"
  proof (rule contentI)
    show "linked (nx ?q) (pv ?q) (ends xs)" using l(3) d by (auto simp: ends_def n)
    have "n = Tail \<or> (\<exists>y \<in> set xs. n = Block y)" using n by (cases xs) auto
    then show "nx ?q (Block i) = None \<and> pv ?q (Block i) = None" if "i \<notin> set xs" for i using that c(5,6) by auto
  qed (use c d in auto)
  ultimately show "\<exists>q'. popleft q = Inr (Block x, q') \<and> content q' xs \<and> meta q' = meta q" by auto
qed

text \<open>Taking several blocks from the front: the loop clears the links of the blocks it passes.\<close>

lemma pop_loop_ok:
  "linked (nx q) (pv q) (c # cs) \<Longrightarrow> distinct (c # cs) \<Longrightarrow> n \<le> length cs \<Longrightarrow>
   \<exists>q'. pop_loop n (Some c) q = Inr (take n (c # cs), Some ((c # cs) ! n), q') \<and>
     (\<forall>m. nx q' m = (if m \<in> set (take n (c # cs)) then None else nx q m) \<and>
          pv q' m = (if m \<in> set (take n (c # cs)) then None else pv q m)) \<and>
     meta q' = meta q \<and> num_free_blocks q' = num_free_blocks q"
proof (induction n arbitrary: c cs q)
  case (Suc n)
  then obtain d ds where cs: "cs = d # ds" by (cases cs) auto
  let ?q = "set_next c None (set_prev c None q)"
  have l: "linked (nx q) (pv q) (d # ds)" "c \<notin> set (d # ds)" "distinct (d # ds)" "n \<le> length ds" using Suc.prems cs by simp_all
  have "linked (nx ?q) (pv ?q) (d # ds)" unfolding link_simps linked_upd [OF l(2)] by (rule l(1))
  from Suc.IH [OF this l(3,4)] obtain q' where q': "pop_loop n (Some d) ?q = Inr (take n (d # ds), Some ((d # ds) ! n), q')"
    "\<forall>m. nx q' m = (if m \<in> set (take n (d # ds)) then None else nx ?q m) \<and>
          pv q' m = (if m \<in> set (take n (d # ds)) then None else pv ?q m)"
    "meta q' = meta ?q" "num_free_blocks q' = num_free_blocks ?q" by blast
  have "nx q c = Some d" using Suc.prems(1) cs by simp
  then show ?case using q' cs by (intro exI [of _ q']) auto
qed auto

lemma popleft_n_ok:
  assumes q: "content q xs" and n: "n \<le> length xs"
  shows "\<exists>q'. popleft_n n q = Inr (map Block (take n xs), q') \<and> content q' (drop n xs) \<and> meta q' = meta q"
proof (cases "n = 0")
  case True
  then show ?thesis using q by (simp add: popleft_n_def)
next
  case False
  note c = contentD [OF q]
  let ?ns = "map Block xs @ [Tail]"
  obtain m ms where m: "?ns = m # ms" by (cases ?ns) auto
  have lm: "length ms = length xs" using arg_cong [OF m, of length] by simp
  have l: "nx q Head = Some m" "linked (nx q) (pv q) (m # ms)" using c(2) m by (simp_all add: ends_def)
  have dist: "distinct (Head # m # ms)" using c(1) distinct_ends [of xs] m by (simp add: ends_def)
  let ?b = "(m # ms) ! n"
  obtain q' where q': "pop_loop n (Some m) (add_free (- int n) q) = Inr (take n (m # ms), Some ?b, q')"
    "\<And>k. nx q' k = (if k \<in> set (take n (m # ms)) then None else nx q k)"
    "\<And>k. pv q' k = (if k \<in> set (take n (m # ms)) then None else pv q k)"
    "meta q' = meta q" "num_free_blocks q' = num_free_blocks q - int n"
    using pop_loop_ok [of "add_free (- int n) q" m ms n] l(2) dist n lm by auto
  let ?q = "set_prev ?b (Some Head) (set_next Head (Some ?b) q')"
  have tk: "take n (m # ms) = map Block (take n xs)" using n unfolding m [symmetric] by (simp add: take_map)
  have dr: "drop n (m # ms) = map Block (drop n xs) @ [Tail]" using n unfolding m [symmetric] by (simp add: drop_map)
  have "popleft_n n q = Inr (map Block (take n xs), ?q)"
    using False c(7) n l(1) q'(1) tk by (simp add: popleft_n_def)
  moreover have "content ?q (drop n xs)"
  proof (rule contentI)
    have b: "drop n (m # ms) = ?b # drop (Suc n) (m # ms)" using n lm by (simp add: Cons_nth_drop_Suc [symmetric])
    have "linked (nx q) (pv q) (take n (m # ms) @ ?b # drop (Suc n) (m # ms))" using l(2) b by (metis append_take_drop_id)
    then have "linked (nx q) (pv q) (?b # drop (Suc n) (m # ms))" using linked_append by blast
    moreover have disj: "set (take n (m # ms)) \<inter> set (?b # drop (Suc n) (m # ms)) = {}"
      using dist b by (metis append_take_drop_id distinct.simps(2) distinct_append)
    ultimately have "linked (nx q') (pv q') (?b # drop (Suc n) (m # ms))"
      by (subst linked_cong [of _ _ "nx q" _ "pv q"]) (use q'(2,3) disj in auto)
    moreover have "Head \<notin> set (?b # drop (Suc n) (m # ms))" using dist b by (metis distinct.simps(2) in_set_dropD)
    moreover have "?b \<notin> set (drop (Suc n) (m # ms))" using dist b by (metis distinct.simps(2) distinct_drop)
    ultimately have "linked (nx ?q) (pv ?q) (Head # ?b # drop (Suc n) (m # ms))" by auto
    then show "linked (nx ?q) (pv ?q) (ends (drop n xs))" unfolding ends_def dr [symmetric] b .
    have "?b \<in> set (drop n (m # ms))" using b by (metis list.set_intros(1))
    then have bt: "?b = Tail \<or> (\<exists>y \<in> set (drop n xs). ?b = Block y)" using dr by auto
    show "nx ?q (Block i) = None \<and> pv ?q (Block i) = None" if "i \<notin> set (drop n xs)" for i
    proof (cases "i \<in> set xs")
      case True
      then have "i \<in> set (take n xs)" using that by (metis Un_iff append_take_drop_id set_append)
      then show ?thesis using bt that q'(2,3) tk by auto
    next
      case False
      then show ?thesis using bt that q'(2,3) c(5,6) by auto
    qed
    have "Tail \<notin> set (take n (m # ms))" "Head \<notin> set (take n (m # ms))" unfolding tk by auto
    then show "nx ?q Tail = None" "pv ?q Head = None" using c(3,4) q'(2,3) bt by auto
  qed (use c n q'(5) in auto)
  ultimately show ?thesis using q'(4) by auto
qed

lemma remove_ok:
  assumes q: "content q xs"
  shows "x \<in> set xs \<Longrightarrow> \<exists>q'. queue_remove (Block x) q = Inr q' \<and> content q' (remove1 x xs) \<and> meta q' = meta q"
    and "x \<notin> set xs \<Longrightarrow> queue_remove (Block x) q = Inl RuntimeError"
proof -
  note c = contentD [OF q]
  show "queue_remove (Block x) q = Inl RuntimeError" if "x \<notin> set xs" using c(5,6) [OF that] by (simp add: queue_remove_def)
  assume "x \<in> set xs"
  then obtain as bs where xs: "xs = as @ x # bs" by (meson split_list)
  then have r1: "remove1 x xs = as @ bs" using c(1) by (simp add: remove1_append)
  obtain ms p where p: "Head # map Block as = ms @ [p]" by (metis list.distinct(1) rev_exhaust)
  obtain n ns where n: "map Block bs @ [Tail] = n # ns" by (cases "map Block bs @ [Tail]") auto
  have e: "ends xs = ms @ p # Block x # n # ns" "ends (as @ bs) = ms @ p # n # ns" using p n by (simp_all add: ends_def xs)
  have d: "distinct (ms @ p # Block x # n # ns)" using distinct_ends [of xs] c(1) e by simp
  have l: "linked (nx q) (pv q) (ms @ [p])" "nx q p = Some (Block x)" "pv q (Block x) = Some p" "nx q (Block x) = Some n"
    "linked (nx q) (pv q) (n # ns)" using c(2) unfolding e(1) by (simp_all add: linked_append [of _ _ ms p "Block x # n # ns"])
  let ?q = "add_free (- 1) (set_next (Block x) None (set_prev (Block x) None (set_prev n (Some p) (set_next p (Some n) q))))"
  have "queue_remove (Block x) q = Inr ?q" using l(3,4) by (simp add: queue_remove_def)
  moreover have "content ?q (as @ bs)"
  proof (rule contentI)
    have "linked (nx ?q) (pv ?q) (ms @ [p])" using l(1) d by (auto simp: in_set_conv_decomp)
    moreover have "linked (nx ?q) (pv ?q) (n # ns)" using l(5) d by auto
    ultimately show "linked (nx ?q) (pv ?q) (ends (as @ bs))"
      unfolding e(2) using d by (auto simp: linked_append [of _ _ ms p "n # ns"])
    have n': "n = Tail \<or> (\<exists>y \<in> set bs. n = Block y)" using n by (cases bs) auto
    have "p \<in> set (Head # map Block as)" using p by simp
    then have p': "p = Head \<or> (\<exists>y \<in> set as. p = Block y)" by auto
    show "nx ?q (Block i) = None \<and> pv ?q (Block i) = None" if "i \<notin> set (as @ bs)" for i
      using that n' p' c(5,6) [of i] by (auto simp: xs)
    show "nx ?q Tail = None" "pv ?q Head = None" using c(3,4) n' p' by auto
  qed (use c xs in auto)
  ultimately show "\<exists>q'. queue_remove (Block x) q = Inr q' \<and> content q' (remove1 x xs) \<and> meta q' = meta q" using r1 by auto
qed

text \<open>Appending: the loop of \<^verbatim>\<open>append_n\<close> chains the new blocks behind the last one.\<close>

abbreviation chain_step :: "node \<Rightarrow> node \<times> 'h free_queue \<Rightarrow> node \<times> 'h free_queue" where
  "chain_step \<equiv> \<lambda>block (last_block, q). (block, set_next last_block (Some block) (set_prev block (Some last_block) q))"

lemma chain_loop:
  "linked (nx q) (pv q) (ns @ [l]) \<Longrightarrow> distinct (ns @ l # bs) \<Longrightarrow>
   \<exists>q'. fold chain_step bs (l, q) = (last (l # bs), q') \<and> linked (nx q') (pv q') (ns @ l # bs) \<and>
     (\<forall>m. m \<notin> set (l # bs) \<longrightarrow> nx q' m = nx q m) \<and> (\<forall>m. m \<notin> set bs \<longrightarrow> pv q' m = pv q m) \<and>
     meta q' = meta q \<and> num_free_blocks q' = num_free_blocks q"
proof (induction bs arbitrary: ns l q)
  case (Cons b bs)
  let ?q = "set_next l (Some b) (set_prev b (Some l) q)"
  have d: "l \<notin> set ns" "b \<notin> set (ns @ [l])" "distinct ((ns @ [l]) @ b # bs)" using Cons.prems(2) by auto
  have "l \<notin> set (butlast (ns @ [l]))" using d(1) by simp
  then have "linked (nx ?q) (pv ?q) (ns @ [l])" using Cons.prems(1) d(2) by simp
  then have "linked (nx ?q) (pv ?q) ((ns @ [l]) @ [b])" by (simp add: linked_append [of _ _ ns l "[b]"])
  from Cons.IH [OF this d(3)] obtain q' where q': "fold chain_step bs (b, ?q) = (last (b # bs), q')"
    "linked (nx q') (pv q') ((ns @ [l]) @ b # bs)" "\<forall>m. m \<notin> set (b # bs) \<longrightarrow> nx q' m = nx ?q m"
    "\<forall>m. m \<notin> set bs \<longrightarrow> pv q' m = pv ?q m" "meta q' = meta ?q" "num_free_blocks q' = num_free_blocks ?q"
    by blast
  then show ?case by (intro exI [of _ q']) auto
qed auto

lemma append_n_ok:
  assumes q: "content q xs" and ys: "distinct ys" "set ys \<inter> set xs = {}"
  shows "\<exists>q'. append_n (map Block ys) q = Inr q' \<and> content q' (xs @ ys) \<and> meta q' = meta q"
proof (cases "ys = []")
  case True
  then show ?thesis using q by (simp add: append_n_def)
next
  case False
  note c = contentD [OF q]
  obtain ns l where l: "Head # map Block xs = ns @ [l]" by (metis list.distinct(1) rev_exhaust)
  have e: "ends xs = ns @ l # [Tail]" "ends (xs @ ys) = (ns @ l # map Block ys) @ [Tail]" using l by (simp_all add: ends_def)
  have lk: "linked (nx q) (pv q) (ns @ [l])" "nx q l = Some Tail" "pv q Tail = Some l"
    using c(2) unfolding e(1) by (simp_all add: linked_append [of _ _ ns l "[Tail]"])
  have dist: "distinct xs" "distinct (xs @ ys)" using c(1) ys by auto
  then have d: "distinct ((ns @ l # map Block ys) @ [Tail])" using distinct_ends [of "xs @ ys"] e(2) by simp
  let ?q0 = "add_free (int (length ys)) q"
  obtain q' where q': "fold chain_step (map Block ys) (l, ?q0) = (last (l # map Block ys), q')"
    "linked (nx q') (pv q') (ns @ l # map Block ys)" "\<forall>m. m \<notin> set (l # map Block ys) \<longrightarrow> nx q' m = nx q m"
    "\<forall>m. m \<notin> set (map Block ys) \<longrightarrow> pv q' m = pv q m" "meta q' = meta q" "num_free_blocks q' = num_free_blocks q + int (length ys)"
    using chain_loop [of ?q0 ns l "map Block ys"] lk(1) d by auto
  let ?l = "last (map Block ys)"
  let ?q = "set_prev Tail (Some ?l) (set_next ?l (Some Tail) q')"
  have "append_n (map Block ys) q = Inr ?q" using False lk(3) q'(1) by (simp add: append_n_def)
  moreover have "content ?q (xs @ ys)"
  proof (rule contentI)
    obtain bs b where b: "ns @ l # map Block ys = bs @ [b]" by (metis append_butlast_last_id append_is_Nil_conv list.distinct(1))
    then have lb: "?l = b" using False by (metis last.simps last_appendR last_snoc list.distinct(1) map_is_Nil_conv)
    have db: "distinct (bs @ [b, Tail])" using d b by simp
    then have "linked (nx ?q) (pv ?q) (bs @ [b])" using q'(2) unfolding b lb by auto
    then show "linked (nx ?q) (pv ?q) (ends (xs @ ys))"
      unfolding e(2) b lb using linked_append [of _ _ bs b "[Tail]"] by simp
    have "l \<in> set (Head # map Block xs)" using l by simp
    then have l': "l = Head \<or> (\<exists>y \<in> set xs. l = Block y)" by auto
    have b': "\<exists>y \<in> set ys. ?l = Block y" using False by (simp add: last_map)
    show "nx ?q (Block i) = None \<and> pv ?q (Block i) = None" if i: "i \<notin> set (xs @ ys)" for i
    proof -
      have "Block i \<notin> set (l # map Block ys)" "Block i \<notin> set (map Block ys)" using l' i by auto
      then have "nx q' (Block i) = None" "pv q' (Block i) = None" using q'(3,4) c(5,6) [of i] i by simp_all
      then show ?thesis using b' i by auto
    qed
    show "nx ?q Tail = None" "pv ?q Head = None" using c(3,4) q'(3,4) l' b' by (auto simp: image_iff)
  qed (use dist c(7) q'(6) in auto)
  ultimately show ?thesis using q'(5) by auto
qed

lemma append_ok:
  assumes "content q xs" "x \<notin> set xs"
  shows "\<exists>q'. queue_append (Block x) q = Inr q' \<and> content q' (xs @ [x]) \<and> meta q' = meta q"
proof -
  have "queue_append (Block x) q = append_n (map Block [x]) q" if "pv q Tail \<noteq> None"
    using that by (auto simp: queue_append_def append_n_def set_next_def set_prev_def add_free_def fun_eq_iff)
  moreover have "pv q Tail \<noteq> None"
  proof -
    obtain ns l where "Head # map Block xs = ns @ [l]" by (metis list.distinct(1) rev_exhaust)
    then have "ends xs = ns @ l # [Tail]" by (simp add: ends_def)
    then show ?thesis using contentD(2) [OF assms(1)] by (simp add: linked_append [of _ _ ns l "[Tail]"])
  qed
  ultimately show ?thesis using append_n_ok [OF assms(1), of "[x]"] assms(2) by simp
qed

text \<open>Walking the list ends and returns the content.\<close>

lemma collect_linked: "linked (nx q) (pv q) (n # ns) \<Longrightarrow> nx q (last (n # ns)) = None \<Longrightarrow> collect q n = Some (butlast (n # ns))"
proof (induction ns arbitrary: n)
  case (Cons m ns)
  then show ?case by (subst collect.simps) simp
qed (subst collect.simps, simp)

lemma all_free_ok:
  assumes "content q xs"
  shows "get_all_free_blocks q = Some (Inr (map Block xs))"
proof -
  note c = contentD [OF assms]
  obtain n ns where n: "map Block xs @ [Tail] = n # ns" by (cases "map Block xs @ [Tail]") auto
  have "nx q Head = Some n" "linked (nx q) (pv q) (n # ns)" using c(2) n by (simp_all add: ends_def)
  moreover have "last (n # ns) = Tail" "butlast (n # ns) = map Block xs" using n by (metis last_snoc, metis butlast_snoc)
  ultimately show ?thesis using collect_linked [of q n ns] c(3) by (simp add: get_all_free_blocks_def)
qed

text \<open>The constructor links the blocks in their order.\<close>

lemma linked_nth:
  "(\<And>i. Suc i < length ns \<Longrightarrow> nxt (ns ! i) = Some (ns ! Suc i) \<and> prv (ns ! Suc i) = Some (ns ! i)) \<Longrightarrow> linked nxt prv ns"
proof (induction nxt prv ns rule: linked.induct)
  case (1 nxt prv m n ns)
  have "linked nxt prv (n # ns)" using 1(2) by (intro 1(1)) (metis Suc_less_eq length_Cons nth_Cons_Suc)
  then show ?case using 1(2) [of 0] by simp
qed auto

lemma init_links:
  assumes "k \<le> n" "\<And>m. nx q m = None" "\<And>m. pv q m = None"
  shows "let q' = fold (link_step (map Block [0..<n])) [0..<k] q in
    (\<forall>i. nx q' (Block i) = (if i < k \<and> i + 1 < n then Some (Block (i + 1)) else None)) \<and>
    (\<forall>i. pv q' (Block i) = (if i < k \<and> 0 < i then Some (Block (i - 1)) else None)) \<and>
    num_free_blocks q' = num_free_blocks q \<and> meta q' = meta q"
  using assms(1)
proof (induction k)
  case 0
  then show ?case using assms(2,3) by simp
next
  case (Suc k)
  let ?bs = "map Block [0..<n]" and ?q = "fold (link_step (map Block [0..<n])) [0..<k] q"
  have st: "fold (link_step ?bs) [0..<Suc k] q = link_step ?bs k ?q" by simp
  show ?case
    unfolding st Let_def using Suc unfolding Let_def
    by (auto simp: link_step_def Let_def less_Suc_eq)
qed

lemma init_ok:
  assumes "\<And>i. prev_free_block (h (Block i)) = None" "\<And>i. next_free_block (h (Block i)) = None" "0 < n"
    and fake: "h Head = KVCacheBlock" "h Tail = KVCacheBlock"
  shows "content (FreeKVCacheBlockQueue h (map Block [0..<n])) [0..<n]"
    and "meta (FreeKVCacheBlockQueue h (map Block [0..<n])) i = h (Block i)"
proof -
  let ?bs = "map Block [0..<n]" and ?q = "\<lparr>heap = h, num_free_blocks = int n\<rparr>"
  define q where "q = fold (link_step ?bs) [0..<n] ?q"
  have none: "nx ?q m = None" "pv ?q m = None" for m
    using assms by (cases m; simp add: nx_def pv_def KVCacheBlock_def)+
  have q: "\<And>i. nx q (Block i) = (if i < n \<and> i + 1 < n then Some (Block (i + 1)) else None)"
    "\<And>i. pv q (Block i) = (if i < n \<and> 0 < i then Some (Block (i - 1)) else None)"
    "num_free_blocks q = int n" "meta q = meta ?q"
    using init_links [of n n ?q, OF order_refl none] by (simp_all add: Let_def q_def)
  let ?r = "q\<lparr>heap := (heap q)(Head := KVCacheBlock, Tail := KVCacheBlock)\<rparr>"
  have r: "nx ?r m = (case m of Block i \<Rightarrow> nx q m | _ \<Rightarrow> None)" "pv ?r m = (case m of Block i \<Rightarrow> pv q m | _ \<Rightarrow> None)"
    "num_free_blocks ?r = int n" "meta ?r = meta ?q" for m
    using q(3,4) by (auto simp: nx_def pv_def KVCacheBlock_def meta_def fun_eq_iff split: node.splits)
  let ?s = "set_next (Block (n - 1)) (Some Tail) (set_prev Tail (Some (Block (n - 1)))
               (set_prev (Block 0) (Some Head) (set_next Head (Some (Block 0)) ?r)))"
  have s: "FreeKVCacheBlockQueue h ?bs = ?s"
    using assms(3) unfolding FreeKVCacheBlockQueue_def Let_def by (simp add: q_def last_map)
  have nth: "ends [0..<n] ! i = (if i = 0 then Head else if i \<le> n then Block (i - 1) else Tail)" if "i < n + 2" for i
    using that by (cases i) (auto simp: ends_def nth_append)
  have "content ?s [0..<n]"
  proof (rule contentI)
    show "linked (nx ?s) (pv ?s) (ends [0..<n])"
    proof (rule linked_nth)
      fix i assume "Suc i < length (ends [0..<n])"
      then have i: "i \<le> n" by (simp add: ends_def)
      show "nx ?s (ends [0..<n] ! i) = Some (ends [0..<n] ! Suc i) \<and> pv ?s (ends [0..<n] ! Suc i) = Some (ends [0..<n] ! i)"
        using i assms(3) by (auto simp: nth r q)
    qed
  qed (use assms(3) in \<open>auto simp: r q\<close>)
  then show "content (FreeKVCacheBlockQueue h ?bs) [0..<n]" unfolding s .
  have "(h (Block i))\<lparr>prev_free_block := None, next_free_block := None\<rparr> = h (Block i)" using assms(1,2) by simp
  then show "meta (FreeKVCacheBlockQueue h ?bs) i = h (Block i)" unfolding s by (simp add: r) (simp add: meta_def)
qed

section \<open>What users of the queue rely on\<close>

locale block_queue =
  fixes content :: "'q \<Rightarrow> nat list \<Rightarrow> bool" and size :: "'q \<Rightarrow> int" and fields :: "'q \<Rightarrow> nat \<Rightarrow> 'm"
    and pop :: "'q \<Rightarrow> (node \<times> 'q) result" and pop_n :: "nat \<Rightarrow> 'q \<Rightarrow> (node list \<times> 'q) result"
    and take_out :: "node \<Rightarrow> 'q \<Rightarrow> 'q result" and put :: "node \<Rightarrow> 'q \<Rightarrow> 'q result" and put_n :: "node list \<Rightarrow> 'q \<Rightarrow> 'q result"
  assumes content_distinct: "content q xs \<Longrightarrow> distinct xs"
    and content_size: "content q xs \<Longrightarrow> size q = int (length xs)"
    and content_unique: "content q xs \<Longrightarrow> content q ys \<Longrightarrow> xs = ys"
    and pop_empty: "content q [] \<Longrightarrow> pop q = Inl ValueError"
    and pop_first: "content q (x # xs) \<Longrightarrow> \<exists>q'. pop q = Inr (Block x, q') \<and> content q' xs \<and> fields q' = fields q"
    and pop_many: "content q xs \<Longrightarrow> n \<le> length xs \<Longrightarrow>
      \<exists>q'. pop_n n q = Inr (map Block (take n xs), q') \<and> content q' (drop n xs) \<and> fields q' = fields q"
    and take_out_in: "content q xs \<Longrightarrow> x \<in> set xs \<Longrightarrow>
      \<exists>q'. take_out (Block x) q = Inr q' \<and> content q' (remove1 x xs) \<and> fields q' = fields q"
    and take_out_error: "content q xs \<Longrightarrow> x \<notin> set xs \<Longrightarrow> take_out (Block x) q = Inl RuntimeError"
    and put_last: "content q xs \<Longrightarrow> x \<notin> set xs \<Longrightarrow>
      \<exists>q'. put (Block x) q = Inr q' \<and> content q' (xs @ [x]) \<and> fields q' = fields q"
    and put_many: "content q xs \<Longrightarrow> distinct ys \<Longrightarrow> set ys \<inter> set xs = {} \<Longrightarrow>
      \<exists>q'. put_n (map Block ys) q = Inr q' \<and> content q' (xs @ ys) \<and> fields q' = fields q"
begin

text \<open>Blocks that are taken and given back come out again after those that stayed, in the order in which they
  were given back.\<close>

lemma pop_put_rotates:
  assumes "content q xs" "n \<le> length xs" "set ys = set (take n xs)" "distinct ys"
  shows "\<exists>q' q''. pop_n n q = Inr (map Block (take n xs), q') \<and> put_n (map Block ys) q' = Inr q'' \<and>
    content q'' (drop n xs @ ys) \<and> fields q'' = fields q \<and> size q'' = size q"
proof -
  obtain q' where q': "pop_n n q = Inr (map Block (take n xs), q')" "content q' (drop n xs)" "fields q' = fields q"
    using pop_many [OF assms(1,2)] by blast
  have d: "distinct xs" using content_distinct assms(1) .
  then have "set ys \<inter> set (drop n xs) = {}" unfolding assms(3) using set_take_disj_set_drop_if_distinct [of xs n n] by simp
  then obtain q'' where q'': "put_n (map Block ys) q' = Inr q''" "content q'' (drop n xs @ ys)" "fields q'' = fields q'"
    using put_many [OF q'(2) assms(4)] by blast
  have "length ys = n" using assms(2-4) d by (metis distinct_card distinct_take length_take min_absorb2)
  then have "size q'' = size q" using content_size q''(2) assms(1,2) by fastforce
  then show ?thesis using q' q'' by auto
qed

lemma put_take_out:
  assumes "content q xs" "x \<notin> set xs"
  shows "\<exists>q' q''. put (Block x) q = Inr q' \<and> take_out (Block x) q' = Inr q'' \<and> content q'' xs \<and> fields q'' = fields q"
proof -
  obtain q' where q': "put (Block x) q = Inr q'" "content q' (xs @ [x])" "fields q' = fields q" using put_last [OF assms] by blast
  have "remove1 x (xs @ [x]) = xs" using assms(2) by (simp add: remove1_append)
  moreover have "x \<in> set (xs @ [x])" by simp
  ultimately show ?thesis using take_out_in [OF q'(2), of x] q' by auto
qed

end

interpretation fq: block_queue content num_free_blocks meta popleft popleft_n queue_remove queue_append append_n
proof (unfold_locales, goal_cases)
  case (1 q xs)
  then show ?case by (rule contentD(1))
next
  case (2 q xs)
  then show ?case by (rule contentD(7))
next
  case (3 q xs ys)
  then have "map Block xs = map Block ys" using all_free_ok [of q xs] all_free_ok [of q ys] by simp
  then show ?case using map_injective [of Block xs ys] by (simp add: inj_def)
next
  case (4 q)
  then show ?case by (rule popleft_ok(1))
next
  case (5 q x xs)
  then show ?case by (rule popleft_ok(2))
next
  case (6 q xs n)
  then show ?case by (rule popleft_n_ok)
next
  case (7 q xs x)
  then show ?case by (rule remove_ok(1))
next
  case (8 q xs x)
  then show ?case by (rule remove_ok(2))
next
  case (9 q xs x)
  then show ?case by (rule append_ok)
next
  case (10 q xs ys)
  then show ?case by (rule append_n_ok)
qed

section \<open>Properties\<close>

text \<open>Property C35. The linked free queue implements a list of blocks: its constructor holds all blocks in
  order; popping takes blocks from the front, an empty queue raises ValueError; removing takes a block out of the
  middle and raises RuntimeError for a block that is not in the queue; appending adds at the end; walking the
  links ends and lists the content. The other fields of the blocks are left alone.\<close>

theorem free_queue_implements_list:
  fixes q :: "'h free_queue"
  assumes "content q xs"
  shows "get_all_free_blocks q = Some (Inr (map Block xs)) \<and> num_free_blocks q = int (length xs) \<and>
    (xs = [] \<longrightarrow> popleft q = Inl ValueError) \<and>
    (xs \<noteq> [] \<longrightarrow> (\<exists>q'. popleft q = Inr (Block (hd xs), q') \<and> content q' (tl xs) \<and> meta q' = meta q)) \<and>
    (\<forall>n \<le> length xs. \<exists>q'. popleft_n n q = Inr (map Block (take n xs), q') \<and> content q' (drop n xs) \<and> meta q' = meta q) \<and>
    (\<forall>x. if x \<in> set xs then \<exists>q'. queue_remove (Block x) q = Inr q' \<and> content q' (remove1 x xs) \<and> meta q' = meta q
         else queue_remove (Block x) q = Inl RuntimeError \<and>
           (\<exists>q'. queue_append (Block x) q = Inr q' \<and> content q' (xs @ [x]) \<and> meta q' = meta q)) \<and>
    (\<forall>ys. distinct ys \<and> set ys \<inter> set xs = {} \<longrightarrow>
       (\<exists>q'. append_n (map Block ys) q = Inr q' \<and> content q' (xs @ ys) \<and> meta q' = meta q)) \<and>
    (0 < n \<longrightarrow> content (FreeKVCacheBlockQueue (\<lambda>_. KVCacheBlock :: 'h kv_block) (map Block [0..<n])) [0..<n])"
proof (intro conjI allI impI)
  show "0 < n \<Longrightarrow> content (FreeKVCacheBlockQueue (\<lambda>_. KVCacheBlock :: 'h kv_block) (map Block [0..<n])) [0..<n]"
    by (rule init_ok(1)) (simp_all add: KVCacheBlock_def)
  show "xs \<noteq> [] \<Longrightarrow> \<exists>q'. popleft q = Inr (Block (hd xs), q') \<and> content q' (tl xs) \<and> meta q' = meta q"
    using fq.pop_first [of q "hd xs" "tl xs"] assms by simp
  fix x
  show "if x \<in> set xs then \<exists>q'. queue_remove (Block x) q = Inr q' \<and> content q' (remove1 x xs) \<and> meta q' = meta q
         else queue_remove (Block x) q = Inl RuntimeError \<and>
           (\<exists>q'. queue_append (Block x) q = Inr q' \<and> content q' (xs @ [x]) \<and> meta q' = meta q)"
    using fq.take_out_in [OF assms, of x] fq.take_out_error [OF assms, of x] fq.put_last [OF assms, of x] by simp
qed (use all_free_ok assms fq.content_size fq.pop_empty fq.pop_many [OF assms] fq.put_many [OF assms] in blast)+

definition demo_queue :: "int free_queue" where
  "demo_queue = FreeKVCacheBlockQueue (\<lambda>_. KVCacheBlock) (map Block [0..<4])"

theorem free_queue_implements_list_witness:
  "get_all_free_blocks demo_queue = Some (Inr [Block 0, Block 1, Block 2, Block 3]) \<and>
   (\<exists>q'. queue_remove (Block 2) demo_queue = Inr q' \<and> get_all_free_blocks q' = Some (Inr [Block 0, Block 1, Block 3]))"
proof -
  have c: "content demo_queue [0..<4]" unfolding demo_queue_def by (rule init_ok(1)) (simp_all add: KVCacheBlock_def)
  have l: "[0..<4] = [0, 1, 2, 3 :: nat]" by (simp add: upt_rec)
  note p = free_queue_implements_list [OF c, of 0]
  have "if (2 :: nat) \<in> set [0..<4] then \<exists>q'. queue_remove (Block 2) demo_queue = Inr q' \<and> content q' (remove1 2 [0..<4]) \<and>
      meta q' = meta demo_queue else False"
    using p [THEN conjunct2, THEN conjunct2, THEN conjunct2, THEN conjunct2, THEN conjunct2, THEN conjunct1, THEN spec, of 2]
    by simp
  then obtain q' where q': "queue_remove (Block 2) demo_queue = Inr q'" "content q' [0, 1, 3]" by (auto simp: l)
  show ?thesis
    using p [THEN conjunct1] free_queue_implements_list [OF q'(2), of 0, THEN conjunct1] q'(1) by (simp add: l)
qed

end
