(* ===== verification/Block_Hash.thy ===== *)
theory Block_Hash
  imports Mosaic_Prelude "HOL-Library.Countable"
begin

text \<open>
  The hashes of full cache blocks, from \<^verbatim>\<open>vllm/v1/core/kv_cache_utils.py\<close>. The hash of a block covers the
  hash of the block before it, its tokens and extra keys (adapter, multi-modal inputs, salt), so that it
  stands for the whole prefix. The hash function and the seed of the first block are parameters.

  Shown here: for a collision-free hash function two requests have the same hash at a block exactly when
  all blocks up to it have the same tokens and the same extra keys.
\<close>

section \<open>Requests and hashes\<close>

text \<open>Extra keys are Python strings and integers; a string key does not say where it came from.\<close>

datatype extra_key = KeyStr string | KeyInt int

record BlockHash =
  hash_value :: int
  bh_token_ids :: "int list"
  bh_extra_keys :: "extra_key list option"

record BlockHashWithGroupId =
  bg_block_hash :: BlockHash
  group_id :: int

record kv_request =
  all_token_ids :: "int list"
  mm_positions :: "(int \<times> int) list"
  mm_hashes :: "string list"
  lora_int_id :: "int option"
  cache_salt :: "string option"

definition need_extra_keys :: "kv_request \<Rightarrow> bool" where
  "need_extra_keys r \<longleftrightarrow> mm_hashes r \<noteq> [] \<or> lora_int_id r \<noteq> None \<or> cache_salt r \<noteq> None"

text \<open>The loop over the multi-modal inputs from the current index on.\<close>

fun mm_loop :: "int \<Rightarrow> int \<Rightarrow> int \<Rightarrow> ((int \<times> int) \<times> string) list \<Rightarrow> extra_key list \<times> int" where
  "mm_loop start_token_idx end_token_idx curr_mm_idx [] = ([], curr_mm_idx)"
| "mm_loop start_token_idx end_token_idx curr_mm_idx (((offset, len), h) # rest) =
     (if offset < end_token_idx
      then if offset + len < start_token_idx then mm_loop start_token_idx end_token_idx (curr_mm_idx + 1) rest
           else if offset + len \<le> end_token_idx
                then let (ks, idx) = mm_loop start_token_idx end_token_idx (curr_mm_idx + 1) rest in (KeyStr h # ks, idx)
                else ([KeyStr h], curr_mm_idx)
      else ([], curr_mm_idx))"

definition gen_mm_extra_hash_keys :: "kv_request \<Rightarrow> int \<Rightarrow> int \<Rightarrow> int \<Rightarrow> (extra_key list \<times> int) result" where
  "gen_mm_extra_hash_keys r start_token_idx end_token_idx start_mm_idx =
     (if mm_positions r = [] then Inr ([], start_mm_idx)
      else if length (mm_positions r) \<noteq> length (mm_hashes r) then Inl ValueError
      else if fst (last (mm_positions r)) + snd (last (mm_positions r)) < start_token_idx then Inr ([], start_mm_idx)
      else if start_mm_idx < 0 \<and> int (length (mm_positions r)) < - start_mm_idx then Inl AssertionError
      else let idx = (if start_mm_idx < 0 then int (length (mm_positions r)) + start_mm_idx else start_mm_idx)
           in Inr (mm_loop start_token_idx end_token_idx idx (drop (nat idx) (zip (mm_positions r) (mm_hashes r)))))"

definition gen_lora_extra_hash_keys :: "kv_request \<Rightarrow> extra_key list" where
  "gen_lora_extra_hash_keys r = (case lora_int_id r of None \<Rightarrow> [] | Some i \<Rightarrow> [KeyInt i])"

definition generate_block_hash_extra_keys :: "kv_request \<Rightarrow> int \<Rightarrow> int \<Rightarrow> int \<Rightarrow> (extra_key list option \<times> int) result" where
  "generate_block_hash_extra_keys r start_token_idx end_token_idx start_mm_idx =
     bind_res (gen_mm_extra_hash_keys r start_token_idx end_token_idx start_mm_idx) (\<lambda>(mm_extra_keys, new_start_mm_idx).
       let cache_salt_keys = (case cache_salt r of
             None \<Rightarrow> [] | Some salt \<Rightarrow> if start_token_idx = 0 \<and> salt \<noteq> '''' then [KeyStr salt] else []);
           extra_keys = gen_lora_extra_hash_keys r @ mm_extra_keys @ cache_salt_keys
       in Inr (if extra_keys = [] then None else Some extra_keys, new_start_mm_idx))"

type_synonym hash_fn = "int \<times> int list \<times> extra_key list option \<Rightarrow> int"

text \<open>A parent hash that is 0 counts as missing, as in the source.\<close>

definition hash_block_tokens :: "hash_fn \<Rightarrow> int \<Rightarrow> int option \<Rightarrow> int list \<Rightarrow> extra_key list option \<Rightarrow> BlockHash" where
  "hash_block_tokens hash_function NONE_HASH parent_block_hash curr_block_token_ids extra =
     (let parent = (case parent_block_hash of None \<Rightarrow> NONE_HASH | Some h \<Rightarrow> if h = 0 then NONE_HASH else h)
      in \<lparr>hash_value = hash_function (parent, curr_block_token_ids, extra), bh_token_ids = curr_block_token_ids,
          bh_extra_keys = extra\<rparr>)"

definition hash_step ::
  "hash_fn \<Rightarrow> int \<Rightarrow> nat \<Rightarrow> kv_request \<Rightarrow> nat \<Rightarrow> BlockHash list \<times> int option \<times> int \<Rightarrow> (BlockHash list \<times> int option \<times> int) result" where
  "hash_step hash_function NONE_HASH block_size r k = (\<lambda>(ret, parent, curr_mm_idx).
     let start = k * block_size; block_token_ids = take block_size (drop start (all_token_ids r))
     in bind_res (if need_extra_keys r
                  then generate_block_hash_extra_keys r (int start) (int (start + block_size)) curr_mm_idx
                  else Inr (None, curr_mm_idx)) (\<lambda>(extra, idx).
          let h = hash_block_tokens hash_function NONE_HASH parent block_token_ids extra
          in Inr (ret @ [h], Some (hash_value h), idx)))"

definition hash_request_tokens :: "hash_fn \<Rightarrow> int \<Rightarrow> nat \<Rightarrow> kv_request \<Rightarrow> BlockHash list result" where
  "hash_request_tokens hash_function NONE_HASH block_size r =
     (if block_size = 0 then Inl ValueError
      else bind_res (foldM (hash_step hash_function NONE_HASH block_size r) [0..<length (all_token_ids r) div block_size] ([], None, 0))
             (\<lambda>(ret, _). Inr ret))"

section \<open>A hash stands for its prefix\<close>

text \<open>An ideal hash function: no collisions, and no value that the chain treats specially.\<close>

definition collision_free :: "hash_fn \<Rightarrow> int \<Rightarrow> bool" where
  "collision_free hash_function NONE_HASH \<longleftrightarrow> inj hash_function \<and> 0 \<notin> range hash_function \<and> NONE_HASH \<notin> range hash_function"

text \<open>The chain of hashes over given blocks.\<close>

fun hash_chain :: "hash_fn \<Rightarrow> int \<Rightarrow> int option \<Rightarrow> (int list \<times> extra_key list option) list \<Rightarrow> BlockHash list" where
  "hash_chain f seed parent [] = []"
| "hash_chain f seed parent ((toks, extra) # bs) =
     (let h = hash_block_tokens f seed parent toks extra in h # hash_chain f seed (Some (hash_value h)) bs)"

lemma hash_chain_length [simp]: "length (hash_chain f seed parent bs) = length bs"
  by (induction f seed parent bs rule: hash_chain.induct) (simp_all add: Let_def)

lemma hash_chain_Nil [simp]: "hash_chain f seed parent bs = [] \<longleftrightarrow> bs = []"
  using hash_chain_length [of f seed parent bs] by (metis length_0_conv)

lemma hash_chain_snoc:
  "hash_chain f seed parent (bs @ [(toks, extra)]) =
     hash_chain f seed parent bs @ [hash_block_tokens f seed
       (if bs = [] then parent else Some (hash_value (last (hash_chain f seed parent bs)))) toks extra]"
proof (induction f seed parent bs rule: hash_chain.induct)
  case (2 f seed parent t e bs)
  then show ?case by (cases bs) (auto simp: Let_def)
qed simp

lemma hash_chain_take: "take n (hash_chain f seed parent bs) = hash_chain f seed parent (take n bs)"
proof (induction f seed parent bs arbitrary: n rule: hash_chain.induct)
  case (2 f seed parent t e bs)
  then show ?case by (cases n) (auto simp: Let_def)
qed simp

text \<open>The extra keys of a block say which adapter the request uses.\<close>

fun lora_of :: "extra_key list option \<Rightarrow> int option" where
  "lora_of (Some (KeyInt i # ks)) = Some i"
| "lora_of _ = None"

lemma mm_loop_keys: "KeyInt i \<notin> set (fst (mm_loop s e k xs))"
  by (induction s e k xs rule: mm_loop.induct) (auto simp: Let_def split: prod.splits)

lemma gen_mm_keys: "gen_mm_extra_hash_keys r s e k = Inr (ks, idx) \<Longrightarrow> KeyInt i \<notin> set ks"
  using mm_loop_keys by (auto simp: gen_mm_extra_hash_keys_def Let_def split: if_splits) (metis fst_conv)+

lemma lora_of_none: "(\<And>i. KeyInt i \<notin> set ks) \<Longrightarrow> lora_of (Some ks) = None"
  by (cases ks; cases "hd ks") auto

lemma extra_keys_lora:
  assumes "generate_block_hash_extra_keys r s e k = Inr (extra, idx)"
  shows "lora_of extra = lora_int_id r"
proof -
  obtain ks where ks: "gen_mm_extra_hash_keys r s e k = Inr (ks, idx)"
    and x: "extra = (let xs = gen_lora_extra_hash_keys r @ ks @ (case cache_salt r of None \<Rightarrow> [] |
      Some salt \<Rightarrow> if s = 0 \<and> salt \<noteq> '''' then [KeyStr salt] else []) in if xs = [] then None else Some xs)"
    using assms by (auto simp: generate_block_hash_extra_keys_def bind_res_eq_Inr Let_def)
  show ?thesis
  proof (cases "lora_int_id r")
    case None
    then show ?thesis unfolding x Let_def using gen_mm_keys [OF ks]
      by (auto simp: gen_lora_extra_hash_keys_def intro!: lora_of_none split: option.splits)
  qed (simp add: x Let_def gen_lora_extra_hash_keys_def)
qed

lemma no_keys_lora: "\<not> need_extra_keys r \<Longrightarrow> lora_int_id r = None"
  by (simp add: need_extra_keys_def)

text \<open>The blocks a request is hashed by.\<close>

lemma hash_request_chain:
  assumes "hash_request_tokens f seed bs r = Inr hs"
  obtains es where "hs = hash_chain f seed None es" "0 < bs" "length es = length (all_token_ids r) div bs"
    "\<And>k. k < length es \<Longrightarrow> fst (es ! k) = take bs (drop (k * bs) (all_token_ids r))"
    "\<And>k. k < length es \<Longrightarrow> lora_of (snd (es ! k)) = lora_int_id r"
proof -
  let ?n = "length (all_token_ids r) div bs"
  let ?P = "\<lambda>ks (ret, parent, idx). \<exists>es. ret = hash_chain f seed None es \<and> length es = length ks \<and>
      parent = (if es = [] then None else Some (hash_value (last ret))) \<and>
      (\<forall>k < length es. fst (es ! k) = take bs (drop (k * bs) (all_token_ids r))) \<and>
      (\<forall>k < length es. lora_of (snd (es ! k)) = lora_int_id r)"
  obtain p i where pi: "foldM (hash_step f seed bs r) [0..<?n] ([], None, 0) = Inr (hs, p, i)" and bs: "0 < bs"
    using assms by (auto simp: hash_request_tokens_def bind_res_eq_Inr split: if_splits)
  have "?P [0..<?n] (hs, p, i)"
  proof (rule foldM_invariant [OF pi])
    fix ps k qs s t assume sp: "[0..<?n] = ps @ k # qs" and P: "?P ps s" and st: "hash_step f seed bs r k s = Inr t"
    have k: "k = length ps"
      using sp by (metis add_0 length_append length_upt less_add_same_cancel1 list.size(4) nth_append_length nth_upt zero_less_Suc
          diff_zero add_Suc_right)
    obtain ret parent idx where s: "s = (ret, parent, idx)" by (metis surj_pair)
    obtain es where es: "ret = hash_chain f seed None es" "length es = length ps"
      "parent = (if es = [] then None else Some (hash_value (last ret)))"
      "\<forall>k < length es. fst (es ! k) = take bs (drop (k * bs) (all_token_ids r))"
      "\<forall>k < length es. lora_of (snd (es ! k)) = lora_int_id r" using P unfolding s prod.case by blast
    let ?toks = "take bs (drop (k * bs) (all_token_ids r))"
    obtain extra idx' where e: "(if need_extra_keys r then generate_block_hash_extra_keys r (int (k * bs)) (int (k * bs + bs)) idx
        else Inr (None, idx)) = Inr (extra, idx')"
      "t = (ret @ [hash_block_tokens f seed parent ?toks extra], Some (hash_value (hash_block_tokens f seed parent ?toks extra)), idx')"
      using st s by (auto simp: hash_step_def Let_def bind_res_eq_Inr split: if_splits)
    have "ret @ [hash_block_tokens f seed parent ?toks extra] = hash_chain f seed None (es @ [(?toks, extra)])"
      unfolding hash_chain_snoc using es(1,3) by simp
    moreover have "lora_of extra = lora_int_id r"
      using e(1) extra_keys_lora [of r _ _ _ extra] no_keys_lora [of r] by (auto split: if_splits)
    then have "lora_of (snd ((es @ [(?toks, extra)]) ! l)) = lora_int_id r" if "l < length (es @ [(?toks, extra)])" for l
      using that es(5) by (auto simp: nth_append less_Suc_eq)
    moreover have "fst ((es @ [(?toks, extra)]) ! l) = take bs (drop (l * bs) (all_token_ids r))" if "l < length (es @ [(?toks, extra)])" for l
      using that es(2,4) k by (auto simp: nth_append less_Suc_eq)
    ultimately show "?P (ps @ [k]) t"
      unfolding e(2) prod.case using es(2) by (intro exI [of _ "es @ [(?toks, extra)]"]) (simp add: hash_chain_snoc)
  qed simp
  then obtain es where es: "hs = hash_chain f seed None es" "length es = ?n"
    "\<forall>k < length es. fst (es ! k) = take bs (drop (k * bs) (all_token_ids r))"
    "\<forall>k < length es. lora_of (snd (es ! k)) = lora_int_id r"
    unfolding prod.case length_upt diff_zero by blast
  show thesis by (rule that [OF es(1) bs es(2)]) (use es(3,4) in blast)+
qed

text \<open>Hashing does not raise when every multi-modal input has a hash.\<close>

lemma mm_loop_idx: "k \<le> snd (mm_loop s e k xs)"
proof (induction s e k xs rule: mm_loop.induct)
  case (2 s e k offset len h rest)
  then show ?case
    by (cases "offset + len < s"; cases "mm_loop s e (k + 1) rest") (auto simp: Let_def)
qed simp

lemma extra_keys_total:
  assumes "length (mm_positions r) = length (mm_hashes r)" "0 \<le> k"
  shows "\<exists>extra idx. generate_block_hash_extra_keys r s e k = Inr (extra, idx) \<and> 0 \<le> idx"
proof -
  have "\<exists>ks idx. gen_mm_extra_hash_keys r s e k = Inr (ks, idx) \<and> 0 \<le> idx"
    using assms mm_loop_idx [of k s e "drop (nat k) (zip (mm_positions r) (mm_hashes r))"]
    by (auto simp: gen_mm_extra_hash_keys_def Let_def) (metis order_trans prod.collapse)
  then show ?thesis by (auto simp: generate_block_hash_extra_keys_def Let_def)
qed

lemma hash_request_total:
  assumes "length (mm_positions r) = length (mm_hashes r)" "0 < bs"
  shows "\<exists>hs. hash_request_tokens f seed bs r = Inr hs"
proof -
  have "\<exists>st. foldM (hash_step f seed bs r) [0..<length (all_token_ids r) div bs] ([], None, 0) = Inr st \<and> 0 \<le> snd (snd st)"
  proof (rule foldM_total_invariant [where P = "\<lambda>_ st. 0 \<le> snd (snd st)"])
    fix ps k qs and st :: "BlockHash list \<times> int option \<times> int"
    assume idx: "0 \<le> snd (snd st)"
    obtain ret parent i where st: "st = (ret, parent, i)" by (cases st)
    have "\<exists>extra idx. (if need_extra_keys r then generate_block_hash_extra_keys r (int (k * bs)) (int (k * bs + bs)) i
        else Inr (None, i)) = Inr (extra, idx) \<and> 0 \<le> idx"
      using extra_keys_total [OF assms(1), of i] idx st by auto
    then show "\<exists>st'. hash_step f seed bs r k st = Inr st' \<and> 0 \<le> snd (snd st')" unfolding st hash_step_def Let_def by auto
  qed simp
  then show ?thesis using assms(2) by (auto simp: hash_request_tokens_def)
qed

lemma hash_chain_nth:
  "i < length es \<Longrightarrow> hash_chain f seed None es ! i =
     hash_block_tokens f seed (if i = 0 then None else Some (hash_value (hash_chain f seed None es ! (i - 1)))) (fst (es ! i)) (snd (es ! i))"
proof -
  assume i: "i < length es"
  have "take (Suc i) es = take i es @ [(fst (es ! i), snd (es ! i))]" using i by (simp add: take_Suc_conv_app_nth)
  then have "hash_chain f seed None (take (Suc i) es) = hash_chain f seed None (take i es) @ [hash_block_tokens f seed
      (if take i es = [] then None else Some (hash_value (last (hash_chain f seed None (take i es))))) (fst (es ! i)) (snd (es ! i))]"
    by (simp only: hash_chain_snoc)
  then have "take (Suc i) (hash_chain f seed None es) ! i = hash_block_tokens f seed
      (if i = 0 then None else Some (hash_value (last (take i (hash_chain f seed None es))))) (fst (es ! i)) (snd (es ! i))"
    unfolding hash_chain_take using i by (auto simp: nth_append)
  moreover have "last (take i (hash_chain f seed None es)) = hash_chain f seed None es ! (i - 1)" if "0 < i"
    using i that by (subst last_conv_nth) (auto simp: nth_take)
  ultimately show ?thesis by simp
qed

text \<open>What is hashed at a block: the seed or the hash of the block before, the tokens and the keys.\<close>

lemma chain_hash_value:
  assumes "collision_free f seed" "i < length es"
  shows "hash_value (hash_chain f seed None es ! i) =
    f (if i = 0 then seed else hash_value (hash_chain f seed None es ! (i - 1)), es ! i)"
proof -
  have nz: "hash_value (hash_chain f seed None es ! k) \<noteq> 0" if "k < length es" for k
    using assms(1) that unfolding hash_chain_nth [OF that] by (auto simp: hash_block_tokens_def Let_def collision_free_def)
  show ?thesis
    using nz [of "i - 1"] assms(2) by (subst hash_chain_nth [OF assms(2)]) (simp add: hash_block_tokens_def)
qed

lemma chain_prefix:
  assumes f: "collision_free f seed"
  shows "i < length es1 \<Longrightarrow> j < length es2 \<Longrightarrow>
    hash_value (hash_chain f seed None es1 ! i) = hash_value (hash_chain f seed None es2 ! j) \<longleftrightarrow>
    i = j \<and> take (Suc i) es1 = take (Suc j) es2"
proof (induction i arbitrary: j)
  have inj: "f x = f y \<longleftrightarrow> x = y" and seed: "seed \<noteq> f x" for x y
    using f by (auto simp: collision_free_def inj_eq)
  {
    case 0
    have "seed \<noteq> hash_value (hash_chain f seed None es2 ! (j - 1))" if "0 < j"
      using seed 0(2) that unfolding chain_hash_value [OF f, of "j - 1" es2, OF less_imp_diff_less [OF 0(2)]] by blast
    moreover have "take (Suc 0) es1 = take (Suc 0) es2 \<longleftrightarrow> es1 ! 0 = es2 ! 0" if "j = 0"
      using 0 that by (cases es1; cases es2) auto
    ultimately show ?case using 0 by (auto simp: chain_hash_value [OF f] inj)
  next
    case (Suc i)
    have "hash_value (hash_chain f seed None es1 ! i) \<noteq> seed"
      using seed Suc.prems(1) unfolding chain_hash_value [OF f, of i es1, OF Suc_lessD [OF Suc.prems(1)]] by metis
    moreover have "hash_value (hash_chain f seed None es1 ! i) = hash_value (hash_chain f seed None es2 ! (j - 1)) \<longleftrightarrow>
        i = j - 1 \<and> take (Suc i) es1 = take (Suc (j - 1)) es2" if "0 < j"
      using Suc.IH [of "j - 1"] Suc.prems that by simp
    moreover have "take (Suc (Suc i)) es1 = take (Suc (Suc i)) es2 \<longleftrightarrow>
        take (Suc i) es1 = take (Suc i) es2 \<and> es1 ! Suc i = es2 ! Suc i" if "j = Suc i"
      using Suc.prems that by (simp add: take_Suc_conv_app_nth)
    ultimately show ?case
      using Suc.prems by (cases j) (auto simp: chain_hash_value [OF f] inj)
  }
qed

text \<open>Cutting both requests into blocks turns equal blocks into equal prefixes.\<close>

lemma blocks_prefix:
  assumes "\<And>k. k < n \<Longrightarrow> take b (drop (k * b) xs) = take b (drop (k * b) ys)"
  shows "take (n * b) xs = take (n * b) ys"
  using assms
proof (induction n)
  case (Suc n)
  have "take (Suc n * b) zs = take (n * b) zs @ take b (drop (n * b) zs)" for zs :: "'a list"
    using take_add [of "n * b" b zs] by (simp add: add.commute)
  then show ?case using Suc by simp
qed simp

lemma prefix_blocks:
  assumes "take (n * b) xs = take (n * b) ys" "k < n"
  shows "take b (drop (k * b) xs) = take b (drop (k * b) ys)"
proof -
  have le: "k * b + b \<le> n * b" using assms(2) by (metis Suc_leI add.commute mult_Suc mult_le_mono1)
  have cut: "take b (drop (k * b) zs) = drop (k * b) (take (k * b + b) (take (n * b) zs))" for zs :: "'a list"
    using le by (simp add: take_drop min_absorb1 add.commute)
  show ?thesis unfolding cut assms(1) ..
qed

section \<open>Properties\<close>

text \<open>Property C36. Block hashes identify prefixes. For a collision-free hash function, the hash of block i of one
  request equals the hash of block j of another exactly when i and j are the same, both requests agree on all
  tokens up to the end of that block, and every block up to it has the same extra keys. So a cached block
  is only ever found for the same prefix, under the same adapter, inputs and salt.\<close>

theorem block_hash_identifies_prefix:
  assumes f: "collision_free f seed"
    and h1: "hash_request_tokens f seed bs r1 = Inr hs1" and h2: "hash_request_tokens f seed bs r2 = Inr hs2"
    and i: "i < length hs1" "j < length hs2"
  shows "hash_value (hs1 ! i) = hash_value (hs2 ! j) \<longleftrightarrow>
    i = j \<and> take (Suc i * bs) (all_token_ids r1) = take (Suc i * bs) (all_token_ids r2) \<and>
    map bh_extra_keys (take (Suc i) hs1) = map bh_extra_keys (take (Suc i) hs2)"
proof -
  obtain es1 where e1: "hs1 = hash_chain f seed None es1" "\<And>k. k < length es1 \<Longrightarrow> fst (es1 ! k) = take bs (drop (k * bs) (all_token_ids r1))"
    using hash_request_chain [OF h1] by metis
  obtain es2 where e2: "hs2 = hash_chain f seed None es2" "\<And>k. k < length es2 \<Longrightarrow> fst (es2 ! k) = take bs (drop (k * bs) (all_token_ids r2))"
    using hash_request_chain [OF h2] by metis
  have keys: "map bh_extra_keys (hash_chain f seed p es) = map snd es" for p es
    by (induction f seed p es rule: hash_chain.induct) (simp_all add: Let_def hash_block_tokens_def)
  have l: "i < length es1" "j < length es2" using i e1(1) e2(1) by simp_all
  have "take (Suc i) es1 = take (Suc i) es2 \<longleftrightarrow>
      take (Suc i * bs) (all_token_ids r1) = take (Suc i * bs) (all_token_ids r2) \<and>
      map snd (take (Suc i) es1) = map snd (take (Suc i) es2)" if "i = j"
  proof -
    have "take (Suc i) es1 = take (Suc i) es2 \<longleftrightarrow> (\<forall>k < Suc i. fst (es1 ! k) = fst (es2 ! k) \<and> snd (es1 ! k) = snd (es2 ! k))"
      using l that by (auto simp: list_eq_iff_nth_eq prod_eq_iff)
    also have "\<dots> \<longleftrightarrow> (\<forall>k < Suc i. take bs (drop (k * bs) (all_token_ids r1)) = take bs (drop (k * bs) (all_token_ids r2))) \<and>
        (\<forall>k < Suc i. snd (es1 ! k) = snd (es2 ! k))"
      using l that e1(2) e2(2) by auto
    also have "(\<forall>k < Suc i. take bs (drop (k * bs) (all_token_ids r1)) = take bs (drop (k * bs) (all_token_ids r2))) \<longleftrightarrow>
        take (Suc i * bs) (all_token_ids r1) = take (Suc i * bs) (all_token_ids r2)"
      using blocks_prefix [of "Suc i" bs] prefix_blocks [of "Suc i" bs] by blast
    also have "(\<forall>k < Suc i. snd (es1 ! k) = snd (es2 ! k)) \<longleftrightarrow> map snd (take (Suc i) es1) = map snd (take (Suc i) es2)"
      using l that by (auto simp: list_eq_iff_nth_eq)
    finally show ?thesis .
  qed
  then show ?thesis
    using chain_prefix [OF f l] unfolding e1(1) e2(1) hash_chain_take keys by auto
qed

instance extra_key :: countable
  by countable_datatype

text \<open>An injective numbering serves as a hash function.\<close>

definition demo_hash :: hash_fn where
  "demo_hash x = int (to_nat x) + 2"

definition demo_kv_request :: "int list \<Rightarrow> int option \<Rightarrow> kv_request" where
  "demo_kv_request toks lora = \<lparr>all_token_ids = toks, mm_positions = [], mm_hashes = [], lora_int_id = lora, cache_salt = None\<rparr>"

lemma demo_hash_ok: "collision_free demo_hash 1"
  by (auto simp: collision_free_def demo_hash_def inj_def)

theorem block_hash_identifies_prefix_witness:
  "\<exists>hs1 hs2 hs3. hash_request_tokens demo_hash 1 2 (demo_kv_request [1, 2, 3, 4, 5] None) = Inr hs1 \<and>
     hash_request_tokens demo_hash 1 2 (demo_kv_request [1, 2, 3, 9] None) = Inr hs2 \<and>
     hash_request_tokens demo_hash 1 2 (demo_kv_request [1, 2] (Some 7)) = Inr hs3 \<and>
     hash_value (hs1 ! 0) = hash_value (hs2 ! 0) \<and> hash_value (hs1 ! 1) \<noteq> hash_value (hs2 ! 1) \<and>
     hash_value (hs1 ! 0) \<noteq> hash_value (hs3 ! 0)"
proof -
  note defs = hash_request_tokens_def hash_step_def need_extra_keys_def demo_kv_request_def generate_block_hash_extra_keys_def
    gen_mm_extra_hash_keys_def gen_lora_extra_hash_keys_def Let_def upt_rec hash_block_tokens_def
  obtain hs1 hs2 hs3 where h1: "hash_request_tokens demo_hash 1 2 (demo_kv_request [1, 2, 3, 4, 5] None) = Inr hs1"
      "length hs1 = 2" "map bh_extra_keys hs1 = [None, None]"
    and h2: "hash_request_tokens demo_hash 1 2 (demo_kv_request [1, 2, 3, 9] None) = Inr hs2"
      "length hs2 = 2" "map bh_extra_keys hs2 = [None, None]"
    and h3: "hash_request_tokens demo_hash 1 2 (demo_kv_request [1, 2] (Some 7)) = Inr hs3"
      "length hs3 = 1" "map bh_extra_keys hs3 = [Some [KeyInt 7]]" by (simp add: defs)
  note p = block_hash_identifies_prefix [OF demo_hash_ok]
  have k: "map bh_extra_keys (take (Suc 0) hs1) = [None]" "map bh_extra_keys (take (Suc 0) hs2) = [None]"
    "map bh_extra_keys (take (Suc 0) hs3) = [Some [KeyInt 7]]"
    using h1(3) h2(3) h3(3) by (simp_all add: take_map [symmetric])
  have "hash_value (hs1 ! 0) = hash_value (hs2 ! 0)" using p [OF h1(1) h2(1), of 0 0] h1(2) h2(2) k by (simp add: demo_kv_request_def)
  moreover have "hash_value (hs1 ! 1) \<noteq> hash_value (hs2 ! 1)" using p [OF h1(1) h2(1), of 1 1] h1(2) h2(2) by (simp add: demo_kv_request_def)
  moreover have "hash_value (hs1 ! 0) \<noteq> hash_value (hs3 ! 0)" using p [OF h1(1) h3(1), of 0 0] h1(2) h3(2) k by simp
  ultimately show ?thesis using h1(1) h2(1) h3(1) by blast
qed

end
