(* ===== verification/Block_Pool.thy ===== *)
theory Block_Pool
  imports Free_Block_Queue Block_Hash
begin

text \<open>
  The pool of cache blocks, \<^verbatim>\<open>vllm/v1/core/block_pool.py\<close>: it counts references to blocks, keeps unused ones in
  the free queue in the order in which they may be evicted, and finds full blocks by their hash, also while
  they wait in the queue. The engine builds it for every model, the cache managers allocate through it.

  Shown here: the free queue, the reference counts and the cache always agree, in every state that clients
  reach when they free only what they hold; and blocks that are given back come out in least recently
  used order, with their cached content found until then.
\<close>

section \<open>The pool\<close>

datatype kv_event =
    BlockStored "int list" "int option" "int list" nat "int option"
  | BlockRemoved "int list"
  | AllBlocksCleared

type_synonym block_key = BlockHashWithGroupId

text \<open>The inner dictionary of cached blocks is the list of their ids in insertion order.\<close>

record block_pool =
  num_gpu_blocks :: nat
  enable_caching :: bool
  free_block_queue :: "block_key free_queue"
  cached_block_hash_to_block :: "block_key \<rightharpoonup> nat list"
  null_block :: node
  enable_kv_cache_events :: bool
  kv_event_queue :: "kv_event list"

definition block :: "block_pool \<Rightarrow> nat \<Rightarrow> block_key kv_block" where
  "block p i = heap (free_block_queue p) (Block i)"

definition upd_block :: "node \<Rightarrow> ('h kv_block \<Rightarrow> 'h kv_block) \<Rightarrow> 'h free_queue \<Rightarrow> 'h free_queue" where
  "upd_block n f q = q\<lparr>heap := (heap q)(n := f (heap q n))\<rparr>"

definition set_block :: "nat \<Rightarrow> (block_key kv_block \<Rightarrow> block_key kv_block) \<Rightarrow> block_pool \<Rightarrow> block_pool" where
  "set_block i f p = p\<lparr>free_block_queue := upd_block (Block i) f (free_block_queue p)\<rparr>"

definition add_event :: "kv_event \<Rightarrow> block_pool \<Rightarrow> block_pool" where
  "add_event e p = (if enable_kv_cache_events p then p\<lparr>kv_event_queue := kv_event_queue p @ [e]\<rparr> else p)"

definition BlockPool :: "int \<Rightarrow> bool \<Rightarrow> bool \<Rightarrow> block_pool result" where
  "BlockPool num_blocks caching events =
     (if num_blocks \<le> 0 then Inl AssertionError
      else bind_res (popleft (FreeKVCacheBlockQueue (\<lambda>_. KVCacheBlock) (map Block [0..<nat num_blocks]))) (\<lambda>(null, q).
             Inr \<lparr>num_gpu_blocks = nat num_blocks, enable_caching = caching,
                  free_block_queue = upd_block null (is_null_update (\<lambda>_. True)) q,
                  cached_block_hash_to_block = Map.empty, null_block = null, enable_kv_cache_events = events,
                  kv_event_queue = []\<rparr>))"

fun get_cached_block :: "block_pool \<Rightarrow> BlockHash \<Rightarrow> int list \<Rightarrow> nat list option" where
  "get_cached_block p h [] = Some []"
| "get_cached_block p h (g # gs) =
     (case cached_block_hash_to_block p \<lparr>bg_block_hash = h, group_id = g\<rparr> of
        Some (b # _) \<Rightarrow> map_option ((#) b) (get_cached_block p h gs)
      | _ \<Rightarrow> None)"

definition cache_block :: "nat \<Rightarrow> block_key \<Rightarrow> block_pool \<Rightarrow> block_pool" where
  "cache_block i k p =
     (let p = set_block i (block_hash_update (\<lambda>_. Some k)) p;
          ids = (case cached_block_hash_to_block p k of None \<Rightarrow> [] | Some ids \<Rightarrow> ids)
      in p\<lparr>cached_block_hash_to_block := (cached_block_hash_to_block p)(k \<mapsto> if i \<in> set ids then ids else ids @ [i])\<rparr>)"

text \<open>One turn of the loop of \<^verbatim>\<open>cache_full_blocks\<close>: the block's hash is taken from the request or computed and
  appended to the request's list.\<close>

definition cache_step ::
  "hash_fn \<Rightarrow> int \<Rightarrow> kv_request \<Rightarrow> BlockHash list \<Rightarrow> nat \<Rightarrow> nat \<Rightarrow> int \<Rightarrow> nat \<times> nat \<Rightarrow>
     block_pool \<times> BlockHash list \<times> int list \<times> int option \<Rightarrow> (block_pool \<times> BlockHash list \<times> int list \<times> int option) result" where
  "cache_step hash_function NONE_HASH r new_block_hashes num_cached_blocks block_size gid = (\<lambda>(i, blk) (p, block_hashes, new_hashes, prev).
     if block_hash (block p blk) \<noteq> None then Inl AssertionError
     else bind_res
       (if i < length new_block_hashes then Inr (new_block_hashes ! i, block_hashes)
        else let blk_idx = num_cached_blocks + i; start = blk_idx * block_size;
                 block_tokens = take block_size (drop start (all_token_ids r))
             in if length block_tokens \<noteq> block_size then Inl AssertionError
                else bind_res (generate_block_hash_extra_keys r (int start) (int (start + block_size)) (- 1)) (\<lambda>(extra, _).
                       let h = hash_block_tokens hash_function NONE_HASH prev block_tokens extra in Inr (h, block_hashes @ [h])))
       (\<lambda>(h, block_hashes'). Inr (cache_block blk \<lparr>bg_block_hash = h, group_id = gid\<rparr> p, block_hashes',
           new_hashes @ [hash_value h], Some (hash_value h))))"

text \<open>The event reads an attribute \<^verbatim>\<open>id\<close> that the adapter request does not have.\<close>

definition stored_event :: "kv_request \<Rightarrow> int list \<Rightarrow> int option \<Rightarrow> nat \<Rightarrow> nat \<Rightarrow> nat \<Rightarrow> block_pool \<Rightarrow> block_pool result" where
  "stored_event r new_hashes parent num_cached_blocks num_full_blocks block_size p =
     (if \<not> enable_kv_cache_events p then Inr p
      else if lora_int_id r \<noteq> None then Inl AttributeError
      else Inr (add_event (BlockStored new_hashes parent
             (take (num_full_blocks * block_size - num_cached_blocks * block_size) (drop (num_cached_blocks * block_size) (all_token_ids r)))
             block_size None) p))"

definition cache_full_blocks ::
  "hash_fn \<Rightarrow> int \<Rightarrow> kv_request \<Rightarrow> nat list \<Rightarrow> BlockHash list \<Rightarrow> nat \<Rightarrow> nat \<Rightarrow> nat \<Rightarrow> int \<Rightarrow> block_pool \<Rightarrow>
     (block_pool \<times> BlockHash list) result" where
  "cache_full_blocks hash_function NONE_HASH r blocks block_hashes num_cached_blocks num_full_blocks block_size gid p =
     (if num_cached_blocks = num_full_blocks then Inr (p, block_hashes)
      else let new_full_blocks = take (num_full_blocks - num_cached_blocks) (drop num_cached_blocks blocks)
           in if length block_hashes < num_cached_blocks then Inl AssertionError
              else bind_res
                (if num_cached_blocks = 0 then Inr None
                 else if length blocks < num_cached_blocks then Inl IndexError
                 else case block_hash (block p (blocks ! (num_cached_blocks - 1))) of
                        None \<Rightarrow> Inl AssertionError | Some k \<Rightarrow> Inr (Some (hash_value (bg_block_hash k))))
                (\<lambda>parent.
                  bind_res (foldM (cache_step hash_function NONE_HASH r (drop num_cached_blocks block_hashes) num_cached_blocks block_size gid)
                      (List.enumerate 0 new_full_blocks) (p, block_hashes, [], parent)) (\<lambda>(p', block_hashes', new_hashes, _).
                    bind_res (stored_event r new_hashes parent num_cached_blocks num_full_blocks block_size p') (\<lambda>p''.
                      Inr (p'', block_hashes')))))"

definition maybe_evict_cached_block :: "nat \<Rightarrow> block_pool \<Rightarrow> bool \<times> block_pool" where
  "maybe_evict_cached_block i p =
     (case block_hash (block p i) of
        None \<Rightarrow> (False, p)
      | Some k \<Rightarrow>
          (case cached_block_hash_to_block p k of
             None \<Rightarrow> (False, p)
           | Some ids \<Rightarrow>
               let p = set_block i (block_hash_update (\<lambda>_. None)) p;
                   ids = remove1 i ids;
                   p = p\<lparr>cached_block_hash_to_block := (cached_block_hash_to_block p)(k := if ids = [] then None else Some ids)\<rparr>
               in (True, add_event (BlockRemoved [hash_value (bg_block_hash k)]) p)))"

definition get_num_free_blocks :: "block_pool \<Rightarrow> int" where
  "get_num_free_blocks p = num_free_blocks (free_block_queue p)"

definition take_block :: "nat \<Rightarrow> block_pool \<Rightarrow> block_pool result" where
  "take_block i p =
     (let p = (if enable_caching p then snd (maybe_evict_cached_block i p) else p)
      in if ref_cnt (block p i) \<noteq> 0 then Inl AssertionError
         else Inr (set_block i (ref_cnt_update (\<lambda>c. c + 1)) p))"

fun block_id :: "node \<Rightarrow> nat" where
  "block_id (Block i) = i"
| "block_id _ = 0"

definition get_new_blocks :: "nat \<Rightarrow> block_pool \<Rightarrow> (nat list \<times> block_pool) result" where
  "get_new_blocks num_blocks p =
     (if get_num_free_blocks p < int num_blocks then Inl ValueError
      else bind_res (popleft_n num_blocks (free_block_queue p)) (\<lambda>(ret, q).
             let ids = map block_id ret
             in bind_res (foldM take_block ids (p\<lparr>free_block_queue := q\<rparr>)) (\<lambda>p'. Inr (ids, p'))))"

definition touch_block :: "nat \<Rightarrow> block_pool \<Rightarrow> block_pool result" where
  "touch_block i p =
     bind_res (if ref_cnt (block p i) = 0 \<and> \<not> is_null (block p i)
               then bind_res (queue_remove (Block i) (free_block_queue p)) (\<lambda>q. Inr (p\<lparr>free_block_queue := q\<rparr>)) else Inr p)
       (\<lambda>p. Inr (set_block i (ref_cnt_update (\<lambda>c. c + 1)) p))"

definition touch :: "nat list list \<Rightarrow> block_pool \<Rightarrow> block_pool result" where
  "touch blocks p = foldM touch_block (concat blocks) p"

definition free_blocks :: "nat list \<Rightarrow> block_pool \<Rightarrow> block_pool result" where
  "free_blocks ordered_blocks p =
     (let p = fold (\<lambda>i. set_block i (ref_cnt_update (\<lambda>c. c - 1))) ordered_blocks p
      in bind_res (append_n (map Block (filter (\<lambda>i. ref_cnt (block p i) = 0 \<and> \<not> is_null (block p i)) ordered_blocks))
             (free_block_queue p)) (\<lambda>q. Inr (p\<lparr>free_block_queue := q\<rparr>)))"

definition reset_prefix_cache :: "block_pool \<Rightarrow> bool \<times> block_pool" where
  "reset_prefix_cache p =
     (if int (num_gpu_blocks p) - get_num_free_blocks p \<noteq> 1 then (False, p)
      else (True, add_event AllBlocksCleared
             (fold (\<lambda>i. set_block i (block_hash_update (\<lambda>_. None))) [0..<num_gpu_blocks p]
               (p\<lparr>cached_block_hash_to_block := Map.empty\<rparr>))))"

definition get_usage :: "block_pool \<Rightarrow> rat" where
  "get_usage p = 1 - of_int (get_num_free_blocks p) / of_nat (num_gpu_blocks p)"

definition take_events :: "block_pool \<Rightarrow> kv_event list \<times> block_pool" where
  "take_events p = (if \<not> enable_kv_cache_events p then ([], p) else (kv_event_queue p, p\<lparr>kv_event_queue := []\<rparr>))"

section \<open>Elementary updates\<close>

text \<open>Updates that leave the links alone do not disturb the queue.\<close>

definition keeps_links :: "('h kv_block \<Rightarrow> 'h kv_block) \<Rightarrow> bool" where
  "keeps_links f \<longleftrightarrow> (\<forall>b. next_free_block (f b) = next_free_block b \<and> prev_free_block (f b) = prev_free_block b)"

lemma keeps_links_simps [simp]:
  "keeps_links (ref_cnt_update g)" "keeps_links (block_hash_update h)" "keeps_links (is_null_update n)"
  by (simp_all add: keeps_links_def)

lemma content_upd_block [simp]: "keeps_links f \<Longrightarrow> content (upd_block n f q) xs \<longleftrightarrow> content q xs"
proof -
  assume f: "keeps_links f"
  have "nx (upd_block n f q) = nx q" "pv (upd_block n f q) = pv q" "num_free_blocks (upd_block n f q) = num_free_blocks q"
    using f by (auto simp: fun_eq_iff nx_def pv_def upd_block_def keeps_links_def)
  then show ?thesis by (simp add: content_def)
qed

lemma set_block_simps [simp]:
  "block (set_block i f p) = (block p)(i := f (block p i))"
  "num_gpu_blocks (set_block i f p) = num_gpu_blocks p" "enable_caching (set_block i f p) = enable_caching p"
  "cached_block_hash_to_block (set_block i f p) = cached_block_hash_to_block p" "null_block (set_block i f p) = null_block p"
  "enable_kv_cache_events (set_block i f p) = enable_kv_cache_events p" "kv_event_queue (set_block i f p) = kv_event_queue p"
  "keeps_links f \<Longrightarrow> content (free_block_queue (set_block i f p)) xs \<longleftrightarrow> content (free_block_queue p) xs"
  by (auto simp: set_block_def block_def upd_block_def [of "Block i"] fun_eq_iff)
    (simp_all add: upd_block_def [symmetric])

lemma block_updates [simp]:
  "block (p\<lparr>cached_block_hash_to_block := c\<rparr>) = block p" "block (p\<lparr>kv_event_queue := e\<rparr>) = block p"
  by (simp_all add: block_def fun_eq_iff)

lemma add_event_simps [simp]:
  "block (add_event e p) = block p" "num_gpu_blocks (add_event e p) = num_gpu_blocks p"
  "enable_caching (add_event e p) = enable_caching p" "free_block_queue (add_event e p) = free_block_queue p"
  "cached_block_hash_to_block (add_event e p) = cached_block_hash_to_block p" "null_block (add_event e p) = null_block p"
  "enable_kv_cache_events (add_event e p) = enable_kv_cache_events p"
  by (simp_all add: add_event_def block_def fun_eq_iff)

text \<open>What a queue operation keeps of the blocks.\<close>

lemma fields_of_meta:
  "ref_cnt (heap q (Block i)) = ref_cnt (meta q i)" "block_hash (heap q (Block i)) = block_hash (meta q i)"
  "is_null (heap q (Block i)) = is_null (meta q i)"
  by (simp_all add: meta_def)

lemma block_new_queue:
  assumes "meta q = meta (free_block_queue p)"
  shows "ref_cnt (block (p\<lparr>free_block_queue := q\<rparr>) i) = ref_cnt (block p i)"
    "block_hash (block (p\<lparr>free_block_queue := q\<rparr>) i) = block_hash (block p i)"
    "is_null (block (p\<lparr>free_block_queue := q\<rparr>) i) = is_null (block p i)"
  using assms by (simp_all add: block_def fields_of_meta)

section \<open>The invariant\<close>

definition cached_ids :: "block_pool \<Rightarrow> block_key \<Rightarrow> nat list" where
  "cached_ids p k = (case cached_block_hash_to_block p k of None \<Rightarrow> [] | Some ids \<Rightarrow> ids)"

definition cache_ok :: "block_pool \<Rightarrow> bool" where
  "cache_ok p \<longleftrightarrow> (\<forall>k. cached_block_hash_to_block p k \<noteq> Some []) \<and> (\<forall>k. distinct (cached_ids p k)) \<and>
     (\<forall>k i. i \<in> set (cached_ids p k) \<longleftrightarrow> block_hash (block p i) = Some k) \<and>
     (\<forall>i k. block_hash (block p i) = Some k \<longrightarrow> 0 < i \<and> i < num_gpu_blocks p)"

text \<open>The free list \<open>xs\<close>, and blocks \<open>ex\<close> that an operation has taken out of it but not yet handed over.\<close>

definition blocks_ok :: "block_pool \<Rightarrow> nat list \<Rightarrow> nat set \<Rightarrow> bool" where
  "blocks_ok p xs ex \<longleftrightarrow> content (free_block_queue p) xs \<and> 0 < num_gpu_blocks p \<and> null_block p = Block 0 \<and>
     (\<forall>i. is_null (block p i) \<longleftrightarrow> i = 0) \<and> set xs \<inter> ex = {} \<and>
     (\<forall>i. i \<in> set xs \<union> ex \<longleftrightarrow> 0 < i \<and> i < num_gpu_blocks p \<and> ref_cnt (block p i) = 0) \<and>
     (\<forall>i. 0 < i \<longrightarrow> 0 \<le> ref_cnt (block p i)) \<and> cache_ok p"

abbreviation block_pool_ok :: "block_pool \<Rightarrow> nat list \<Rightarrow> bool" where
  "block_pool_ok p xs \<equiv> blocks_ok p xs {}"

lemma blocks_okD:
  assumes "blocks_ok p xs ex"
  shows "content (free_block_queue p) xs" "0 < num_gpu_blocks p" "null_block p = Block 0" "\<And>i. is_null (block p i) \<longleftrightarrow> i = 0"
    "set xs \<inter> ex = {}" "\<And>i. i \<in> set xs \<union> ex \<longleftrightarrow> 0 < i \<and> i < num_gpu_blocks p \<and> ref_cnt (block p i) = 0"
    "\<And>i. 0 < i \<Longrightarrow> 0 \<le> ref_cnt (block p i)" "cache_ok p"
  using assms unfolding blocks_ok_def by blast+

lemma blocks_okI:
  assumes "content (free_block_queue p) xs" "0 < num_gpu_blocks p" "null_block p = Block 0" "\<And>i. is_null (block p i) \<longleftrightarrow> i = 0"
    "set xs \<inter> ex = {}" "\<And>i. i \<in> set xs \<union> ex \<longleftrightarrow> 0 < i \<and> i < num_gpu_blocks p \<and> ref_cnt (block p i) = 0"
    "\<And>i. 0 < i \<Longrightarrow> 0 \<le> ref_cnt (block p i)" "cache_ok p"
  shows "blocks_ok p xs ex"
  unfolding blocks_ok_def using assms by blast

lemma cache_ok_cong:
  assumes "cached_block_hash_to_block p' = cached_block_hash_to_block p" "num_gpu_blocks p' = num_gpu_blocks p"
    "\<And>i. block_hash (block p' i) = block_hash (block p i)"
  shows "cache_ok p' = cache_ok p"
  using assms by (simp add: cache_ok_def cached_ids_def)

section \<open>The operations keep the invariant\<close>

text \<open>Eviction forgets the hash of a block and its entry in the cache.\<close>

lemma cache_okD:
  assumes "cache_ok p"
  shows "cached_block_hash_to_block p k \<noteq> Some []" "distinct (cached_ids p k)"
    "i \<in> set (cached_ids p k) \<longleftrightarrow> block_hash (block p i) = Some k"
    "block_hash (block p i) = Some k \<Longrightarrow> 0 < i \<and> i < num_gpu_blocks p"
  using assms unfolding cache_ok_def by blast+

lemma cache_okI:
  assumes "\<And>k. cached_block_hash_to_block p k \<noteq> Some []" "\<And>k. distinct (cached_ids p k)"
    "\<And>i k. i \<in> set (cached_ids p k) \<longleftrightarrow> block_hash (block p i) = Some k"
    "\<And>i k. block_hash (block p i) = Some k \<Longrightarrow> 0 < i \<and> i < num_gpu_blocks p"
  shows "cache_ok p"
  unfolding cache_ok_def using assms by blast

lemma evict_cached:
  assumes "cache_ok p" "block_hash (block p i) = Some k"
  shows "maybe_evict_cached_block i p =
    (True, add_event (BlockRemoved [hash_value (bg_block_hash k)])
       ((set_block i (block_hash_update (\<lambda>_. None)) p)\<lparr>cached_block_hash_to_block := (cached_block_hash_to_block p)
          (k := if remove1 i (cached_ids p k) = [] then None else Some (remove1 i (cached_ids p k)))\<rparr>))"
proof -
  have "i \<in> set (cached_ids p k)" using assms cache_okD(3) by blast
  then obtain ids where "cached_block_hash_to_block p k = Some ids"
    by (cases "cached_block_hash_to_block p k") (simp_all add: cached_ids_def)
  then show ?thesis using assms(2) by (simp add: maybe_evict_cached_block_def cached_ids_def Let_def)
qed

lemma evict_fields:
  assumes ok: "cache_ok p" and p': "p' = snd (maybe_evict_cached_block i p)"
  shows "block p' = (block p)(i := (block p i)\<lparr>block_hash := None\<rparr>)"
    "content (free_block_queue p') xs \<longleftrightarrow> content (free_block_queue p) xs"
    "num_gpu_blocks p' = num_gpu_blocks p" "null_block p' = null_block p" "enable_caching p' = enable_caching p"
proof -
  have "block p' = (block p)(i := (block p i)\<lparr>block_hash := None\<rparr>) \<and>
    (content (free_block_queue p') xs \<longleftrightarrow> content (free_block_queue p) xs) \<and>
    num_gpu_blocks p' = num_gpu_blocks p \<and> null_block p' = null_block p \<and> enable_caching p' = enable_caching p"
  proof (cases "block_hash (block p i)")
    case None
    then have e: "(block p i)\<lparr>block_hash := None\<rparr> = block p i" by (cases "block p i") simp
    show ?thesis unfolding e using None by (simp add: p' maybe_evict_cached_block_def)
  next
    case (Some k)
    show ?thesis by (simp add: p' evict_cached [OF ok Some])
  qed
  then show "block p' = (block p)(i := (block p i)\<lparr>block_hash := None\<rparr>)"
    "content (free_block_queue p') xs \<longleftrightarrow> content (free_block_queue p) xs"
    "num_gpu_blocks p' = num_gpu_blocks p" "null_block p' = null_block p" "enable_caching p' = enable_caching p" by blast+
qed

lemma evict_cache_ok:
  assumes ok: "cache_ok p"
  shows "cache_ok (snd (maybe_evict_cached_block i p))" (is "cache_ok ?p")
proof (cases "block_hash (block p i)")
  case None
  then show ?thesis using ok by (simp add: maybe_evict_cached_block_def)
next
  case (Some k)
  note f = evict_fields [OF ok refl, of i]
  have ids: "cached_ids ?p = (cached_ids p)(k := remove1 i (cached_ids p k))"
    by (auto simp: evict_cached [OF ok Some] cached_ids_def)
  show ?thesis
  proof (rule cache_okI)
    show "cached_block_hash_to_block ?p l \<noteq> Some []" for l
      using cache_okD(1) [OF ok, of l] by (simp add: evict_cached [OF ok Some])
    show "distinct (cached_ids ?p l)" for l using cache_okD(2) [OF ok] by (simp add: ids)
    show "j \<in> set (cached_ids ?p l) \<longleftrightarrow> block_hash (block ?p j) = Some l" for j l
      using cache_okD(2,3) [OF ok] Some by (auto simp: ids f)
    show "block_hash (block ?p j) = Some l \<Longrightarrow> 0 < j \<and> j < num_gpu_blocks ?p" for j l
      using cache_okD(4) [OF ok, of j l] by (simp add: f split: if_splits)
  qed
qed

text \<open>A block that has been taken out of the queue is handed over with one reference.\<close>

definition same_setup :: "block_pool \<Rightarrow> block_pool \<Rightarrow> bool" where
  "same_setup p p' \<longleftrightarrow> num_gpu_blocks p' = num_gpu_blocks p \<and> enable_caching p' = enable_caching p \<and>
     enable_kv_cache_events p' = enable_kv_cache_events p"

lemma same_setup_trans: "same_setup p q \<Longrightarrow> same_setup q r \<Longrightarrow> same_setup p r"
  by (simp add: same_setup_def)

lemma same_setup_simps [simp]:
  "same_setup p p" "same_setup p (set_block i f p)" "same_setup p (add_event e p)"
  "same_setup p (p\<lparr>free_block_queue := q\<rparr>)" "same_setup p (p\<lparr>cached_block_hash_to_block := c\<rparr>)"
  by (simp_all add: same_setup_def)

lemma evict_setup: "same_setup p (snd (maybe_evict_cached_block i p))"
  by (simp add: maybe_evict_cached_block_def Let_def same_setup_def split: option.splits)

lemma take_block_ok:
  assumes ok: "blocks_ok p xs (insert i ex)" and i: "i \<notin> ex"
  shows "\<exists>p'. take_block i p = Inr p' \<and> blocks_ok p' xs ex \<and> same_setup p p' \<and>
    (\<forall>j. ref_cnt (block p' j) = (if j = i then 1 else ref_cnt (block p j))) \<and>
    (\<forall>j. block_hash (block p' j) = (if j = i \<and> enable_caching p then None else block_hash (block p j)))"
proof -
  note b = blocks_okD [OF ok]
  let ?e = "if enable_caching p then snd (maybe_evict_cached_block i p) else p"
  let ?p = "set_block i (ref_cnt_update (\<lambda>c. c + 1)) ?e"
  note f = evict_fields [OF b(8) refl, of i]
  have i0: "0 < i" "i < num_gpu_blocks p" "ref_cnt (block p i) = 0" using b(6) [of i] by simp_all
  have fields: "ref_cnt (block ?e j) = ref_cnt (block p j)" "is_null (block ?e j) = is_null (block p j)"
    "block_hash (block ?e j) = (if j = i \<and> enable_caching p then None else block_hash (block p j))" for j by (simp_all add: f)
  have "cache_ok ?e" using b(8) evict_cache_ok [OF b(8)] by simp
  then have c: "cache_ok ?p" by (rule iffD1 [OF cache_ok_cong, rotated -1]) simp_all
  have e: "num_gpu_blocks ?e = num_gpu_blocks p" "null_block ?e = null_block p" "content (free_block_queue ?e) xs"
    using f b(1) by simp_all
  have "same_setup p ?e" using evict_setup [of p i] by simp
  then have s: "same_setup p ?p" by (rule same_setup_trans) simp
  have r: "ref_cnt (block ?p j) = (if j = i then 1 else ref_cnt (block p j))" for j using i0(3) by (simp add: fields)
  have "take_block i p = Inr ?p" using i0(3) fields(1) [of i] by (simp add: take_block_def Let_def)
  moreover have "blocks_ok ?p xs ex"
  proof (rule blocks_okI)
    show "j \<in> set xs \<union> ex \<longleftrightarrow> 0 < j \<and> j < num_gpu_blocks ?p \<and> ref_cnt (block ?p j) = 0" for j
      unfolding r using b(6) [of j] b(5) i e(1) by auto
    show "0 < j \<Longrightarrow> 0 \<le> ref_cnt (block ?p j)" for j unfolding r using b(7) by simp
    show "is_null (block ?p j) \<longleftrightarrow> j = 0" for j using b(4) by (simp add: f)
  qed (use b e c in auto)
  moreover have "block_hash (block ?p j) = (if j = i \<and> enable_caching p then None else block_hash (block p j))" for j
    by (simp add: f)
  ultimately show ?thesis using r s by blast
qed

text \<open>A queue operation that leaves the blocks alone moves blocks between the free list and the set of pending ones.\<close>

lemma blocks_ok_queue:
  assumes ok: "blocks_ok p xs ex" and q: "content q ys" "meta q = meta (free_block_queue p)"
    and part: "set ys \<union> ex' = set xs \<union> ex" "set ys \<inter> ex' = {}"
  shows "blocks_ok (p\<lparr>free_block_queue := q\<rparr>) ys ex'"
proof -
  note b = blocks_okD [OF ok]
  note f = block_new_queue [OF q(2)]
  have "cache_ok (p\<lparr>free_block_queue := q\<rparr>)"
    using b(8) by (rule iffD1 [OF cache_ok_cong, rotated -1]) (simp_all add: f)
  then show ?thesis using b q(1) part by (intro blocks_okI) (simp_all only: f part, simp_all)
qed

lemma get_new_blocks_ok:
  assumes ok: "block_pool_ok p xs" and n: "n \<le> length xs"
  shows "\<exists>p'. get_new_blocks n p = Inr (take n xs, p') \<and> block_pool_ok p' (drop n xs) \<and> same_setup p p' \<and>
    (\<forall>j. ref_cnt (block p' j) = (if j \<in> set (take n xs) then 1 else ref_cnt (block p j))) \<and>
    (\<forall>j. block_hash (block p' j) = (if j \<in> set (take n xs) \<and> enable_caching p then None else block_hash (block p j)))"
proof -
  note b = blocks_okD [OF ok]
  obtain q where q: "popleft_n n (free_block_queue p) = Inr (map Block (take n xs), q)" "content q (drop n xs)"
    "meta q = meta (free_block_queue p)" using fq.pop_many [OF b(1) n] by blast
  let ?ts = "take n xs" and ?q = "p\<lparr>free_block_queue := q\<rparr>"
  note f = block_new_queue [OF q(3)]
  have d: "distinct xs" using fq.content_distinct b(1) .
  have dis: "set ?ts \<inter> set (drop n xs) = {}" using d by (simp add: set_take_disj_set_drop_if_distinct)
  have un: "set ?ts \<union> set (drop n xs) = set xs" by (metis append_take_drop_id set_append)
  have start: "blocks_ok ?q (drop n xs) (set ?ts)" using ok q(2,3) by (rule blocks_ok_queue) (use dis un in auto)
  let ?P = "\<lambda>ps t. blocks_ok t (drop n xs) (set ?ts - set ps) \<and> same_setup p t \<and>
    (\<forall>j. ref_cnt (block t j) = (if j \<in> set ps then 1 else ref_cnt (block p j))) \<and>
    (\<forall>j. block_hash (block t j) = (if j \<in> set ps \<and> enable_caching p then None else block_hash (block p j)))"
  have "\<exists>p'. foldM take_block ?ts ?q = Inr p' \<and> ?P ?ts p'"
  proof (rule foldM_total_invariant [of ?P])
    show "?P [] ?q" using start by (simp add: f)
  next
    fix ps x qs t
    assume ts: "?ts = ps @ x # qs" and P: "?P ps t"
    have x: "x \<notin> set ps" "insert x (set ?ts - set (ps @ [x])) = set ?ts - set ps" using distinct_take [OF d, of n] ts by auto
    have "blocks_ok t (drop n xs) (insert x (set ?ts - set (ps @ [x])))" unfolding x(2) using P by blast
    moreover have "x \<notin> set ?ts - set (ps @ [x])" by simp
    ultimately obtain p' where p': "take_block x t = Inr p'" "blocks_ok p' (drop n xs) (set ?ts - set (ps @ [x]))" "same_setup t p'"
      "\<And>j. ref_cnt (block p' j) = (if j = x then 1 else ref_cnt (block t j))"
      "\<And>j. block_hash (block p' j) = (if j = x \<and> enable_caching t then None else block_hash (block t j))"
      using take_block_ok by blast
    have "enable_caching t = enable_caching p" using P by (simp add: same_setup_def)
    then have "?P (ps @ [x]) p'" using P p' same_setup_trans [of p t p'] by simp
    then show "\<exists>t'. take_block x t = Inr t' \<and> ?P (ps @ [x]) t'" using p'(1) by blast
  qed
  then obtain p' where p': "foldM take_block ?ts ?q = Inr p'" "?P ?ts p'" by blast
  have m: "map block_id (map Block ?ts) = ?ts" by (simp add: map_idI)
  have "get_new_blocks n p = Inr (?ts, p')"
    using q(1) p'(1) m n fq.content_size [OF b(1)] by (simp add: get_new_blocks_def get_num_free_blocks_def Let_def del: map_map)
  then show ?thesis using p'(2) by simp
qed

lemma get_new_blocks_short:
  assumes "block_pool_ok p xs" "length xs < n"
  shows "get_new_blocks n p = Inl ValueError"
  using fq.content_size [OF blocks_okD(1) [OF assms(1)]] assms(2) by (simp add: get_new_blocks_def get_num_free_blocks_def)

text \<open>Touching takes blocks out of the queue, also when they are already in use or occur more than once.\<close>

lemma touch_block_ok:
  assumes ok: "block_pool_ok p xs" and i: "i < num_gpu_blocks p"
  shows "\<exists>p'. touch_block i p = Inr p' \<and> block_pool_ok p' (remove1 i xs) \<and> same_setup p p' \<and>
    (\<forall>j. ref_cnt (block p' j) = (if j = i then ref_cnt (block p i) + 1 else ref_cnt (block p j))) \<and>
    (\<forall>j. block_hash (block p' j) = block_hash (block p j))"
proof -
  note b = blocks_okD [OF ok]
  have d: "distinct xs" using fq.content_distinct b(1) .
  have c: "ref_cnt (block p i) = 0 \<and> \<not> is_null (block p i) \<longleftrightarrow> i \<in> set xs" using b(4,6) [of i] i by auto
  obtain p1 where p1: "(if ref_cnt (block p i) = 0 \<and> \<not> is_null (block p i)
       then bind_res (queue_remove (Block i) (free_block_queue p)) (\<lambda>q. Inr (p\<lparr>free_block_queue := q\<rparr>)) else Inr p) = Inr p1"
    "blocks_ok p1 (remove1 i xs) (set xs \<inter> {i})" "same_setup p p1" "\<And>j. ref_cnt (block p1 j) = ref_cnt (block p j)"
    "\<And>j. block_hash (block p1 j) = block_hash (block p j)"
  proof (cases "i \<in> set xs")
    case True
    obtain q where q: "queue_remove (Block i) (free_block_queue p) = Inr q" "content q (remove1 i xs)"
      "meta q = meta (free_block_queue p)" using fq.take_out_in [OF b(1) True] by blast
    have "blocks_ok (p\<lparr>free_block_queue := q\<rparr>) (remove1 i xs) (set xs \<inter> {i})"
      using ok q(2,3) by (rule blocks_ok_queue) (use d True in auto)
    then show ?thesis using q(1) c True block_new_queue [OF q(3)] by (intro that [of "p\<lparr>free_block_queue := q\<rparr>"]) simp_all
  next
    case False
    then have "\<not> (ref_cnt (block p i) = 0 \<and> \<not> is_null (block p i))" unfolding c .
    then show ?thesis using ok False by (intro that [of p]) (simp_all only: if_False, simp_all add: remove1_idem)
  qed
  note b1 = blocks_okD [OF p1(2)]
  let ?p = "set_block i (ref_cnt_update (\<lambda>c. c + 1)) p1"
  have n: "num_gpu_blocks p1 = num_gpu_blocks p" using p1(3) by (simp add: same_setup_def)
  have "cache_ok ?p" using b1(8) by (rule iffD1 [OF cache_ok_cong, rotated -1]) simp_all
  moreover have "j \<in> set (remove1 i xs) \<longleftrightarrow> 0 < j \<and> j < num_gpu_blocks ?p \<and> ref_cnt (block ?p j) = 0" for j
    using b1(6) [of j] b1(7) [of i] d by (cases "j = i") auto
  ultimately have "block_pool_ok ?p (remove1 i xs)"
    using b1 by (intro blocks_okI) (simp_all add: add_nonneg_nonneg)
  moreover have "touch_block i p = Inr ?p" unfolding touch_block_def p1(1) by simp
  moreover have "same_setup p ?p" using p1(3) same_setup_trans [of p p1 ?p] by simp
  ultimately show ?thesis using p1(4,5) by (intro exI [of _ ?p]) simp
qed

lemma touch_ok:
  assumes ok: "block_pool_ok p xs" and i: "\<And>i. i \<in> set (concat bss) \<Longrightarrow> i < num_gpu_blocks p"
  shows "\<exists>p'. touch bss p = Inr p' \<and> block_pool_ok p' (filter (\<lambda>j. j \<notin> set (concat bss)) xs) \<and> same_setup p p' \<and>
    (\<forall>j. ref_cnt (block p' j) = ref_cnt (block p j) + int (count_list (concat bss) j)) \<and>
    (\<forall>j. block_hash (block p' j) = block_hash (block p j))"
  unfolding touch_def
proof (rule foldM_total_invariant [where P = "\<lambda>ps t. block_pool_ok t (filter (\<lambda>j. j \<notin> set ps) xs) \<and> same_setup p t \<and>
    (\<forall>j. ref_cnt (block t j) = ref_cnt (block p j) + int (count_list ps j)) \<and>
    (\<forall>j. block_hash (block t j) = block_hash (block p j))"], goal_cases)
  case 1
  then show ?case using ok by simp
next
  case (2 ps x qs t)
  then have "x < num_gpu_blocks t" using i [of x] by (simp add: same_setup_def)
  then obtain p' where p': "touch_block x t = Inr p'" "block_pool_ok p' (remove1 x (filter (\<lambda>j. j \<notin> set ps) xs))" "same_setup t p'"
    "\<forall>j. ref_cnt (block p' j) = (if j = x then ref_cnt (block t x) + 1 else ref_cnt (block t j))"
    "\<forall>j. block_hash (block p' j) = block_hash (block t j)" using touch_block_ok 2(2) by blast
  have "distinct (filter (\<lambda>j. j \<notin> set ps) xs)" using fq.content_distinct [OF blocks_okD(1)] 2(2) by blast
  then have "remove1 x (filter (\<lambda>j. j \<notin> set ps) xs) = filter (\<lambda>j. j \<notin> set (ps @ [x])) xs"
    by (auto simp: distinct_remove1_removeAll removeAll_filter_not_eq intro: filter_cong)
  then show ?case using 2(2) p' same_setup_trans [of p t p'] by (intro exI [of _ p']) simp
qed

text \<open>Freeing drops one reference of each block. Blocks without references go to the end of the queue, in
  the given order. Blocks other than the null block must not be given twice.\<close>

definition drop_refs :: "nat list \<Rightarrow> block_pool \<Rightarrow> block_pool" where
  "drop_refs is = fold (\<lambda>i. set_block i (ref_cnt_update (\<lambda>c. c - 1))) is"

lemma drop_refs_fields:
  "ref_cnt (block (drop_refs is p) j) = ref_cnt (block p j) - int (count_list is j)"
  "block_hash (block (drop_refs is p) j) = block_hash (block p j)" "is_null (block (drop_refs is p) j) = is_null (block p j)"
  "content (free_block_queue (drop_refs is p)) xs = content (free_block_queue p) xs"
  "cached_block_hash_to_block (drop_refs is p) = cached_block_hash_to_block p" "null_block (drop_refs is p) = null_block p"
  unfolding drop_refs_def by (induction "is" arbitrary: p) auto

lemma drop_refs_setup: "same_setup p (drop_refs is p)"
  unfolding drop_refs_def by (induction "is" arbitrary: p) (simp_all add: same_setup_def)

lemma count_list_distinct: "distinct xs \<Longrightarrow> count_list xs x = (if x \<in> set xs then 1 else 0)"
  by (induction xs) auto

lemma free_blocks_ok:
  assumes ok: "block_pool_ok p xs" and d: "distinct (filter (\<lambda>i. i \<noteq> 0) is)"
    and i: "\<And>i. i \<in> set is \<Longrightarrow> i \<noteq> 0 \<Longrightarrow> i < num_gpu_blocks p \<and> 0 < ref_cnt (block p i)"
  shows "\<exists>p'. free_blocks is p = Inr p' \<and> block_pool_ok p' (xs @ filter (\<lambda>i. i \<noteq> 0 \<and> ref_cnt (block p i) = 1) is) \<and>
    same_setup p p' \<and> (\<forall>j. ref_cnt (block p' j) = ref_cnt (block p j) - int (count_list is j)) \<and>
    (\<forall>j. block_hash (block p' j) = block_hash (block p j))"
proof -
  note b = blocks_okD [OF ok]
  let ?d = "drop_refs is p"
  note f = drop_refs_fields [of "is" p] and st = drop_refs_setup [of p "is"]
  have cnt: "count_list is j = (if j \<in> set is then 1 else 0)" if "j \<noteq> 0" for j
  proof -
    have "count_list is j = count_list (filter (\<lambda>i. i \<noteq> 0) is) j" using that by (induction "is") auto
    then show ?thesis using count_list_distinct [OF d, of j] that by simp
  qed
  have ys: "filter (\<lambda>i. ref_cnt (block ?d i) = 0 \<and> \<not> is_null (block ?d i)) is = filter (\<lambda>i. i \<noteq> 0 \<and> ref_cnt (block p i) = 1) is"
    (is "_ = ?ys")
  proof (rule filter_cong [OF refl])
    fix j assume "j \<in> set is"
    then show "(ref_cnt (block (drop_refs is p) j) = 0 \<and> \<not> is_null (block (drop_refs is p) j)) = (j \<noteq> 0 \<and> ref_cnt (block p j) = 1)"
      unfolding f(1,3) b(4) by (cases "j = 0") (simp_all add: cnt)
  qed
  have "?ys = filter (\<lambda>i. ref_cnt (block p i) = 1) (filter (\<lambda>i. i \<noteq> 0) is)" by simp
  then have dys: "distinct ?ys" using d distinct_filter by metis
  have in_ys: "j \<in> set ?ys \<longleftrightarrow> j \<in> set is \<and> j \<noteq> 0 \<and> ref_cnt (block p j) = 1" for j by simp
  have dis: "set ?ys \<inter> set xs = {}"
  proof (rule Int_emptyI)
    fix j assume "j \<in> set ?ys" "j \<in> set xs"
    then show False using b(6) [of j] unfolding in_ys by simp
  qed
  have c: "content (free_block_queue ?d) xs" using b(1) f(4) by simp
  obtain q where q: "append_n (map Block ?ys) (free_block_queue ?d) = Inr q" "content q (xs @ ?ys)"
    "meta q = meta (free_block_queue ?d)" using fq.put_many [OF c dys dis] by blast
  have n: "num_gpu_blocks ?d = num_gpu_blocks p" using st by (simp add: same_setup_def)
  have "blocks_ok ?d xs (set ?ys)"
  proof (rule blocks_okI)
    show "cache_ok ?d" using b(8) by (rule iffD1 [OF cache_ok_cong, rotated -1]) (simp_all add: f n)
    show "j \<in> set xs \<union> set ?ys \<longleftrightarrow> 0 < j \<and> j < num_gpu_blocks ?d \<and> ref_cnt (block ?d j) = 0" for j
    proof (cases "j \<in> set is \<and> j \<noteq> 0")
      case True
      then have "j \<notin> set xs" using b(6) [of j] i [of j] by auto
      then show ?thesis using True i [of j] cnt [of j] unfolding Un_iff in_ys n f(1) by auto
    next
      case False
      then show ?thesis using b(6) [of j] cnt [of j] unfolding Un_iff in_ys n f(1) by (cases "j = 0") auto
    qed
    show "0 \<le> ref_cnt (block ?d j)" if "0 < j" for j
      using b(7) [OF that] i [of j] cnt [of j] that unfolding f(1) by (cases "j \<in> set is") auto
    show "set xs \<inter> set ?ys = {}" using dis by (simp only: Int_commute)
  qed (use b f n in simp_all)
  then have "block_pool_ok (?d\<lparr>free_block_queue := q\<rparr>) (xs @ ?ys)" using q(2,3) by (rule blocks_ok_queue) simp_all
  moreover have "free_blocks is p = Inr (?d\<lparr>free_block_queue := q\<rparr>)" unfolding free_blocks_def Let_def drop_refs_def [symmetric] ys q(1) by simp
  moreover have "same_setup p (?d\<lparr>free_block_queue := q\<rparr>)" using st same_setup_trans same_setup_simps(4) by blast
  ultimately show ?thesis using block_new_queue [OF q(3)] f(1,2) by (intro exI [of _ "?d\<lparr>free_block_queue := q\<rparr>"]) simp
qed

section \<open>Caching full blocks\<close>

lemma cache_block_fields:
  "block (cache_block i k p) = (block p)(i := (block p i)\<lparr>block_hash := Some k\<rparr>)"
  "content (free_block_queue (cache_block i k p)) xs \<longleftrightarrow> content (free_block_queue p) xs"
  "null_block (cache_block i k p) = null_block p" "same_setup p (cache_block i k p)"
  "cached_ids (cache_block i k p) = (cached_ids p)(k := if i \<in> set (cached_ids p k) then cached_ids p k else cached_ids p k @ [i])"
  "cached_block_hash_to_block (cache_block i k p) l =
     (if l = k then Some (if i \<in> set (cached_ids p k) then cached_ids p k else cached_ids p k @ [i]) else cached_block_hash_to_block p l)"
  by (auto simp: cache_block_def Let_def cached_ids_def same_setup_def split: option.splits)

lemma cache_block_ok:
  assumes ok: "block_pool_ok p xs" and i: "0 < i" "i < num_gpu_blocks p" and h: "block_hash (block p i) = None"
  shows "block_pool_ok (cache_block i k p) xs"
proof -
  note b = blocks_okD [OF ok] and f = cache_block_fields [where i = i and k = k and p = p]
  note c = cache_okD [OF b(8)]
  have n: "num_gpu_blocks (cache_block i k p) = num_gpu_blocks p" using f(4) by (simp add: same_setup_def)
  have new: "i \<notin> set (cached_ids p l)" for l using c(3) h by simp
  have "cache_ok (cache_block i k p)"
  proof (rule cache_okI)
    show "cached_block_hash_to_block (cache_block i k p) l \<noteq> Some []" for l using c(1) [of l] new by (simp add: f(6))
    show "distinct (cached_ids (cache_block i k p) l)" for l using c(2) new by (simp add: f(5))
    show "j \<in> set (cached_ids (cache_block i k p) l) \<longleftrightarrow> block_hash (block (cache_block i k p) j) = Some l" for j l
      using c(3) [of j] new [of l] by (auto simp: f(1,5))
    show "block_hash (block (cache_block i k p) j) = Some l \<Longrightarrow> 0 < j \<and> j < num_gpu_blocks (cache_block i k p)" for j l
      using c(4) [of j] i by (auto simp: f(1) n split: if_splits)
  qed
  then show ?thesis using b f n by (intro blocks_okI) auto
qed

text \<open>What a request must provide so that its blocks can be hashed: one hash for each multi-modal input.\<close>

definition inputs_ok :: "kv_request \<Rightarrow> bool" where
  "inputs_ok r \<longleftrightarrow> length (mm_positions r) = length (mm_hashes r)"

definition tail_keys :: "kv_request \<Rightarrow> nat \<Rightarrow> nat \<Rightarrow> extra_key list option" where
  "tail_keys r block_size k =
     (case generate_block_hash_extra_keys r (int (k * block_size)) (int (k * block_size + block_size)) (- 1) of
        Inl _ \<Rightarrow> None | Inr (extra, _) \<Rightarrow> extra)"

lemma tail_keys_eq:
  assumes "inputs_ok r"
  shows "\<exists>idx. generate_block_hash_extra_keys r (int (k * bs)) (int (k * bs + bs)) (- 1) = Inr (tail_keys r bs k, idx)"
proof -
  have "\<exists>ks idx. gen_mm_extra_hash_keys r (int (k * bs)) (int (k * bs + bs)) (- 1) = Inr (ks, idx)"
    using assms by (cases "mm_positions r") (auto simp: gen_mm_extra_hash_keys_def inputs_ok_def Let_def)
  then obtain ks idx where "gen_mm_extra_hash_keys r (int (k * bs)) (int (k * bs + bs)) (- 1) = Inr (ks, idx)" by blast
  then have "\<exists>e idx. generate_block_hash_extra_keys r (int (k * bs)) (int (k * bs + bs)) (- 1) = Inr (e, idx)"
    by (simp add: generate_block_hash_extra_keys_def Let_def)
  then show ?thesis by (auto simp: tail_keys_def)
qed

text \<open>The hashes a request has after its blocks up to \<open>n\<close> are cached: missing ones continue the chain.\<close>

fun extend_hashes :: "hash_fn \<Rightarrow> int \<Rightarrow> kv_request \<Rightarrow> nat \<Rightarrow> BlockHash list \<Rightarrow> nat \<Rightarrow> BlockHash list" where
  "extend_hashes f seed r bs hs 0 = hs"
| "extend_hashes f seed r bs hs (Suc n) =
     (let hs' = extend_hashes f seed r bs hs n
      in if n < length hs' then hs'
         else hs' @ [hash_block_tokens f seed (if hs' = [] then None else Some (hash_value (last hs')))
                (take bs (drop (n * bs) (all_token_ids r))) (tail_keys r bs n)])"

lemma extend_hashes_length: "length (extend_hashes f seed r bs hs n) = max (length hs) n"
  by (induction n) (auto simp: Let_def)

lemma extend_hashes_id: "n \<le> length hs \<Longrightarrow> extend_hashes f seed r bs hs n = hs"
  by (induction n) (auto simp: Let_def)

lemma extend_hashes_nth: "i < length (extend_hashes f seed r bs hs m) \<Longrightarrow> m \<le> n \<Longrightarrow>
    extend_hashes f seed r bs hs n ! i = extend_hashes f seed r bs hs m ! i"
proof (induction n)
  case (Suc n)
  show ?case
  proof (cases "m = Suc n")
    case False
    then have "m \<le> n" using Suc.prems(2) by simp
    moreover have "i < length (extend_hashes f seed r bs hs n)" using Suc.prems(1) \<open>m \<le> n\<close> by (simp add: extend_hashes_length)
    ultimately show ?thesis using Suc by (simp add: Let_def nth_append)
  qed simp
qed simp

definition prev_hash :: "BlockHash list \<Rightarrow> nat \<Rightarrow> int option" where
  "prev_hash hs k = (if k = 0 then None else Some (hash_value (hs ! (k - 1))))"

lemma cache_step_ok:
  assumes h: "block_hash (block p blk) = None" and r: "inputs_ok r" "(c + i) * bs + bs \<le> length (all_token_ids r)"
    and c: "c \<le> length hs"
    and hs'_def: "hs' = extend_hashes f seed r bs hs"
  shows "cache_step f seed r (drop c hs) c bs gid (i, blk) (p, hs' (c + i), nh, prev_hash (hs' (c + i)) (c + i)) =
    Inr (cache_block blk \<lparr>bg_block_hash = hs' (Suc (c + i)) ! (c + i), group_id = gid\<rparr> p, hs' (Suc (c + i)),
      nh @ [hash_value (hs' (Suc (c + i)) ! (c + i))], prev_hash (hs' (Suc (c + i))) (Suc (c + i)))"
proof (cases "c + i < length hs")
  case True
  then have "hs' (c + i) = hs" "hs' (Suc (c + i)) = hs" unfolding hs'_def by (simp_all add: extend_hashes_id del: extend_hashes.simps)
  moreover have "i < length (drop c hs)" "drop c hs ! i = hs ! (c + i)" using True c by simp_all
  ultimately show ?thesis using h by (simp add: cache_step_def prev_hash_def)
next
  case False
  have l: "length (hs' (c + i)) = c + i" unfolding hs'_def extend_hashes_length using False by simp
  obtain idx where e: "generate_block_hash_extra_keys r (int ((c + i) * bs)) (int ((c + i) * bs + bs)) (- 1) = Inr (tail_keys r bs (c + i), idx)"
    using tail_keys_eq [OF r(1)] by blast
  let ?h = "hash_block_tokens f seed (prev_hash (hs' (c + i)) (c + i)) (take bs (drop ((c + i) * bs) (all_token_ids r))) (tail_keys r bs (c + i))"
  have p: "prev_hash (hs' (c + i)) (c + i) = (if hs' (c + i) = [] then None else Some (hash_value (last (hs' (c + i)))))"
    using l by (cases "c + i = 0") (auto simp: prev_hash_def last_conv_nth)
  have n: "hs' (Suc (c + i)) = hs' (c + i) @ [?h]" unfolding p using l by (simp add: hs'_def Let_def)
  have x: "hs' (Suc (c + i)) ! (c + i) = ?h" unfolding n using l by (simp add: nth_append)
  have nl: "\<not> i < length (drop c hs)" using False c by simp
  have t: "length (take bs (drop ((c + i) * bs) (all_token_ids r))) = bs" using r(2) by simp
  show ?thesis unfolding cache_step_def prod.case x using h nl t e
    by (simp only: Let_def if_False simp_thms bind_res_Inr prod.case) (simp add: n prev_hash_def l nth_append)
qed

text \<open>The state of the loop after \<open>k\<close> new blocks.\<close>

definition loop_state ::
  "block_pool \<Rightarrow> nat list \<Rightarrow> nat list \<Rightarrow> (nat \<Rightarrow> BlockHash list) \<Rightarrow> nat \<Rightarrow> int \<Rightarrow> nat \<Rightarrow>
     block_pool \<times> BlockHash list \<times> int list \<times> int option \<Rightarrow> bool" where
  "loop_state p xs bl hs c gid k = (\<lambda>(t, bh, nh, prev). bh = hs (c + k) \<and> prev = prev_hash (hs (c + k)) (c + k) \<and>
     block_pool_ok t xs \<and> same_setup p t \<and> (\<forall>j. ref_cnt (block t j) = ref_cnt (block p j)) \<and>
     (\<forall>i < k. block_hash (block t (bl ! i)) = Some \<lparr>bg_block_hash = hs (c + k) ! (c + i), group_id = gid\<rparr>) \<and>
     (\<forall>j. j \<notin> set (take k bl) \<longrightarrow> block_hash (block t j) = block_hash (block p j)))"

lemma loop_state_step:
  assumes P: "loop_state p xs bl (extend_hashes f seed r bs hs) c gid k (t, bh, nh, prev)" and k: "k < length bl" and d: "distinct bl"
    and b: "0 < bl ! k" "bl ! k < num_gpu_blocks p" "block_hash (block p (bl ! k)) = None"
    and r: "inputs_ok r" "(c + k) * bs + bs \<le> length (all_token_ids r)" and c: "c \<le> length hs"
  shows "\<exists>st. cache_step f seed r (drop c hs) c bs gid (k, bl ! k) (t, bh, nh, prev) = Inr st \<and>
    loop_state p xs bl (extend_hashes f seed r bs hs) c gid (Suc k) st"
proof -
  define hs' where "hs' = extend_hashes f seed r bs hs"
  note P' = P [folded hs'_def, unfolded loop_state_def prod.case]
  let ?h = "\<lparr>bg_block_hash = hs' (Suc (c + k)) ! (c + k), group_id = gid\<rparr>"
  have n: "bl ! k < num_gpu_blocks t" using b(2) P' by (simp add: same_setup_def)
  have "bl ! k \<notin> set (take k bl)" using d k by (auto simp: in_set_conv_nth nth_eq_iff_index_eq)
  then have hb: "block_hash (block t (bl ! k)) = None" using P' b(3) by simp
  let ?t = "cache_block (bl ! k) ?h t"
  have "loop_state p xs bl hs' c gid (Suc k) (?t, hs' (Suc (c + k)), nh @ [hash_value (hs' (Suc (c + k)) ! (c + k))],
      prev_hash (hs' (Suc (c + k))) (Suc (c + k)))"
    unfolding loop_state_def prod.case
  proof (intro conjI allI impI)
    show "block_pool_ok ?t xs" using cache_block_ok [OF _ b(1) n hb] P' by blast
    show "same_setup p ?t" using P' cache_block_fields(4) same_setup_trans by blast
    show "ref_cnt (block ?t j) = ref_cnt (block p j)" for j using P' by (simp add: cache_block_fields(1))
    show "block_hash (block ?t (bl ! i)) = Some \<lparr>bg_block_hash = hs' (c + Suc k) ! (c + i), group_id = gid\<rparr>" if i: "i < Suc k" for i
    proof (cases "i = k")
      case False
      then have ik: "i < k" using i by simp
      have "hs' (c + Suc k) ! (c + i) = hs' (c + k) ! (c + i)"
        unfolding hs'_def using ik by (intro extend_hashes_nth) (simp_all add: extend_hashes_length)
      then show ?thesis using P' ik k d by (simp add: cache_block_fields(1) nth_eq_iff_index_eq)
    qed (simp add: cache_block_fields(1))
    show "block_hash (block ?t j) = block_hash (block p j)" if "j \<notin> set (take (Suc k) bl)" for j
      using that P' k by (simp add: cache_block_fields(1) take_Suc_conv_app_nth)
  qed simp_all
  moreover have "cache_step f seed r (drop c hs) c bs gid (k, bl ! k) (t, bh, nh, prev) =
      Inr (?t, hs' (Suc (c + k)), nh @ [hash_value (hs' (Suc (c + k)) ! (c + k))], prev_hash (hs' (Suc (c + k))) (Suc (c + k)))"
    using cache_step_ok [OF hb r c hs'_def, of gid nh] P' by simp
  ultimately show ?thesis unfolding hs'_def by blast
qed

lemma blocks_ok_add_event [simp]: "blocks_ok (add_event e p) xs ex = blocks_ok p xs ex"
  by (simp add: blocks_ok_def cache_ok_def cached_ids_def)

lemma stored_event_ok:
  assumes "enable_kv_cache_events p \<longrightarrow> lora_int_id r = None"
  shows "\<exists>p'. stored_event r nh par c m bs p = Inr p' \<and> block p' = block p \<and> same_setup p p' \<and> (\<forall>xs. block_pool_ok p' xs = block_pool_ok p xs)"
  using assms by (auto simp: stored_event_def)

lemma cache_full_blocks_ok:
  assumes ok: "block_pool_ok p xs" and cm: "c \<le> m" "m \<le> length blocks" "c \<le> length hs"
    and r: "inputs_ok r" "m * bs \<le> length (all_token_ids r)" "enable_kv_cache_events p \<longrightarrow> lora_int_id r = None"
    and d: "distinct (take (m - c) (drop c blocks))"
    and new: "\<And>i. c \<le> i \<Longrightarrow> i < m \<Longrightarrow> 0 < blocks ! i \<and> blocks ! i < num_gpu_blocks p \<and> block_hash (block p (blocks ! i)) = None"
    and parent: "0 < c \<Longrightarrow> block_hash (block p (blocks ! (c - 1))) = Some \<lparr>bg_block_hash = hs ! (c - 1), group_id = gid\<rparr>"
    and hs': "hs' = extend_hashes f seed r bs hs"
  shows "\<exists>p'. cache_full_blocks f seed r blocks hs c m bs gid p = Inr (p', hs' m) \<and> block_pool_ok p' xs \<and> same_setup p p' \<and>
    (\<forall>j. ref_cnt (block p' j) = ref_cnt (block p j)) \<and>
    (\<forall>i. c \<le> i \<and> i < m \<longrightarrow> block_hash (block p' (blocks ! i)) = Some \<lparr>bg_block_hash = hs' m ! i, group_id = gid\<rparr>) \<and>
    (\<forall>j. j \<notin> set (take (m - c) (drop c blocks)) \<longrightarrow> block_hash (block p' j) = block_hash (block p j))"
proof (cases "c = m")
  case True
  then show ?thesis using ok cm(3) by (intro exI [of _ p]) (auto simp: cache_full_blocks_def hs' extend_hashes_id)
next
  case False
  let ?bl = "take (m - c) (drop c blocks)" and ?st = "cache_step f seed r (drop c hs) c bs gid"
  have nth: "?bl ! i = blocks ! (c + i)" if "i < m - c" for i using that cm by simp
  have len: "length ?bl = m - c" using cm by simp
  have hc: "hs' c = hs" using extend_hashes_id [OF cm(3)] by (simp add: hs')
  have par: "(if c = 0 then Inr None else if length blocks < c then Inl IndexError
      else case block_hash (block p (blocks ! (c - 1))) of
        None \<Rightarrow> Inl AssertionError | Some k \<Rightarrow> Inr (Some (hash_value (bg_block_hash k)))) = Inr (prev_hash hs c)"
    using cm parent by (auto simp: prev_hash_def)
  have "\<exists>st. foldM ?st (List.enumerate 0 ?bl) (p, hs, [], prev_hash hs c) = Inr st \<and>
      loop_state p xs ?bl hs' c gid (length (List.enumerate 0 ?bl)) st"
  proof (rule foldM_total_invariant [where P = "\<lambda>ps. loop_state p xs ?bl hs' c gid (length ps)"])
    show "loop_state p xs ?bl hs' c gid (length []) (p, hs, [], prev_hash hs c)" using ok hc by (simp add: loop_state_def)
  next
    fix ps x qs st
    assume e: "List.enumerate 0 ?bl = ps @ x # qs" and P: "loop_state p xs ?bl hs' c gid (length ps) st"
    have k: "length ps < m - c" using arg_cong [OF e, of length] len by simp
    have x: "x = (length ps, ?bl ! length ps)" using arg_cong [OF e, of "\<lambda>l. l ! length ps"] k len by (simp add: nth_enumerate_eq)
    have tok: "(c + length ps) * bs + bs \<le> length (all_token_ids r)"
      using r(2) mult_le_mono1 [OF less_diff_conv [THEN iffD1, OF k, THEN Suc_leI], of bs] by (simp add: add.commute)
    obtain t bh nh prev where st: "st = (t, bh, nh, prev)" by (cases st)
    show "\<exists>t'. ?st x st = Inr t' \<and> loop_state p xs ?bl hs' c gid (length (ps @ [x])) t'"
      using loop_state_step [OF P [unfolded st hs'] _ d _ _ _ r(1) tok cm(3)] new [of "c + length ps"] k nth [OF k] len
      unfolding x st hs' by simp
  qed
  then obtain t nh prev where t: "foldM ?st (List.enumerate 0 ?bl) (p, hs, [], prev_hash hs c) = Inr (t, hs' m, nh, prev)"
    and P: "loop_state p xs ?bl hs' c gid (m - c) (t, hs' m, nh, prev)" using len cm by (auto simp: loop_state_def)
  note P' = P [unfolded loop_state_def prod.case]
  have "enable_kv_cache_events t \<longrightarrow> lora_int_id r = None" using P' r(3) by (simp add: same_setup_def)
  from stored_event_ok [OF this] obtain p' where p': "stored_event r nh (prev_hash hs c) c m bs t = Inr p'" "block p' = block t"
    "same_setup t p'" "\<And>xs. block_pool_ok p' xs = block_pool_ok t xs" by blast
  have "cache_full_blocks f seed r blocks hs c m bs gid p = Inr (p', hs' m)"
    unfolding cache_full_blocks_def Let_def par using False cm(3) t p'(1) by simp
  moreover have "block_hash (block t (blocks ! i)) = Some \<lparr>bg_block_hash = hs' m ! i, group_id = gid\<rparr>" if "c \<le> i" "i < m" for i
    using P' nth [of "i - c"] that cm(1) by (auto dest!: spec [of _ "i - c"])
  moreover have "same_setup p p'" using P' p'(3) same_setup_trans by blast
  moreover have "block_hash (block t j) = block_hash (block p j)" if "j \<notin> set ?bl" for j
    using P' that by (simp only: take_take min.idem) blast
  moreover have "block_pool_ok p' xs" "ref_cnt (block t j) = ref_cnt (block p j)" for j using P' p'(4) by blast+
  ultimately show ?thesis unfolding p'(2) [symmetric] by blast
qed

section \<open>Construction and reset\<close>

lemma BlockPool_ok:
  assumes n: "0 < n"
  shows "\<exists>p. BlockPool (int n) caching events = Inr p \<and> block_pool_ok p [1..<n] \<and> num_gpu_blocks p = n \<and>
    enable_caching p = caching \<and> enable_kv_cache_events p = events \<and> kv_event_queue p = [] \<and>
    (\<forall>i. ref_cnt (block p i) = 0 \<and> block_hash (block p i) = None)"
proof -
  let ?h = "\<lambda>_. KVCacheBlock :: block_key kv_block" and ?q = "FreeKVCacheBlockQueue (\<lambda>_. KVCacheBlock :: block_key kv_block) (map Block [0..<n])"
  have "content ?q [0..<n]" "meta ?q i = KVCacheBlock" for i
    by (rule init_ok; use n in \<open>simp add: KVCacheBlock_def\<close>)+
  then have q: "content ?q (0 # [1..<n])" "meta ?q = (\<lambda>_. KVCacheBlock)" using n by (auto simp: upt_conv_Cons fun_eq_iff)
  obtain q where q': "popleft ?q = Inr (Block 0, q)" "content q [1..<n]" "meta q = (\<lambda>_. KVCacheBlock)"
    using fq.pop_first [OF q(1)] q(2) by auto
  let ?p = "\<lparr>num_gpu_blocks = n, enable_caching = caching, free_block_queue = upd_block (Block 0) (is_null_update (\<lambda>_. True)) q,
    cached_block_hash_to_block = Map.empty, null_block = Block 0, enable_kv_cache_events = events, kv_event_queue = []\<rparr>"
  have f: "ref_cnt (block ?p i) = 0" "block_hash (block ?p i) = None" "is_null (block ?p i) \<longleftrightarrow> i = 0" for i
    by (simp_all add: block_def upd_block_def fields_of_meta q'(3) KVCacheBlock_def)
  have "cache_ok ?p" by (rule cache_okI) (simp_all add: cached_ids_def f)
  then have "block_pool_ok ?p [1..<n]" using n q'(2) f by (intro blocks_okI) auto
  moreover have "BlockPool (int n) caching events = Inr ?p" using n q'(1) by (simp add: BlockPool_def)
  ultimately show ?thesis using f by (intro exI [of _ ?p]) simp
qed

lemma reset_hashes:
  fixes js :: "nat list"
  defines "f \<equiv> fold (\<lambda>i. set_block i (block_hash_update (\<lambda>_. None))) js"
  shows "ref_cnt (block (f p) j) = ref_cnt (block p j)" "is_null (block (f p) j) = is_null (block p j)"
    "block_hash (block (f p) j) = (if j \<in> set js then None else block_hash (block p j))"
    "content (free_block_queue (f p)) xs = content (free_block_queue p) xs"
    "cached_block_hash_to_block (f p) = cached_block_hash_to_block p" "null_block (f p) = null_block p"
    "num_gpu_blocks (f p) = num_gpu_blocks p" "enable_caching (f p) = enable_caching p"
    "enable_kv_cache_events (f p) = enable_kv_cache_events p"
  unfolding f_def by (induction js arbitrary: p) auto

lemma reset_prefix_cache_ok:
  assumes ok: "block_pool_ok p xs"
  shows "fst (reset_prefix_cache p) \<longleftrightarrow> (\<forall>i. 0 < i \<and> i < num_gpu_blocks p \<longrightarrow> ref_cnt (block p i) = 0)"
    and "block_pool_ok (snd (reset_prefix_cache p)) xs" "same_setup p (snd (reset_prefix_cache p))"
    and "ref_cnt (block (snd (reset_prefix_cache p)) i) = ref_cnt (block p i)"
    and "block_hash (block (snd (reset_prefix_cache p)) i) = (if fst (reset_prefix_cache p) then None else block_hash (block p i))"
proof -
  note b = blocks_okD [OF ok]
  have d: "distinct xs" using fq.content_distinct b(1) .
  have sub: "set xs \<subseteq> {1..<num_gpu_blocks p}" using b(6) by fastforce
  have "int (num_gpu_blocks p) - get_num_free_blocks p = 1 \<longleftrightarrow> card (set xs) = card {1..<num_gpu_blocks p}"
    using fq.content_size [OF b(1)] b(2) unfolding distinct_card [OF d] get_num_free_blocks_def by simp linarith
  also have "\<dots> \<longleftrightarrow> set xs = {1..<num_gpu_blocks p}" using sub card_subset_eq [of "{1..<num_gpu_blocks p}" "set xs"] by (metis finite_atLeastLessThan)
  also have "\<dots> \<longleftrightarrow> (\<forall>i. 0 < i \<and> i < num_gpu_blocks p \<longrightarrow> ref_cnt (block p i) = 0)"
    unfolding set_eq_iff using b(6) [unfolded Un_empty_right] by fastforce
  finally have c: "int (num_gpu_blocks p) - get_num_free_blocks p = 1 \<longleftrightarrow>
    (\<forall>i. 0 < i \<and> i < num_gpu_blocks p \<longrightarrow> ref_cnt (block p i) = 0)" .
  then show "fst (reset_prefix_cache p) \<longleftrightarrow> (\<forall>i. 0 < i \<and> i < num_gpu_blocks p \<longrightarrow> ref_cnt (block p i) = 0)"
    by (auto simp: reset_prefix_cache_def)
  let ?f = "fold (\<lambda>i. set_block i (block_hash_update (\<lambda>_. None))) [0..<num_gpu_blocks p] (p\<lparr>cached_block_hash_to_block := Map.empty\<rparr>)"
  have h: "block_hash (block ?f j) = None" for j using cache_okD(4) [OF b(8), of j] by (cases "block_hash (block p j)") (auto simp: reset_hashes)
  have "cache_ok ?f" by (rule cache_okI) (simp_all only: h, simp_all add: cached_ids_def reset_hashes(5))
  then have f: "block_pool_ok ?f xs" using b by (intro blocks_okI) (simp_all only: reset_hashes, simp_all)
  have s: "same_setup p ?f" by (simp add: same_setup_def reset_hashes)
  show "block_pool_ok (snd (reset_prefix_cache p)) xs" "same_setup p (snd (reset_prefix_cache p))"
    "ref_cnt (block (snd (reset_prefix_cache p)) i) = ref_cnt (block p i)"
    "block_hash (block (snd (reset_prefix_cache p)) i) = (if fst (reset_prefix_cache p) then None else block_hash (block p i))"
    using ok f h s same_setup_trans [OF s same_setup_simps(3)] by (auto simp: reset_prefix_cache_def reset_hashes(1))
qed

lemma take_events_ok:
  "blocks_ok (snd (take_events p)) xs ex = blocks_ok p xs ex" "block (snd (take_events p)) = block p"
  "same_setup p (snd (take_events p))"
  by (simp_all add: take_events_def blocks_ok_def cache_ok_def cached_ids_def same_setup_def)

section \<open>What cache managers rely on\<close>

locale counted_pool =
  fixes ok :: "'p \<Rightarrow> nat list \<Rightarrow> bool" and size :: "'p \<Rightarrow> nat" and caching :: "'p \<Rightarrow> bool" and same :: "'p \<Rightarrow> 'p \<Rightarrow> bool"
    and refs :: "'p \<Rightarrow> nat \<Rightarrow> int" and tag :: "'p \<Rightarrow> nat \<Rightarrow> 'h option" and num_free :: "'p \<Rightarrow> int"
    and alloc :: "nat \<Rightarrow> 'p \<Rightarrow> (nat list \<times> 'p) result" and share :: "nat list list \<Rightarrow> 'p \<Rightarrow> 'p result"
    and release :: "nat list \<Rightarrow> 'p \<Rightarrow> 'p result"
  assumes free_iff: "ok p xs \<Longrightarrow> i \<in> set xs \<longleftrightarrow> 0 < i \<and> i < size p \<and> refs p i = 0"
    and free_distinct: "ok p xs \<Longrightarrow> distinct xs"
    and free_count: "ok p xs \<Longrightarrow> num_free p = int (length xs)"
    and refs_nonneg: "ok p xs \<Longrightarrow> 0 < i \<Longrightarrow> 0 \<le> refs p i"
    and same_keeps: "same p p' \<Longrightarrow> size p' = size p \<and> caching p' = caching p"
    and same_trans: "same p p' \<Longrightarrow> same p' p'' \<Longrightarrow> same p p''"
    and alloc_ok: "ok p xs \<Longrightarrow> n \<le> length xs \<Longrightarrow> \<exists>p'. alloc n p = Inr (take n xs, p') \<and> ok p' (drop n xs) \<and> same p p' \<and>
      (\<forall>j. refs p' j = (if j \<in> set (take n xs) then 1 else refs p j)) \<and>
      (\<forall>j. tag p' j = (if j \<in> set (take n xs) \<and> caching p then None else tag p j))"
    and alloc_short: "ok p xs \<Longrightarrow> length xs < n \<Longrightarrow> alloc n p = Inl ValueError"
    and share_ok: "ok p xs \<Longrightarrow> (\<And>i. i \<in> set (concat bss) \<Longrightarrow> i < size p) \<Longrightarrow>
      \<exists>p'. share bss p = Inr p' \<and> ok p' (filter (\<lambda>j. j \<notin> set (concat bss)) xs) \<and> same p p' \<and>
        (\<forall>j. refs p' j = refs p j + int (count_list (concat bss) j)) \<and> (\<forall>j. tag p' j = tag p j)"
    and release_ok: "ok p xs \<Longrightarrow> distinct (filter (\<lambda>i. i \<noteq> 0) bs) \<Longrightarrow>
      (\<And>i. i \<in> set bs \<Longrightarrow> i \<noteq> 0 \<Longrightarrow> i < size p \<and> 0 < refs p i) \<Longrightarrow>
      \<exists>p'. release bs p = Inr p' \<and> ok p' (xs @ filter (\<lambda>i. i \<noteq> 0 \<and> refs p i = 1) bs) \<and> same p p' \<and>
        (\<forall>j. refs p' j = refs p j - int (count_list bs j)) \<and> (\<forall>j. tag p' j = tag p j)"
begin

text \<open>Blocks that are allocated and given back go to the end of the free list in the order in which they are given
  back; the others have moved up. All reference counts are as before.\<close>

lemma alloc_release:
  assumes p: "ok p xs" and n: "n \<le> length xs" and bs: "distinct bs" "set bs = set (take n xs)"
  shows "\<exists>p' p''. alloc n p = Inr (take n xs, p') \<and> release bs p' = Inr p'' \<and> ok p'' (drop n xs @ bs) \<and> same p p'' \<and> refs p'' = refs p"
proof -
  obtain p' where p': "alloc n p = Inr (take n xs, p')" "ok p' (drop n xs)" "same p p'"
    "\<And>j. refs p' j = (if j \<in> set (take n xs) then 1 else refs p j)" using alloc_ok [OF p n] by blast
  have b: "0 < i \<and> i < size p \<and> refs p i = 0" if "i \<in> set bs" for i
    using that free_iff [OF p, of i] set_take_subset [of n xs] unfolding bs(2) by blast
  have "i < size p' \<and> 0 < refs p' i" if "i \<in> set bs" for i
    using b [OF that] that bs(2) p'(4) [of i] same_keeps [OF p'(3)] by simp
  then obtain p'' where p'': "release bs p' = Inr p''" "ok p'' (drop n xs @ filter (\<lambda>i. i \<noteq> 0 \<and> refs p' i = 1) bs)" "same p' p''"
    "\<And>j. refs p'' j = refs p' j - int (count_list bs j)" using release_ok [OF p'(2), of bs] bs(1) by auto
  have "filter (\<lambda>i. i \<noteq> 0 \<and> refs p' i = 1) bs = bs" using b p'(4) bs(2) by (intro filter_True) auto
  moreover have "refs p'' j = refs p j" for j
    using b [of j] p'(4) [of j] p''(4) [of j] count_list_distinct [OF bs(1), of j] bs(2) by (cases "j \<in> set bs") auto
  ultimately have "refs p'' = refs p" "ok p'' (drop n xs @ bs)" using p''(2) by (simp_all add: fun_eq_iff)
  then show ?thesis using p'(1) p''(1) same_trans [OF p'(3) p''(3)] by blast
qed

text \<open>The count that managers check before they share cached blocks and allocate the rest is enough.\<close>

lemma evictable_le:
  assumes p: "ok p xs" and b: "\<And>i. i \<in> set bs \<Longrightarrow> 0 < i \<and> i < size p"
  shows "length xs \<le> length (filter (\<lambda>j. j \<notin> set bs) xs) + length (filter (\<lambda>i. refs p i = 0) bs)"
proof -
  have d: "distinct xs" using free_distinct p .
  have sub: "set (filter (\<lambda>j. j \<in> set bs) xs) \<subseteq> set (filter (\<lambda>i. refs p i = 0) bs)" using free_iff [OF p] by auto
  have "length (filter (\<lambda>j. j \<in> set bs) xs) = card (set (filter (\<lambda>j. j \<in> set bs) xs))" using d by (intro distinct_card [symmetric] distinct_filter)
  also have "\<dots> \<le> card (set (filter (\<lambda>i. refs p i = 0) bs))" using sub by (intro card_mono) simp_all
  also have "\<dots> \<le> length (filter (\<lambda>i. refs p i = 0) bs)" by (rule card_length)
  finally show ?thesis using sum_length_filter_compl [of "\<lambda>j. j \<in> set bs" xs] by simp
qed

lemma share_alloc:
  assumes p: "ok p xs" and b: "\<And>i. i \<in> set bs \<Longrightarrow> 0 < i \<and> i < size p"
    and enough: "n = 0 \<or> int n + int (length (filter (\<lambda>i. refs p i = 0) bs)) \<le> num_free p"
  shows "\<exists>ys p' p''. share [bs] p = Inr p' \<and> ok p' ys \<and> same p p' \<and> ys = filter (\<lambda>j. j \<notin> set bs) xs \<and> n \<le> length ys \<and>
    alloc n p' = Inr (take n ys, p'') \<and> ok p'' (drop n ys) \<and> same p p'' \<and>
    (\<forall>j. refs p'' j = (if j \<in> set (take n ys) then 1 else refs p j + int (count_list bs j))) \<and>
    (\<forall>j. tag p'' j = (if j \<in> set (take n ys) \<and> caching p then None else tag p j))"
proof -
  let ?ys = "filter (\<lambda>j. j \<notin> set bs) xs"
  obtain p' where p': "share [bs] p = Inr p'" "ok p' ?ys" "same p p'" "\<And>j. refs p' j = refs p j + int (count_list bs j)"
    "\<And>j. tag p' j = tag p j" using share_ok [OF p, of "[bs]"] b by auto
  have n: "n \<le> length ?ys" using evictable_le [OF p, of bs] b enough free_count [OF p] by auto
  obtain p'' where p'': "alloc n p' = Inr (take n ?ys, p'')" "ok p'' (drop n ?ys)" "same p' p''"
    "\<And>j. refs p'' j = (if j \<in> set (take n ?ys) then 1 else refs p' j)"
    "\<And>j. tag p'' j = (if j \<in> set (take n ?ys) \<and> caching p' then None else tag p' j)" using alloc_ok [OF p'(2) n] by blast
  show ?thesis using p' p'' n same_keeps [OF p'(3)] same_trans [OF p'(3) p''(3)]
    by (intro exI [of _ ?ys] exI [of _ p'] exI [of _ p'']) simp
qed

end

interpretation bp: counted_pool block_pool_ok num_gpu_blocks enable_caching same_setup "\<lambda>p i. ref_cnt (block p i)"
  "\<lambda>p i. block_hash (block p i)" get_num_free_blocks get_new_blocks touch free_blocks
proof (unfold_locales, goal_cases)
  case (1 p xs i)
  then show ?case using blocks_okD(6) [OF 1, of i] by simp
next
  case (2 p xs)
  then show ?case by (rule fq.content_distinct [OF blocks_okD(1)])
next
  case (3 p xs)
  then show ?case unfolding get_num_free_blocks_def by (rule fq.content_size [OF blocks_okD(1)])
next
  case (4 p xs i)
  then show ?case by (rule blocks_okD(7))
next
  case (5 p p')
  then show ?case by (simp add: same_setup_def)
next
  case (6 p p' p'')
  then show ?case by (rule same_setup_trans)
next
  case (7 p xs n)
  then show ?case by (rule get_new_blocks_ok)
next
  case (8 p xs n)
  then show ?case by (rule get_new_blocks_short)
next
  case (9 p xs bss)
  then show ?case by (rule touch_ok)
next
  case (10 p xs bs)
  then show ?case by (rule free_blocks_ok)
qed

end
