(* ===== verification/Kv_Cache_Manager.thy ===== *)
theory Kv_Cache_Manager
  imports Block_Pool
begin

text \<open>
  The cache manager of the engine: \<^verbatim>\<open>vllm/v1/core/kv_cache_manager.py\<close> with the coordinator for one group of
  full-attention layers (\<^verbatim>\<open>kv_cache_coordinator.py\<close>, \<^verbatim>\<open>single_type_kv_cache_manager.py\<close>), which the models of this
  system use. It looks up cached prefixes, gives blocks to requests, caches blocks as they fill up and takes them back.

  Shown here, for requests that are scheduled, preempted, resumed and finished in any order: the reference count
  of a block is the number of requests that hold it, allocation never raises and fails only for lack of blocks,
  and requests that share a block agree on every token up to its end and on the adapter.
\<close>

section \<open>State\<close>

record prefix_stats =
  stats_reset :: bool
  stats_requests :: nat
  stats_queries :: nat
  stats_hits :: nat

text \<open>Dictionaries that create missing entries on access are maps that are updated on access. The flag for
  caching is the pool's.\<close>

record kv_manager =
  pool :: block_pool
  cache_block_size :: nat
  cache_max_model_len :: nat
  cache_use_eagle :: bool
  prefix_cache_stats :: "prefix_stats option"
  req_to_blocks :: "string \<rightharpoonup> nat list"
  num_cached_block :: "string \<rightharpoonup> nat"
  req_to_block_hashes :: "string \<rightharpoonup> BlockHash list"

text \<open>What the manager reads of a request, its input apart.\<close>

record cached_request =
  cr_id :: string
  cr_input :: kv_request
  cr_num_computed_tokens :: nat
  cr_prompt_logprobs :: bool
  cr_running :: bool

definition cr_num_tokens :: "cached_request \<Rightarrow> nat" where
  "cr_num_tokens r = length (all_token_ids (cr_input r))"

definition KVCacheManager :: "int \<Rightarrow> nat \<Rightarrow> nat \<Rightarrow> bool \<Rightarrow> bool \<Rightarrow> bool \<Rightarrow> bool \<Rightarrow> kv_manager result" where
  "KVCacheManager num_blocks bs max_len enable_cache eagle log_stats events =
     bind_res (BlockPool num_blocks enable_cache events) (\<lambda>p.
       Inr \<lparr>pool = p, cache_block_size = bs, cache_max_model_len = max_len, cache_use_eagle = eagle,
            prefix_cache_stats = (if log_stats then Some \<lparr>stats_reset = False, stats_requests = 0, stats_queries = 0, stats_hits = 0\<rparr> else None),
            req_to_blocks = Map.empty, num_cached_block = Map.empty, req_to_block_hashes = Map.empty\<rparr>)"

section \<open>The manager of one group\<close>

definition utils_cdiv :: "int \<Rightarrow> int \<Rightarrow> int" where
  "utils_cdiv a b = - (a div (- b))"

definition req_blocks :: "kv_manager \<Rightarrow> string \<Rightarrow> nat list" where
  "req_blocks m rid = (case req_to_blocks m rid of None \<Rightarrow> [] | Some bs \<Rightarrow> bs)"

definition req_hashes :: "kv_manager \<Rightarrow> string \<Rightarrow> BlockHash list" where
  "req_hashes m rid = (case req_to_block_hashes m rid of None \<Rightarrow> [] | Some hs \<Rightarrow> hs)"

definition set_req_blocks :: "string \<Rightarrow> nat list \<Rightarrow> kv_manager \<Rightarrow> kv_manager" where
  "set_req_blocks rid bs m = m\<lparr>req_to_blocks := (req_to_blocks m)(rid \<mapsto> bs)\<rparr>"

definition set_req_hashes :: "string \<Rightarrow> BlockHash list \<Rightarrow> kv_manager \<Rightarrow> kv_manager" where
  "set_req_hashes rid hs m = m\<lparr>req_to_block_hashes := (req_to_block_hashes m)(rid \<mapsto> hs)\<rparr>"

definition get_num_blocks_to_allocate :: "string \<Rightarrow> nat \<Rightarrow> nat list \<Rightarrow> kv_manager \<Rightarrow> int \<times> kv_manager" where
  "get_num_blocks_to_allocate rid num_tokens new_computed_blocks m =
     (let num_required_blocks = utils_cdiv (int num_tokens) (int (cache_block_size m));
          num_new_blocks = num_required_blocks - int (length new_computed_blocks) - int (length (req_blocks m rid));
          num_evictable = length (filter (\<lambda>i. ref_cnt (block (pool m) i) = 0 \<and> \<not> is_null (block (pool m) i)) new_computed_blocks)
      in (num_new_blocks + int num_evictable, set_req_blocks rid (req_blocks m rid) m))"

definition save_new_computed_blocks :: "string \<Rightarrow> nat list \<Rightarrow> kv_manager \<Rightarrow> kv_manager result" where
  "save_new_computed_blocks rid new_computed_blocks m =
     (if num_cached_block m rid = None
      then if req_blocks m rid \<noteq> [] then Inl AssertionError
           else Inr ((set_req_blocks rid (req_blocks m rid @ new_computed_blocks) m)
                  \<lparr>num_cached_block := (num_cached_block m)(rid \<mapsto> length new_computed_blocks)\<rparr>)
      else if new_computed_blocks \<noteq> [] then Inl AssertionError else Inr m)"

definition allocate_new_blocks :: "string \<Rightarrow> nat \<Rightarrow> kv_manager \<Rightarrow> (nat list \<times> kv_manager) result" where
  "allocate_new_blocks rid num_tokens m =
     (let num_required_blocks = utils_cdiv (int num_tokens) (int (cache_block_size m));
          num_new_blocks = num_required_blocks - int (length (req_blocks m rid))
      in if num_new_blocks \<le> 0 then Inr ([], set_req_blocks rid (req_blocks m rid) m)
         else bind_res (get_new_blocks (nat num_new_blocks) (pool m)) (\<lambda>(new_blocks, p).
                Inr (new_blocks, set_req_blocks rid (req_blocks m rid @ new_blocks) (m\<lparr>pool := p\<rparr>))))"

text \<open>The list of hashes is the one the manager keeps for the request; it grows in place.\<close>

definition group_cache_blocks :: "hash_fn \<Rightarrow> int \<Rightarrow> string \<Rightarrow> kv_request \<Rightarrow> nat \<Rightarrow> kv_manager \<Rightarrow> kv_manager result" where
  "group_cache_blocks hash_function NONE_HASH rid r num_tokens m =
     (case num_cached_block m rid of
        None \<Rightarrow> Inl KeyError
      | Some num_cached_blocks \<Rightarrow>
          let num_full_blocks = num_tokens div cache_block_size m
          in bind_res (cache_full_blocks hash_function NONE_HASH r (req_blocks m rid) (req_hashes m rid) num_cached_blocks
                 num_full_blocks (cache_block_size m) 0 (pool m)) (\<lambda>(p, block_hashes).
               Inr (set_req_hashes rid block_hashes (set_req_blocks rid (req_blocks m rid)
                 (m\<lparr>pool := p, num_cached_block := (num_cached_block m)(rid \<mapsto> num_full_blocks)\<rparr>)))))"

definition group_free :: "string \<Rightarrow> kv_manager \<Rightarrow> kv_manager result" where
  "group_free rid m =
     bind_res (free_blocks (rev (req_blocks m rid)) (pool m)) (\<lambda>p.
       Inr (m\<lparr>pool := p, req_to_blocks := (req_to_blocks m)(rid := None), num_cached_block := (num_cached_block m)(rid := None)\<rparr>))"

text \<open>The longest prefix of the hashes whose blocks are cached.\<close>

fun hit_loop :: "block_pool \<Rightarrow> int list \<Rightarrow> BlockHash list \<Rightarrow> nat list list" where
  "hit_loop p gids [] = []"
| "hit_loop p gids (h # hs) =
     (case get_cached_block p h gids of Some (b # bs) \<Rightarrow> (b # bs) # hit_loop p gids hs | _ \<Rightarrow> [])"

definition find_longest_cache_hit :: "BlockHash list \<Rightarrow> int \<Rightarrow> kv_manager \<Rightarrow> (nat list \<times> nat) result" where
  "find_longest_cache_hit block_hashes max_length m =
     (if \<not> enable_caching (pool m) then Inr ([], 0)
      else let max_num_blocks = max_length div int (cache_block_size m)
           in if max_num_blocks < 0 then Inl ValueError
              else let computed = map hd (hit_loop (pool m) [0] (take (nat max_num_blocks) block_hashes));
                       computed = (if cache_use_eagle m \<and> computed \<noteq> [] then butlast computed else computed)
                   in Inr (computed, length computed * cache_block_size m))"

definition group_num_common_prefix_blocks :: "string \<Rightarrow> int \<Rightarrow> kv_manager \<Rightarrow> nat \<times> kv_manager" where
  "group_num_common_prefix_blocks rid num_running_requests m =
     (if \<not> enable_caching (pool m) then (0, m)
      else (length (takeWhile (\<lambda>i. ref_cnt (block (pool m) i) = num_running_requests) (req_blocks m rid)),
            set_req_blocks rid (req_blocks m rid) m))"

section \<open>The cache manager\<close>

definition count_lookup :: "nat \<Rightarrow> nat \<Rightarrow> kv_manager \<Rightarrow> kv_manager" where
  "count_lookup num_tokens hits m =
     m\<lparr>prefix_cache_stats := map_option (\<lambda>s. s\<lparr>stats_requests := stats_requests s + 1,
         stats_queries := stats_queries s + num_tokens, stats_hits := stats_hits s + hits\<rparr>) (prefix_cache_stats m)\<rparr>"

definition get_computed_blocks :: "hash_fn \<Rightarrow> int \<Rightarrow> cached_request \<Rightarrow> kv_manager \<Rightarrow> ((nat list \<times> nat) \<times> kv_manager) result" where
  "get_computed_blocks hash_function NONE_HASH r m =
     (if \<not> enable_caching (pool m) \<or> cr_prompt_logprobs r then Inr (([], 0), m)
      else bind_res (if req_hashes m (cr_id r) = [] then hash_request_tokens hash_function NONE_HASH (cache_block_size m) (cr_input r)
                     else Inr (req_hashes m (cr_id r))) (\<lambda>block_hashes.
             let m = set_req_hashes (cr_id r) block_hashes m
             in bind_res (find_longest_cache_hit block_hashes (int (cr_num_tokens r) - 1) m) (\<lambda>(computed_blocks, num_new_computed_tokens).
                  Inr ((computed_blocks, num_new_computed_tokens), count_lookup (cr_num_tokens r) num_new_computed_tokens m))))"

text \<open>Full attention skips no blocks, so nothing is freed before the allocation.\<close>

definition allocate_slots ::
  "hash_fn \<Rightarrow> int \<Rightarrow> cached_request \<Rightarrow> nat \<Rightarrow> nat \<Rightarrow> nat list option \<Rightarrow> nat \<Rightarrow> bool \<Rightarrow> kv_manager \<Rightarrow> (nat list option \<times> kv_manager) result" where
  "allocate_slots hash_function NONE_HASH r num_new_tokens num_new_computed_tokens new_computed_blocks num_lookahead_tokens delay_cache_blocks m =
     (if num_new_tokens = 0 then Inl ValueError
      else let new_computed_block_list = (case new_computed_blocks of None \<Rightarrow> [] | Some bs \<Rightarrow> bs);
               num_computed_tokens = cr_num_computed_tokens r + num_new_computed_tokens;
               num_tokens_need_slot = min (num_computed_tokens + num_new_tokens + num_lookahead_tokens) (cache_max_model_len m);
               (num_blocks_to_allocate, m) = get_num_blocks_to_allocate (cr_id r) num_tokens_need_slot new_computed_block_list m
           in if get_num_free_blocks (pool m) < num_blocks_to_allocate then Inr (None, m)
              else bind_res (if enable_caching (pool m) then bind_res (touch [new_computed_block_list] (pool m)) (\<lambda>p. Inr (m\<lparr>pool := p\<rparr>))
                             else if new_computed_block_list \<noteq> [] then Inl AssertionError else Inr m) (\<lambda>m.
                bind_res (save_new_computed_blocks (cr_id r) new_computed_block_list m) (\<lambda>m.
                bind_res (allocate_new_blocks (cr_id r) num_tokens_need_slot m) (\<lambda>(new_blocks, m).
                if \<not> enable_caching (pool m) \<or> delay_cache_blocks then Inr (Some new_blocks, m)
                else bind_res (group_cache_blocks hash_function NONE_HASH (cr_id r) (cr_input r)
                       (min (num_computed_tokens + num_new_tokens) (cr_num_tokens r)) m) (\<lambda>m. Inr (Some new_blocks, m))))))"

definition cache_blocks :: "hash_fn \<Rightarrow> int \<Rightarrow> cached_request \<Rightarrow> nat \<Rightarrow> kv_manager \<Rightarrow> kv_manager result" where
  "cache_blocks hash_function NONE_HASH r num_computed_tokens m =
     (if enable_caching (pool m) then group_cache_blocks hash_function NONE_HASH (cr_id r) (cr_input r) num_computed_tokens m else Inr m)"

definition free_request :: "cached_request \<Rightarrow> kv_manager \<Rightarrow> kv_manager result" where
  "free_request r m = group_free (cr_id r) m"

definition free_block_hashes :: "cached_request \<Rightarrow> kv_manager \<Rightarrow> kv_manager" where
  "free_block_hashes r m = m\<lparr>req_to_block_hashes := (req_to_block_hashes m)(cr_id r := None)\<rparr>"

definition manager_reset_prefix_cache :: "kv_manager \<Rightarrow> bool \<times> kv_manager" where
  "manager_reset_prefix_cache m =
     (let (done, p) = reset_prefix_cache (pool m); m = m\<lparr>pool := p\<rparr>
      in if \<not> done then (False, m)
         else (True, m\<lparr>prefix_cache_stats := map_option (stats_reset_update (\<lambda>_. True)) (prefix_cache_stats m)\<rparr>))"

definition get_num_common_prefix_blocks :: "cached_request \<Rightarrow> int \<Rightarrow> kv_manager \<Rightarrow> (nat \<times> kv_manager) result" where
  "get_num_common_prefix_blocks r num_running_requests m =
     (if \<not> cr_running r then Inl AssertionError else Inr (group_num_common_prefix_blocks (cr_id r) num_running_requests m))"

definition make_prefix_cache_stats :: "kv_manager \<Rightarrow> prefix_stats option \<times> kv_manager" where
  "make_prefix_cache_stats m =
     (case prefix_cache_stats m of
        None \<Rightarrow> (None, m)
      | Some s \<Rightarrow> (Some s, m\<lparr>prefix_cache_stats := Some \<lparr>stats_reset = False, stats_requests = 0, stats_queries = 0, stats_hits = 0\<rparr>\<rparr>))"

definition manager_take_events :: "kv_manager \<Rightarrow> kv_event list \<times> kv_manager" where
  "manager_take_events m = (let (evs, p) = take_events (pool m) in (evs, m\<lparr>pool := p\<rparr>))"

definition get_block_ids :: "string \<Rightarrow> kv_manager \<Rightarrow> nat list" where
  "get_block_ids rid m = req_blocks m rid"

section \<open>Hashes of a request\<close>

text \<open>The hashes kept for a request are a chain over its full blocks. Appending tokens keeps them valid.\<close>

definition hashes_of :: "hash_fn \<Rightarrow> int \<Rightarrow> nat \<Rightarrow> kv_request \<Rightarrow> BlockHash list \<Rightarrow> bool" where
  "hashes_of f seed bs r hs \<longleftrightarrow> (\<exists>es. hs = hash_chain f seed None es \<and>
     (\<forall>k < length es. Suc k * bs \<le> length (all_token_ids r) \<and> fst (es ! k) = take bs (drop (k * bs) (all_token_ids r)) \<and>
        lora_of (snd (es ! k)) = lora_int_id r))"

lemma hashes_of_Nil [simp]: "hashes_of f seed bs r []"
  by (simp add: hashes_of_def) (metis hash_chain.simps(1) length_0_conv less_nat_zero_code)

lemma hashes_of_length: "hashes_of f seed bs r hs \<Longrightarrow> length hs * bs \<le> length (all_token_ids r)"
  by (cases "length hs") (auto simp: hashes_of_def)

lemma hashes_of_request:
  assumes "hash_request_tokens f seed bs r = Inr hs"
  shows "hashes_of f seed bs r hs"
proof -
  obtain es where es: "hs = hash_chain f seed None es" "length es = length (all_token_ids r) div bs"
    "\<And>k. k < length es \<Longrightarrow> fst (es ! k) = take bs (drop (k * bs) (all_token_ids r))"
    "\<And>k. k < length es \<Longrightarrow> lora_of (snd (es ! k)) = lora_int_id r" using hash_request_chain [OF assms] by metis
  have "Suc k * bs \<le> length (all_token_ids r)" if "k < length es" for k
    using that es(2) by (metis Suc_leI mult_le_mono1 div_times_less_eq_dividend order_trans)
  then show ?thesis unfolding hashes_of_def using es by blast
qed

lemma hashes_of_append:
  assumes "hashes_of f seed bs r hs"
  shows "hashes_of f seed bs (r\<lparr>all_token_ids := all_token_ids r @ ts\<rparr>) hs"
proof -
  obtain es where es: "hs = hash_chain f seed None es" "\<forall>k < length es. Suc k * bs \<le> length (all_token_ids r) \<and>
      fst (es ! k) = take bs (drop (k * bs) (all_token_ids r)) \<and> lora_of (snd (es ! k)) = lora_int_id r"
    using assms unfolding hashes_of_def by blast
  have "take bs (drop (k * bs) (xs @ ts)) = take bs (drop (k * bs) xs)" if "Suc k * bs \<le> length xs" for k xs
    using that by simp
  then show ?thesis unfolding hashes_of_def using es by (intro exI [of _ es]) auto
qed

lemma hashes_of_extend:
  assumes "hashes_of f seed bs r hs" "inputs_ok r"
  shows "n * bs \<le> length (all_token_ids r) \<Longrightarrow> hashes_of f seed bs r (extend_hashes f seed r bs hs n)"
proof (induction n)
  case 0
  then show ?case using assms(1) by simp
next
  case (Suc n)
  let ?hs = "extend_hashes f seed r bs hs n" and ?toks = "take bs (drop (n * bs) (all_token_ids r))"
  have "n * bs \<le> length (all_token_ids r)" using Suc.prems by simp
  then have IH: "hashes_of f seed bs r ?hs" by (rule Suc.IH)
  show ?case
  proof (cases "n < length ?hs")
    case True
    then show ?thesis using IH by (simp add: Let_def)
  next
    case False
    then have l: "length ?hs = n" by (simp add: extend_hashes_length)
    obtain es where es: "?hs = hash_chain f seed None es" "\<forall>k < length es. Suc k * bs \<le> length (all_token_ids r) \<and>
        fst (es ! k) = take bs (drop (k * bs) (all_token_ids r)) \<and> lora_of (snd (es ! k)) = lora_int_id r"
      using IH unfolding hashes_of_def by blast
    have le: "length es = n" using l es(1) by simp
    obtain idx where "generate_block_hash_extra_keys r (int (n * bs)) (int (n * bs + bs)) (- 1) = Inr (tail_keys r bs n, idx)"
      using tail_keys_eq [OF assms(2)] by blast
    from extra_keys_lora [OF this] have lora: "lora_of (tail_keys r bs n) = lora_int_id r" .
    have "extend_hashes f seed r bs hs (Suc n) = hash_chain f seed None (es @ [(?toks, tail_keys r bs n)])"
      using l es(1) le by (simp add: Let_def hash_chain_snoc)
    moreover have "Suc k * bs \<le> length (all_token_ids r) \<and> fst ((es @ [(?toks, tail_keys r bs n)]) ! k) =
        take bs (drop (k * bs) (all_token_ids r)) \<and> lora_of (snd ((es @ [(?toks, tail_keys r bs n)]) ! k)) = lora_int_id r"
      if "k < length (es @ [(?toks, tail_keys r bs n)])" for k
      using that es(2) le lora Suc.prems by (cases "k = n") (auto simp: nth_append less_Suc_eq)
    ultimately show ?thesis unfolding hashes_of_def by blast
  qed
qed

lemma hashes_of_shared:
  assumes f: "collision_free f seed" and r: "hashes_of f seed bs r1 hs1" "hashes_of f seed bs r2 hs2"
    and i: "i < length hs1" "j < length hs2" "hs1 ! i = hs2 ! j"
  shows "i = j \<and> take (Suc i * bs) (all_token_ids r1) = take (Suc i * bs) (all_token_ids r2) \<and> lora_int_id r1 = lora_int_id r2"
proof -
  obtain es1 where e1: "hs1 = hash_chain f seed None es1" "\<And>k. k < length es1 \<Longrightarrow> fst (es1 ! k) = take bs (drop (k * bs) (all_token_ids r1))"
    "\<And>k. k < length es1 \<Longrightarrow> lora_of (snd (es1 ! k)) = lora_int_id r1" using r(1) unfolding hashes_of_def by blast
  obtain es2 where e2: "hs2 = hash_chain f seed None es2" "\<And>k. k < length es2 \<Longrightarrow> fst (es2 ! k) = take bs (drop (k * bs) (all_token_ids r2))"
    "\<And>k. k < length es2 \<Longrightarrow> lora_of (snd (es2 ! k)) = lora_int_id r2" using r(2) unfolding hashes_of_def by blast
  have l: "i < length es1" "j < length es2" using i(1,2) e1(1) e2(1) by simp_all
  have p: "i = j" "take (Suc i) es1 = take (Suc i) es2"
    using chain_prefix [OF f l] i(3) unfolding e1(1) e2(1) by auto
  have eq: "es1 ! k = es2 ! k" if "k < Suc i" for k using p(2) that by (metis nth_take)
  have "take (Suc i * bs) (all_token_ids r1) = take (Suc i * bs) (all_token_ids r2)"
  proof (rule blocks_prefix)
    fix k assume k: "k < Suc i"
    then have "k < length es1" "k < length es2" using l p(1) by simp_all
    from e1(2) [OF this(1)] e2(2) [OF this(2)] eq [OF k]
    show "take bs (drop (k * bs) (all_token_ids r1)) = take bs (drop (k * bs) (all_token_ids r2))" by simp
  qed
  moreover have "lora_int_id r1 = lora_int_id r2" using e1(3) [OF l(1)] e2(3) [OF l(2)] eq [of i] p(1) by simp
  ultimately show ?thesis using p(1) by blast
qed

lemma hashes_of_distinct:
  assumes "collision_free f seed" "hashes_of f seed bs r hs"
  shows "distinct hs"
  unfolding distinct_conv_nth using hashes_of_shared [OF assms(1) assms(2,2)] by blast

section \<open>The invariant\<close>

abbreviation refs :: "block_pool \<Rightarrow> nat \<Rightarrow> int" where
  "refs p i \<equiv> ref_cnt (block p i)"

abbreviation tag :: "block_pool \<Rightarrow> nat \<Rightarrow> block_key option" where
  "tag p i \<equiv> block_hash (block p i)"

abbreviation key :: "BlockHash \<Rightarrow> block_key" where
  "key h \<equiv> \<lparr>bg_block_hash = h, group_id = 0\<rparr>"

text \<open>The blocks of a request: a cached part that carries the request's hashes and may be shared, then private blocks
  without a hash.\<close>

definition tagged :: "block_pool \<Rightarrow> nat list \<Rightarrow> BlockHash list \<Rightarrow> nat \<Rightarrow> bool" where
  "tagged p bs hs c \<longleftrightarrow> c \<le> length bs \<and> c \<le> length hs \<and> (\<forall>i < c. tag p (bs ! i) = Some (key (hs ! i))) \<and>
     (\<forall>i. c \<le> i \<and> i < length bs \<longrightarrow> tag p (bs ! i) = None \<and> refs p (bs ! i) = 1)"

definition input_hashed :: "hash_fn \<Rightarrow> int \<Rightarrow> nat \<Rightarrow> kv_request option \<Rightarrow> BlockHash list \<Rightarrow> nat option \<Rightarrow> bool" where
  "input_hashed f seed bs ro hs c = (case ro of None \<Rightarrow> c = None \<and> hs = [] | Some r \<Rightarrow> inputs_ok r \<and> hashes_of f seed bs r hs)"

definition held_ok :: "block_pool \<Rightarrow> nat list \<Rightarrow> BlockHash list \<Rightarrow> nat option \<Rightarrow> bool" where
  "held_ok p bs hs c \<longleftrightarrow> distinct bs \<and> (\<forall>b \<in> set bs. 0 < b \<and> b < num_gpu_blocks p) \<and>
     (case c of None \<Rightarrow> bs = [] | Some c \<Rightarrow> tagged p bs hs c)"

definition holders :: "kv_manager \<Rightarrow> nat \<Rightarrow> string set" where
  "holders m i = {rid. i \<in> set (req_blocks m rid)}"

definition manager_ok :: "hash_fn \<Rightarrow> int \<Rightarrow> kv_manager \<Rightarrow> (string \<rightharpoonup> kv_request) \<Rightarrow> nat list \<Rightarrow> bool" where
  "manager_ok f seed m live xs \<longleftrightarrow> block_pool_ok (pool m) xs \<and> 0 < cache_block_size m \<and> finite (dom (req_to_blocks m)) \<and>
     (\<forall>i > 0. refs (pool m) i = int (card (holders m i))) \<and>
     (\<not> enable_caching (pool m) \<longrightarrow> (\<forall>i. tag (pool m) i = None)) \<and>
     (\<forall>rid. held_ok (pool m) (req_blocks m rid) (req_hashes m rid) (num_cached_block m rid)) \<and>
     (\<forall>rid. input_hashed f seed (cache_block_size m) (live rid) (req_hashes m rid) (num_cached_block m rid))"

lemma manager_okD:
  assumes "manager_ok f seed m live xs"
  shows "block_pool_ok (pool m) xs" "0 < cache_block_size m" "finite (dom (req_to_blocks m))"
    "\<And>i. 0 < i \<Longrightarrow> refs (pool m) i = int (card (holders m i))"
    "\<And>i. \<not> enable_caching (pool m) \<Longrightarrow> tag (pool m) i = None"
    "\<And>rid. held_ok (pool m) (req_blocks m rid) (req_hashes m rid) (num_cached_block m rid)"
    "\<And>rid. input_hashed f seed (cache_block_size m) (live rid) (req_hashes m rid) (num_cached_block m rid)"
  using assms unfolding manager_ok_def by blast+

lemma manager_okI:
  assumes "block_pool_ok (pool m) xs" "0 < cache_block_size m" "finite (dom (req_to_blocks m))"
    "\<And>i. 0 < i \<Longrightarrow> refs (pool m) i = int (card (holders m i))"
    "\<And>i. \<not> enable_caching (pool m) \<Longrightarrow> tag (pool m) i = None"
    "\<And>rid. held_ok (pool m) (req_blocks m rid) (req_hashes m rid) (num_cached_block m rid)"
    "\<And>rid. input_hashed f seed (cache_block_size m) (live rid) (req_hashes m rid) (num_cached_block m rid)"
  shows "manager_ok f seed m live xs"
  unfolding manager_ok_def using assms by blast

lemma finite_holders: "manager_ok f seed m live xs \<Longrightarrow> finite (holders m i)"
proof -
  assume "manager_ok f seed m live xs"
  then have "finite (dom (req_to_blocks m))" by (rule manager_okD(3))
  moreover have "rid \<in> dom (req_to_blocks m)" if "rid \<in> holders m i" for rid
    using that by (cases "req_to_blocks m rid") (simp_all add: holders_def req_blocks_def dom_def)
  then have "holders m i \<subseteq> dom (req_to_blocks m)" by blast
  ultimately show ?thesis by (rule rev_finite_subset)
qed

lemma held_range:
  assumes "held_ok p bs hs c" "b \<in> set bs"
  shows "0 < b" "b < num_gpu_blocks p"
  using assms unfolding held_ok_def by blast+

text \<open>A block of a request is referenced, and a private one is held by nobody else.\<close>

lemma held_refs:
  assumes ok: "manager_ok f seed m live xs" and b: "b \<in> set (req_blocks m rid)"
  shows "0 < refs (pool m) b" "b \<notin> set xs"
proof -
  have b0: "0 < b" using held_range(1) [OF manager_okD(6) [OF ok] b] .
  have "rid \<in> holders m b" using b by (simp add: holders_def)
  then have "0 < card (holders m b)" using finite_holders [OF ok] card_gt_0_iff by blast
  then show p: "0 < refs (pool m) b" using manager_okD(4) [OF ok b0] by simp
  show "b \<notin> set xs" using bp.free_iff [OF manager_okD(1) [OF ok], of b] p by simp
qed

lemma private_block:
  assumes ok: "manager_ok f seed m live xs" and b: "b \<in> set (req_blocks m rid)" "b \<in> set (req_blocks m rid')" and t: "refs (pool m) b = 1"
  shows "rid' = rid"
proof -
  have "card (holders m b) = 1" using manager_okD(4) [OF ok held_range(1) [OF manager_okD(6) [OF ok] b(1)]] t by simp
  then obtain x where x: "holders m b = {x}" by (rule card_1_singletonE)
  have "rid \<in> holders m b" "rid' \<in> holders m b" using b by (simp_all add: holders_def)
  then show ?thesis unfolding x by simp
qed

lemma free_not_held:
  assumes ok: "manager_ok f seed m live xs" and b: "b \<in> set xs"
  shows "holders m b = {}"
  using held_refs(2) [OF ok] b unfolding holders_def by blast

lemma held_private:
  assumes h: "held_ok p bs hs c" and b: "b \<in> set bs" "tag p b = None"
  shows "refs p b = 1"
proof -
  obtain n where n: "c = Some n" using h b(1) by (cases c) (simp_all add: held_ok_def)
  obtain i where i: "i < length bs" "b = bs ! i" using b(1) by (auto simp: in_set_conv_nth)
  have t: "tagged p bs hs n" using h n by (simp add: held_ok_def)
  then have "\<not> i < n" using b(2) i(2) by (auto simp: tagged_def)
  then show ?thesis using t i by (simp add: tagged_def)
qed

lemma held_ok_cong:
  assumes "held_ok p bs hs c" "num_gpu_blocks p' = num_gpu_blocks p" "\<And>b. b \<in> set bs \<Longrightarrow> tag p' b = tag p b"
    "\<And>b. b \<in> set bs \<Longrightarrow> tag p b = None \<Longrightarrow> refs p' b = refs p b"
  shows "held_ok p' bs hs c"
  using assms unfolding held_ok_def tagged_def by (auto split: option.splits)

section \<open>Looking up a prefix\<close>

lemma set_req_simps [simp]:
  "req_blocks (set_req_hashes rid hs m) = req_blocks m" "req_hashes (set_req_blocks rid bs m) = req_hashes m"
  "req_blocks (set_req_blocks rid bs m) = (req_blocks m)(rid := bs)" "req_hashes (set_req_hashes rid hs m) = (req_hashes m)(rid := hs)"
  "pool (set_req_blocks rid bs m) = pool m" "pool (set_req_hashes rid hs m) = pool m"
  "num_cached_block (set_req_blocks rid bs m) = num_cached_block m" "num_cached_block (set_req_hashes rid hs m) = num_cached_block m"
  "cache_block_size (set_req_blocks rid bs m) = cache_block_size m" "cache_block_size (set_req_hashes rid hs m) = cache_block_size m"
  "cache_max_model_len (set_req_blocks rid bs m) = cache_max_model_len m" "cache_max_model_len (set_req_hashes rid hs m) = cache_max_model_len m"
  "cache_use_eagle (set_req_hashes rid hs m) = cache_use_eagle m" "req_to_blocks (set_req_hashes rid hs m) = req_to_blocks m"
  "req_to_block_hashes (set_req_blocks rid bs m) = req_to_block_hashes m"
  by (auto simp: req_blocks_def req_hashes_def set_req_blocks_def set_req_hashes_def fun_eq_iff)

lemma req_updates [simp]:
  "req_blocks (m\<lparr>pool := p\<rparr>) = req_blocks m" "req_hashes (m\<lparr>pool := p\<rparr>) = req_hashes m"
  "req_blocks (m\<lparr>num_cached_block := c\<rparr>) = req_blocks m" "req_hashes (m\<lparr>num_cached_block := c\<rparr>) = req_hashes m"
  "req_blocks (m\<lparr>prefix_cache_stats := s\<rparr>) = req_blocks m" "req_hashes (m\<lparr>prefix_cache_stats := s\<rparr>) = req_hashes m"
  "req_blocks (m\<lparr>req_to_blocks := b\<rparr>) rid = (case b rid of None \<Rightarrow> [] | Some bs \<Rightarrow> bs)"
  "req_blocks (m\<lparr>req_to_block_hashes := h\<rparr>) = req_blocks m" "req_hashes (m\<lparr>req_to_blocks := b\<rparr>) = req_hashes m"
  by (auto simp: req_blocks_def req_hashes_def fun_eq_iff)

text \<open>What a lookup returns: cached blocks for the first hashes of the request.\<close>

definition hits_ok :: "kv_manager \<Rightarrow> string \<Rightarrow> nat list \<Rightarrow> bool" where
  "hits_ok m rid hits \<longleftrightarrow> length hits \<le> length (req_hashes m rid) \<and>
     (\<forall>i < length hits. tag (pool m) (hits ! i) = Some (key (req_hashes m rid ! i))) \<and> (\<not> enable_caching (pool m) \<longrightarrow> hits = [])"

lemma get_cached_block_single:
  assumes "cache_ok p" "get_cached_block p h [0] = Some bs"
  shows "\<exists>b. bs = [b] \<and> tag p b = Some (key h)"
proof -
  obtain b rest where b: "cached_block_hash_to_block p (key h) = Some (b # rest)" "bs = [b]"
    using assms(2) by (auto split: option.splits list.splits)
  then show ?thesis using cache_okD(3) [OF assms(1), of b "key h"] by (simp add: cached_ids_def)
qed

lemma hit_loop_ok:
  assumes "cache_ok p"
  shows "length (hit_loop p [0] hs) \<le> length hs \<and> (\<forall>i < length (hit_loop p [0] hs). tag p (hd (hit_loop p [0] hs ! i)) = Some (key (hs ! i)))"
proof (induction hs)
  case (Cons h hs)
  show ?case
  proof (cases "get_cached_block p h [0]")
    case (Some bs)
    then obtain b where "bs = [b]" "tag p b = Some (key h)" using get_cached_block_single [OF assms] by blast
    then have l: "hit_loop p [0] (h # hs) = [b] # hit_loop p [0] hs" and t: "tag p b = Some (key h)" using Some by simp_all
    show ?thesis unfolding l using Cons t by (auto simp: nth_Cons split: nat.splits)
  qed simp
qed simp

lemma find_longest_cache_hit_ok:
  assumes c: "cache_ok (pool m)" and n: "0 < n" and bs: "0 < cache_block_size m" and h: "req_hashes m rid = hs"
  shows "\<exists>hits. find_longest_cache_hit hs (int n - 1) m = Inr (hits, length hits * cache_block_size m) \<and>
    hits_ok m rid hits \<and> length hits * cache_block_size m < n"
proof (cases "enable_caching (pool m)")
  case True
  define k where "k = nat ((int n - 1) div int (cache_block_size m))"
  let ?l = "hit_loop (pool m) [0] (take k hs)"
  define hits where "hits = (if cache_use_eagle m \<and> map hd ?l \<noteq> [] then butlast (map hd ?l) else map hd ?l)"
  have k0: "\<not> (int n - 1) div int (cache_block_size m) < 0" using n bs by (simp add: pos_imp_zdiv_nonneg_iff not_less)
  have k: "k = (n - 1) div cache_block_size m"
  proof -
    have "int n - 1 = int (n - 1)" using n by simp
    then show ?thesis unfolding k_def by (simp only: zdiv_int [symmetric] nat_int)
  qed
  note l = hit_loop_ok [OF c, of "take k hs"]
  have le: "length hits \<le> length ?l" by (simp add: hits_def)
  have tg: "tag (pool m) (hits ! i) = Some (key (hs ! i))" if i: "i < length hits" for i
  proof -
    have il: "i < length ?l" using i le by simp
    have "hits ! i = hd (?l ! i)" using i il by (auto simp: hits_def nth_butlast split: if_splits)
    moreover have "take k hs ! i = hs ! i" using il l by simp
    ultimately show ?thesis using l il by metis
  qed
  have "hits_ok m rid hits" unfolding hits_ok_def h using True le l tg by simp
  moreover have "length hits * cache_block_size m < n"
  proof -
    have "length hits \<le> k" using le l by simp
    then have "length hits * cache_block_size m \<le> n - 1" using k by (metis div_times_less_eq_dividend mult_le_mono1 order_trans)
    then show ?thesis using n by linarith
  qed
  moreover have "find_longest_cache_hit hs (int n - 1) m = Inr (hits, length hits * cache_block_size m)"
    using True k0 unfolding find_longest_cache_hit_def Let_def k_def hits_def by simp
  ultimately show ?thesis by blast
next
  case False
  then show ?thesis using n by (simp add: find_longest_cache_hit_def hits_ok_def)
qed

definition same_blocks :: "kv_manager \<Rightarrow> kv_manager \<Rightarrow> bool" where
  "same_blocks m m' \<longleftrightarrow> pool m' = pool m \<and> req_blocks m' = req_blocks m \<and> num_cached_block m' = num_cached_block m \<and>
     cache_block_size m' = cache_block_size m \<and> cache_max_model_len m' = cache_max_model_len m"

lemma manager_ok_same:
  assumes ok: "manager_ok f seed m live xs" and s: "same_blocks m m'" and d: "finite (dom (req_to_blocks m'))"
    and h: "\<And>rid. req_hashes m' rid = req_hashes m rid \<or>
      (req_hashes m rid = [] \<and> (\<exists>r. live rid = Some r \<and> hashes_of f seed (cache_block_size m) r (req_hashes m' rid)))"
  shows "manager_ok f seed m' live xs"
proof (rule manager_okI)
  note o = manager_okD [OF ok] and s' = s [unfolded same_blocks_def]
  show "block_pool_ok (pool m') xs" "0 < cache_block_size m'" using o(1,2) s' by simp_all
  show "refs (pool m') i = int (card (holders m' i))" if "0 < i" for i using o(4) [OF that] s' by (simp add: holders_def)
  show "\<not> enable_caching (pool m') \<Longrightarrow> tag (pool m') i = None" for i using o(5) s' by simp
  show "held_ok (pool m') (req_blocks m' rid) (req_hashes m' rid) (num_cached_block m' rid)" for rid
    using h [of rid] o(6) [of rid] s' by (auto simp: held_ok_def tagged_def split: option.splits)
  show "input_hashed f seed (cache_block_size m') (live rid) (req_hashes m' rid) (num_cached_block m' rid)" for rid
    using h [of rid] o(7) [of rid] s' by (cases "live rid") (auto simp: input_hashed_def)
qed (rule d)

lemma get_computed_blocks_ok:
  assumes ok: "manager_ok f seed m live xs" and r: "live (cr_id r) = Some (cr_input r)" and n: "0 < cr_num_tokens r"
  shows "\<exists>hits m'. get_computed_blocks f seed r m = Inr ((hits, length hits * cache_block_size m), m') \<and> manager_ok f seed m' live xs \<and>
    same_blocks m m' \<and> hits_ok m' (cr_id r) hits \<and> length hits * cache_block_size m < cr_num_tokens r"
proof (cases "\<not> enable_caching (pool m) \<or> cr_prompt_logprobs r")
  case True
  then show ?thesis using ok n by (auto simp: get_computed_blocks_def same_blocks_def hits_ok_def)
next
  case False
  note o = manager_okD [OF ok]
  let ?id = "cr_id r"
  have i: "inputs_ok (cr_input r)" "hashes_of f seed (cache_block_size m) (cr_input r) (req_hashes m ?id)"
    using o(7) [of ?id] r by (simp_all add: input_hashed_def)
  obtain hs where hs: "(if req_hashes m ?id = [] then hash_request_tokens f seed (cache_block_size m) (cr_input r) else Inr (req_hashes m ?id)) = Inr hs"
    and hs': "hs = req_hashes m ?id \<or> (req_hashes m ?id = [] \<and> hashes_of f seed (cache_block_size m) (cr_input r) hs)"
    using hash_request_total [OF i(1) [unfolded inputs_ok_def] o(2), of f seed] hashes_of_request [of f seed _ "cr_input r"]
    by (cases "req_hashes m ?id = []") auto
  let ?m = "set_req_hashes ?id hs m"
  have c: "cache_ok (pool ?m)" "0 < cache_block_size ?m" "req_hashes ?m ?id = hs" using o(2) blocks_okD(8) [OF o(1)] by simp_all
  obtain hits where hits: "find_longest_cache_hit hs (int (cr_num_tokens r) - 1) ?m = Inr (hits, length hits * cache_block_size ?m)"
    "hits_ok ?m ?id hits" "length hits * cache_block_size ?m < cr_num_tokens r"
    using find_longest_cache_hit_ok [OF c(1) n c(2,3)] by blast
  let ?m' = "count_lookup (cr_num_tokens r) (length hits * cache_block_size m) ?m"
  have st: "pool ?m' = pool m" "req_blocks ?m' = req_blocks m" "req_hashes ?m' = req_hashes ?m" "num_cached_block ?m' = num_cached_block m"
    "cache_block_size ?m' = cache_block_size m" "cache_max_model_len ?m' = cache_max_model_len m" "req_to_blocks ?m' = req_to_blocks m"
    by (simp_all add: count_lookup_def)
  have sb: "same_blocks m ?m'" by (simp add: same_blocks_def st)
  have "manager_ok f seed ?m' live xs"
    using ok sb by (rule manager_ok_same) (use o(3) hs' r in \<open>auto simp: st\<close>)
  moreover have "hits_ok ?m' ?id hits" using hits(2) by (simp add: hits_ok_def st)
  moreover have "get_computed_blocks f seed r m = Inr ((hits, length hits * cache_block_size m), ?m')"
    unfolding get_computed_blocks_def hs Let_def using False hits(1) by simp
  ultimately show ?thesis using sb hits(3) by auto
qed

section \<open>Giving blocks to a request\<close>

definition grown :: "kv_manager \<Rightarrow> string \<Rightarrow> nat list \<Rightarrow> nat \<Rightarrow> block_pool \<Rightarrow> kv_manager" where
  "grown m rid bs c p = m\<lparr>pool := p, req_to_blocks := (req_to_blocks m)(rid \<mapsto> bs), num_cached_block := (num_cached_block m)(rid \<mapsto> c)\<rparr>"

lemma grown_simps [simp]:
  "pool (grown m rid bs c p) = p" "req_blocks (grown m rid bs c p) = (req_blocks m)(rid := bs)"
  "num_cached_block (grown m rid bs c p) = (num_cached_block m)(rid \<mapsto> c)" "req_hashes (grown m rid bs c p) = req_hashes m"
  "cache_block_size (grown m rid bs c p) = cache_block_size m" "cache_max_model_len (grown m rid bs c p) = cache_max_model_len m"
  "req_to_blocks (grown m rid bs c p) = (req_to_blocks m)(rid \<mapsto> bs)"
  by (auto simp: grown_def req_blocks_def req_hashes_def fun_eq_iff)

text \<open>A request that is not running starts with its hits; a running one has none. In both cases new blocks follow.\<close>

definition may_grow :: "kv_manager \<Rightarrow> string \<Rightarrow> nat list \<Rightarrow> nat \<Rightarrow> bool" where
  "may_grow m rid hits c \<longleftrightarrow> hits_ok m rid hits \<and>
     (num_cached_block m rid = None \<and> c = length hits \<or> num_cached_block m rid = Some c \<and> hits = [])"

definition gives :: "block_pool \<Rightarrow> nat list \<Rightarrow> nat list \<Rightarrow> nat list \<Rightarrow> block_pool \<Rightarrow> bool" where
  "gives p xs hits taken p' \<longleftrightarrow> same_setup p p' \<and> distinct taken \<and> set taken \<subseteq> set xs - set hits \<and>
     (\<forall>j. refs p' j = (if j \<in> set taken then 1 else refs p j + int (count_list hits j))) \<and>
     (\<forall>j. tag p' j = (if j \<in> set taken \<and> enable_caching p then None else tag p j))"

lemma hits_facts:
  assumes ok: "manager_ok f seed m live xs" and f: "collision_free f seed" and r: "live rid = Some r" and h: "hits_ok m rid hits"
  shows "distinct hits" "\<And>b. b \<in> set hits \<Longrightarrow> tag (pool m) b \<noteq> None \<and> 0 < b \<and> b < num_gpu_blocks (pool m)"
proof -
  note o = manager_okD [OF ok]
  note h' = h [unfolded hits_ok_def]
  have "hashes_of f seed (cache_block_size m) r (req_hashes m rid)" using o(7) [of rid] r by (simp add: input_hashed_def)
  then have d: "distinct (req_hashes m rid)" using hashes_of_distinct f by blast
  show "distinct hits"
    unfolding distinct_conv_nth
  proof (intro allI impI)
    fix i j assume ij: "i < length hits" "j < length hits" "i \<noteq> j"
    then have "req_hashes m rid ! i \<noteq> req_hashes m rid ! j" using d h' by (simp add: nth_eq_iff_index_eq)
    then show "hits ! i \<noteq> hits ! j" using h' ij by (metis option.inject BlockHashWithGroupId.ext_inject)
  qed
  fix b assume "b \<in> set hits"
  then obtain i where "i < length hits" "b = hits ! i" by (auto simp: in_set_conv_nth)
  then have t: "tag (pool m) b = Some (key (req_hashes m rid ! i))" using h' by simp
  then show "tag (pool m) b \<noteq> None \<and> 0 < b \<and> b < num_gpu_blocks (pool m)"
    using cache_okD(4) [OF blocks_okD(8) [OF o(1)], of b] by simp
qed

lemma grown_holders:
  assumes ok: "manager_ok f seed m live xs" and f: "collision_free f seed" and r: "live rid = Some r"
    and m: "may_grow m rid hits c" and p: "gives (pool m) xs hits taken p'" and i: "0 < i"
  shows "refs p' i = int (card (holders (grown m rid (req_blocks m rid @ hits @ taken) c p') i))"
proof -
  let ?m = "grown m rid (req_blocks m rid @ hits @ taken) c p'"
  note o = manager_okD [OF ok] and p' = p [unfolded gives_def]
  have h: "hits_ok m rid hits" using m by (simp add: may_grow_def)
  note hf = hits_facts [OF ok f r h]
  have old: "req_blocks m rid = [] \<or> hits = []" using m o(6) [of rid] by (auto simp: may_grow_def held_ok_def)
  have H: "holders ?m i = (if i \<in> set hits \<union> set taken then insert rid (holders m i) else holders m i)"
    unfolding holders_def by auto
  have fin: "finite (holders m i)" by (rule finite_holders [OF ok])
  consider "i \<in> set taken" | "i \<in> set hits" "i \<notin> set taken" | "i \<notin> set hits" "i \<notin> set taken" by blast
  then show ?thesis
  proof cases
    case 1
    then have "holders m i = {}" using p' free_not_held [OF ok, of i] by blast
    then show ?thesis using 1 p' by (simp add: H)
  next
    case 2
    then have "rid \<notin> holders m i" using old by (auto simp: holders_def)
    then have "card (holders ?m i) = Suc (card (holders m i))" unfolding H using 2 fin by simp
    then show ?thesis using 2 p' o(4) [OF i] count_list_distinct [OF hf(1), of i] by simp
  next
    case 3
    then show ?thesis using p' o(4) [OF i] by (simp add: H)
  qed
qed

lemma grown_tagged:
  assumes ok: "manager_ok f seed m live xs" and f: "collision_free f seed" and r: "live rid = Some r"
    and m: "may_grow m rid hits c" and p: "gives (pool m) xs hits taken p'"
  shows "held_ok p' (req_blocks m rid @ hits @ taken) (req_hashes m rid) (Some c)"
proof -
  note o = manager_okD [OF ok] and p' = p [unfolded gives_def] and m' = m [unfolded may_grow_def hits_ok_def]
  have h: "hits_ok m rid hits" using m by (simp add: may_grow_def)
  note hf = hits_facts [OF ok f r h]
  have n: "num_gpu_blocks p' = num_gpu_blocks (pool m)" using p' by (simp add: same_setup_def)
  have free: "0 < b \<and> b < num_gpu_blocks (pool m) \<and> b \<notin> set hits \<and> b \<notin> set (req_blocks m rid)" if "b \<in> set taken" for b
  proof -
    have "b \<in> set xs" "b \<notin> set hits" using that p' by auto
    then show ?thesis using bp.free_iff [OF o(1), of b] held_refs(2) [OF ok, of b rid] by blast
  qed
  have new: "tag p' b = None \<and> refs p' b = 1" if "b \<in> set taken" for b
    using p' o(5) [of b] that by (cases "enable_caching (pool m)") auto
  have kept: "tag p' b = tag (pool m) b" if "b \<notin> set taken" for b using p' that by simp
  have hold: "held_ok p' (req_blocks m rid) (req_hashes m rid) (num_cached_block m rid)"
    using o(6) [of rid]
  proof (rule held_ok_cong)
    fix b assume b: "b \<in> set (req_blocks m rid)"
    then have nt: "b \<notin> set taken" using free by blast
    then show "tag p' b = tag (pool m) b" by (rule kept)
    assume "tag (pool m) b = None"
    then have "b \<notin> set hits" using hf(2) by blast
    then show "refs p' b = refs (pool m) b" using p' nt by simp
  qed (rule n)
  show ?thesis
  proof (cases "num_cached_block m rid")
    case None
    then have e: "req_blocks m rid = []" "c = length hits" using o(6) [of rid] m' by (auto simp: held_ok_def)
    have "tag p' (hits ! i) = Some (key (req_hashes m rid ! i))" if "i < length hits" for i
      using kept [of "hits ! i"] free [of "hits ! i"] m' that nth_mem [OF that] by auto
    moreover have "tag p' ((hits @ taken) ! i) = None \<and> refs p' ((hits @ taken) ! i) = 1" if "length hits \<le> i" "i < length (hits @ taken)" for i
      using new [of "taken ! (i - length hits)"] that by (simp add: nth_append)
    ultimately show ?thesis using hf free p' m' e n by (auto simp: held_ok_def tagged_def nth_append)
  next
    case (Some d)
    then have e: "hits = []" "d = c" using m' by auto
    have t: "tagged p' (req_blocks m rid) (req_hashes m rid) c" using hold Some e by (simp add: held_ok_def)
    have "tag p' ((req_blocks m rid @ taken) ! i) = None \<and> refs p' ((req_blocks m rid @ taken) ! i) = 1"
      if "c \<le> i" "i < length (req_blocks m rid @ taken)" for i
      using new [of "taken ! (i - length (req_blocks m rid))"] t that by (auto simp: nth_append tagged_def)
    then have "tagged p' (req_blocks m rid @ taken) (req_hashes m rid) c" using t by (auto simp: tagged_def nth_append)
    then show ?thesis using hold free p' n e(1) by (auto simp: held_ok_def)
  qed
qed

lemma grown_ok:
  assumes ok: "manager_ok f seed m live xs" and f: "collision_free f seed" and r: "live rid = Some r"
    and m: "may_grow m rid hits c" and p: "gives (pool m) xs hits taken p'" and q: "block_pool_ok p' ys"
  shows "manager_ok f seed (grown m rid (req_blocks m rid @ hits @ taken) c p') live ys"
proof (rule manager_okI)
  let ?m = "grown m rid (req_blocks m rid @ hits @ taken) c p'"
  note o = manager_okD [OF ok] and p' = p [unfolded gives_def]
  have h: "hits_ok m rid hits" using m by (simp add: may_grow_def)
  note hf = hits_facts [OF ok f r h]
  show "block_pool_ok (pool ?m) ys" "0 < cache_block_size ?m" "finite (dom (req_to_blocks ?m))" using q o(2,3) by simp_all
  show "refs (pool ?m) i = int (card (holders ?m i))" if "0 < i" for i
    using grown_holders [OF ok f r m p that] by simp
  show "tag (pool ?m) i = None" if "\<not> enable_caching (pool ?m)" for i
    using o(5) [of i] p' that by (simp add: same_setup_def)
  show "input_hashed f seed (cache_block_size ?m) (live rid') (req_hashes ?m rid') (num_cached_block ?m rid')" for rid'
    using o(7) [of rid'] r by (cases "rid' = rid") (simp_all add: input_hashed_def)
  show "held_ok (pool ?m) (req_blocks ?m rid') (req_hashes ?m rid') (num_cached_block ?m rid')" for rid'
  proof (cases "rid' = rid")
    case True
    then show ?thesis using grown_tagged [OF ok f r m p] by simp
  next
    case False
    have "held_ok p' (req_blocks m rid') (req_hashes m rid') (num_cached_block m rid')"
      using o(6) [of rid']
    proof (rule held_ok_cong)
      show "num_gpu_blocks p' = num_gpu_blocks (pool m)" using p' by (simp add: same_setup_def)
      fix b assume b: "b \<in> set (req_blocks m rid')"
      have nt: "b \<notin> set taken" using p' held_refs(2) [OF ok b] by blast
      then show "tag p' b = tag (pool m) b" using p' by simp
      assume "tag (pool m) b = None"
      then have "b \<notin> set hits" using hf(2) by blast
      then show "refs p' b = refs (pool m) b" using p' nt by simp
    qed
    then show ?thesis using False by simp
  qed
qed

text \<open>How many blocks a call needs, and what it counts as needed.\<close>

definition slots :: "cached_request \<Rightarrow> nat \<Rightarrow> nat \<Rightarrow> nat \<Rightarrow> kv_manager \<Rightarrow> nat" where
  "slots r num_new num_new_computed lookahead m =
     min (cr_num_computed_tokens r + num_new_computed + num_new + lookahead) (cache_max_model_len m)"

definition missing :: "string \<Rightarrow> nat \<Rightarrow> nat list \<Rightarrow> kv_manager \<Rightarrow> int" where
  "missing rid num_tokens hits m = utils_cdiv (int num_tokens) (int (cache_block_size m)) - int (length hits) - int (length (req_blocks m rid))"

definition evictable :: "block_pool \<Rightarrow> nat list \<Rightarrow> nat" where
  "evictable p hits = length (filter (\<lambda>i. refs p i = 0) hits)"

lemma get_new_blocks_0: "block_pool_ok p xs \<Longrightarrow> get_new_blocks 0 p = Inr ([], p)"
  using bp.free_count [of p xs] by (simp add: get_new_blocks_def popleft_n_def Let_def)

lemma allocate_new_blocks_alt:
  assumes "block_pool_ok (pool m) xs"
  shows "allocate_new_blocks rid n m =
    bind_res (get_new_blocks (nat (utils_cdiv (int n) (int (cache_block_size m)) - int (length (req_blocks m rid)))) (pool m))
      (\<lambda>(new_blocks, p). Inr (new_blocks, set_req_blocks rid (req_blocks m rid @ new_blocks) (m\<lparr>pool := p\<rparr>)))"
  using get_new_blocks_0 [OF assms] by (simp add: allocate_new_blocks_def Let_def)

lemma num_blocks_to_allocate:
  assumes ok: "block_pool_ok (pool m) xs" and h: "\<And>b. b \<in> set hits \<Longrightarrow> 0 < b"
  shows "get_num_blocks_to_allocate rid n hits m = (missing rid n hits m + int (evictable (pool m) hits), set_req_blocks rid (req_blocks m rid) m)"
proof -
  have "filter (\<lambda>i. ref_cnt (block (pool m) i) = 0 \<and> \<not> is_null (block (pool m) i)) hits = filter (\<lambda>i. refs (pool m) i = 0) hits"
    using h blocks_okD(4) [OF ok] by (intro filter_cong) auto
  then show ?thesis unfolding get_num_blocks_to_allocate_def Let_def missing_def evictable_def by simp
qed

lemma allocate_slots_short:
  assumes ok: "manager_ok f seed m live xs" and f: "collision_free f seed" and r: "live (cr_id r) = Some (cr_input r)"
    and hits: "hits = (case new of None \<Rightarrow> [] | Some bs \<Rightarrow> bs)" and m: "may_grow m (cr_id r) hits c" and n: "num_new \<noteq> 0"
    and short: "int (length xs) < missing (cr_id r) (slots r num_new nc look m) hits m + int (evictable (pool m) hits)"
  shows "allocate_slots f seed r num_new nc new look delay m = Inr (None, set_req_blocks (cr_id r) (req_blocks m (cr_id r)) m)"
proof -
  note o = manager_okD [OF ok]
  have "hits_ok m (cr_id r) hits" using m by (simp add: may_grow_def)
  note hf = hits_facts [OF ok f r this]
  show ?thesis
    unfolding allocate_slots_def Let_def slots_def [symmetric] hits [symmetric] using n short bp.free_count [OF o(1)] hf(2)
    by (subst num_blocks_to_allocate [OF o(1)]) simp_all
qed

lemma allocate_slots_core:
  assumes ok: "manager_ok f seed m live xs" and f: "collision_free f seed" and r: "live (cr_id r) = Some (cr_input r)"
    and hits: "hits = (case new of None \<Rightarrow> [] | Some bs \<Rightarrow> bs)" and m: "may_grow m (cr_id r) hits c" and n: "num_new \<noteq> 0"
    and enough: "missing (cr_id r) (slots r num_new nc look m) hits m + int (evictable (pool m) hits) \<le> int (length xs)"
  shows "\<exists>taken p' ys. gives (pool m) xs hits taken p' \<and> block_pool_ok p' ys \<and>
    length taken = nat (missing (cr_id r) (slots r num_new nc look m) hits m) \<and>
    allocate_slots f seed r num_new nc new look delay m =
      (let m' = grown m (cr_id r) (req_blocks m (cr_id r) @ hits @ taken) c p'
       in if \<not> enable_caching (pool m) \<or> delay then Inr (Some taken, m')
          else bind_res (group_cache_blocks f seed (cr_id r) (cr_input r) (min (cr_num_computed_tokens r + nc + num_new) (cr_num_tokens r)) m')
            (\<lambda>m. Inr (Some taken, m)))"
proof -
  note o = manager_okD [OF ok]
  let ?id = "cr_id r"
  define sl where "sl = slots r num_new nc look m"
  define k where "k = nat (missing ?id sl hits m)"
  have "hits_ok m ?id hits" using m by (simp add: may_grow_def)
  note hf = hits_facts [OF ok f r this]
  have "k = 0 \<or> int k + int (length (filter (\<lambda>i. refs (pool m) i = 0) hits)) \<le> get_num_free_blocks (pool m)"
    using enough bp.free_count [OF o(1)] unfolding k_def sl_def evictable_def by linarith
  then obtain ys p1 p2 where p: "touch [hits] (pool m) = Inr p1" "block_pool_ok p1 ys" "same_setup (pool m) p1"
    "ys = filter (\<lambda>j. j \<notin> set hits) xs" "k \<le> length ys" "get_new_blocks k p1 = Inr (take k ys, p2)" "block_pool_ok p2 (drop k ys)"
    "same_setup (pool m) p2" "\<And>j. refs p2 j = (if j \<in> set (take k ys) then 1 else refs (pool m) j + int (count_list hits j))"
    "\<And>j. tag p2 j = (if j \<in> set (take k ys) \<and> enable_caching (pool m) then None else tag (pool m) j)"
    using bp.share_alloc [OF o(1), of hits k] hf(2) by blast
  have g: "gives (pool m) xs hits (take k ys) p2"
    unfolding gives_def using p(4,8,9,10) bp.free_distinct [OF p(2)] set_take_subset [of k ys] by (auto intro: distinct_take)
  let ?b = "req_blocks m ?id"
  let ?m0 = "set_req_blocks ?id ?b m"
  let ?m1 = "?m0\<lparr>pool := p1\<rparr>"
  have t: "(if enable_caching (pool m) then bind_res (touch [hits] (pool m)) (\<lambda>p. Inr (?m0\<lparr>pool := p\<rparr>))
      else if hits \<noteq> [] then Inl AssertionError else Inr ?m0) = Inr ?m1"
  proof (cases "enable_caching (pool m)")
    case False
    then have "hits = []" using \<open>hits_ok m ?id hits\<close> by (simp add: hits_ok_def)
    then have "p1 = pool m" using p(1) by (simp add: touch_def)
    then show ?thesis using False \<open>hits = []\<close> by (simp add: set_req_blocks_def)
  qed (simp add: p(1))
  let ?m2 = "grown m ?id (?b @ hits) c p1"
  have sv: "save_new_computed_blocks ?id hits ?m1 = Inr ?m2"
  proof (cases "num_cached_block m ?id")
    case None
    then have "?b = []" "c = length hits" using o(6) [of ?id] m by (auto simp: held_ok_def may_grow_def)
    then show ?thesis using None by (simp add: save_new_computed_blocks_def grown_def set_req_blocks_def)
  next
    case (Some d)
    then have "hits = []" "d = c" using m by (auto simp: may_grow_def)
    then show ?thesis using Some by (simp add: save_new_computed_blocks_def grown_def set_req_blocks_def fun_upd_idem)
  qed
  have k': "nat (utils_cdiv (int sl) (int (cache_block_size ?m2)) - int (length (req_blocks ?m2 ?id))) = k"
    unfolding k_def missing_def by (simp add: algebra_simps)
  have al: "allocate_new_blocks ?id sl ?m2 = Inr (take k ys, grown m ?id (?b @ hits @ take k ys) c p2)"
    unfolding allocate_new_blocks_alt [of ?m2, unfolded grown_simps(1), OF p(2)] k' grown_simps(1) p(6)
    by (simp add: grown_def set_req_blocks_def)
  have cc: "enable_caching p2 = enable_caching (pool m)" using p(8) by (simp add: same_setup_def)
  have nb: "get_num_blocks_to_allocate ?id sl hits m = (missing ?id sl hits m + int (evictable (pool m) hits), ?m0)"
    using num_blocks_to_allocate [OF o(1)] hf(2) by blast
  have "\<not> get_num_free_blocks (pool m) < missing ?id sl hits m + int (evictable (pool m) hits)"
    using enough bp.free_count [OF o(1)] unfolding sl_def by simp
  then have "allocate_slots f seed r num_new nc new look delay m =
      (let m' = grown m ?id (?b @ hits @ take k ys) c p2
       in if \<not> enable_caching (pool m) \<or> delay then Inr (Some (take k ys), m')
          else bind_res (group_cache_blocks f seed ?id (cr_input r) (min (cr_num_computed_tokens r + nc + num_new) (cr_num_tokens r)) m')
            (\<lambda>m. Inr (Some (take k ys), m)))"
    unfolding allocate_slots_def Let_def slots_def [symmetric] hits [symmetric] sl_def [symmetric] nb prod.case set_req_simps t bind_res_Inr sv al
    using n cc by simp
  moreover have "length (take k ys) = k" using p(5) by simp
  ultimately show ?thesis using g p(7) unfolding sl_def k_def by blast
qed

section \<open>Caching and freeing the blocks of a request\<close>

lemma group_cache_blocks_ok:
  assumes ok: "manager_ok f seed m live xs" and r: "live rid = Some r" and c: "num_cached_block m rid = Some c"
    and n: "c \<le> n div cache_block_size m" "n div cache_block_size m \<le> length (req_blocks m rid)" "n \<le> length (all_token_ids r)"
    and ev: "enable_kv_cache_events (pool m) \<longrightarrow> lora_int_id r = None" and e: "enable_caching (pool m)"
  shows "\<exists>m'. group_cache_blocks f seed rid r n m = Inr m' \<and> manager_ok f seed m' live xs \<and> req_blocks m' = req_blocks m \<and>
    num_cached_block m' = (num_cached_block m)(rid \<mapsto> n div cache_block_size m) \<and> same_setup (pool m) (pool m') \<and>
    cache_block_size m' = cache_block_size m \<and> cache_max_model_len m' = cache_max_model_len m \<and> (\<forall>i. refs (pool m') i = refs (pool m) i)"
proof -
  note o = manager_okD [OF ok]
  let ?bl = "req_blocks m rid" and ?hs = "req_hashes m rid" and ?bs = "cache_block_size m" and ?n = "n div cache_block_size m"
  let ?new = "take (?n - c) (drop c ?bl)"
  have i: "inputs_ok r" "hashes_of f seed ?bs r ?hs" using o(7) [of rid] r by (simp_all add: input_hashed_def)
  have t: "tagged (pool m) ?bl ?hs c" "distinct ?bl" "\<forall>b \<in> set ?bl. 0 < b \<and> b < num_gpu_blocks (pool m)"
    using o(6) [of rid] c by (simp_all add: held_ok_def)
  note t' = t(1) [unfolded tagged_def]
  have tok: "?n * ?bs \<le> length (all_token_ids r)" using n(3) by (metis div_times_less_eq_dividend order_trans)
  have "c \<le> length ?hs" using t' by blast
  define hs' where "hs' = extend_hashes f seed r ?bs ?hs"
  have "\<exists>p'. cache_full_blocks f seed r ?bl ?hs c ?n ?bs 0 (pool m) = Inr (p', hs' ?n) \<and> block_pool_ok p' xs \<and> same_setup (pool m) p' \<and>
    (\<forall>j. refs p' j = refs (pool m) j) \<and> (\<forall>i. c \<le> i \<and> i < ?n \<longrightarrow> tag p' (?bl ! i) = Some (key (hs' ?n ! i))) \<and>
    (\<forall>j. j \<notin> set ?new \<longrightarrow> tag p' j = tag (pool m) j)"
  proof (rule cache_full_blocks_ok [OF o(1) n(1,2) \<open>c \<le> length ?hs\<close> i(1) tok ev])
    show "distinct ?new" using t(2) by (simp add: distinct_take distinct_drop)
    show "0 < ?bl ! i \<and> ?bl ! i < num_gpu_blocks (pool m) \<and> tag (pool m) (?bl ! i) = None" if "c \<le> i" "i < ?n" for i
    proof -
      have "i < length ?bl" using that n(2) by simp
      then show ?thesis using t' t(3) that(1) nth_mem by blast
    qed
    show "tag (pool m) (?bl ! (c - 1)) = Some (key (?hs ! (c - 1)))" if "0 < c" using t' that by simp
  qed (rule hs'_def)
  then obtain p' where p': "cache_full_blocks f seed r ?bl ?hs c ?n ?bs 0 (pool m) = Inr (p', hs' ?n)" "block_pool_ok p' xs"
    "same_setup (pool m) p'" "\<And>j. refs p' j = refs (pool m) j"
    "\<And>i. c \<le> i \<Longrightarrow> i < ?n \<Longrightarrow> tag p' (?bl ! i) = Some (key (hs' ?n ! i))" "\<And>j. j \<notin> set ?new \<Longrightarrow> tag p' j = tag (pool m) j" by blast
  let ?m = "set_req_hashes rid (hs' ?n) (set_req_blocks rid ?bl (m\<lparr>pool := p', num_cached_block := (num_cached_block m)(rid \<mapsto> ?n)\<rparr>))"
  have idx: "\<exists>j. c \<le> j \<and> j < ?n \<and> b = ?bl ! j" if b: "b \<in> set ?new" for b
  proof -
    obtain i where "i < ?n - c" "b = ?bl ! (c + i)" using b n(2) by (auto simp: in_set_conv_nth)
    then show ?thesis by (intro exI [of _ "c + i"]) simp
  qed
  have nn: "num_gpu_blocks p' = num_gpu_blocks (pool m)" using p'(3) by (simp add: same_setup_def)
  have "tagged p' ?bl (hs' ?n) ?n"
    unfolding tagged_def
  proof (intro conjI allI impI)
    show "?n \<le> length (hs' ?n)" by (simp add: hs'_def extend_hashes_length)
    show "tag p' (?bl ! i) = Some (key (hs' ?n ! i))" if "i < ?n" for i
    proof (cases "c \<le> i")
      case False
      have "?bl ! i \<notin> set ?new"
      proof
        assume "?bl ! i \<in> set ?new"
        then obtain j where "c \<le> j" "j < ?n" "?bl ! i = ?bl ! j" using idx by blast
        then show False using t(2) that n(2) False by (simp add: nth_eq_iff_index_eq)
      qed
      moreover have "hs' ?n ! i = ?hs ! i" unfolding hs'_def using extend_hashes_nth [of i f seed r ?bs ?hs 0 ?n] False t' by simp
      ultimately show ?thesis using p'(6) False t' by simp
    qed (use p'(5) that in blast)
    fix i assume i: "?n \<le> i \<and> i < length ?bl"
    have "?bl ! i \<notin> set ?new"
    proof
      assume "?bl ! i \<in> set ?new"
      then obtain j where "j < ?n" "?bl ! i = ?bl ! j" using idx by blast
      then show False using t(2) i by (simp add: nth_eq_iff_index_eq)
    qed
    then show "tag p' (?bl ! i) = None" "refs p' (?bl ! i) = 1" using p'(4,6) t' i n(1) by auto
  qed (rule n(2))
  then have own: "held_ok p' ?bl (hs' ?n) (Some ?n)" using t(2,3) nn by (simp add: held_ok_def)
  have other: "held_ok p' (req_blocks m rid') (req_hashes m rid') (num_cached_block m rid')" if "rid' \<noteq> rid" for rid'
    using o(6) [of rid'] nn
  proof (rule held_ok_cong)
    fix b assume b: "b \<in> set (req_blocks m rid')"
    have "b \<notin> set ?new"
    proof
      assume "b \<in> set ?new"
      then obtain j where j: "c \<le> j" "j < ?n" "b = ?bl ! j" using idx by blast
      then have "j < length ?bl" using n(2) by simp
      then have "b \<in> set ?bl" "refs (pool m) b = 1" using t' j by auto
      then show False using private_block [OF ok _ b] that by blast
    qed
    then show "tag p' b = tag (pool m) b" by (rule p'(6))
  qed (rule p'(4))
  have "manager_ok f seed ?m live xs"
  proof (rule manager_okI)
    show "block_pool_ok (pool ?m) xs" "0 < cache_block_size ?m" using p'(2) o(2) by simp_all
    show "finite (dom (req_to_blocks ?m))" using o(3) by (simp add: set_req_blocks_def)
    have "holders ?m i = holders m i" for i unfolding holders_def by simp
    then show "refs (pool ?m) i = int (card (holders ?m i))" if "0 < i" for i using o(4) [OF that] p'(4) by simp
    show "\<not> enable_caching (pool ?m) \<Longrightarrow> tag (pool ?m) i = None" for i using e p'(3) by (simp add: same_setup_def)
    show "held_ok (pool ?m) (req_blocks ?m rid') (req_hashes ?m rid') (num_cached_block ?m rid')" for rid'
      using own other by (cases "rid' = rid") simp_all
    have "hashes_of f seed ?bs r (hs' ?n)" unfolding hs'_def by (rule hashes_of_extend [OF i(2,1) tok])
    then show "input_hashed f seed (cache_block_size ?m) (live rid') (req_hashes ?m rid') (num_cached_block ?m rid')" for rid'
      using o(7) [of rid'] r i(1) by (cases "rid' = rid") (simp_all add: input_hashed_def)
  qed
  moreover have "group_cache_blocks f seed rid r n m = Inr ?m" using c p'(1) by (simp add: group_cache_blocks_def Let_def)
  ultimately show ?thesis using p'(3,4) by (intro exI [of _ ?m]) (simp add: fun_upd_idem)
qed

text \<open>Freed blocks lose one holder. Those without holders go to the end of the queue, the last block of the
  request first, and keep their hashes there.\<close>

lemma group_free_ok:
  assumes ok: "manager_ok f seed m live xs"
  shows "\<exists>m'. group_free rid m = Inr m' \<and>
    manager_ok f seed m' live (xs @ filter (\<lambda>i. refs (pool m) i = 1) (rev (req_blocks m rid))) \<and>
    req_blocks m' = (req_blocks m)(rid := []) \<and> num_cached_block m' = (num_cached_block m)(rid := None) \<and>
    req_to_block_hashes m' = req_to_block_hashes m \<and> same_setup (pool m) (pool m') \<and> cache_block_size m' = cache_block_size m \<and>
    cache_max_model_len m' = cache_max_model_len m \<and> (\<forall>i. tag (pool m') i = tag (pool m) i) \<and> (\<forall>i. refs (pool m') i = refs (pool m) i - (if i \<in> set (req_blocks m rid) then 1 else 0))"
proof -
  note o = manager_okD [OF ok]
  let ?bl = "req_blocks m rid"
  have d: "distinct ?bl" "\<And>b. b \<in> set ?bl \<Longrightarrow> 0 < b \<and> b < num_gpu_blocks (pool m)"
    using o(6) [of rid] by (auto simp: held_ok_def)
  have cnt: "count_list (rev ?bl) i = (if i \<in> set ?bl then 1 else 0)" for i using count_list_distinct [of "rev ?bl" i] d(1) by simp
  have nz: "filter (\<lambda>i. i \<noteq> 0 \<and> refs (pool m) i = 1) (rev ?bl) = filter (\<lambda>i. refs (pool m) i = 1) (rev ?bl)" (is "_ = ?ys")
    using d(2) by (intro filter_cong) auto
  have dn: "distinct (filter (\<lambda>i. i \<noteq> 0) (rev ?bl))" using d(1) by simp
  have rg: "i < num_gpu_blocks (pool m) \<and> 0 < refs (pool m) i" if "i \<in> set (rev ?bl)" for i
    using that d(2) held_refs(1) [OF ok, of i rid] by simp
  obtain p where p: "free_blocks (rev ?bl) (pool m) = Inr p" "block_pool_ok p (xs @ ?ys)" "same_setup (pool m) p"
    "\<And>i. refs p i = refs (pool m) i - (if i \<in> set ?bl then 1 else 0)" "\<And>i. tag p i = tag (pool m) i"
    using bp.release_ok [OF o(1) dn] rg unfolding nz cnt by auto
  let ?m = "m\<lparr>pool := p, req_to_blocks := (req_to_blocks m)(rid := None), num_cached_block := (num_cached_block m)(rid := None)\<rparr>"
  have rb: "req_blocks ?m = (req_blocks m)(rid := [])" by (simp add: req_blocks_def fun_eq_iff)
  have H: "holders ?m i = holders m i - {rid}" for i unfolding holders_def rb by auto
  have "manager_ok f seed ?m live (xs @ ?ys)"
  proof (rule manager_okI)
    show "block_pool_ok (pool ?m) (xs @ ?ys)" "0 < cache_block_size ?m" using p(2) o(2) by simp_all
    show "finite (dom (req_to_blocks ?m))" using o(3) by simp
    show "refs (pool ?m) i = int (card (holders ?m i))" if "0 < i" for i
    proof (cases "i \<in> set ?bl")
      case True
      then have "rid \<in> holders m i" by (simp add: holders_def)
      then have "card (holders m i) = Suc (card (holders m i - {rid}))" using card.remove [OF finite_holders [OF ok]] by blast
      then show ?thesis using o(4) [OF that] p(4) True by (simp add: H)
    next
      case False
      then have "rid \<notin> holders m i" by (simp add: holders_def)
      then show ?thesis using o(4) [OF that] p(4) False by (simp add: H)
    qed
    show "\<not> enable_caching (pool ?m) \<Longrightarrow> tag (pool ?m) i = None" for i using o(5) p(3,5) by (simp add: same_setup_def)
    show "held_ok (pool ?m) (req_blocks ?m rid') (req_hashes ?m rid') (num_cached_block ?m rid')" for rid'
    proof (cases "rid' = rid")
      case False
      have "held_ok p (req_blocks m rid') (req_hashes m rid') (num_cached_block m rid')"
        using o(6) [of rid']
      proof (rule held_ok_cong)
        fix b assume b: "b \<in> set (req_blocks m rid')" "tag (pool m) b = None"
        then have "refs (pool m) b = 1" by (rule held_private [OF o(6)])
        then have "b \<notin> set ?bl" using private_block [OF ok b(1)] False by blast
        then show "refs p b = refs (pool m) b" using p(4) by simp
      qed (use p(3,5) in \<open>simp_all add: same_setup_def\<close>)
      then show ?thesis using False rb by simp
    qed (simp add: rb held_ok_def)
    show "input_hashed f seed (cache_block_size ?m) (live rid') (req_hashes ?m rid') (num_cached_block ?m rid')" for rid'
      using o(7) [of rid'] by (cases "live rid'"; cases "rid' = rid") (simp_all add: input_hashed_def)
  qed
  moreover have "group_free rid m = Inr ?m" by (simp add: group_free_def p(1))
  moreover have "same_setup (pool m) (pool ?m)" "\<forall>i. tag (pool ?m) i = tag (pool m) i" "cache_block_size ?m = cache_block_size m"
    "cache_max_model_len ?m = cache_max_model_len m" "\<forall>i. refs (pool ?m) i = refs (pool m) i - (if i \<in> set ?bl then 1 else 0)" "req_to_block_hashes ?m = req_to_block_hashes m"
    "num_cached_block ?m = (num_cached_block m)(rid := None)" using p(3-5) by simp_all
  ultimately show ?thesis using rb by blast
qed

text \<open>Requests that leave, arrive or grow.\<close>

lemma manager_ok_finish:
  assumes ok: "manager_ok f seed m live xs" and n: "num_cached_block m (cr_id r) = None"
  shows "manager_ok f seed (free_block_hashes r m) (live(cr_id r := None)) xs"
proof (rule manager_okI)
  note o = manager_okD [OF ok]
  let ?m = "free_block_hashes r m"
  have f: "pool ?m = pool m" "req_blocks ?m = req_blocks m" "num_cached_block ?m = num_cached_block m" "cache_block_size ?m = cache_block_size m"
    "req_to_blocks ?m = req_to_blocks m" "req_hashes ?m = (req_hashes m)(cr_id r := [])"
    by (auto simp: free_block_hashes_def req_hashes_def fun_eq_iff)
  show "block_pool_ok (pool ?m) xs" "0 < cache_block_size ?m" "finite (dom (req_to_blocks ?m))" using o(1-3) by (simp_all add: f)
  show "refs (pool ?m) i = int (card (holders ?m i))" if "0 < i" for i using o(4) [OF that] by (simp add: f holders_def)
  show "\<not> enable_caching (pool ?m) \<Longrightarrow> tag (pool ?m) i = None" for i using o(5) by (simp add: f)
  show "held_ok (pool ?m) (req_blocks ?m rid) (req_hashes ?m rid) (num_cached_block ?m rid)" for rid
    using o(6) [of rid] n by (cases "rid = cr_id r") (simp_all add: f held_ok_def)
  show "input_hashed f seed (cache_block_size ?m) ((live(cr_id r := None)) rid) (req_hashes ?m rid) (num_cached_block ?m rid)" for rid
    using o(7) [of rid] n by (cases "rid = cr_id r") (simp_all add: f input_hashed_def)
qed

lemma manager_ok_live:
  assumes ok: "manager_ok f seed m live xs"
    and r: "input_hashed f seed (cache_block_size m) (Some r) (req_hashes m rid) (num_cached_block m rid)"
  shows "manager_ok f seed m (live(rid \<mapsto> r)) xs"
  using manager_okD [OF ok] r by (intro manager_okI) simp_all

lemma manager_reset_ok:
  assumes ok: "manager_ok f seed m live xs"
  shows "manager_ok f seed (snd (manager_reset_prefix_cache m)) live xs"
    and "fst (manager_reset_prefix_cache m) \<longleftrightarrow> (\<forall>rid. req_blocks m rid = [])"
proof -
  note o = manager_okD [OF ok]
  let ?m = "snd (manager_reset_prefix_cache m)"
  note rs = reset_prefix_cache_ok [OF o(1)]
  have f: "pool ?m = snd (reset_prefix_cache (pool m))" "req_blocks ?m = req_blocks m" "req_hashes ?m = req_hashes m"
    "num_cached_block ?m = num_cached_block m" "cache_block_size ?m = cache_block_size m" "req_to_blocks ?m = req_to_blocks m"
    by (simp_all add: manager_reset_prefix_cache_def Let_def req_blocks_def req_hashes_def fun_eq_iff split: prod.splits)
  have fst: "fst (manager_reset_prefix_cache m) = fst (reset_prefix_cache (pool m))"
    by (cases "reset_prefix_cache (pool m)") (simp add: manager_reset_prefix_cache_def Let_def)
  show iff: "fst (manager_reset_prefix_cache m) \<longleftrightarrow> (\<forall>rid. req_blocks m rid = [])"
    unfolding fst
  proof
    assume "fst (reset_prefix_cache (pool m))"
    then have z: "\<And>i. 0 < i \<Longrightarrow> i < num_gpu_blocks (pool m) \<Longrightarrow> refs (pool m) i = 0" using rs(1) by blast
    show "\<forall>rid. req_blocks m rid = []"
    proof
      fix rid
      have "b \<notin> set (req_blocks m rid)" for b
        using held_refs(1) [OF ok, of b rid] z [of b] held_range [OF o(6), of b rid] by auto
      then show "req_blocks m rid = []" by (cases "req_blocks m rid") auto
    qed
  next
    assume "\<forall>rid. req_blocks m rid = []"
    then have "holders m i = {}" for i by (simp add: holders_def)
    then show "fst (reset_prefix_cache (pool m))" using rs(1) o(4) by simp
  qed
  then have e: "fst (reset_prefix_cache (pool m)) \<Longrightarrow> req_blocks m rid = []" for rid
    by (simp add: fst)
  show "manager_ok f seed ?m live xs"
  proof (rule manager_okI)
    show "block_pool_ok (pool ?m) xs" "0 < cache_block_size ?m" "finite (dom (req_to_blocks ?m))" using rs(2) o(2,3) by (simp_all add: f)
    show "refs (pool ?m) i = int (card (holders ?m i))" if "0 < i" for i using o(4) [OF that] rs(4) by (simp add: f holders_def)
    show "\<not> enable_caching (pool ?m) \<Longrightarrow> tag (pool ?m) i = None" for i using o(5) rs(3,5) by (simp add: f same_setup_def)
    show "held_ok (pool ?m) (req_blocks ?m rid) (req_hashes ?m rid) (num_cached_block ?m rid)" for rid
      using o(6) [of rid]
      unfolding f
    proof (rule held_ok_cong)
      show "num_gpu_blocks (snd (reset_prefix_cache (pool m))) = num_gpu_blocks (pool m)" using rs(3) by (simp add: same_setup_def)
      show "tag (snd (reset_prefix_cache (pool m))) b = tag (pool m) b" if "b \<in> set (req_blocks m rid)" for b
        using rs(5) e [of rid] that by auto
    qed (rule rs(4))
    show "input_hashed f seed (cache_block_size ?m) (live rid) (req_hashes ?m rid) (num_cached_block ?m rid)" for rid
      using o(7) by (simp add: f)
  qed
qed

section \<open>Allocation\<close>

lemma utils_cdiv_ge: "0 < b \<Longrightarrow> a \<le> utils_cdiv a b * b"
proof -
  assume b: "0 < b"
  have "(- a) div b * b \<le> - a" using pos_mod_sign [OF b, of "- a"] div_mult_mod_eq [of "- a" b] by linarith
  then show ?thesis by (simp add: utils_cdiv_def div_minus_right)
qed

text \<open>What a caller of \<^verbatim>\<open>allocate_slots\<close> respects: there are new tokens, the request fits the model, its cached blocks
  lie among its computed and new tokens, and events are not combined with adapters.\<close>

definition call_ok :: "kv_manager \<Rightarrow> cached_request \<Rightarrow> nat \<Rightarrow> nat \<Rightarrow> nat \<Rightarrow> bool" where
  "call_ok m r num_new num_new_computed c \<longleftrightarrow> 0 < num_new \<and> cr_num_tokens r \<le> cache_max_model_len m \<and>
     c * cache_block_size m \<le> cr_num_computed_tokens r + num_new_computed + num_new \<and>
     (enable_kv_cache_events (pool m) \<longrightarrow> lora_int_id (cr_input r) = None)"

text \<open>The outcome: either the free blocks do not suffice and nothing happens, or the request has room for all its
  tokens and its new blocks were free before.\<close>

definition outcome :: "kv_manager \<Rightarrow> string \<Rightarrow> nat \<Rightarrow> nat list \<Rightarrow> nat list option \<Rightarrow> kv_manager \<Rightarrow> bool" where
  "outcome m rid num_tokens hits res m' = (case res of
     None \<Rightarrow> get_num_free_blocks (pool m) < missing rid num_tokens hits m + int (evictable (pool m) hits) \<and>
       pool m' = pool m \<and> req_blocks m' = req_blocks m \<and> num_cached_block m' = num_cached_block m
   | Some taken \<Rightarrow> req_blocks m' = (req_blocks m)(rid := req_blocks m rid @ hits @ taken) \<and>
       num_tokens \<le> length (req_blocks m' rid) * cache_block_size m \<and> length taken = nat (missing rid num_tokens hits m) \<and>
       (\<forall>b \<in> set taken. holders m b = {} \<and> b \<notin> set hits))"

text \<open>What a call leaves alone, and how far the cached blocks of the request reach afterwards.\<close>

definition same_frame :: "kv_manager \<Rightarrow> kv_manager \<Rightarrow> bool" where
  "same_frame m m' \<longleftrightarrow> same_setup (pool m) (pool m') \<and> cache_block_size m' = cache_block_size m \<and> cache_max_model_len m' = cache_max_model_len m"

lemma same_frame_trans: "same_frame m m' \<Longrightarrow> same_frame m' m'' \<Longrightarrow> same_frame m m''"
  by (auto simp: same_frame_def intro: same_setup_trans)

lemma same_blocks_frame: "same_blocks m m' \<Longrightarrow> same_frame m m'"
  by (simp add: same_blocks_def same_frame_def)

definition advances :: "kv_manager \<Rightarrow> string \<Rightarrow> nat \<Rightarrow> nat list option \<Rightarrow> kv_manager \<Rightarrow> bool" where
  "advances m rid n res m' \<longleftrightarrow> same_frame m m' \<and> (\<forall>rid'. rid' \<noteq> rid \<longrightarrow> num_cached_block m' rid' = num_cached_block m rid') \<and>
     (res \<noteq> None \<longrightarrow> (\<exists>c. num_cached_block m' rid = Some c \<and> c * cache_block_size m \<le> n))"

lemma enough_slots:
  assumes "0 < cache_block_size m" "length taken = nat (missing rid n hits m)"
  shows "n \<le> length (req_blocks m rid @ hits @ taken) * cache_block_size m"
proof -
  let ?bs = "int (cache_block_size m)" and ?l = "length (req_blocks m rid @ hits @ taken)"
  have "utils_cdiv (int n) ?bs \<le> int ?l" using assms(2) by (simp add: missing_def)
  then have "utils_cdiv (int n) ?bs * ?bs \<le> int ?l * ?bs" by (intro mult_right_mono) simp_all
  moreover have "int n \<le> utils_cdiv (int n) ?bs * ?bs" using assms(1) by (intro utils_cdiv_ge) simp
  ultimately have "int n \<le> int (?l * cache_block_size m)" unfolding of_nat_mult by (rule order_trans [rotated])
  then show ?thesis by (simp only: of_nat_le_iff)
qed

lemma allocate_slots_ok:
  assumes ok: "manager_ok f seed m live xs" and f: "collision_free f seed" and r: "live (cr_id r) = Some (cr_input r)"
    and hits: "hits = (case new of None \<Rightarrow> [] | Some bs \<Rightarrow> bs)" and m: "may_grow m (cr_id r) hits c" and call: "call_ok m r num_new nc c"
  shows "\<exists>res m' ys. allocate_slots f seed r num_new nc new look delay m = Inr (res, m') \<and> manager_ok f seed m' live ys \<and>
    outcome m (cr_id r) (slots r num_new nc look m) hits res m' \<and> advances m (cr_id r) (cr_num_computed_tokens r + nc + num_new) res m'"
proof (cases "int (length xs) < missing (cr_id r) (slots r num_new nc look m) hits m + int (evictable (pool m) hits)")
  case True
  note o = manager_okD [OF ok]
  let ?m = "set_req_blocks (cr_id r) (req_blocks m (cr_id r)) m"
  have "allocate_slots f seed r num_new nc new look delay m = Inr (None, ?m)"
    using allocate_slots_short [OF ok f r hits m _ True] call by (simp add: call_ok_def)
  moreover have "same_blocks m ?m" by (simp add: same_blocks_def fun_upd_idem)
  then have "manager_ok f seed ?m live xs"
    using o(3) by (intro manager_ok_same [OF ok]) (simp_all, simp add: set_req_blocks_def)
  moreover have "outcome m (cr_id r) (slots r num_new nc look m) hits None ?m"
    using True bp.free_count [OF o(1)] by (simp add: outcome_def fun_upd_idem)
  moreover have "advances m (cr_id r) (cr_num_computed_tokens r + nc + num_new) None ?m" by (simp add: advances_def same_frame_def)
  ultimately show ?thesis by blast
next
  case False
  note o = manager_okD [OF ok] and call' = call [unfolded call_ok_def]
  let ?id = "cr_id r" and ?sl = "slots r num_new nc look m" and ?n = "min (cr_num_computed_tokens r + nc + num_new) (cr_num_tokens r)"
  obtain taken p' ys where p: "gives (pool m) xs hits taken p'" "block_pool_ok p' ys" "length taken = nat (missing ?id ?sl hits m)"
    "allocate_slots f seed r num_new nc new look delay m =
      (let m' = grown m ?id (req_blocks m ?id @ hits @ taken) c p'
       in if \<not> enable_caching (pool m) \<or> delay then Inr (Some taken, m')
          else bind_res (group_cache_blocks f seed ?id (cr_input r) ?n m') (\<lambda>m. Inr (Some taken, m)))"
    using allocate_slots_core [OF ok f r hits m, of num_new nc look delay] False call' by (auto simp: not_less)
  let ?m = "grown m ?id (req_blocks m ?id @ hits @ taken) c p'"
  have g: "manager_ok f seed ?m live ys" by (rule grown_ok [OF ok f r m p(1,2)])
  have fr: "\<forall>b \<in> set taken. holders m b = {} \<and> b \<notin> set hits" using p(1) free_not_held [OF ok] unfolding gives_def by blast
  have room: "?sl \<le> length (req_blocks m ?id @ hits @ taken) * cache_block_size m" by (rule enough_slots [OF o(2) p(3)])
  have out: "outcome m ?id ?sl hits (Some taken) m'" if "req_blocks m' = req_blocks ?m" for m'
    using that room fr p(3) by (simp add: outcome_def)
  have same: "same_setup (pool m) p'" using p(1) by (simp add: gives_def)
  have adv: "advances m ?id (cr_num_computed_tokens r + nc + num_new) (Some taken) ?m"
    using same call' by (simp add: advances_def same_frame_def)
  show ?thesis
  proof (cases "\<not> enable_caching (pool m) \<or> delay")
    case True
    then show ?thesis using p(4) g out [OF refl] adv by (auto simp: Let_def)
  next
    case e: False
    have "c \<le> length (req_hashes m ?id)" using manager_okD(6) [OF g, of ?id] by (simp add: held_ok_def tagged_def)
    moreover have "hashes_of f seed (cache_block_size m) (cr_input r) (req_hashes m ?id)" using o(7) [of ?id] r by (simp add: input_hashed_def)
    ultimately have "c * cache_block_size m \<le> cr_num_tokens r"
      using hashes_of_length unfolding cr_num_tokens_def by (meson mult_le_mono1 order_trans)
    then have "c * cache_block_size m \<le> ?n" using call' by simp
    then have c1: "c \<le> ?n div cache_block_size ?m" using o(2) by (simp add: less_eq_div_iff_mult_less_eq)
    have "?n \<le> ?sl" using call' by (auto simp: slots_def min_def)
    then have "?n \<le> length (req_blocks ?m ?id) * cache_block_size m" using room by simp
    then have "?n div cache_block_size m \<le> length (req_blocks ?m ?id) * cache_block_size m div cache_block_size m" by (rule div_le_mono)
    then have c2: "?n div cache_block_size ?m \<le> length (req_blocks ?m ?id)" using o(2) by simp
    have "num_cached_block ?m ?id = Some c" "?n \<le> length (all_token_ids (cr_input r))"
      "enable_kv_cache_events (pool ?m) \<longrightarrow> lora_int_id (cr_input r) = None" "enable_caching (pool ?m)"
      using same call' e by (simp_all add: same_setup_def cr_num_tokens_def)
    from group_cache_blocks_ok [OF g r this(1) c1 c2 this(2-4)]
    obtain m' where m': "group_cache_blocks f seed ?id (cr_input r) ?n ?m = Inr m'" "manager_ok f seed m' live ys"
      "req_blocks m' = req_blocks ?m" "num_cached_block m' = (num_cached_block ?m)(?id \<mapsto> ?n div cache_block_size ?m)"
      "same_setup (pool ?m) (pool m')" "cache_block_size m' = cache_block_size ?m" "cache_max_model_len m' = cache_max_model_len ?m" by blast
    have "?n div cache_block_size m * cache_block_size m \<le> cr_num_computed_tokens r + nc + num_new"
      using div_times_less_eq_dividend [of ?n "cache_block_size m"] by linarith
    then have "advances m ?id (cr_num_computed_tokens r + nc + num_new) (Some taken) m'"
      using m'(4,6,7) same_setup_trans [OF same] m'(5) by (simp add: advances_def same_frame_def)
    then show ?thesis using p(4) out [OF m'(3)] e m'(1,2) by (auto simp: Let_def)
  qed
qed

section \<open>Requests over time\<close>

text \<open>What is common to all calls for a request.\<close>

definition kv_servable :: "kv_manager \<Rightarrow> cached_request \<Rightarrow> nat \<Rightarrow> bool" where
  "kv_servable m r num_new \<longleftrightarrow> 0 < num_new \<and> 0 < cr_num_tokens r \<and> cr_num_tokens r \<le> cache_max_model_len m \<and>
     (enable_kv_cache_events (pool m) \<longrightarrow> lora_int_id (cr_input r) = None)"

text \<open>A running request whose cached blocks lie among the tokens that are or will be computed.\<close>

definition continues :: "kv_manager \<Rightarrow> cached_request \<Rightarrow> nat \<Rightarrow> bool" where
  "continues m r n = (case num_cached_block m (cr_id r) of None \<Rightarrow> False | Some c \<Rightarrow> c * cache_block_size m \<le> n)"

text \<open>The states of the manager together with the inputs of the live requests. Requests arrive, get tokens, are admitted
  (lookup, then allocation), get room for further tokens, are preempted and finished; blocks that were
  received from elsewhere are cached later; the cache is reset.\<close>

inductive kv_served :: "hash_fn \<Rightarrow> int \<Rightarrow> kv_manager \<Rightarrow> (string \<rightharpoonup> kv_request) \<Rightarrow> bool" for f seed where
  start: "KVCacheManager n bs max_len enable_cache eagle log_stats events = Inr m \<Longrightarrow> 0 < bs \<Longrightarrow> kv_served f seed m Map.empty"
| arrive: "kv_served f seed m live \<Longrightarrow> live rid = None \<Longrightarrow> inputs_ok r \<Longrightarrow> kv_served f seed m (live(rid \<mapsto> r))"
| generate: "kv_served f seed m live \<Longrightarrow> live rid = Some r \<Longrightarrow> kv_served f seed m (live(rid \<mapsto> r\<lparr>all_token_ids := all_token_ids r @ ts\<rparr>))"
| lookup: "kv_served f seed m live \<Longrightarrow> live (cr_id r) = Some (cr_input r) \<Longrightarrow> 0 < cr_num_tokens r \<Longrightarrow>
    get_computed_blocks f seed r m = Inr (res, m') \<Longrightarrow> kv_served f seed m' live"
| admit: "kv_served f seed m live \<Longrightarrow> live (cr_id r) = Some (cr_input r) \<Longrightarrow> num_cached_block m (cr_id r) = None \<Longrightarrow> kv_servable m r num_new \<Longrightarrow>
    get_computed_blocks f seed r m = Inr ((hits, num_hit), m1) \<Longrightarrow>
    allocate_slots f seed r num_new num_hit (Some hits) look delay m1 = Inr (res, m') \<Longrightarrow> kv_served f seed m' live"
| extend: "kv_served f seed m live \<Longrightarrow> live (cr_id r) = Some (cr_input r) \<Longrightarrow> kv_servable m r num_new \<Longrightarrow>
    continues m r (cr_num_computed_tokens r + num_new) \<Longrightarrow> allocate_slots f seed r num_new 0 None look delay m = Inr (res, m') \<Longrightarrow>
    kv_served f seed m' live"
| cache_later: "kv_served f seed m live \<Longrightarrow> live (cr_id r) = Some (cr_input r) \<Longrightarrow> kv_servable m r 1 \<Longrightarrow> continues m r n \<Longrightarrow> n \<le> cr_num_tokens r \<Longrightarrow>
    n \<le> length (get_block_ids (cr_id r) m) * cache_block_size m \<Longrightarrow> cache_blocks f seed r n m = Inr m' \<Longrightarrow> kv_served f seed m' live"
| preempt: "kv_served f seed m live \<Longrightarrow> free_request r m = Inr m' \<Longrightarrow> kv_served f seed m' live"
| finish: "kv_served f seed m live \<Longrightarrow> free_request r m = Inr m' \<Longrightarrow> kv_served f seed (free_block_hashes r m') (live(cr_id r := None))"
| reset: "kv_served f seed m live \<Longrightarrow> kv_served f seed (snd (manager_reset_prefix_cache m)) live"
| drain: "kv_served f seed m live \<Longrightarrow> kv_served f seed (snd (manager_take_events m)) live"
| stats: "kv_served f seed m live \<Longrightarrow> kv_served f seed (snd (make_prefix_cache_stats m)) live"
| common: "kv_served f seed m live \<Longrightarrow> get_num_common_prefix_blocks r k m = Inr (res, m') \<Longrightarrow> kv_served f seed m' live"

lemma KVCacheManager_ok:
  assumes "KVCacheManager n bs max_len enable_cache eagle log_stats events = Inr m" "0 < bs"
  shows "\<exists>xs. manager_ok f seed m Map.empty xs"
proof -
  obtain p where p: "BlockPool n enable_cache events = Inr p" and m: "pool m = p" "cache_block_size m = bs" "req_to_blocks m = Map.empty"
    "num_cached_block m = Map.empty" "req_to_block_hashes m = Map.empty"
    using assms(1) by (auto simp: KVCacheManager_def bind_res_eq_Inr)
  have "0 < n" using p by (auto simp: BlockPool_def split: if_splits)
  then obtain k where k: "n = int k" "0 < k" by (metis zero_less_imp_eq_int)
  have q: "block_pool_ok p [1..<k]" "refs p i = 0" "tag p i = None" for i
    using BlockPool_ok [OF k(2), of enable_cache events] p k(1) by auto
  have b: "req_blocks m rid = []" "req_hashes m rid = []" for rid using m by (simp_all add: req_blocks_def req_hashes_def)
  have "manager_ok f seed m Map.empty [1..<k]"
    by (rule manager_okI) (use q assms(2) m b in \<open>simp_all add: holders_def held_ok_def input_hashed_def\<close>)
  then show ?thesis by blast
qed

lemma may_grow_new:
  assumes "num_cached_block m rid = None" "hits_ok m rid hits"
  shows "may_grow m rid hits (length hits)"
  using assms by (simp add: may_grow_def)

lemma admit_ok:
  assumes ok: "manager_ok f seed m live xs" and f: "collision_free f seed" and r: "live (cr_id r) = Some (cr_input r)"
    and n: "num_cached_block m (cr_id r) = None" and s: "kv_servable m r num_new"
  shows "\<exists>hits m1 res m' ys. get_computed_blocks f seed r m = Inr ((hits, length hits * cache_block_size m), m1) \<and>
    hits_ok m1 (cr_id r) hits \<and> length hits * cache_block_size m < cr_num_tokens r \<and> same_blocks m m1 \<and> manager_ok f seed m1 live xs \<and>
    allocate_slots f seed r num_new (length hits * cache_block_size m) (Some hits) look delay m1 = Inr (res, m') \<and>
    manager_ok f seed m' live ys \<and> outcome m1 (cr_id r) (slots r num_new (length hits * cache_block_size m) look m1) hits res m' \<and>
    advances m1 (cr_id r) (cr_num_computed_tokens r + length hits * cache_block_size m + num_new) res m'"
proof -
  have t: "0 < cr_num_tokens r" using s by (simp add: kv_servable_def)
  obtain hits m1 where h: "get_computed_blocks f seed r m = Inr ((hits, length hits * cache_block_size m), m1)" "manager_ok f seed m1 live xs"
    "same_blocks m m1" "hits_ok m1 (cr_id r) hits" "length hits * cache_block_size m < cr_num_tokens r"
    using get_computed_blocks_ok [OF ok r t] by blast
  have g: "may_grow m1 (cr_id r) hits (length hits)" using h(3,4) n by (intro may_grow_new) (simp_all add: same_blocks_def)
  have "call_ok m1 r num_new (length hits * cache_block_size m) (length hits)"
    using s h(3) by (simp add: call_ok_def kv_servable_def same_blocks_def)
  from allocate_slots_ok [OF h(2) f r _ g this, of "Some hits"] h show ?thesis by fastforce
qed

lemma extend_ok:
  assumes ok: "manager_ok f seed m live xs" and f: "collision_free f seed" and r: "live (cr_id r) = Some (cr_input r)"
    and s: "kv_servable m r num_new" and c: "continues m r (cr_num_computed_tokens r + num_new)"
  shows "\<exists>res m' ys. allocate_slots f seed r num_new 0 None look delay m = Inr (res, m') \<and> manager_ok f seed m' live ys \<and>
    outcome m (cr_id r) (slots r num_new 0 look m) [] res m' \<and> advances m (cr_id r) (cr_num_computed_tokens r + num_new) res m'"
proof -
  obtain k where k: "num_cached_block m (cr_id r) = Some k" "k * cache_block_size m \<le> cr_num_computed_tokens r + num_new"
    using c by (auto simp: continues_def split: option.splits)
  have g: "may_grow m (cr_id r) [] k" using k(1) by (simp add: may_grow_def hits_ok_def)
  have "call_ok m r num_new 0 k" using s k(2) by (simp add: call_ok_def kv_servable_def)
  from allocate_slots_ok [OF ok f r _ g this, of None look delay] show ?thesis by simp
qed

lemma cache_later_ok:
  assumes ok: "manager_ok f seed m live xs" and r: "live (cr_id r) = Some (cr_input r)" and s: "kv_servable m r 1" and c: "continues m r n"
    and n: "n \<le> cr_num_tokens r" "n \<le> length (get_block_ids (cr_id r) m) * cache_block_size m"
  shows "\<exists>m'. cache_blocks f seed r n m = Inr m' \<and> manager_ok f seed m' live xs"
proof (cases "enable_caching (pool m)")
  case True
  note o = manager_okD [OF ok]
  obtain k where k: "num_cached_block m (cr_id r) = Some k" "k * cache_block_size m \<le> n"
    using c by (auto simp: continues_def split: option.splits)
  have "k \<le> n div cache_block_size m" using k(2) o(2) by (simp add: less_eq_div_iff_mult_less_eq)
  moreover have "n div cache_block_size m \<le> length (req_blocks m (cr_id r))"
    using div_le_mono [OF n(2), of "cache_block_size m"] o(2) by (simp add: get_block_ids_def)
  ultimately show ?thesis
    using group_cache_blocks_ok [OF ok r k(1) _ _ _ _ True, of n] n(1) s True by (auto simp: cache_blocks_def kv_servable_def cr_num_tokens_def)
next
  case False
  then show ?thesis using ok by (simp add: cache_blocks_def)
qed

lemma manager_ok_fields:
  assumes ok: "manager_ok f seed m live xs" and p: "block (pool m') = block (pool m)" "same_setup (pool m) (pool m')" "block_pool_ok (pool m') xs"
    and b: "req_blocks m' = req_blocks m" "req_hashes m' = req_hashes m" "num_cached_block m' = num_cached_block m"
    "cache_block_size m' = cache_block_size m" "finite (dom (req_to_blocks m'))"
  shows "manager_ok f seed m' live xs"
proof (rule manager_okI)
  note o = manager_okD [OF ok]
  show "held_ok (pool m') (req_blocks m' rid) (req_hashes m' rid) (num_cached_block m' rid)" for rid
    using held_ok_cong [OF o(6) [of rid], of "pool m'"] p b by (simp add: same_setup_def)
qed (use manager_okD [OF ok] p b in \<open>simp_all add: holders_def same_setup_def\<close>)

lemma kv_served_ok:
  assumes "kv_served f seed m live" and f: "collision_free f seed"
  shows "\<exists>xs. manager_ok f seed m live xs"
  using assms(1)
proof induction
  case (start n bs max_len enable_cache eagle log_stats events m)
  then show ?case by (rule KVCacheManager_ok)
next
  case (arrive m live rid r)
  then obtain xs where ok: "manager_ok f seed m live xs" by blast
  have "input_hashed f seed (cache_block_size m) (Some r) (req_hashes m rid) (num_cached_block m rid)"
    using manager_okD(7) [OF ok, of rid] arrive.hyps by (simp add: input_hashed_def)
  then show ?case using manager_ok_live [OF ok] by blast
next
  case (generate m live rid r ts)
  then obtain xs where ok: "manager_ok f seed m live xs" by blast
  have "input_hashed f seed (cache_block_size m) (Some (r\<lparr>all_token_ids := all_token_ids r @ ts\<rparr>)) (req_hashes m rid) (num_cached_block m rid)"
    using manager_okD(7) [OF ok, of rid] generate.hyps(2) by (simp add: input_hashed_def hashes_of_append inputs_ok_def)
  then show ?case using manager_ok_live [OF ok] by blast
next
  case (lookup m live r res m')
  then show ?case using get_computed_blocks_ok by fastforce
next
  case (admit m live r num_new hits num_hit m1 look delay res m')
  then obtain xs where ok: "manager_ok f seed m live xs" by blast
  show ?case using admit_ok [OF ok f admit.hyps(2-4), of look delay] admit.hyps(5,6) by auto
next
  case (extend m live r num_new look delay res m')
  then obtain xs where ok: "manager_ok f seed m live xs" by blast
  show ?case using extend_ok [OF ok f extend.hyps(2-4), of look delay] extend.hyps(5) by auto
next
  case (cache_later m live r n m')
  then obtain xs where ok: "manager_ok f seed m live xs" by blast
  show ?case using cache_later_ok [OF ok cache_later.hyps(2-6)] cache_later.hyps(7) by auto
next
  case (preempt m live r m')
  then obtain xs where ok: "manager_ok f seed m live xs" by blast
  show ?case using group_free_ok [OF ok, of "cr_id r"] preempt.hyps(2) by (auto simp: free_request_def)
next
  case (finish m live r m')
  then obtain xs where ok: "manager_ok f seed m live xs" by blast
  obtain ys where ys: "manager_ok f seed m' live ys" "num_cached_block m' (cr_id r) = None"
    using group_free_ok [OF ok, of "cr_id r"] finish.hyps(2) by (auto simp: free_request_def)
  then show ?case using manager_ok_finish by blast
next
  case (reset m live)
  then show ?case using manager_reset_ok(1) by blast
next
  case (drain m live)
  then obtain xs where ok: "manager_ok f seed m live xs" by blast
  let ?m = "snd (manager_take_events m)"
  have m: "?m = m\<lparr>pool := snd (take_events (pool m))\<rparr>"
    by (simp add: manager_take_events_def split: prod.splits)
  have "manager_ok f seed ?m live xs"
    unfolding m by (rule manager_ok_fields [OF ok]) (use take_events_ok [of "pool m"] manager_okD(1,3) [OF ok] in simp_all)
  then show ?case by blast
next
  case (stats m live)
  then obtain xs where ok: "manager_ok f seed m live xs" by blast
  have "manager_ok f seed (snd (make_prefix_cache_stats m)) live xs"
    by (rule manager_ok_fields [OF ok]) (use manager_okD(1,3) [OF ok] in \<open>simp_all add: make_prefix_cache_stats_def split: option.splits\<close>)
  then show ?case by blast
next
  case (common m live r k res m')
  then obtain xs where ok: "manager_ok f seed m live xs" by blast
  have "m' = m \<or> m' = set_req_blocks (cr_id r) (req_blocks m (cr_id r)) m"
    using common.hyps(2) by (auto simp: get_num_common_prefix_blocks_def group_num_common_prefix_blocks_def split: if_splits)
  moreover have "manager_ok f seed (set_req_blocks (cr_id r) (req_blocks m (cr_id r)) m) live xs"
    by (rule manager_ok_fields [OF ok]) (use manager_okD(1,3) [OF ok] in \<open>simp_all add: fun_upd_idem\<close>, simp add: set_req_blocks_def)
  ultimately show ?case using ok by blast
qed

section \<open>Finding cached blocks again\<close>

lemma hit_loop_length:
  assumes "cache_ok p"
  shows "n \<le> length hs \<Longrightarrow> (\<And>i. i < n \<Longrightarrow> \<exists>b. tag p b = Some (key (hs ! i))) \<Longrightarrow> n \<le> length (hit_loop p [0] hs)"
proof (induction hs arbitrary: n)
  case (Cons h hs)
  show ?case
  proof (cases n)
    case (Suc k)
    obtain b where "tag p b = Some (key h)" using Cons.prems(2) [of 0] Suc by auto
    then have "b \<in> set (cached_ids p (key h))" using cache_okD(3) [OF assms] by blast
    then obtain c cs where c: "cached_block_hash_to_block p (key h) = Some (c # cs)"
      by (cases "cached_block_hash_to_block p (key h)"; cases "cached_ids p (key h)") (auto simp: cached_ids_def)
    have "k \<le> length (hit_loop p [0] hs)"
      using Cons.IH [of k] Cons.prems Suc by (metis Suc_le_mono Suc_less_eq length_Cons nth_Cons_Suc)
    then show ?thesis using c Suc by simp
  qed simp
qed simp

lemma lookup_length:
  assumes ok: "manager_ok f seed m live xs" and e: "enable_caching (pool m)" "\<not> cache_use_eagle m" "\<not> cr_prompt_logprobs r"
    and n: "0 < cr_num_tokens r" and k: "k \<le> (cr_num_tokens r - 1) div cache_block_size m" "k \<le> length (req_hashes m (cr_id r))"
    and t: "\<And>i. i < k \<Longrightarrow> \<exists>b. tag (pool m) b = Some (key (req_hashes m (cr_id r) ! i))"
    and g: "get_computed_blocks f seed r m = Inr ((hits, nh), m')"
  shows "k \<le> length hits"
proof (cases "k = 0")
  case False
  note o = manager_okD [OF ok]
  let ?hs = "req_hashes m (cr_id r)" and ?n = "(cr_num_tokens r - 1) div cache_block_size m"
  have ne: "?hs \<noteq> []" using k(2) False by auto
  have "int (cr_num_tokens r) - 1 = int (cr_num_tokens r - 1)" using n by simp
  then have d: "(int (cr_num_tokens r) - 1) div int (cache_block_size m) = int ?n" by (simp only: zdiv_int)
  have "hits = map hd (hit_loop (pool m) [0] (take ?n ?hs))"
    using g e ne by (simp add: get_computed_blocks_def find_longest_cache_hit_def Let_def d)
  moreover have "k \<le> length (hit_loop (pool m) [0] (take ?n ?hs))"
    using k t by (intro hit_loop_length [OF blocks_okD(8) [OF o(1)]]) simp_all
  ultimately show ?thesis by simp
qed simp

section \<open>A concrete run\<close>

text \<open>A collision-free hash function that computes on two blocks: two requests with a common first block are admitted.\<close>

definition demo_prefix_hash :: hash_fn where
  "demo_prefix_hash x = (if x = (1, [1, 2], None) then - 1 else if x = (- 1, [3, 4], None) then - 2 else demo_hash x)"

definition demo_cached_request :: "string \<Rightarrow> int list \<Rightarrow> nat \<Rightarrow> cached_request" where
  "demo_cached_request rid toks n =
     \<lparr>cr_id = rid, cr_input = demo_kv_request toks None, cr_num_computed_tokens = n, cr_prompt_logprobs = False, cr_running = True\<rparr>"

definition demo_manager :: "kv_manager result" where
  "demo_manager = KVCacheManager 6 2 100 True False False False"

definition demo_admit :: "cached_request \<Rightarrow> kv_manager result \<Rightarrow> kv_manager result" where
  "demo_admit r m0 = bind_res m0 (\<lambda>m. bind_res (get_computed_blocks demo_prefix_hash 1 r m) (\<lambda>((hits, n), m1).
     bind_res (allocate_slots demo_prefix_hash 1 r (cr_num_tokens r - n) n (Some hits) 0 False m1) (\<lambda>(_, m'). Inr m')))"

definition demo_one :: "kv_manager result" where
  "demo_one = demo_admit (demo_cached_request ''a'' [1, 2, 3] 0) demo_manager"

definition demo_two :: "kv_manager result" where
  "demo_two = demo_admit (demo_cached_request ''b'' [1, 2, 9] 0) demo_one"

lemma demo_prefix_hash_ok: "collision_free demo_prefix_hash 1"
  using demo_hash_ok by (auto simp: collision_free_def demo_prefix_hash_def inj_def demo_hash_def)

lemma demo_admit_served:
  assumes m0: "m0 = Inr m" and s: "kv_served demo_prefix_hash 1 m live" and r: "live (cr_id r) = None" "inputs_ok (cr_input r)"
    and m: "num_cached_block m (cr_id r) = None" "kv_servable m r 1"
  shows "\<exists>m'. demo_admit r m0 = Inr m' \<and> kv_served demo_prefix_hash 1 m' (live(cr_id r \<mapsto> cr_input r))"
proof -
  let ?live = "live(cr_id r \<mapsto> cr_input r)"
  have s': "kv_served demo_prefix_hash 1 m ?live" using kv_served.arrive [OF s r] .
  obtain xs where ok: "manager_ok demo_prefix_hash 1 m ?live xs" using kv_served_ok [OF s' demo_prefix_hash_ok] by blast
  have l: "?live (cr_id r) = Some (cr_input r)" by simp
  obtain hits m1 where h: "get_computed_blocks demo_prefix_hash 1 r m = Inr ((hits, length hits * cache_block_size m), m1)"
    "length hits * cache_block_size m < cr_num_tokens r"
    using get_computed_blocks_ok [OF ok l] m(2) by (auto simp: kv_servable_def)
  let ?k = "cr_num_tokens r - length hits * cache_block_size m"
  have v: "kv_servable m r ?k" using m(2) h(2) by (simp add: kv_servable_def)
  obtain res m' where a: "allocate_slots demo_prefix_hash 1 r ?k (length hits * cache_block_size m) (Some hits) 0 False m1 = Inr (res, m')"
    using admit_ok [OF ok demo_prefix_hash_ok l m(1) v, of 0 False] h(1) by auto
  have "demo_admit r m0 = Inr m'" using m0 h(1) a by (simp add: demo_admit_def)
  then show ?thesis using kv_served.admit [OF s' l m(1) v h(1) a] by blast
qed

definition demo_live :: "string \<rightharpoonup> kv_request" where
  "demo_live = [''a'' \<mapsto> demo_kv_request [1, 2, 3] None, ''b'' \<mapsto> demo_kv_request [1, 2, 9] None]"

definition demo_view :: "kv_manager result \<Rightarrow> (nat list \<times> nat list \<times> nat option \<times> nat option \<times> bool \<times> bool \<times> bool \<times> nat \<times> nat) option" where
  "demo_view m0 = (case m0 of Inl _ \<Rightarrow> None | Inr m \<Rightarrow> Some (get_block_ids ''a'' m, get_block_ids ''b'' m, num_cached_block m ''a'',
     num_cached_block m ''b'', enable_caching (pool m), cache_use_eagle m, enable_kv_cache_events (pool m), cache_max_model_len m, cache_block_size m))"

lemma demo_views:
  "demo_view demo_manager = Some ([], [], None, None, True, False, False, 100, 2)"
  "demo_view demo_one = Some ([1, 2], [], Some 1, None, True, False, False, 100, 2)"
  "demo_view demo_two = Some ([1, 2], [1, 3], Some 1, Some 1, True, False, False, 100, 2)"
  by code_simp+

lemma demo_viewD:
  assumes "demo_view m0 = Some v"
  obtains m where "m0 = Inr m" "v = (get_block_ids ''a'' m, get_block_ids ''b'' m, num_cached_block m ''a'', num_cached_block m ''b'',
    enable_caching (pool m), cache_use_eagle m, enable_kv_cache_events (pool m), cache_max_model_len m, cache_block_size m)"
  using assms by (cases m0) (auto simp: demo_view_def)

lemma demo_one_served:
  obtains m where "demo_one = Inr m" "kv_served demo_prefix_hash 1 m [''a'' \<mapsto> demo_kv_request [1, 2, 3] None]"
    "get_block_ids ''a'' m = [1, 2]" "num_cached_block m ''a'' = Some 1" "num_cached_block m ''b'' = None" "enable_caching (pool m)"
    "\<not> cache_use_eagle m" "\<not> enable_kv_cache_events (pool m)" "cache_max_model_len m = 100" "cache_block_size m = 2"
proof -
  obtain m where m: "demo_manager = Inr m" "num_cached_block m ''a'' = None" "cache_max_model_len m = 100" "\<not> enable_kv_cache_events (pool m)"
    using demo_views(1) by (rule demo_viewD) auto
  have s: "kv_served demo_prefix_hash 1 m Map.empty" using m(1) unfolding demo_manager_def by (rule kv_served.start) simp
  obtain m' where m': "demo_one = Inr m'" "kv_served demo_prefix_hash 1 m' [''a'' \<mapsto> demo_kv_request [1, 2, 3] None]"
    using demo_admit_served [OF m(1) s, of "demo_cached_request ''a'' [1, 2, 3] 0"] m(2-4)
    by (auto simp: demo_one_def demo_cached_request_def inputs_ok_def demo_kv_request_def kv_servable_def cr_num_tokens_def)
  show thesis by (rule that [OF m']) (use demo_views(2) [unfolded m'(1)] in \<open>simp_all add: demo_view_def\<close>)
qed

lemma demo_two_served:
  obtains m where "demo_two = Inr m" "kv_served demo_prefix_hash 1 m demo_live" "get_block_ids ''a'' m = [1, 2]" "get_block_ids ''b'' m = [1, 3]"
    "cache_block_size m = 2"
proof -
  obtain m where m: "demo_one = Inr m" "kv_served demo_prefix_hash 1 m [''a'' \<mapsto> demo_kv_request [1, 2, 3] None]"
    "num_cached_block m ''b'' = None" "cache_max_model_len m = 100" "\<not> enable_kv_cache_events (pool m)" by (rule demo_one_served) blast
  obtain m' where m': "demo_two = Inr m'" "kv_served demo_prefix_hash 1 m' demo_live"
    using demo_admit_served [OF m(1,2), of "demo_cached_request ''b'' [1, 2, 9] 0"] m(3-5)
    by (auto simp: demo_two_def demo_live_def demo_cached_request_def inputs_ok_def demo_kv_request_def kv_servable_def cr_num_tokens_def)
  show thesis by (rule that [OF m']) (use demo_views(3) [unfolded m'(1)] in \<open>simp_all add: demo_view_def\<close>)
qed

section \<open>Properties\<close>

text \<open>Property C10. The accounts of the cache always balance. Whatever requests arrive, are admitted, extended, preempted
  and finished: the linked free queue lists, each once, exactly the blocks that no request holds; the reference
  count of every block but the null block is the number of requests that hold it; no request holds a block
  twice or the null block; free, held and null blocks add up to all blocks; and a block is listed in the cache
  under a hash exactly when it carries that hash.\<close>

theorem cache_accounts_balance:
  assumes s: "kv_served f seed m live" and f: "collision_free f seed"
  shows "\<exists>xs. get_all_free_blocks (free_block_queue (pool m)) = Some (Inr (map Block xs)) \<and> distinct xs \<and>
    get_num_free_blocks (pool m) = int (length xs) \<and>
    (\<forall>i. i \<in> set xs \<longleftrightarrow> 0 < i \<and> i < num_gpu_blocks (pool m) \<and> (\<forall>rid. i \<notin> set (get_block_ids rid m))) \<and>
    (\<forall>i > 0. ref_cnt (block (pool m) i) = int (card {rid. i \<in> set (get_block_ids rid m)})) \<and>
    (\<forall>rid. distinct (get_block_ids rid m) \<and> set (get_block_ids rid m) \<subseteq> {1..<num_gpu_blocks (pool m)}) \<and>
    num_gpu_blocks (pool m) = 1 + length xs + card (\<Union>rid. set (get_block_ids rid m)) \<and>
    (\<forall>k i. (\<exists>ids. cached_block_hash_to_block (pool m) k = Some ids \<and> i \<in> set ids) \<longleftrightarrow> block_hash (block (pool m) i) = Some k)"
proof -
  obtain xs where ok: "manager_ok f seed m live xs" using kv_served_ok [OF s f] by blast
  note o = manager_okD [OF ok]
  note b = blocks_okD [OF o(1)]
  let ?n = "num_gpu_blocks (pool m)" and ?held = "\<Union>rid. set (req_blocks m rid)"
  have d: "distinct xs" by (rule bp.free_distinct [OF o(1)])
  have range: "set (req_blocks m rid) \<subseteq> {1..<?n}" for rid using held_range [OF o(6)] by fastforce
  have free: "i \<in> set xs \<longleftrightarrow> 0 < i \<and> i < ?n \<and> (\<forall>rid. i \<notin> set (req_blocks m rid))" for i
  proof (cases "0 < i")
    case True
    have "refs (pool m) i = 0 \<longleftrightarrow> holders m i = {}" using o(4) [OF True] finite_holders [OF ok, of i] by simp
    then show ?thesis using bp.free_iff [OF o(1), of i] by (auto simp: holders_def)
  qed (use bp.free_iff [OF o(1), of i] in simp)
  have "{1..<?n} = set xs \<union> ?held" using free range by fastforce
  moreover have "set xs \<inter> ?held = {}" using free by blast
  moreover have "finite ?held" using range by (meson finite_atLeastLessThan finite_subset UN_least)
  ultimately have "card {1..<?n} = length xs + card ?held" using card_Un_disjoint [of "set xs" ?held] d by (simp add: distinct_card)
  then have count: "?n = 1 + length xs + card ?held" using b(2) by simp
  have cache: "(\<exists>ids. cached_block_hash_to_block (pool m) k = Some ids \<and> i \<in> set ids) \<longleftrightarrow> tag (pool m) i = Some k" for k i
    using cache_okD(3) [OF b(8), of i k] by (cases "cached_block_hash_to_block (pool m) k") (simp_all add: cached_ids_def)
  have "distinct (req_blocks m rid)" for rid using o(6) [of rid] by (simp add: held_ok_def)
  then show ?thesis
    unfolding get_block_ids_def using all_free_ok [OF b(1)] d bp.free_count [OF o(1)] free range count cache o(4) [unfolded holders_def]
    by blast
qed

theorem cache_accounts_balance_witness:
  "\<exists>m xs. demo_two = Inr m \<and> get_all_free_blocks (free_block_queue (pool m)) = Some (Inr (map Block xs)) \<and> set xs \<inter> {1, 2, 3} = {} \<and>
     ref_cnt (block (pool m) 1) = int (card {rid. 1 \<in> set (get_block_ids rid m)}) \<and>
     num_gpu_blocks (pool m) = 1 + length xs + card (\<Union>rid. set (get_block_ids rid m))"
proof -
  obtain m where m: "demo_two = Inr m" "kv_served demo_prefix_hash 1 m demo_live" "get_block_ids ''a'' m = [1, 2]" "get_block_ids ''b'' m = [1, 3]"
    by (rule demo_two_served) blast
  obtain xs where xs: "get_all_free_blocks (free_block_queue (pool m)) = Some (Inr (map Block xs))"
    "\<forall>i. i \<in> set xs \<longleftrightarrow> 0 < i \<and> i < num_gpu_blocks (pool m) \<and> (\<forall>rid. i \<notin> set (get_block_ids rid m))"
    "\<forall>i > 0. ref_cnt (block (pool m) i) = int (card {rid. i \<in> set (get_block_ids rid m)})"
    "num_gpu_blocks (pool m) = 1 + length xs + card (\<Union>rid. set (get_block_ids rid m))"
    using cache_accounts_balance [OF m(2) demo_prefix_hash_ok] by (elim exE conjE) rule
  have "i \<notin> set xs" if "i \<in> set (get_block_ids rid m)" for i rid using xs(2) that by blast
  then have "1 \<notin> set xs" "2 \<notin> set xs" "3 \<notin> set xs" using m(3,4) by (metis list.set_intros)+
  then have "set xs \<inter> {1, 2, 3} = {}" by simp
  moreover have "ref_cnt (block (pool m) 1) = int (card {rid. 1 \<in> set (get_block_ids rid m)})" using xs(3) by simp
  ultimately show ?thesis using m(1) xs(1,4) by blast
qed







end
