(* ===== verification/Token_Scheduler.thy ===== *)
theory Token_Scheduler
  imports Kv_Cache_Manager Request_Queue "HOL-Library.AList"
begin

text \<open>
  The scheduler of the autoregressive path, \<^verbatim>\<open>vllm/v1/core/sched/scheduler.py\<close>, for text generation on one engine: it
  gives tokens of a budget to running and waiting requests, asks the cache manager for room, preempts requests when there
  is none, and takes over the sampled tokens. KV connectors, encoder inputs, pooling, asynchronous scheduling, statistics and
  grammar masks are left out; that a grammar has been compiled is a parameter.

  The theories Token_Scheduling, Token_Steps and Token_Updates show that each part keeps the invariant of the scheduler under the
  first-come-first-served policy; Token_Serving puts them together over time, and Token_Faults shows two ways in which the code fails.
\<close>

section \<open>Requests and queues\<close>

datatype request_status =
    WAITING | WAITING_FOR_FSM | WAITING_FOR_REMOTE_KVS | RUNNING | PREEMPTED
  | FINISHED_STOPPED | FINISHED_LENGTH_CAPPED | FINISHED_ABORTED | FINISHED_IGNORED

fun is_finished :: "request_status \<Rightarrow> bool" where
  "is_finished FINISHED_STOPPED = True"
| "is_finished FINISHED_LENGTH_CAPPED = True"
| "is_finished FINISHED_ABORTED = True"
| "is_finished FINISHED_IGNORED = True"
| "is_finished _ = False"

text \<open>What changes in a request object. The immutable part, which the queues compare, is the record \<open>request\<close> of
  the queues.\<close>

record req_object =
  ro_input :: kv_request
  ro_num_prompt_tokens :: nat
  ro_num_computed_tokens :: nat
  ro_status :: request_status
  ro_spec_token_ids :: "int list"
  ro_num_cached_tokens :: int
  ro_max_tokens :: nat
  ro_eos_token_id :: "int option"
  ro_ignore_eos :: bool
  ro_stop_token_ids :: "int list"
  ro_prompt_logprobs :: bool

definition ro_num_tokens :: "req_object \<Rightarrow> nat" where
  "ro_num_tokens q = length (all_token_ids (ro_input q))"

definition ro_num_output_tokens :: "req_object \<Rightarrow> nat" where
  "ro_num_output_tokens q = ro_num_tokens q - ro_num_prompt_tokens q"

fun queue_add :: "request \<Rightarrow> any_queue \<Rightarrow> any_queue result" where
  "queue_add r (FCFSRequestQueue q) = Inr (FCFSRequestQueue (fcfs_add_request r q))"
| "queue_add r (PriorityRequestQueue h) = map_sum id PriorityRequestQueue (prio_add_request r h)"

fun queue_peek :: "any_queue \<Rightarrow> request result" where
  "queue_peek (FCFSRequestQueue q) = fcfs_peek_request q"
| "queue_peek (PriorityRequestQueue h) = prio_peek_request h"

fun queue_pop :: "any_queue \<Rightarrow> (request \<times> any_queue) result" where
  "queue_pop (FCFSRequestQueue q) = map_sum id (map_prod id FCFSRequestQueue) (fcfs_pop_request q)"
| "queue_pop (PriorityRequestQueue h) = map_sum id (map_prod id PriorityRequestQueue) (prio_pop_request h)"

fun queue_prepend :: "request \<Rightarrow> any_queue \<Rightarrow> any_queue result" where
  "queue_prepend r (FCFSRequestQueue q) = Inr (FCFSRequestQueue (fcfs_prepend_request r q))"
| "queue_prepend r (PriorityRequestQueue h) = map_sum id PriorityRequestQueue (prio_prepend_request r h)"

text \<open>Both queues of a scheduler are made by the same policy.\<close>

fun queue_prepend_all :: "any_queue \<Rightarrow> any_queue \<Rightarrow> any_queue result" where
  "queue_prepend_all (FCFSRequestQueue rs) (FCFSRequestQueue q) = Inr (FCFSRequestQueue (fcfs_prepend_requests rs q))"
| "queue_prepend_all (PriorityRequestQueue h) (PriorityRequestQueue q) =
     bind_res (prio_iter h) (\<lambda>rs. map_sum id PriorityRequestQueue (prio_prepend_requests rs q))"
| "queue_prepend_all _ _ = Inl TypeError"

fun queue_remove_all :: "request list \<Rightarrow> any_queue \<Rightarrow> any_queue result" where
  "queue_remove_all rs (FCFSRequestQueue q) = Inr (FCFSRequestQueue (fcfs_remove_requests rs q))"
| "queue_remove_all rs (PriorityRequestQueue h) = map_sum id PriorityRequestQueue (prio_remove_requests rs h)"

fun queue_length :: "any_queue \<Rightarrow> nat" where
  "queue_length (FCFSRequestQueue q) = length q"
| "queue_length (PriorityRequestQueue h) = length h"

section \<open>The scheduler\<close>

record sched_config =
  max_num_running_reqs :: nat
  max_num_scheduled_tokens :: nat
  sc_max_model_len :: nat
  long_prefill_token_threshold :: int
  chunked_prefill_enabled :: bool
  sc_policy :: scheduling_policy
  sc_max_loras :: "nat option"
  num_lookahead_tokens :: nat

text \<open>Request objects live in a store under their ids.\<close>

record token_scheduler =
  cfg :: sched_config
  kv :: kv_manager
  objects :: "string \<Rightarrow> req_object"
  requests :: "string \<rightharpoonup> request"
  waiting :: any_queue
  running :: "request list"
  finished_req_ids :: "string set"

definition obj :: "token_scheduler \<Rightarrow> request \<Rightarrow> req_object" where
  "obj s r = objects s (request_id r)"

definition set_obj :: "request \<Rightarrow> (req_object \<Rightarrow> req_object) \<Rightarrow> token_scheduler \<Rightarrow> token_scheduler" where
  "set_obj r f s = s\<lparr>objects := (objects s)(request_id r := f (obj s r))\<rparr>"

text \<open>The request as the cache manager reads it.\<close>

definition cache_view :: "token_scheduler \<Rightarrow> request \<Rightarrow> cached_request" where
  "cache_view s r = \<lparr>cr_id = request_id r, cr_input = ro_input (obj s r), cr_num_computed_tokens = ro_num_computed_tokens (obj s r),
     cr_prompt_logprobs = ro_prompt_logprobs (obj s r), cr_running = (ro_status (obj s r) = RUNNING)\<rparr>"

definition TokenScheduler :: "sched_config \<Rightarrow> kv_manager \<Rightarrow> (string \<Rightarrow> req_object) \<Rightarrow> token_scheduler" where
  "TokenScheduler c m os = \<lparr>cfg = c, kv = m, objects = os, requests = Map.empty, waiting = create_request_queue (sc_policy c),
     running = [], finished_req_ids = {}\<rparr>"

definition token_add_request :: "request \<Rightarrow> req_object \<Rightarrow> token_scheduler \<Rightarrow> token_scheduler result" where
  "token_add_request r q s =
     bind_res (queue_add r (waiting s)) (\<lambda>w.
       Inr (s\<lparr>waiting := w, requests := (requests s)(request_id r \<mapsto> r), objects := (objects s)(request_id r := q)\<rparr>))"

subsection \<open>Running requests\<close>

text \<open>The first request with the largest key, as \<^verbatim>\<open>max\<close> finds it.\<close>

fun max_by :: "('a \<Rightarrow> 'k::linorder) \<Rightarrow> 'a \<Rightarrow> 'a list \<Rightarrow> 'a" where
  "max_by k x [] = x"
| "max_by k x (y # ys) = max_by k (if k x < k y then y else x) ys"

definition choose_victim :: "token_scheduler \<Rightarrow> (request \<times> request list) result" where
  "choose_victim s =
     (case sc_policy (cfg s) of
        PRIORITY \<Rightarrow>
          (case running s of
             [] \<Rightarrow> Inl ValueError
           | r # rs \<Rightarrow> let v = max_by (\<lambda>r. (priority r, arrival_time r)) r rs in Inr (v, remove1 v (running s)))
      | FCFS \<Rightarrow> if running s = [] then Inl IndexError else Inr (last (running s), butlast (running s)))"

definition preempt :: "request \<Rightarrow> request list \<Rightarrow> token_scheduler \<Rightarrow> token_scheduler result" where
  "preempt v rest s =
     bind_res (free_request (cache_view s v) (kv s)) (\<lambda>m.
     bind_res (queue_prepend v (waiting s)) (\<lambda>w.
       Inr (set_obj v (\<lambda>q. q\<lparr>ro_status := PREEMPTED, ro_num_computed_tokens := 0\<rparr>) (s\<lparr>kv := m, running := rest, waiting := w\<rparr>))))"

lemma remove1_shorter: "v \<in> set rs \<Longrightarrow> length (remove1 v rs) < length rs"
  by (induction rs) (auto simp: length_remove1)

lemma max_by_mem: "max_by k x xs \<in> insert x (set xs)"
  by (induction k x xs rule: max_by.induct) (auto split: if_splits)

lemma choose_victim_shorter: "choose_victim s = Inr (v, rest) \<Longrightarrow> length rest < length (running s)"
proof (cases "sc_policy (cfg s)")
  case FCFS
  moreover assume "choose_victim s = Inr (v, rest)"
  ultimately show ?thesis by (auto simp: choose_victim_def split: if_splits)
next
  case PRIORITY
  moreover assume v: "choose_victim s = Inr (v, rest)"
  ultimately obtain r rs where "running s = r # rs" "v = max_by req_key r rs" "rest = remove1 v (running s)"
    by (auto simp: choose_victim_def Let_def split: list.splits)
  then show ?thesis using remove1_shorter [of v "running s"] max_by_mem [of req_key r rs] by auto
qed

lemma preempt_running: "preempt v rest s = Inr s' \<Longrightarrow> running s' = rest"
  by (auto simp: preempt_def set_obj_def bind_res_eq_Inr)

text \<open>Allocation for a running request: requests are preempted until it succeeds or the request itself was preempted.\<close>

function allocate_running :: "hash_fn \<Rightarrow> int \<Rightarrow> request \<Rightarrow> nat \<Rightarrow> token_scheduler \<Rightarrow> request list \<Rightarrow>
    (nat list option \<times> token_scheduler \<times> request list) result" where
  "allocate_running f seed r n s preempted =
     bind_res (allocate_slots f seed (cache_view s r) n 0 None (num_lookahead_tokens (cfg s)) False (kv s)) (\<lambda>(res, m).
       case res of
         Some new_blocks \<Rightarrow> Inr (Some new_blocks, s\<lparr>kv := m\<rparr>, preempted)
       | None \<Rightarrow>
           bind_res (choose_victim s) (\<lambda>(v, rest).
           bind_res (preempt v rest (s\<lparr>kv := m\<rparr>)) (\<lambda>s'.
             if v = r then Inr (None, s', preempted @ [v]) else allocate_running f seed r n s' (preempted @ [v]))))"
  by pat_completeness auto
termination
  by (relation "measure (\<lambda>(_, _, _, _, s, _). length (running s))") (auto dest: choose_victim_shorter preempt_running)

declare allocate_running.simps [simp del]

record scheduled =
  scheduled_new_reqs :: "request list"
  scheduled_resumed_reqs :: "request list"
  scheduled_running_reqs :: "request list"
  preempted_reqs :: "request list"
  req_to_new_block_ids :: "(string \<times> nat list) list"
  num_scheduled_tokens :: "(string \<times> nat) list"
  scheduled_spec_decode_tokens :: "(string \<times> int list) list"

definition nothing_scheduled :: scheduled where
  "nothing_scheduled = \<lparr>scheduled_new_reqs = [], scheduled_resumed_reqs = [], scheduled_running_reqs = [], preempted_reqs = [],
     req_to_new_block_ids = [], num_scheduled_tokens = [], scheduled_spec_decode_tokens = []\<rparr>"

definition cap_prefill :: "sched_config \<Rightarrow> int \<Rightarrow> int" where
  "cap_prefill c n = (if 0 < long_prefill_token_threshold c \<and> long_prefill_token_threshold c < n then long_prefill_token_threshold c else n)"

definition num_new_running :: "sched_config \<Rightarrow> nat \<Rightarrow> req_object \<Rightarrow> int" where
  "num_new_running c token_budget q =
     (let n = int (ro_num_tokens q + length (ro_spec_token_ids q)) - int (ro_num_computed_tokens q);
          n = min (cap_prefill c n) (int token_budget)
      in min n (int (sc_max_model_len c) - 1 - int (ro_num_computed_tokens q)))"

text \<open>Draft tokens beyond the scheduled ones are dropped.\<close>

definition record_spec :: "request \<Rightarrow> nat \<Rightarrow> token_scheduler \<Rightarrow> scheduled \<Rightarrow> token_scheduler \<times> scheduled" where
  "record_spec r n s a =
     (let q = obj s r; k = int n + int (ro_num_computed_tokens q) - int (ro_num_tokens q)
      in if ro_spec_token_ids q \<noteq> [] \<and> 0 < k
         then let spec = take (nat k) (ro_spec_token_ids q)
              in (set_obj r (ro_spec_token_ids_update (\<lambda>_. spec)) s,
                  a\<lparr>scheduled_spec_decode_tokens := AList.update (request_id r) spec (scheduled_spec_decode_tokens a)\<rparr>)
         else (s, a))"

definition record_running :: "request \<Rightarrow> nat \<Rightarrow> nat list \<Rightarrow> request list \<Rightarrow> scheduled \<Rightarrow> scheduled" where
  "record_running r n new_blocks preempted a =
     a\<lparr>scheduled_running_reqs := scheduled_running_reqs a @ [r], preempted_reqs := preempted,
       req_to_new_block_ids := AList.update (request_id r) new_blocks (req_to_new_block_ids a),
       num_scheduled_tokens := AList.update (request_id r) n (num_scheduled_tokens a)\<rparr>"

lemma allocate_running_shorter:
  "allocate_running f seed r n s pre = Inr (res, s', pre') \<Longrightarrow> length (running s') \<le> length (running s)"
proof (induction f seed r n s pre arbitrary: res s' pre' rule: allocate_running.induct)
  case (1 f seed r n s pre)
  obtain res1 m where a: "allocate_slots f seed (cache_view s r) n 0 None (num_lookahead_tokens (cfg s)) False (kv s) = Inr (res1, m)"
    using 1(2) by (subst (asm) allocate_running.simps) (auto simp: bind_res_eq_Inr)
  show ?case
  proof (cases res1)
    case (Some b)
    then show ?thesis using 1(2) a by (subst (asm) allocate_running.simps) auto
  next
    case None
    obtain v rest s1 where v: "choose_victim s = Inr (v, rest)" "preempt v rest (s\<lparr>kv := m\<rparr>) = Inr s1"
      using 1(2) a None by (subst (asm) allocate_running.simps) (auto simp: bind_res_eq_Inr)
    have l: "length (running s1) < length (running s)" using choose_victim_shorter [OF v(1)] preempt_running [OF v(2)] by simp
    show ?thesis
    proof (cases "v = r")
      case True
      then show ?thesis using 1(2) a None v l by (subst (asm) allocate_running.simps) simp
    next
      case False
      then have "allocate_running f seed r n s1 (pre @ [v]) = Inr (res, s', pre')"
        using 1(2) a None v by (subst (asm) allocate_running.simps) simp
      from 1(1) [OF a refl None v(1) refl v(2) False this] l show ?thesis by simp
    qed
  qed
qed

lemma record_spec_running: "running (fst (record_spec r n s a)) = running s"
  by (simp add: record_spec_def set_obj_def Let_def)

text \<open>The loop over the running requests. The count of new tokens is negative only when a request has more computed tokens than
  tokens; no reachable state has such a request, and the model does not follow the source there.\<close>

function running_loop :: "hash_fn \<Rightarrow> int \<Rightarrow> nat \<Rightarrow> nat \<Rightarrow> scheduled \<Rightarrow> token_scheduler \<Rightarrow> (nat \<times> scheduled \<times> token_scheduler) result" where
  "running_loop f seed req_index token_budget a s =
     (if req_index < length (running s) \<and> 0 < token_budget
      then let r = running s ! req_index; n = num_new_running (cfg s) token_budget (obj s r)
           in if n = 0 then running_loop f seed (req_index + 1) token_budget a s
              else if n < 0 then Inl NotImplementedError
              else bind_res (allocate_running f seed r (nat n) s (preempted_reqs a)) (\<lambda>(res, s', preempted).
                case res of
                  None \<Rightarrow> Inr (token_budget, a\<lparr>preempted_reqs := preempted\<rparr>, s')
                | Some new_blocks \<Rightarrow>
                    let (s'', a') = record_spec r (nat n) s' (record_running r (nat n) new_blocks preempted a)
                    in running_loop f seed (req_index + 1) (token_budget - nat n) a' s'')
      else Inr (token_budget, a, s))"
  by pat_completeness auto

termination
proof (relation "measure (\<lambda>(_, _, i, _, _, s). length (running s) - i)", goal_cases)
  case (3 f seed i b a s r n x res y s' preempted new_blocks z s'' a')
  then have "length (running s') \<le> length (running s)" by (auto dest: allocate_running_shorter)
  moreover have "running s'' = running s'"
    using record_spec_running [of r "nat n" s' "record_running r (nat n) new_blocks preempted a"] 3 by (metis fst_conv)
  moreover have "i < length (running s)" using 3 by simp
  ultimately show ?case by simp
qed auto

declare running_loop.simps [simp del]

subsection \<open>Waiting requests\<close>

definition lora_ids :: "token_scheduler \<Rightarrow> request list \<Rightarrow> int set" where
  "lora_ids s rs = {i \<in> set (List.map_filter (\<lambda>r. lora_int_id (ro_input (obj s r))) rs). 0 < i}"

definition exceeds_loras :: "sched_config \<Rightarrow> int set \<Rightarrow> req_object \<Rightarrow> bool" where
  "exceeds_loras c loras q =
     (case (sc_max_loras c, lora_int_id (ro_input q)) of (Some k, Some i) \<Rightarrow> card loras = k \<and> i \<notin> loras | _ \<Rightarrow> False)"

text \<open>Admission of the first waiting request. It reports whether the request is skipped, the loop ends, or the request runs.\<close>

datatype 'a admission = Skip | Stop | Admit 'a

definition start_request :: "request \<Rightarrow> nat \<Rightarrow> nat \<Rightarrow> token_scheduler \<Rightarrow> scheduled \<Rightarrow> (token_scheduler \<times> scheduled) result" where
  "start_request r n num_computed s a =
     bind_res (case ro_status (obj s r) of
                 WAITING \<Rightarrow> Inr (a\<lparr>scheduled_new_reqs := scheduled_new_reqs a @ [r]\<rparr>)
               | PREEMPTED \<Rightarrow> Inr (a\<lparr>scheduled_resumed_reqs := scheduled_resumed_reqs a @ [r]\<rparr>)
               | _ \<Rightarrow> Inl RuntimeError) (\<lambda>a.
       Inr (set_obj r (\<lambda>q. q\<lparr>ro_status := RUNNING, ro_num_computed_tokens := num_computed,
                 ro_num_cached_tokens := (if ro_num_cached_tokens q < 0 then int num_computed else ro_num_cached_tokens q)\<rparr>)
              (s\<lparr>running := running s @ [r]\<rparr>),
            a\<lparr>req_to_new_block_ids := AList.update (request_id r) (get_block_ids (request_id r) (kv s)) (req_to_new_block_ids a),
              num_scheduled_tokens := AList.update (request_id r) n (num_scheduled_tokens a)\<rparr>))"

definition find_computed :: "hash_fn \<Rightarrow> int \<Rightarrow> request \<Rightarrow> token_scheduler \<Rightarrow> ((nat list \<times> nat \<times> nat) \<times> token_scheduler) result" where
  "find_computed f seed r s =
     (if ro_num_computed_tokens (obj s r) = 0
      then bind_res (get_computed_blocks f seed (cache_view s r) (kv s)) (\<lambda>((hits, n), m). Inr ((hits, n, n), s\<lparr>kv := m\<rparr>))
      else Inr (([], 0, ro_num_computed_tokens (obj s r)), s))"

definition admit_waiting ::
  "hash_fn \<Rightarrow> int \<Rightarrow> (string \<Rightarrow> bool) \<Rightarrow> nat \<Rightarrow> int set \<Rightarrow> scheduled \<Rightarrow> request \<Rightarrow> token_scheduler \<Rightarrow>
     ((nat \<times> int set \<times> scheduled) admission \<times> token_scheduler) result" where
  "admit_waiting f seed grammar_ready token_budget loras a r s =
     (if ro_status (obj s r) = WAITING_FOR_REMOTE_KVS then Inl AssertionError
      else let waits_for_fsm = (ro_status (obj s r) = WAITING_FOR_FSM);
               s = (if waits_for_fsm \<and> grammar_ready (request_id r) then set_obj r (ro_status_update (\<lambda>_. WAITING)) s else s)
           in if waits_for_fsm \<and> \<not> grammar_ready (request_id r) \<or> exceeds_loras (cfg s) loras (obj s r) then Inr (Skip, s)
              else bind_res (find_computed f seed r s) (\<lambda>((hits, num_local, num_computed), s).
                let n = cap_prefill (cfg s) (int (ro_num_tokens (obj s r)) - int num_computed)
                in if \<not> chunked_prefill_enabled (cfg s) \<and> int token_budget < n then Inr (Skip, s)
                   else let n = min n (int token_budget)
                        in if n \<le> 0 then Inl AssertionError
                           else let lookahead = (if ro_num_computed_tokens (obj s r) = 0 then 0 else num_lookahead_tokens (cfg s))
                                in bind_res (allocate_slots f seed (cache_view s r) (nat n) num_local (Some hits) lookahead False (kv s)) (\<lambda>(res, m).
                                  let s = s\<lparr>kv := m\<rparr>
                                  in if res = None then Inr (Stop, s)
                                     else bind_res (queue_pop (waiting s)) (\<lambda>(r, w).
                                       bind_res (start_request r (nat n) num_computed (s\<lparr>waiting := w\<rparr>) a) (\<lambda>(s', a').
                                         let loras' = (case (sc_max_loras (cfg s), lora_int_id (ro_input (obj s r))) of
                                               (Some _, Some i) \<Rightarrow> insert i loras | _ \<Rightarrow> loras)
                                         in Inr (Admit (token_budget - nat n, loras', a'), s'))))))"

text \<open>The loop over the waiting requests. Every turn takes one request out of the queue or ends the loop, so the length of the
  queue bounds the number of turns.\<close>

fun waiting_loop ::
  "hash_fn \<Rightarrow> int \<Rightarrow> (string \<Rightarrow> bool) \<Rightarrow> nat \<Rightarrow> nat \<Rightarrow> int set \<Rightarrow> any_queue \<Rightarrow> scheduled \<Rightarrow> token_scheduler \<Rightarrow>
     (nat \<times> any_queue \<times> scheduled \<times> token_scheduler) result" where
  "waiting_loop f seed ready 0 token_budget loras skipped a s = Inr (token_budget, skipped, a, s)"
| "waiting_loop f seed ready (Suc k) token_budget loras skipped a s =
     (if queue_length (waiting s) = 0 \<or> token_budget = 0 \<or> length (running s) = max_num_running_reqs (cfg s)
      then Inr (token_budget, skipped, a, s)
      else bind_res (queue_peek (waiting s)) (\<lambda>r.
             bind_res (admit_waiting f seed ready token_budget loras a r s) (\<lambda>(adm, s).
               case adm of
                 Stop \<Rightarrow> Inr (token_budget, skipped, a, s)
               | Admit (b, loras', a') \<Rightarrow> waiting_loop f seed ready k b loras' skipped a' s
               | Skip \<Rightarrow> bind_res (queue_pop (waiting s)) (\<lambda>(r, w).
                   bind_res (queue_prepend r skipped) (\<lambda>skipped'.
                     waiting_loop f seed ready k token_budget loras skipped' a (s\<lparr>waiting := w\<rparr>))))))"

subsection \<open>One scheduling step\<close>

record cached_request_data =
  crd_req_ids :: "string list"
  crd_resumed_from_preemption :: "bool list"
  crd_new_block_ids :: "nat list list"
  crd_num_computed_tokens :: "nat list"

record sched_output =
  out_new_reqs :: "(request \<times> nat list) list"
  out_cached_reqs :: cached_request_data
  out_num_scheduled_tokens :: "(string \<times> nat) list"
  out_total_num_scheduled_tokens :: nat
  out_spec_decode_tokens :: "(string \<times> int list) list"
  out_num_common_prefix_blocks :: nat
  out_finished_req_ids :: "string set"

text \<open>Subscripting a dictionary.\<close>

definition subscript :: "('a \<times> 'b) list \<Rightarrow> 'a \<Rightarrow> 'b result" where
  "subscript xs k = (case map_of xs k of None \<Rightarrow> Inl KeyError | Some v \<Rightarrow> Inr v)"

definition make_cached_request_data :: "request list \<Rightarrow> request list \<Rightarrow> scheduled \<Rightarrow> token_scheduler \<Rightarrow> cached_request_data result" where
  "make_cached_request_data running_reqs resumed_reqs a s =
     bind_res (foldM (\<lambda>r bs. bind_res (subscript (num_scheduled_tokens a) (request_id r)) (\<lambda>_.
                 bind_res (subscript (req_to_new_block_ids a) (request_id r)) (\<lambda>b. Inr (bs @ [b])))) (running_reqs @ resumed_reqs) []) (\<lambda>bs.
       Inr \<lparr>crd_req_ids = map request_id (running_reqs @ resumed_reqs),
            crd_resumed_from_preemption = replicate (length running_reqs) False @ replicate (length resumed_reqs) True,
            crd_new_block_ids = bs, crd_num_computed_tokens = map (\<lambda>r. ro_num_computed_tokens (obj s r)) (running_reqs @ resumed_reqs)\<rparr>)"

definition update_after_schedule :: "(string \<times> nat) list \<Rightarrow> token_scheduler \<Rightarrow> token_scheduler result" where
  "update_after_schedule tokens s =
     bind_res (foldM (\<lambda>(rid, n) s. if requests s rid = None then Inl KeyError
          else Inr (s\<lparr>objects := (objects s)(rid := (objects s rid)\<lparr>ro_num_computed_tokens := ro_num_computed_tokens (objects s rid) + n\<rparr>)\<rparr>))
        tokens s) (\<lambda>s. Inr (s\<lparr>finished_req_ids := {}\<rparr>))"

definition check_constraints :: "nat \<Rightarrow> scheduled \<Rightarrow> token_scheduler \<Rightarrow> unit result" where
  "check_constraints token_budget a s =
     (if max_num_scheduled_tokens (cfg s) < sum_list (map snd (num_scheduled_tokens a)) then Inl AssertionError
      else if max_num_running_reqs (cfg s) < length (running s) then Inl AssertionError
      else if length (running s) < length (scheduled_new_reqs a) + length (scheduled_resumed_reqs a) + length (scheduled_running_reqs a)
           then Inl AssertionError
      else Inr ())"

definition common_prefix :: "token_scheduler \<Rightarrow> (nat \<times> token_scheduler) result" where
  "common_prefix s =
     (case running s of
        [] \<Rightarrow> Inr (0, s)
      | r # rs \<Rightarrow> bind_res (get_num_common_prefix_blocks (cache_view s r) (int (length (r # rs))) (kv s)) (\<lambda>(n, m). Inr (n, s\<lparr>kv := m\<rparr>)))"

definition make_output :: "scheduled \<Rightarrow> nat \<Rightarrow> token_scheduler \<Rightarrow> sched_output result" where
  "make_output a n s =
     bind_res (foldM (\<lambda>r rs. bind_res (subscript (req_to_new_block_ids a) (request_id r)) (\<lambda>b. Inr (rs @ [(r, b)]))) (scheduled_new_reqs a) []) (\<lambda>new_reqs.
     bind_res (make_cached_request_data (scheduled_running_reqs a) (scheduled_resumed_reqs a) a s) (\<lambda>cached.
       Inr \<lparr>out_new_reqs = new_reqs, out_cached_reqs = cached, out_num_scheduled_tokens = num_scheduled_tokens a,
            out_total_num_scheduled_tokens = sum_list (map snd (num_scheduled_tokens a)),
            out_spec_decode_tokens = scheduled_spec_decode_tokens a, out_num_common_prefix_blocks = n,
            out_finished_req_ids = finished_req_ids s\<rparr>))"

text \<open>Both passes: running requests first; waiting ones only when no request was preempted.\<close>

definition schedule_passes :: "hash_fn \<Rightarrow> int \<Rightarrow> (string \<Rightarrow> bool) \<Rightarrow> token_scheduler \<Rightarrow> (nat \<times> any_queue \<times> scheduled \<times> token_scheduler) result" where
  "schedule_passes f seed grammar_ready s =
     bind_res (running_loop f seed 0 (max_num_scheduled_tokens (cfg s)) nothing_scheduled s) (\<lambda>(token_budget, a, s).
     let loras = (if sc_max_loras (cfg s) = None then {} else lora_ids s (scheduled_running_reqs a))
     in if (case sc_max_loras (cfg s) of None \<Rightarrow> False | Some k \<Rightarrow> k < card loras) then Inl AssertionError
        else if preempted_reqs a = []
             then waiting_loop f seed grammar_ready (queue_length (waiting s)) token_budget loras (create_request_queue (sc_policy (cfg s))) a s
             else Inr (token_budget, create_request_queue (sc_policy (cfg s)), a, s))"

definition token_schedule :: "hash_fn \<Rightarrow> int \<Rightarrow> (string \<Rightarrow> bool) \<Rightarrow> token_scheduler \<Rightarrow> (sched_output \<times> token_scheduler) result" where
  "token_schedule f seed grammar_ready s =
     bind_res (schedule_passes f seed grammar_ready s) (\<lambda>(token_budget, skipped, a, s).
     bind_res (if queue_length skipped = 0 then Inr (waiting s) else queue_prepend_all skipped (waiting s)) (\<lambda>w.
     bind_res (check_constraints token_budget a (s\<lparr>waiting := w\<rparr>)) (\<lambda>_.
     bind_res (common_prefix (s\<lparr>waiting := w\<rparr>)) (\<lambda>(n, s).
     bind_res (make_output a n s) (\<lambda>out.
     bind_res (update_after_schedule (num_scheduled_tokens a) (s\<lparr>kv := snd (manager_take_events (kv s))\<rparr>)) (\<lambda>s.
       Inr (out, s)))))))"

subsection \<open>Taking over sampled tokens\<close>

definition check_stop :: "nat \<Rightarrow> req_object \<Rightarrow> (bool \<times> req_object) result" where
  "check_stop max_model_len q =
     (if max_model_len \<le> ro_num_tokens q \<or> ro_max_tokens q \<le> ro_num_output_tokens q
      then Inr (True, q\<lparr>ro_status := FINISHED_LENGTH_CAPPED\<rparr>)
      else if ro_num_output_tokens q = 0 then Inl IndexError
      else let last_token_id = last (all_token_ids (ro_input q))
           in if \<not> ro_ignore_eos q \<and> ro_eos_token_id q = Some last_token_id then Inr (True, q\<lparr>ro_status := FINISHED_STOPPED\<rparr>)
              else if last_token_id \<in> set (ro_stop_token_ids q) then Inr (True, q\<lparr>ro_status := FINISHED_STOPPED\<rparr>)
              else Inr (False, q))"

definition append_token :: "int \<Rightarrow> req_object \<Rightarrow> req_object" where
  "append_token t q = q\<lparr>ro_input := (ro_input q)\<lparr>all_token_ids := all_token_ids (ro_input q) @ [t]\<rparr>\<rparr>"

fun update_request_with_output :: "nat \<Rightarrow> int list \<Rightarrow> req_object \<Rightarrow> (int list \<times> bool \<times> req_object) result" where
  "update_request_with_output max_model_len [] q = Inr ([], False, q)"
| "update_request_with_output max_model_len (t # ts) q =
     bind_res (check_stop max_model_len (append_token t q)) (\<lambda>(stopped, q).
       if stopped then Inr ([t], True, q)
       else bind_res (update_request_with_output max_model_len ts q) (\<lambda>(new, stopped, q). Inr (t # new, stopped, q)))"

text \<open>A finished request is forgotten; the workers are told so in the next step.\<close>

definition token_free_request :: "request \<Rightarrow> token_scheduler \<Rightarrow> token_scheduler result" where
  "token_free_request r s =
     (if \<not> is_finished (ro_status (obj s r)) then Inl AssertionError
      else bind_res (free_request (cache_view s r) (kv s)) (\<lambda>m.
        if requests s (request_id r) = None then Inl KeyError
        else Inr (s\<lparr>kv := free_block_hashes (cache_view s r) m, requests := (requests s)(request_id r := None),
               finished_req_ids := insert (request_id r) (finished_req_ids s)\<rparr>)))"

record runner_output =
  sampled_token_ids :: "int list list"
  runner_spec_token_ids :: "int list list option"
  req_id_to_index :: "(string \<times> nat) list"

definition nth_res :: "'a list \<Rightarrow> nat \<Rightarrow> 'a result" where
  "nth_res xs i = (if i < length xs then Inr (xs ! i) else Inl IndexError)"

record token_output =
  to_request_id :: string
  to_new_token_ids :: "int list"
  to_status :: request_status

text \<open>What the loop over the scheduled requests collects: outputs and stopped requests.\<close>

record step_result =
  sr_outputs :: "token_output list"
  stopped_running_reqs :: "request list"
  stopped_preempted_reqs :: "request list"

definition reject_drafts :: "int list \<Rightarrow> int list \<Rightarrow> req_object \<Rightarrow> req_object" where
  "reject_drafts drafts generated q =
     (if drafts = [] then q
      else q\<lparr>ro_num_computed_tokens := nat (int (ro_num_computed_tokens q) - (int (length drafts) + 1 - int (length generated)))\<rparr>)"

definition set_drafts :: "int list list option \<Rightarrow> nat \<Rightarrow> request \<Rightarrow> token_scheduler \<Rightarrow> token_scheduler result" where
  "set_drafts spec i r s =
     (case spec of None \<Rightarrow> Inr s | Some sp \<Rightarrow> bind_res (nth_res sp i) (\<lambda>ts. Inr (set_obj r (ro_spec_token_ids_update (\<lambda>_. ts)) s)))"

definition update_one ::
  "(string \<times> int list) list \<Rightarrow> runner_output \<Rightarrow> string \<times> nat \<Rightarrow> step_result \<times> token_scheduler \<Rightarrow> (step_result \<times> token_scheduler) result" where
  "update_one spec_tokens out = (\<lambda>(rid, num_tokens_scheduled) (acc, s).
     if num_tokens_scheduled = 0 then Inl AssertionError
     else case requests s rid of
       None \<Rightarrow> Inr (acc, s)
     | Some r \<Rightarrow>
         bind_res (subscript (req_id_to_index out) rid) (\<lambda>i.
         bind_res (if sampled_token_ids out = [] then Inr [] else nth_res (sampled_token_ids out) i) (\<lambda>generated.
           let drafts = (case map_of spec_tokens rid of None \<Rightarrow> [] | Some ts \<Rightarrow> ts);
               s = set_obj r (reject_drafts drafts generated) s;
               status_before_stop = ro_status (obj s r)
           in bind_res (update_request_with_output (sc_max_model_len (cfg s)) generated (obj s r)) (\<lambda>(new_token_ids, stopped, q).
              let s = set_obj r (\<lambda>_. q) s;
                  acc = (if \<not> stopped then acc
                         else if status_before_stop = RUNNING then acc\<lparr>stopped_running_reqs := stopped_running_reqs acc @ [r]\<rparr>
                         else acc\<lparr>stopped_preempted_reqs := stopped_preempted_reqs acc @ [r]\<rparr>)
              in bind_res (if stopped then token_free_request r s else Inr s) (\<lambda>s.
                 bind_res (set_drafts (runner_spec_token_ids out) i r s) (\<lambda>s.
                   Inr (if new_token_ids = [] then acc
                        else acc\<lparr>sr_outputs := sr_outputs acc @ [\<lparr>to_request_id = rid, to_new_token_ids = new_token_ids, to_status = ro_status q\<rparr>]\<rparr>,
                        s)))))))"

definition update_from_output :: "sched_output \<Rightarrow> runner_output \<Rightarrow> token_scheduler \<Rightarrow> (token_output list \<times> token_scheduler) result" where
  "update_from_output so out s =
     bind_res (foldM (update_one (out_spec_decode_tokens so) out) (out_num_scheduled_tokens so)
         (\<lparr>sr_outputs = [], stopped_running_reqs = [], stopped_preempted_reqs = []\<rparr>, s)) (\<lambda>(acc, s).
       let s = s\<lparr>running := filter (\<lambda>r. r \<notin> set (stopped_running_reqs acc)) (running s)\<rparr>
       in bind_res (if stopped_preempted_reqs acc = [] then Inr (waiting s) else queue_remove_all (stopped_preempted_reqs acc) (waiting s))
            (\<lambda>w. Inr (sr_outputs acc, s\<lparr>waiting := w\<rparr>)))"

text \<open>Finish signals from outside, such as aborts.\<close>

definition finish_requests :: "string list \<Rightarrow> request_status \<Rightarrow> token_scheduler \<Rightarrow> token_scheduler result" where
  "finish_requests ids finished_status s =
     (if \<not> is_finished finished_status then Inl AssertionError
      else let valid = List.map_filter (requests s) (remdups ids);
               running_to_remove = filter (\<lambda>r. ro_status (obj s r) = RUNNING) valid;
               waiting_to_remove = filter (\<lambda>r. ro_status (obj s r) \<noteq> RUNNING) valid
           in bind_res (foldM (\<lambda>r rs. if r \<in> set rs then Inr (remove1 r rs) else Inl ValueError) running_to_remove (running s)) (\<lambda>rs.
              bind_res (if waiting_to_remove = [] then Inr (waiting s) else queue_remove_all waiting_to_remove (waiting s)) (\<lambda>w.
                foldM (\<lambda>r s. token_free_request r (set_obj r (ro_status_update (\<lambda>_. finished_status)) s)) valid
                  (s\<lparr>running := rs, waiting := w\<rparr>))))"

definition token_reset_prefix_cache :: "token_scheduler \<Rightarrow> bool \<times> token_scheduler" where
  "token_reset_prefix_cache s = (let (done, m) = manager_reset_prefix_cache (kv s) in (done, s\<lparr>kv := m\<rparr>))"

definition get_request_counts :: "token_scheduler \<Rightarrow> nat \<times> nat" where
  "get_request_counts s = (length (running s), queue_length (waiting s))"

definition get_num_unfinished_requests :: "token_scheduler \<Rightarrow> nat" where
  "get_num_unfinished_requests s = queue_length (waiting s) + length (running s)"

definition has_finished_requests :: "token_scheduler \<Rightarrow> bool" where
  "has_finished_requests s \<longleftrightarrow> finished_req_ids s \<noteq> {}"

definition has_requests :: "token_scheduler \<Rightarrow> bool" where
  "has_requests s \<longleftrightarrow> 0 < get_num_unfinished_requests s \<or> has_finished_requests s"

text \<open>One step of the engine core with this scheduler; the executor is a parameter. It returns the outputs and whether the model ran on any
  token.\<close>

definition token_step :: "hash_fn \<Rightarrow> int \<Rightarrow> (string \<Rightarrow> bool) \<Rightarrow> (sched_output \<Rightarrow> runner_output) \<Rightarrow> token_scheduler \<Rightarrow>
    (token_output list \<times> bool \<times> token_scheduler) result" where
  "token_step f seed grammar_ready execute_model s =
     (if \<not> has_requests s then Inr ([], False, s)
      else bind_res (token_schedule f seed grammar_ready s) (\<lambda>(so, s).
           bind_res (update_from_output so (execute_model so) s) (\<lambda>(outs, s).
             Inr (outs, 0 < out_total_num_scheduled_tokens so, s))))"

end
