(* ===== verification/Token_Scheduling.thy ===== *)
theory Token_Scheduling
  imports Token_Scheduler
begin

text \<open>
  Correctness of the autoregressive scheduler under the first-come-first-served policy, on top of the cache manager.
\<close>

section \<open>Invariants\<close>

definition live_inputs :: "token_scheduler \<Rightarrow> string \<rightharpoonup> kv_request" where
  "live_inputs s rid = (case requests s rid of None \<Rightarrow> None | Some r \<Rightarrow> Some (ro_input (objects s rid)))"

text \<open>Requests wait in the queue (\<open>w\<close>), or have just been skipped (\<open>k\<close>), or run; these are the requests of the dictionary.\<close>

definition queues_ok :: "token_scheduler \<Rightarrow> request list \<Rightarrow> request list \<Rightarrow> bool" where
  "queues_ok s k w \<longleftrightarrow> sc_policy (cfg s) = FCFS \<and> waiting s = FCFSRequestQueue w \<and> distinct (map request_id (running s @ k @ w)) \<and>
     (\<forall>rid r. requests s rid = Some r \<longleftrightarrow> r \<in> set (running s @ k @ w) \<and> request_id r = rid)"

definition request_fits :: "token_scheduler \<Rightarrow> request \<Rightarrow> bool" where
  "request_fits s r \<longleftrightarrow> 0 < ro_num_prompt_tokens (obj s r) \<and> ro_num_prompt_tokens (obj s r) \<le> ro_num_tokens (obj s r) \<and>
     ro_num_tokens (obj s r) < sc_max_model_len (cfg s) \<and>
     (enable_kv_cache_events (pool (kv s)) \<longrightarrow> lora_int_id (ro_input (obj s r)) = None)"

definition waits_ok :: "token_scheduler \<Rightarrow> request \<Rightarrow> bool" where
  "waits_ok s r \<longleftrightarrow> ro_status (obj s r) \<in> {WAITING, WAITING_FOR_FSM, PREEMPTED} \<and> ro_num_computed_tokens (obj s r) = 0 \<and>
     num_cached_block (kv s) (request_id r) = None"

text \<open>A running request for which \<open>n\<close> more tokens have been scheduled: its cached blocks hold computed tokens, its blocks
  have room for all of them.\<close>

definition runs_ok :: "token_scheduler \<Rightarrow> nat \<Rightarrow> request \<Rightarrow> bool" where
  "runs_ok s n r \<longleftrightarrow> ro_status (obj s r) = RUNNING \<and>
     (\<exists>c. num_cached_block (kv s) (request_id r) = Some c \<and> c * cache_block_size (kv s) \<le> ro_num_computed_tokens (obj s r) + n) \<and>
     ro_num_computed_tokens (obj s r) + n \<le> length (get_block_ids (request_id r) (kv s)) * cache_block_size (kv s)"

definition token_ok :: "hash_fn \<Rightarrow> int \<Rightarrow> (string \<Rightarrow> nat) \<Rightarrow> token_scheduler \<Rightarrow> request list \<Rightarrow> request list \<Rightarrow> bool" where
  "token_ok f seed adv s k w \<longleftrightarrow> kv_served f seed (kv s) (live_inputs s) \<and> queues_ok s k w \<and>
     cache_max_model_len (kv s) = sc_max_model_len (cfg s) \<and> (\<forall>r \<in> set (running s @ k @ w). request_fits s r) \<and>
     (\<forall>r \<in> set (k @ w). waits_ok s r) \<and> (\<forall>r \<in> set (running s). runs_ok s (adv (request_id r)) r)"

lemma token_okD:
  assumes "token_ok f seed adv s k w"
  shows "kv_served f seed (kv s) (live_inputs s)" "queues_ok s k w" "cache_max_model_len (kv s) = sc_max_model_len (cfg s)"
    "\<And>r. r \<in> set (running s @ k @ w) \<Longrightarrow> request_fits s r" "\<And>r. r \<in> set (k @ w) \<Longrightarrow> waits_ok s r"
    "\<And>r. r \<in> set (running s) \<Longrightarrow> runs_ok s (adv (request_id r)) r"
  using assms unfolding token_ok_def by blast+

lemma token_okI:
  assumes "kv_served f seed (kv s) (live_inputs s)" "queues_ok s k w" "cache_max_model_len (kv s) = sc_max_model_len (cfg s)"
    "\<And>r. r \<in> set (running s @ k @ w) \<Longrightarrow> request_fits s r" "\<And>r. r \<in> set (k @ w) \<Longrightarrow> waits_ok s r"
    "\<And>r. r \<in> set (running s) \<Longrightarrow> runs_ok s (adv (request_id r)) r"
  shows "token_ok f seed adv s k w"
  unfolding token_ok_def using assms by blast

lemma queues_okD:
  assumes "queues_ok s k w"
  shows "sc_policy (cfg s) = FCFS" "waiting s = FCFSRequestQueue w" "distinct (map request_id (running s @ k @ w))"
    "\<And>rid r. requests s rid = Some r \<longleftrightarrow> r \<in> set (running s @ k @ w) \<and> request_id r = rid"
  using assms unfolding queues_ok_def by blast+

lemma same_id:
  assumes "queues_ok s k w" "r \<in> set (running s @ k @ w)" "r' \<in> set (running s @ k @ w)" "request_id r = request_id r'"
  shows "r = r'"
  using queues_okD(4) [OF assms(1), of "request_id r" r] queues_okD(4) [OF assms(1), of "request_id r'" r'] assms(2-4) by simp

lemma live_known: "queues_ok s k w \<Longrightarrow> r \<in> set (running s @ k @ w) \<Longrightarrow> live_inputs s (request_id r) = Some (ro_input (obj s r))"
  using queues_okD(4) [of s k w "request_id r" r] by (simp add: live_inputs_def obj_def)

lemma cache_view_simps [simp]:
  "cr_id (cache_view s r) = request_id r" "cr_input (cache_view s r) = ro_input (obj s r)"
  "cr_num_computed_tokens (cache_view s r) = ro_num_computed_tokens (obj s r)" "cr_num_tokens (cache_view s r) = ro_num_tokens (obj s r)"
  "cr_running (cache_view s r) \<longleftrightarrow> ro_status (obj s r) = RUNNING" "cr_prompt_logprobs (cache_view s r) = ro_prompt_logprobs (obj s r)"
  by (simp_all add: cache_view_def cr_num_tokens_def ro_num_tokens_def)

lemma obj_kv [simp]: "obj (s\<lparr>kv := m\<rparr>) = obj s" "obj (s\<lparr>waiting := w\<rparr>) = obj s" "obj (s\<lparr>running := rs\<rparr>) = obj s"
  "obj (s\<lparr>finished_req_ids := i\<rparr>) = obj s" "live_inputs (s\<lparr>kv := m\<rparr>) = live_inputs s" "live_inputs (s\<lparr>waiting := w\<rparr>) = live_inputs s"
  "live_inputs (s\<lparr>running := rs\<rparr>) = live_inputs s" "live_inputs (s\<lparr>finished_req_ids := i\<rparr>) = live_inputs s"
  by (simp_all add: obj_def live_inputs_def fun_eq_iff split: option.splits)

section \<open>Changes of the cache\<close>

text \<open>A call for one request changes only the blocks of that request, so the others are as they were.\<close>

definition only_request :: "kv_manager \<Rightarrow> string \<Rightarrow> kv_manager \<Rightarrow> bool" where
  "only_request m rid m' \<longleftrightarrow> same_frame m m' \<and> (\<forall>rid'. rid' \<noteq> rid \<longrightarrow> num_cached_block m' rid' = num_cached_block m rid' \<and>
     get_block_ids rid' m' = get_block_ids rid' m)"

lemma token_ok_kv:
  assumes ok: "token_ok f seed adv s k w" and m: "kv_served f seed m (live_inputs s)" and o: "only_request (kv s) (request_id r) m"
    and r: "r \<in> set (running s)" and runs: "runs_ok (s\<lparr>kv := m\<rparr>) (adv' (request_id r)) r"
    and adv: "\<And>rid. rid \<noteq> request_id r \<Longrightarrow> adv' rid = adv rid"
  shows "token_ok f seed adv' (s\<lparr>kv := m\<rparr>) k w"
proof (rule token_okI)
  note t = token_okD [OF ok] and o' = o [unfolded only_request_def same_frame_def same_setup_def]
  let ?s = "s\<lparr>kv := m\<rparr>"
  have diff: "request_id r' \<noteq> request_id r" if "r' \<in> set (running s @ k @ w)" "r' \<noteq> r" for r'
    using same_id [OF t(2) that(1), of r] r that(2) by auto
  show "kv_served f seed (kv ?s) (live_inputs ?s)" using m by simp
  show "queues_ok ?s k w" using t(2) by (simp add: queues_ok_def)
  show "cache_max_model_len (kv ?s) = sc_max_model_len (cfg ?s)" using t(3) o' by simp
  show "request_fits ?s r'" if "r' \<in> set (running ?s @ k @ w)" for r' using t(4) [of r'] that o' by (simp add: request_fits_def)
  show "waits_ok ?s r'" if "r' \<in> set (k @ w)" for r'
  proof -
    have "r' \<noteq> r" using that r queues_okD(3) [OF t(2)] by auto
    then have "request_id r' \<noteq> request_id r" using diff that by auto
    then show ?thesis using t(5) [OF that] o' by (simp add: waits_ok_def)
  qed
  show "runs_ok ?s (adv' (request_id r')) r'" if "r' \<in> set (running ?s)" for r'
  proof (cases "r' = r")
    case False
    then have d: "request_id r' \<noteq> request_id r" using diff that by auto
    then show ?thesis using t(6) [of r'] that o' adv [OF d] by (simp add: runs_ok_def)
  qed (use runs in simp)
qed

lemma kv_servable_view:
  assumes "request_fits s r" "0 < n" "cache_max_model_len (kv s) = sc_max_model_len (cfg s)"
  shows "kv_servable (kv s) (cache_view s r) n"
  using assms by (auto simp: request_fits_def kv_servable_def)

lemma outcome_blocks:
  "outcome m rid n hits (Some taken) m' \<Longrightarrow> rid' \<noteq> rid \<Longrightarrow> get_block_ids rid' m' = get_block_ids rid' m"
  "outcome m rid n hits None m' \<Longrightarrow> get_block_ids rid' m' = get_block_ids rid' m"
  by (simp_all add: outcome_def get_block_ids_def)

lemma outcome_room: "outcome m rid n hits (Some taken) m' \<Longrightarrow> n \<le> length (get_block_ids rid m') * cache_block_size m"
  unfolding outcome_def get_block_ids_def option.case by blast

text \<open>The cache holds at least one request of maximal length besides the null block. Then a request that has the cache for itself
  always finds room.\<close>

definition roomy :: "token_scheduler \<Rightarrow> bool" where
  "roomy s \<longleftrightarrow> utils_cdiv (int (sc_max_model_len (cfg s))) (int (cache_block_size (kv s))) < int (num_gpu_blocks (pool (kv s)))"

lemma roomy_frame: "cfg s' = cfg s \<Longrightarrow> same_frame (kv s) (kv s') \<Longrightarrow> roomy s' \<longleftrightarrow> roomy s"
  by (simp add: roomy_def same_frame_def same_setup_def)

lemma free_when_alone:
  assumes ok: "manager_ok f seed m live xs" and alone: "\<And>rid'. rid' \<noteq> rid \<Longrightarrow> req_blocks m rid' = []"
  shows "length xs + length (req_blocks m rid) + 1 = num_gpu_blocks (pool m)"
proof -
  note o = manager_okD [OF ok]
  let ?bs = "req_blocks m rid" and ?N = "num_gpu_blocks (pool m)"
  have "x \<in> holders m i \<longleftrightarrow> x = rid \<and> i \<in> set ?bs" for i x using alone [of x] by (cases "x = rid") (simp_all add: holders_def)
  then have h: "holders m i = (if i \<in> set ?bs then {rid} else {})" for i by auto
  have b: "0 < i \<and> i < ?N" if "i \<in> set ?bs" for i using held_range [OF o(6) that] by simp
  have "i \<in> set xs \<longleftrightarrow> 0 < i \<and> i < ?N \<and> i \<notin> set ?bs" for i
    using bp.free_iff [OF o(1), of i] o(4) [of i] by (auto simp: h)
  then have "set xs \<union> set ?bs = {0<..<?N}" "set xs \<inter> set ?bs = {}" using b by auto
  then have "card (set xs) + card (set ?bs) = ?N - 1" using card_Un_disjoint [of "set xs" "set ?bs"] by simp
  moreover have "distinct xs" "distinct ?bs" using bp.free_distinct [OF o(1)] o(6) [of rid] by (simp_all add: held_ok_def)
  moreover have "0 < ?N" using blocks_okD(2) [OF o(1)] .
  ultimately show ?thesis by (simp add: distinct_card)
qed

lemma alone_has_room:
  assumes ok: "manager_ok f seed m live xs" and alone: "\<And>rid'. rid' \<noteq> rid \<Longrightarrow> req_blocks m rid' = []"
    and n: "n \<le> len" "utils_cdiv (int len) (int (cache_block_size m)) < int (num_gpu_blocks (pool m))"
  shows "\<not> get_num_free_blocks (pool m) < missing rid n hits m + int (evictable (pool m) hits)"
proof -
  note o = manager_okD [OF ok]
  have "utils_cdiv (int n) (int (cache_block_size m)) \<le> utils_cdiv (int len) (int (cache_block_size m))"
    using n(1) o(2) by (simp add: utils_cdiv_def div_minus_right zdiv_mono1)
  moreover have "evictable (pool m) hits \<le> length hits" by (simp add: evictable_def)
  moreover have "length xs + length (req_blocks m rid) + 1 = num_gpu_blocks (pool m)" by (rule free_when_alone [OF ok alone])
  moreover note n(2) bp.free_count [OF o(1)]
  ultimately show ?thesis by (simp add: missing_def)
qed

lemma others_hold_nothing:
  assumes ok: "token_ok f seed adv s k w" and f: "collision_free f seed" and r: "request_id ` set (running s) \<subseteq> {i}" and rid: "rid \<noteq> i"
  shows "req_blocks (kv s) rid = []"
proof -
  note t = token_okD [OF ok]
  obtain xs where m: "manager_ok f seed (kv s) (live_inputs s) xs" using kv_served_ok [OF t(1) f] by blast
  have "num_cached_block (kv s) rid = None"
  proof (cases "requests s rid")
    case None
    then show ?thesis using manager_okD(7) [OF m, of rid] by (simp add: live_inputs_def input_hashed_def)
  next
    case (Some x)
    then have "x \<in> set (running s @ k @ w)" "request_id x = rid" using queues_okD(4) [OF t(2), of rid x] by simp_all
    then show ?thesis using t(5) [of x] r rid by (auto simp: waits_ok_def)
  qed
  then show ?thesis using manager_okD(6) [OF m, of rid] by (simp add: held_ok_def)
qed

lemma allocate_for_running:
  assumes ok: "token_ok f seed adv s k w" and f: "collision_free f seed" and r: "r \<in> set (running s)" and n: "0 < n"
    and fits: "ro_num_computed_tokens (obj s r) + n \<le> sc_max_model_len (cfg s)" and adv: "adv (request_id r) = 0"
  shows "\<exists>res m. allocate_slots f seed (cache_view s r) n 0 None look False (kv s) = Inr (res, m) \<and>
    (case res of None \<Rightarrow> token_ok f seed adv (s\<lparr>kv := m\<rparr>) k w | Some b \<Rightarrow> token_ok f seed (adv(request_id r := n)) (s\<lparr>kv := m\<rparr>) k w) \<and>
    same_frame (kv s) m \<and> (res = None \<longrightarrow> running s = [r] \<longrightarrow> \<not> roomy s)"
proof -
  note t = token_okD [OF ok]
  obtain xs where mok: "manager_ok f seed (kv s) (live_inputs s) xs" using kv_served_ok [OF t(1) f] by blast
  have live: "live_inputs s (cr_id (cache_view s r)) = Some (cr_input (cache_view s r))" using live_known [OF t(2), of r] r by simp
  have v: "kv_servable (kv s) (cache_view s r) n" using kv_servable_view [OF t(4) n t(3)] r by simp
  note ro = t(6) [OF r, unfolded runs_ok_def adv]
  have c: "continues (kv s) (cache_view s r) (cr_num_computed_tokens (cache_view s r) + n)" using ro by (auto simp: continues_def)
  obtain res m ys where a: "allocate_slots f seed (cache_view s r) n 0 None look False (kv s) = Inr (res, m)"
    "outcome (kv s) (request_id r) (slots (cache_view s r) n 0 look (kv s)) [] res m"
    "advances (kv s) (request_id r) (ro_num_computed_tokens (obj s r) + n) res m"
    using extend_ok [OF mok f live v c, of look False] by auto
  have kvs: "kv_served f seed m (live_inputs s)" by (rule kv_served.extend [OF t(1) live v c a(1)])
  have fr: "same_frame (kv s) m" using a(3) by (simp add: advances_def)
  have only: "only_request (kv s) (request_id r) m"
    using a(2,3) outcome_blocks [of "kv s"] by (cases res) (auto simp: only_request_def advances_def)
  show ?thesis
  proof (cases res)
    case None
    have "runs_ok (s\<lparr>kv := m\<rparr>) (adv (request_id r)) r"
      using t(6) [OF r] a(2) fr unfolding None by (simp add: runs_ok_def outcome_def get_block_ids_def same_frame_def)
    then have tok: "token_ok f seed adv (s\<lparr>kv := m\<rparr>) k w" by (rule token_ok_kv [OF ok kvs only r]) simp
    have "\<not> roomy s" if "running s = [r]"
    proof
      assume "roomy s"
      moreover have "req_blocks (kv s) rid = []" if "rid \<noteq> request_id r" for rid
        using others_hold_nothing [OF ok f _ that] \<open>running s = [r]\<close> by simp
      moreover have "slots (cache_view s r) n 0 look (kv s) \<le> sc_max_model_len (cfg s)" using t(3) by (simp add: slots_def)
      ultimately show False using alone_has_room [OF mok, of "request_id r" _ "sc_max_model_len (cfg s)" "[]"] a(2) unfolding None
        by (simp add: roomy_def outcome_def)
    qed
    then show ?thesis using a(1) None fr tok by auto
  next
    case (Some b)
    have "slots (cache_view s r) n 0 look (kv s) \<le> length (get_block_ids (request_id r) m) * cache_block_size (kv s)"
      using a(2) unfolding Some by (rule outcome_room)
    moreover have "ro_num_computed_tokens (obj s r) + n \<le> slots (cache_view s r) n 0 look (kv s)"
      using fits t(3) by (simp add: slots_def)
    ultimately have "runs_ok (s\<lparr>kv := m\<rparr>) n r"
      using ro a(3) fr unfolding Some by (auto simp: runs_ok_def advances_def same_frame_def)
    then have "token_ok f seed (adv(request_id r := n)) (s\<lparr>kv := m\<rparr>) k w" by (intro token_ok_kv [OF ok kvs only r]) simp_all
    then show ?thesis using a(1) Some fr by auto
  qed
qed

section \<open>Preemption\<close>

lemma other_id:
  assumes "distinct (map g (xs @ v # ys))" "x \<in> set (xs @ ys)"
  shows "g x \<noteq> g v"
proof
  assume e: "g x = g v"
  have "g v \<notin> g ` set (xs @ ys)" using assms(1) by (simp add: image_Un)
  then show False using imageI [OF assms(2), of g] e by simp
qed

lemma set_obj_simps [simp]:
  "obj (set_obj r g s) r' = (if request_id r' = request_id r then g (obj s r') else obj s r')"
  "cfg (set_obj r g s) = cfg s" "kv (set_obj r g s) = kv s" "requests (set_obj r g s) = requests s" "waiting (set_obj r g s) = waiting s"
  "running (set_obj r g s) = running s" "finished_req_ids (set_obj r g s) = finished_req_ids s"
  by (simp_all add: set_obj_def obj_def)

lemma live_inputs_set_obj:
  assumes "ro_input (g (obj s r)) = ro_input (obj s r)"
  shows "live_inputs (set_obj r g s) = live_inputs s"
  using assms by (simp add: fun_eq_iff live_inputs_def set_obj_def obj_def split: option.splits)

lemma free_request_ok:
  assumes k: "kv_served f seed m live" and f: "collision_free f seed"
  shows "\<exists>m'. free_request r m = Inr m' \<and> only_request m (cr_id r) m' \<and> num_cached_block m' (cr_id r) = None \<and> get_block_ids (cr_id r) m' = []"
proof -
  obtain xs where "manager_ok f seed m live xs" using kv_served_ok [OF k f] by blast
  from group_free_ok [OF this, of "cr_id r"] obtain m' where "group_free (cr_id r) m = Inr m'" "req_blocks m' = (req_blocks m)(cr_id r := [])"
    "num_cached_block m' = (num_cached_block m)(cr_id r := None)" "same_setup (pool m) (pool m')" "cache_block_size m' = cache_block_size m"
    "cache_max_model_len m' = cache_max_model_len m" by blast
  then show ?thesis by (intro exI [of _ m']) (simp add: free_request_def only_request_def same_frame_def get_block_ids_def)
qed

text \<open>What the pass over the running requests leaves alone.\<close>

definition same_run :: "token_scheduler \<Rightarrow> token_scheduler \<Rightarrow> bool" where
  "same_run s s' \<longleftrightarrow> cfg s' = cfg s \<and> requests s' = requests s \<and> live_inputs s' = live_inputs s \<and> finished_req_ids s' = finished_req_ids s \<and>
     same_frame (kv s) (kv s') \<and> set (running s') \<subseteq> set (running s) \<and> (\<forall>r. request_id r \<notin> request_id ` set (running s) \<longrightarrow> obj s' r = obj s r)"

lemma same_runD:
  assumes "same_run s s'"
  shows "cfg s' = cfg s" "requests s' = requests s" "live_inputs s' = live_inputs s" "finished_req_ids s' = finished_req_ids s"
    "same_frame (kv s) (kv s')" "set (running s') \<subseteq> set (running s)" "\<And>r. request_id r \<notin> request_id ` set (running s) \<Longrightarrow> obj s' r = obj s r"
  using assms unfolding same_run_def by blast+

lemma same_run_trans:
  assumes "same_run s s'" "same_run s' s''"
  shows "same_run s s''"
proof -
  note a = same_runD [OF assms(1)] and b = same_runD [OF assms(2)]
  have "obj s'' r = obj s r" if "request_id r \<notin> request_id ` set (running s)" for r
  proof -
    have "request_id r \<notin> request_id ` set (running s')" using that a(6) by blast
    then show ?thesis using a(7) [OF that] b(7) by simp
  qed
  then show ?thesis using a(1-6) b(1-6) same_frame_trans [OF a(5) b(5)] by (simp add: same_run_def order_trans [OF b(6) a(6)])
qed

lemma same_run_kv: "same_frame (kv s) m \<Longrightarrow> same_run s (s\<lparr>kv := m\<rparr>)"
  by (simp add: same_run_def)

lemma preempt_ok:
  assumes ok: "token_ok f seed adv s k w" and f: "collision_free f seed" and v: "running s = rs @ [v]" and k: "k = []"
  shows "\<exists>s'. preempt v rs s = Inr s' \<and> token_ok f seed adv s' [] (v # w) \<and> running s' = rs \<and> same_run s s' \<and>
    (\<forall>r. request_id r \<noteq> request_id v \<longrightarrow> obj s' r = obj s r)"
proof -
  note t = token_okD [OF ok] and q = queues_okD [OF token_okD(2) [OF ok]]
  obtain m where m: "free_request (cache_view s v) (kv s) = Inr m" "only_request (kv s) (request_id v) m"
    "num_cached_block m (request_id v) = None" using free_request_ok [OF t(1) f, of "cache_view s v"] by auto
  note o' = m(2) [unfolded only_request_def same_frame_def same_setup_def]
  let ?g = "\<lambda>q. q\<lparr>ro_status := PREEMPTED, ro_num_computed_tokens := 0\<rparr>"
  let ?s = "set_obj v ?g (s\<lparr>kv := m, running := rs, waiting := FCFSRequestQueue (v # w)\<rparr>)"
  have p: "preempt v rs s = Inr ?s" using m(1) q(2) by (simp add: preempt_def fcfs_prepend_request_def)
  have li: "live_inputs ?s = live_inputs s" by (subst live_inputs_set_obj) simp_all
  have diff: "request_id r \<noteq> request_id v" if "r \<in> set (rs @ w)" for r using that q(3) unfolding v k by (intro other_id [of request_id rs v w]) simp_all
  have "token_ok f seed adv ?s [] (v # w)"
  proof (rule token_okI)
    show "kv_served f seed (kv ?s) (live_inputs ?s)" using kv_served.preempt [OF t(1) m(1)] li by simp
    show "queues_ok ?s [] (v # w)" using q(1,3,4) v k by (auto simp: queues_ok_def)
    show "cache_max_model_len (kv ?s) = sc_max_model_len (cfg ?s)" using t(3) o' by simp
    show "request_fits ?s r" if "r \<in> set (running ?s @ [] @ v # w)" for r
      using t(4) [of r] t(4) [of v] that v k o' by (auto simp: request_fits_def ro_num_tokens_def)
    show "waits_ok ?s r" if "r \<in> set ([] @ v # w)" for r
    proof (cases "r = v")
      case False
      then have "r \<in> set (k @ w)" "request_id r \<noteq> request_id v" using that diff [of r] k by auto
      then show ?thesis using t(5) [of r] o' by (simp add: waits_ok_def)
    qed (simp add: waits_ok_def m(3))
    show "runs_ok ?s (adv (request_id r)) r" if "r \<in> set (running ?s)" for r
      using t(6) [of r] that diff [of r] o' v by (simp add: runs_ok_def)
  qed
  moreover have "same_run s ?s" using m(2) li v unfolding same_run_def only_request_def by auto
  ultimately show ?thesis using p by (intro exI [of _ ?s]) simp
qed

text \<open>Making room for a running request preempts requests from the end until it succeeds or its turn comes.\<close>

lemma allocate_running_ok:
  assumes ok: "token_ok f seed adv s [] w" and f: "collision_free f seed" and i: "i < length (running s)" "r = running s ! i" and n: "0 < n"
    and fits: "ro_num_computed_tokens (obj s r) + n \<le> sc_max_model_len (cfg s)" and adv: "adv (request_id r) = 0"
  shows "\<exists>res s' j. allocate_running f seed r n s pre = Inr (res, s', pre @ rev (drop j (running s))) \<and> j \<le> length (running s) \<and>
    running s' = take j (running s) \<and> same_run s s' \<and>
    (\<forall>r \<in> set (take j (running s)). obj s' r = obj s r) \<and>
    (case res of None \<Rightarrow> j = i \<and> (i = 0 \<longrightarrow> \<not> roomy s) \<and> token_ok f seed adv s' [] (drop j (running s) @ w)
     | Some b \<Rightarrow> i < j \<and> token_ok f seed (adv(request_id r := n)) s' [] (drop j (running s) @ w))"
  using assms
proof (induction "length (running s)" arbitrary: s w pre rule: less_induct)
  case less
  note ok = less.prems(1) and i = less.prems(3,4)
  note q = queues_okD [OF token_okD(2) [OF ok]]
  have r: "r \<in> set (running s)" using i by simp
  obtain res m where a: "allocate_slots f seed (cache_view s r) n 0 None (num_lookahead_tokens (cfg s)) False (kv s) = Inr (res, m)"
    "case res of None \<Rightarrow> token_ok f seed adv (s\<lparr>kv := m\<rparr>) [] w | Some b \<Rightarrow> token_ok f seed (adv(request_id r := n)) (s\<lparr>kv := m\<rparr>) [] w"
    "same_frame (kv s) m" "res = None \<longrightarrow> running s = [r] \<longrightarrow> \<not> roomy s" using allocate_for_running [OF ok f r n less.prems(6) adv] by blast
  show ?case
  proof (cases res)
    case (Some b)
    have "allocate_running f seed r n s pre = Inr (Some b, s\<lparr>kv := m\<rparr>, pre @ rev (drop (length (running s)) (running s)))"
      by (subst allocate_running.simps) (simp add: a(1) Some)
    then show ?thesis using a(2) same_run_kv [OF a(3)] Some i(1)
      by (intro exI [of _ "Some b"] exI [of _ "s\<lparr>kv := m\<rparr>"] exI [of _ "length (running s)"]) simp
  next
    case None
    let ?s = "s\<lparr>kv := m\<rparr>"
    obtain rs v where v: "running s = rs @ [v]" using i(1) by (cases "running s" rule: rev_cases) auto
    have ok': "token_ok f seed adv ?s [] w" using a(2) None by simp
    obtain s1 where s1: "preempt v rs ?s = Inr s1" "token_ok f seed adv s1 [] (v # w)" "running s1 = rs" "same_run ?s s1"
      "\<And>r. request_id r \<noteq> request_id v \<Longrightarrow> obj s1 r = obj s r"
      using preempt_ok [OF ok' f, of rs v] v by auto
    have fr: "same_run s s1" using same_run_trans [OF same_run_kv [OF a(3)] s1(4)] .
    have cv: "choose_victim s = Inr (v, rs)" using q(1) v by (simp add: choose_victim_def)
    have dv: "request_id r' \<noteq> request_id v" if "r' \<in> set rs" for r' using q(3) that unfolding v by (intro other_id [of request_id rs v w]) simp_all
    have st: "allocate_running f seed r n s pre = (if v = r then Inr (None, s1, pre @ [v]) else allocate_running f seed r n s1 (pre @ [v]))"
      by (subst allocate_running.simps) (simp add: a(1) None cv s1(1))
    show ?thesis
    proof (cases "v = r")
      case True
      have "i = length rs"
      proof (rule ccontr)
        assume "i \<noteq> length rs"
        then have "i < length rs" using i(1) v by simp
        then have "r \<in> set rs" using i(2) v by (simp add: nth_append)
        then show False using dv True by blast
      qed
      then show ?thesis
        using st True s1 fr v dv a(4) None by (intro exI [of _ None] exI [of _ s1] exI [of _ i]) auto
    next
      case False
      have il: "i < length rs"
      proof (rule ccontr)
        assume "\<not> i < length rs"
        then have "i = length rs" using i(1) v by simp
        then show False using i(2) v False by simp
      qed
      have ri: "r = running s1 ! i" using i(2) v il s1(3) by (simp add: nth_append)
      have rrs: "r \<in> set rs" using ri il s1(3) by simp
      have o1: "obj s1 r = obj s r" using s1(5) dv [OF rrs] by blast
      obtain res' s' j where IH: "allocate_running f seed r n s1 (pre @ [v]) = Inr (res', s', (pre @ [v]) @ rev (drop j rs))" "j \<le> length rs"
        "running s' = take j rs" "same_run s1 s'" "\<forall>r \<in> set (take j rs). obj s' r = obj s1 r"
        "case res' of None \<Rightarrow> j = i \<and> (i = 0 \<longrightarrow> \<not> roomy s1) \<and> token_ok f seed adv s' [] (drop j rs @ v # w)
         | Some b \<Rightarrow> i < j \<and> token_ok f seed (adv(request_id r := n)) s' [] (drop j rs @ v # w)"
        using less.hyps [of s1 "v # w" "pre @ [v]", OF _ s1(2) f _ ri n _ adv] il v s1(3) same_runD(1) [OF fr] less.prems(6) o1 by auto
      have "\<forall>r \<in> set (take j rs). obj s' r = obj s r" using IH(5) s1(5) dv set_take_subset [of j rs] by (metis subsetD)
      moreover have e: "pre @ rev (drop j (running s)) = (pre @ [v]) @ rev (drop j rs)" "take j (running s) = take j rs"
        "drop j (running s) @ w = drop j rs @ v # w" using v IH(2) by simp_all
      moreover note IH(6) [folded e(3), unfolded roomy_frame [OF same_runD(1) [OF fr] same_runD(5) [OF fr]]]
      ultimately show ?thesis
        using st False IH(1-3) same_run_trans [OF fr IH(4)] IH(2) [THEN le_SucI]
        by (intro exI [of _ res'] exI [of _ s'] exI [of _ j]) (simp add: v)
    qed
  qed
qed

section \<open>The pass over the running requests\<close>

text \<open>The plan for a request whose computed tokens will be \<open>reach\<close>: all its tokens at most, or all of them and its drafts.\<close>

definition plan_ok :: "(string \<times> int list) list \<Rightarrow> nat \<Rightarrow> string \<Rightarrow> req_object \<Rightarrow> bool" where
  "plan_ok spec reach rid q = (case map_of spec rid of None \<Rightarrow> reach \<le> ro_num_tokens q | Some ts \<Rightarrow> ts \<noteq> [] \<and> reach = ro_num_tokens q + length ts)"

text \<open>The requests \<open>S\<close> have been scheduled, in this order, and \<open>b\<close> tokens of the budget \<open>B\<close> are left.\<close>

definition planned :: "nat \<Rightarrow> request list \<Rightarrow> scheduled \<Rightarrow> nat \<Rightarrow> (string \<Rightarrow> nat) \<Rightarrow> token_scheduler \<Rightarrow> bool" where
  "planned B S a b adv s \<longleftrightarrow> set S \<subseteq> set (running s) \<and> distinct S \<and>
     mset S = mset (scheduled_new_reqs a @ scheduled_resumed_reqs a @ scheduled_running_reqs a) \<and>
     num_scheduled_tokens a = map (\<lambda>r. (request_id r, adv (request_id r))) S \<and>
     sum_list (map snd (num_scheduled_tokens a)) + b = B \<and>
     (\<forall>r \<in> set S. 0 < adv (request_id r) \<and> request_id r \<in> fst ` set (req_to_new_block_ids a) \<and>
        plan_ok (scheduled_spec_decode_tokens a) (ro_num_computed_tokens (obj s r) + adv (request_id r)) (request_id r) (obj s r)) \<and>
     (\<forall>rid. rid \<notin> request_id ` set S \<longrightarrow> adv rid = 0 \<and> rid \<notin> fst ` set (scheduled_spec_decode_tokens a))"

lemma plannedD:
  assumes "planned B S a b adv s"
  shows "set S \<subseteq> set (running s)" "distinct S" "mset S = mset (scheduled_new_reqs a @ scheduled_resumed_reqs a @ scheduled_running_reqs a)"
    "num_scheduled_tokens a = map (\<lambda>r. (request_id r, adv (request_id r))) S" "sum_list (map snd (num_scheduled_tokens a)) + b = B"
    "\<And>r. r \<in> set S \<Longrightarrow> 0 < adv (request_id r)" "\<And>r. r \<in> set S \<Longrightarrow> request_id r \<in> fst ` set (req_to_new_block_ids a)"
    "\<And>r. r \<in> set S \<Longrightarrow> plan_ok (scheduled_spec_decode_tokens a) (ro_num_computed_tokens (obj s r) + adv (request_id r)) (request_id r) (obj s r)"
    "\<And>rid. rid \<notin> request_id ` set S \<Longrightarrow> adv rid = 0" "\<And>rid. rid \<notin> request_id ` set S \<Longrightarrow> rid \<notin> fst ` set (scheduled_spec_decode_tokens a)"
  using assms unfolding planned_def by blast+

text \<open>Every running request has tokens left to compute.\<close>

definition behind :: "token_scheduler \<Rightarrow> bool" where
  "behind s \<longleftrightarrow> (\<forall>r \<in> set (running s). ro_num_computed_tokens (obj s r) < ro_num_tokens (obj s r))"

lemma update_fresh: "k \<notin> fst ` set xs \<Longrightarrow> AList.update k v xs = xs @ [(k, v)]"
  by (induction xs) auto

lemma dom_update [simp]: "fst ` set (AList.update k v xs) = insert k (fst ` set xs)"
  by (induction xs) auto

lemma num_new_running_bounds:
  assumes "ro_num_computed_tokens q < ro_num_tokens q" "ro_num_tokens q < sc_max_model_len c" "0 < b"
  shows "0 < num_new_running c b q" "num_new_running c b q \<le> int b"
    "int (ro_num_computed_tokens q) + num_new_running c b q \<le> int (ro_num_tokens q + length (ro_spec_token_ids q))"
    "int (ro_num_computed_tokens q) + num_new_running c b q < int (sc_max_model_len c)"
  using assms by (auto simp: num_new_running_def cap_prefill_def Let_def min_def)

text \<open>The pass over one more request.\<close>

lemma record_spec_frame:
  "running (fst (record_spec r n s a)) = running s" "cfg (fst (record_spec r n s a)) = cfg s" "kv (fst (record_spec r n s a)) = kv s"
  "requests (fst (record_spec r n s a)) = requests s" "waiting (fst (record_spec r n s a)) = waiting s"
  "finished_req_ids (fst (record_spec r n s a)) = finished_req_ids s" "live_inputs (fst (record_spec r n s a)) = live_inputs s"
  "ro_num_computed_tokens (obj (fst (record_spec r n s a)) r') = ro_num_computed_tokens (obj s r')"
  "ro_num_tokens (obj (fst (record_spec r n s a)) r') = ro_num_tokens (obj s r')"
  "ro_num_prompt_tokens (obj (fst (record_spec r n s a)) r') = ro_num_prompt_tokens (obj s r')"
  "ro_status (obj (fst (record_spec r n s a)) r') = ro_status (obj s r')"
  "ro_input (obj (fst (record_spec r n s a)) r') = ro_input (obj s r')"
  "request_id r' \<noteq> request_id r \<Longrightarrow> obj (fst (record_spec r n s a)) r' = obj s r'"
  by (auto simp: record_spec_def Let_def live_inputs_set_obj ro_num_tokens_def)

lemma record_spec_token_ok: "token_ok f seed adv s k w \<Longrightarrow> token_ok f seed adv (fst (record_spec r n s a)) k w"
  by (simp add: token_ok_def queues_ok_def request_fits_def waits_ok_def runs_ok_def record_spec_frame)

lemma record_spec_same_run: "r \<in> set (running s) \<Longrightarrow> same_run s (fst (record_spec r n s a))"
  unfolding same_run_def same_frame_def same_setup_def
  by (auto simp: record_spec_frame(1-7) intro!: record_spec_frame(13))

lemma record_spec_plan:
  assumes "ro_num_computed_tokens (obj s r) + n \<le> ro_num_tokens (obj s r) + length (ro_spec_token_ids (obj s r))"
    "request_id r \<notin> fst ` set (scheduled_spec_decode_tokens a)"
  shows "plan_ok (scheduled_spec_decode_tokens (snd (record_spec r n s a))) (ro_num_computed_tokens (obj s r) + n) (request_id r) (obj s r)"
    "rid \<noteq> request_id r \<Longrightarrow> map_of (scheduled_spec_decode_tokens (snd (record_spec r n s a))) rid = map_of (scheduled_spec_decode_tokens a) rid"
    "fst ` set (scheduled_spec_decode_tokens (snd (record_spec r n s a))) \<subseteq> insert (request_id r) (fst ` set (scheduled_spec_decode_tokens a))"
proof -
  have "map_of (scheduled_spec_decode_tokens a) (request_id r) = None" using assms(2) by (simp add: map_of_eq_None_iff)
  with assms(1) show "plan_ok (scheduled_spec_decode_tokens (snd (record_spec r n s a))) (ro_num_computed_tokens (obj s r) + n) (request_id r) (obj s r)"
    by (auto simp: record_spec_def Let_def plan_ok_def update_conv')
qed (auto simp: record_spec_def Let_def update_conv')

lemma record_spec_rest:
  "scheduled_new_reqs (snd (record_spec r n s a)) = scheduled_new_reqs a" "scheduled_resumed_reqs (snd (record_spec r n s a)) = scheduled_resumed_reqs a"
  "scheduled_running_reqs (snd (record_spec r n s a)) = scheduled_running_reqs a" "preempted_reqs (snd (record_spec r n s a)) = preempted_reqs a"
  "req_to_new_block_ids (snd (record_spec r n s a)) = req_to_new_block_ids a" "num_scheduled_tokens (snd (record_spec r n s a)) = num_scheduled_tokens a"
  by (simp_all add: record_spec_def Let_def)

lemma fresh_id: "i \<notin> g ` A \<Longrightarrow> x \<in> A \<Longrightarrow> g x \<noteq> i"
  by blast

lemma fresh_idI: "(\<And>x. x \<in> A \<Longrightarrow> g x \<noteq> i) \<Longrightarrow> i \<notin> g ` A"
  by blast

lemma plan_ok_cong:
  assumes "map_of spec' rid = map_of spec rid" "ro_num_tokens q' = ro_num_tokens q"
  shows "plan_ok spec' n rid q' = plan_ok spec n rid q"
  unfolding plan_ok_def assms ..

text \<open>The plan stays valid where the counts of the scheduled requests are unchanged, and grows by one request.\<close>

definition same_counts :: "request list \<Rightarrow> token_scheduler \<Rightarrow> token_scheduler \<Rightarrow> bool" where
  "same_counts S s s' \<longleftrightarrow> (\<forall>r \<in> set S. ro_num_computed_tokens (obj s' r) = ro_num_computed_tokens (obj s r) \<and> ro_num_tokens (obj s' r) = ro_num_tokens (obj s r))"

lemma planned_kept:
  assumes "planned B S a b adv s" "set S \<subseteq> set (running s')" "same_counts S s s'"
  shows "planned B S (a\<lparr>preempted_reqs := p\<rparr>) b adv s'"
proof -
  note d = plannedD [OF assms(1)] and c = assms(3) [unfolded same_counts_def]
  have "plan_ok (scheduled_spec_decode_tokens a) (ro_num_computed_tokens (obj s' r) + adv (request_id r)) (request_id r) (obj s' r)"
    if "r \<in> set S" for r
    using d(8) [OF that] c that plan_ok_cong [OF refl, of "obj s' r" "obj s r" "scheduled_spec_decode_tokens a" _ "request_id r"] by simp
  then show ?thesis unfolding planned_def using assms(2) d by simp
qed

lemma planned_add:
  assumes p: "planned B S a b adv s" and S: "set S \<subseteq> set (running s')" "same_counts S s s'" and r: "r \<in> set (running s')" "request_id r \<notin> request_id ` set S"
    and n: "0 < n" "n \<le> b" "num_scheduled_tokens a' = num_scheduled_tokens a @ [(request_id r, n)]"
    and m: "mset (scheduled_new_reqs a' @ scheduled_resumed_reqs a' @ scheduled_running_reqs a') =
      add_mset r (mset (scheduled_new_reqs a @ scheduled_resumed_reqs a @ scheduled_running_reqs a))"
    and b: "fst ` set (req_to_new_block_ids a') = insert (request_id r) (fst ` set (req_to_new_block_ids a))"
    and pl: "plan_ok (scheduled_spec_decode_tokens a') (ro_num_computed_tokens (obj s' r) + n) (request_id r) (obj s' r)"
    and sp: "\<And>rid. rid \<noteq> request_id r \<Longrightarrow> map_of (scheduled_spec_decode_tokens a') rid = map_of (scheduled_spec_decode_tokens a) rid"
  shows "planned B (S @ [r]) a' (b - n) (adv(request_id r := n)) s'"
proof -
  note d = plannedD [OF p] and c = S(2) [unfolded same_counts_def]
  note diff = fresh_id [OF r(2)]
  have "r \<notin> set S" using diff by blast
  moreover have "rid \<notin> fst ` set (scheduled_spec_decode_tokens a')" if "rid \<notin> request_id ` set S" "rid \<noteq> request_id r" for rid
    using d(10) [OF that(1)] sp [OF that(2)] by (simp add: map_of_eq_None_iff [symmetric])
  moreover have "plan_ok (scheduled_spec_decode_tokens a') (ro_num_computed_tokens (obj s' r') + adv (request_id r')) (request_id r') (obj s' r')"
    if "r' \<in> set S" for r' using d(8) [OF that] c that plan_ok_cong [OF sp [OF diff [OF that]], of "obj s' r'" "obj s r'"] by simp
  moreover have "sum_list (map snd (num_scheduled_tokens a')) + (b - n) = B" using d(5) n by simp
  ultimately show ?thesis
    unfolding planned_def using S(1) r(1) d(2-4,6,7,9) n(1,3) m b pl diff by simp
qed

lemma record_running_ok:
  assumes p: "planned B S a b adv s" and S: "set S \<subseteq> set (running s)" and r: "r \<in> set (running s)" "request_id r \<notin> request_id ` set S"
    and n: "0 < n" "n \<le> b" "ro_num_computed_tokens (obj s r) + n \<le> ro_num_tokens (obj s r) + length (ro_spec_token_ids (obj s r))"
    and e: "record_spec r n s (record_running r n bl pre a) = (s', a')"
  shows "planned B (S @ [r]) a' (b - n) (adv(request_id r := n)) s'" "preempted_reqs a' = pre"
proof -
  let ?a = "record_running r n bl pre a"
  note d = plannedD [OF p]
  have s': "s' = fst (record_spec r n s ?a)" and a': "a' = snd (record_spec r n s ?a)" using e by simp_all
  have f: "request_id r \<notin> fst ` set (num_scheduled_tokens a)" "request_id r \<notin> fst ` set (scheduled_spec_decode_tokens ?a)"
    using r(2) d(10) [OF r(2)] by (auto simp: d(4) record_running_def image_image)
  note pl = record_spec_plan [OF n(3) f(2)]
  show "planned B (S @ [r]) a' (b - n) (adv(request_id r := n)) s'"
  proof (rule planned_add [OF p _ _ _ r(2) n(1,2)])
    show "same_counts S s s'" by (simp add: same_counts_def s' record_spec_frame)
    show "num_scheduled_tokens a' = num_scheduled_tokens a @ [(request_id r, n)]"
      by (simp add: a' record_spec_rest record_running_def update_fresh [OF f(1)])
    show "plan_ok (scheduled_spec_decode_tokens a') (ro_num_computed_tokens (obj s' r) + n) (request_id r) (obj s' r)"
      using pl(1) plan_ok_cong [OF refl, of "obj s' r" "obj s r" "scheduled_spec_decode_tokens a'" _ "request_id r"]
      by (simp add: a' s' record_spec_frame)
    show "map_of (scheduled_spec_decode_tokens a') rid = map_of (scheduled_spec_decode_tokens a) rid" if "rid \<noteq> request_id r" for rid
      using pl(2) [OF that] by (simp add: a' record_running_def)
  qed (use S r in \<open>simp_all add: s' a' record_spec_frame record_spec_rest record_running_def\<close>)
  show "preempted_reqs a' = pre" by (simp add: a' record_spec_rest record_running_def)
qed

lemma nth_id_fresh:
  assumes "distinct (map g xs)" "i < length xs"
  shows "g (xs ! i) \<notin> g ` set (take i xs)"
  using assms by (auto simp: in_set_conv_nth nth_eq_iff_index_eq [of "map g xs"] distinct_conv_nth)

text \<open>The oldest request gets tokens in every step when the cache is large enough.\<close>

definition head_scheduled :: "nat \<Rightarrow> token_scheduler \<Rightarrow> request list \<Rightarrow> scheduled \<Rightarrow> bool" where
  "head_scheduled B s rs a \<longleftrightarrow> (roomy s \<and> 0 < B \<and> rs \<noteq> [] \<longrightarrow> request_id (hd rs) \<in> fst ` set (num_scheduled_tokens a))"

lemma head_planned:
  assumes p: "planned B (take i rs) a b adv s'" and i: "roomy s \<Longrightarrow> i = 0 \<Longrightarrow> b = 0 \<or> rs = []"
  shows "head_scheduled B s rs a"
proof -
  note d = plannedD [OF p]
  have "request_id (hd rs) \<in> fst ` set (num_scheduled_tokens a)" if s: "roomy s" "0 < B" "rs \<noteq> []"
  proof -
    have "i \<noteq> 0"
    proof
      assume 0: "i = 0"
      then have "b = B" using d(4,5) by simp
      then show False using i [OF s(1) 0] s(2,3) by simp
    qed
    then have "hd rs \<in> set (take i rs)" using s(3) by (cases rs; cases i) simp_all
    then show ?thesis by (simp add: d(4) image_image)
  qed
  then show ?thesis by (simp add: head_scheduled_def)
qed

text \<open>The state after the pass: a prefix of the running requests is scheduled, and where no request was preempted and budget is
  left, all of them are.\<close>

definition run_result :: "hash_fn \<Rightarrow> int \<Rightarrow> nat \<Rightarrow> request list \<Rightarrow> scheduled \<Rightarrow> token_scheduler \<Rightarrow> nat \<times> scheduled \<times> token_scheduler \<Rightarrow> bool" where
  "run_result f seed B w a s = (\<lambda>(b', a', s'). \<exists>adv' w' i'. token_ok f seed adv' s' [] w' \<and> planned B (take i' (running s')) a' b' adv' s' \<and> behind s' \<and>
     scheduled_new_reqs a' = scheduled_new_reqs a \<and> scheduled_resumed_reqs a' = scheduled_resumed_reqs a \<and>
     running s' @ w' = running s @ w \<and> length (running s') \<le> length (running s) \<and> same_run s s' \<and>
     preempted_reqs a' = preempted_reqs a @ rev (drop (length (running s')) (running s)) \<and>
     (running s' = running s \<longrightarrow> b' = 0 \<or> length (running s') \<le> i') \<and> same_counts (running s') s s' \<and> head_scheduled B s (running s) a')"

lemma behind_kept:
  assumes "behind s" "set (running s') \<subseteq> set (running s)" "same_counts (running s') s s'"
  shows "behind s'"
  using assms by (auto simp: behind_def same_counts_def)

lemma run_result_trans:
  assumes "run_result f seed B (drop j (running s) @ w) a1 s1 res" "running s1 = take j (running s)" "j \<le> length (running s)" "same_run s s1"
    "scheduled_new_reqs a1 = scheduled_new_reqs a" "scheduled_resumed_reqs a1 = scheduled_resumed_reqs a"
    "preempted_reqs a1 = preempted_reqs a @ rev (drop j (running s))" "same_counts (running s1) s s1" "0 < j"
  shows "run_result f seed B w a s res"
proof -
  obtain b' a' s' where res: "res = (b', a', s')" by (cases res)
  obtain adv' w' i' where r: "token_ok f seed adv' s' [] w'" "planned B (take i' (running s')) a' b' adv' s'" "behind s'"
    "scheduled_new_reqs a' = scheduled_new_reqs a1" "scheduled_resumed_reqs a' = scheduled_resumed_reqs a1"
    "running s' @ w' = running s1 @ drop j (running s) @ w" "length (running s') \<le> length (running s1)" "same_run s1 s'"
    "preempted_reqs a' = preempted_reqs a1 @ rev (drop (length (running s')) (running s1))"
    "running s' = running s1 \<longrightarrow> b' = 0 \<or> length (running s') \<le> i'" "same_counts (running s') s1 s'" "head_scheduled B s1 (running s1) a'"
    using assms(1) unfolding run_result_def res prod.case by blast
  have l: "length (running s') \<le> j" "j \<le> length (running s)" using r(7) assms(2,3) by simp_all
  have "drop (length (running s')) (running s) = drop (length (running s')) (take j (running s)) @ drop j (running s)"
    using l by (metis append_take_drop_id drop_append drop_drop le_add_diff_inverse2 diff_is_0_eq drop_0 length_take min.absorb2)
  moreover have "running s' = running s \<longrightarrow> b' = 0 \<or> length (running s') \<le> i'" using r(10) l assms(2) by auto
  moreover have "same_counts (running s') s s'" using r(11) assms(8) same_runD(6) [OF r(8)] by (auto simp: same_counts_def)
  moreover have "head_scheduled B s (running s) a'"
    using r(12) assms(2,9) roomy_frame [OF same_runD(1,5) [OF assms(4)]] by (cases "running s"; cases j) (simp_all add: head_scheduled_def)
  ultimately show ?thesis
    unfolding run_result_def res prod.case using r(1-6,8) l assms(2,4-7) r(9) same_run_trans [OF assms(4) r(8)]
    by (intro exI [of _ adv'] exI [of _ w'] exI [of _ i']) (simp add: append_assoc [symmetric] del: append_assoc)
qed

lemma running_loop_ok:
  assumes "token_ok f seed adv s [] w" "collision_free f seed" "planned B (take i (running s)) a b adv s" "behind s"
  shows "\<exists>res. running_loop f seed i b a s = Inr res \<and> run_result f seed B w a s res"
  using assms
proof (induction "length (running s) - i" arbitrary: i b a s w adv rule: less_induct)
  case less
  note ok = less.prems(1) and f = less.prems(2) and pl = less.prems(3) and beh = less.prems(4)
  note t = token_okD [OF ok] and q = queues_okD [OF token_okD(2) [OF ok]] and d = plannedD [OF pl]
  show ?case
  proof (cases "i < length (running s) \<and> 0 < b")
    case False
    then have "running_loop f seed i b a s = Inr (b, a, s)" by (subst running_loop.simps) auto
    moreover have "head_scheduled B s (running s) a" by (rule head_planned [OF pl]) (use False in auto)
    then have "run_result f seed B w a s (b, a, s)"
      unfolding run_result_def prod.case using ok pl beh False
      by (intro exI [of _ adv] exI [of _ w] exI [of _ i]) (auto simp: same_run_def same_frame_def same_setup_def same_counts_def)
    ultimately show ?thesis by blast
  next
    case True
    define r where "r = running s ! i"
    define n where "n = num_new_running (cfg s) b (obj s r)"
    have r: "r \<in> set (running s)" using True by (simp add: r_def)
    have fresh: "request_id r \<notin> request_id ` set (take i (running s))"
      using q(3) True unfolding r_def by (intro nth_id_fresh) simp_all
    have b1: "ro_num_computed_tokens (obj s r) < ro_num_tokens (obj s r)" using beh r by (simp add: behind_def)
    have b2: "ro_num_tokens (obj s r) < sc_max_model_len (cfg s)" using t(4) [of r] r by (simp add: request_fits_def)
    have b3: "0 < b" using True by simp
    have n: "0 < n" "n \<le> int b" "int (ro_num_computed_tokens (obj s r)) + n \<le> int (ro_num_tokens (obj s r) + length (ro_spec_token_ids (obj s r)))"
      "int (ro_num_computed_tokens (obj s r)) + n < int (sc_max_model_len (cfg s))"
      unfolding n_def by (rule num_new_running_bounds [OF b1 b2 b3])+
    have fits: "ro_num_computed_tokens (obj s r) + nat n \<le> sc_max_model_len (cfg s)" "0 < nat n" using n by linarith+
    obtain res s1 j where al: "allocate_running f seed r (nat n) s (preempted_reqs a) = Inr (res, s1, preempted_reqs a @ rev (drop j (running s)))"
      "j \<le> length (running s)" "running s1 = take j (running s)" "same_run s s1" "\<forall>r \<in> set (take j (running s)). obj s1 r = obj s r"
      "case res of None \<Rightarrow> j = i \<and> (i = 0 \<longrightarrow> \<not> roomy s) \<and> token_ok f seed adv s1 [] (drop j (running s) @ w)
       | Some bl \<Rightarrow> i < j \<and> token_ok f seed (adv(request_id r := nat n)) s1 [] (drop j (running s) @ w)"
      using allocate_running_ok [OF ok f _ r_def fits(2,1) d(9) [OF fresh], of "preempted_reqs a"] True by blast
    have st: "running_loop f seed i b a s = (case res of
        None \<Rightarrow> Inr (b, a\<lparr>preempted_reqs := preempted_reqs a @ rev (drop j (running s))\<rparr>, s1)
      | Some bl \<Rightarrow> let (s'', a') = record_spec r (nat n) s1 (record_running r (nat n) bl (preempted_reqs a @ rev (drop j (running s))) a)
          in running_loop f seed (i + 1) (b - nat n) a' s'')"
      using True n(1) al(1) by (subst running_loop.simps) (simp add: r_def [symmetric] n_def [symmetric])
    have cnt: "same_counts (running s1) s s1" "same_counts (take i (running s1)) s s1"
      using al(3,5) set_take_subset [of i "take j (running s)"] by (auto simp: same_counts_def)
    have beh1: "behind s1" by (rule behind_kept [OF beh _ cnt(1)]) (simp add: al(3) set_take_subset)
    show ?thesis
    proof (cases res)
      case None
      have j: "j = i" "token_ok f seed adv s1 [] (drop j (running s) @ w)" "i = 0 \<longrightarrow> \<not> roomy s" using al(6) unfolding None option.case by blast+
      have ti: "take i (running s) = take i (running s1)" using al(3) j(1) by simp
      have "planned B (take i (running s1)) (a\<lparr>preempted_reqs := preempted_reqs a @ rev (drop j (running s))\<rparr>) b adv s1"
        by (rule planned_kept [OF pl [unfolded ti] set_take_subset cnt(2)])
      moreover have "head_scheduled B s (running s) a" by (rule head_planned [OF pl]) (use j(3) in simp)
      ultimately have "run_result f seed B w a s (b, a\<lparr>preempted_reqs := preempted_reqs a @ rev (drop j (running s))\<rparr>, s1)"
        unfolding run_result_def prod.case using j(1,2) al(2-4) beh1 cnt(1)
        by (intro exI [of _ adv] exI [of _ "drop j (running s) @ w"] exI [of _ i]) (simp add: min_def head_scheduled_def)
      then show ?thesis using st None by simp
    next
      case (Some bl)
      have j: "i < j" "token_ok f seed (adv(request_id r := nat n)) s1 [] (drop j (running s) @ w)" using al(6) unfolding Some option.case by blast+
      obtain s2 a2 where rs: "record_spec r (nat n) s1 (record_running r (nat n) bl (preempted_reqs a @ rev (drop j (running s))) a) = (s2, a2)"
        by (cases "record_spec r (nat n) s1 (record_running r (nat n) bl (preempted_reqs a @ rev (drop j (running s))) a)")
      have s2: "s2 = fst (record_spec r (nat n) s1 (record_running r (nat n) bl (preempted_reqs a @ rev (drop j (running s))) a))" using rs by simp
      have a2: "a2 = snd (record_spec r (nat n) s1 (record_running r (nat n) bl (preempted_reqs a @ rev (drop j (running s))) a))" using rs by simp
      have r1: "r \<in> set (running s1)" using j(1) True al(2,3) by (auto simp: r_def in_set_conv_nth)
      then have r1: "r \<in> set (running s1)" "obj s1 r = obj s r" using al(3,5) by simp_all
      have ti: "take i (running s) = take i (running s1)" "take (Suc i) (running s2) = take i (running s1) @ [r]" "running s2 = running s1"
        using al(3) j(1) True by (simp_all add: s2 record_spec_frame r_def min_def take_Suc_conv_app_nth)
      have pl1: "planned B (take i (running s1)) a b adv s1"
        using planned_kept [OF pl [unfolded ti(1)] set_take_subset cnt(2), of "preempted_reqs a"] by simp
      have nn: "0 < nat n" "nat n \<le> b" "ro_num_computed_tokens (obj s1 r) + nat n \<le> ro_num_tokens (obj s1 r) + length (ro_spec_token_ids (obj s1 r))"
        unfolding r1(2) using n by linarith+
      note rr = record_running_ok [OF pl1 set_take_subset r1(1) fresh [unfolded ti(1)] nn rs]
      have shorter: "length (running s2) - Suc i < length (running s) - i" using ti(3) al(2,3) j(1) True by simp
      have "behind s2" by (rule behind_kept [OF beh1]) (simp_all add: ti(3) same_counts_def s2 record_spec_frame)
      moreover have "token_ok f seed (adv(request_id r := nat n)) s2 [] (drop j (running s) @ w)"
        unfolding s2 by (rule record_spec_token_ok [OF j(2)])
      ultimately obtain res' where IH: "running_loop f seed (Suc i) (b - nat n) a2 s2 = Inr res'" "run_result f seed B (drop j (running s) @ w) a2 s2 res'"
        using less.hyps [OF shorter _ f rr(1) [folded ti(2)]] by blast
      have sr: "same_run s s2" using same_run_trans [OF al(4)] record_spec_same_run [OF r1(1)] unfolding s2 by blast
      have "run_result f seed B w a s res'"
        by (rule run_result_trans [OF IH(2) _ al(2) sr _ _ rr(2)])
          (use cnt(1) j(1) in \<open>simp_all add: ti(3) al(3) a2 s2 record_spec_rest record_running_def same_counts_def record_spec_frame\<close>)
      then show ?thesis using st Some rs IH(1) by simp
    qed
  qed
qed

section \<open>The pass over the waiting requests\<close>

lemma wait_run_ids:
  assumes q: "queues_ok s k w" and r: "r \<in> set (running s)" "r' \<in> set (k @ w)"
  shows "request_id r \<noteq> request_id r'"
proof -
  have "r \<noteq> r'" using r queues_okD(3) [OF q] by auto
  then show ?thesis using same_id [OF q, of r r'] r by auto
qed

lemma token_ok_kv_wait:
  assumes ok: "token_ok f seed adv s k w" and m: "kv_served f seed m (live_inputs s)" and o: "only_request (kv s) (request_id r) m"
    and r: "r \<in> set (k @ w)" and c: "num_cached_block m (request_id r) = None"
  shows "token_ok f seed adv (s\<lparr>kv := m\<rparr>) k w"
proof (rule token_okI)
  note t = token_okD [OF ok] and o' = o [unfolded only_request_def same_frame_def same_setup_def]
  let ?s = "s\<lparr>kv := m\<rparr>"
  show "kv_served f seed (kv ?s) (live_inputs ?s)" using m by simp
  show "queues_ok ?s k w" using t(2) by (simp add: queues_ok_def)
  show "cache_max_model_len (kv ?s) = sc_max_model_len (cfg ?s)" using t(3) o' by simp
  show "request_fits ?s r'" if "r' \<in> set (running ?s @ k @ w)" for r' using t(4) [of r'] that o' by (simp add: request_fits_def)
  show "waits_ok ?s r'" if "r' \<in> set (k @ w)" for r'
    using t(5) [OF that] o' c by (cases "request_id r' = request_id r") (simp_all add: waits_ok_def)
  show "runs_ok ?s (adv (request_id r')) r'" if "r' \<in> set (running ?s)" for r'
    using t(6) [of r'] that o' wait_run_ids [OF t(2) _ r, of r'] by (simp add: runs_ok_def)
qed

lemma token_ok_unblock:
  assumes ok: "token_ok f seed adv s k w" and r: "r \<in> set (k @ w)"
  shows "token_ok f seed adv (set_obj r (ro_status_update (\<lambda>_. WAITING)) s) k w"
proof (rule token_okI)
  note t = token_okD [OF ok]
  let ?s = "set_obj r (ro_status_update (\<lambda>_. WAITING)) s"
  show "kv_served f seed (kv ?s) (live_inputs ?s)" using t(1) by (simp add: live_inputs_set_obj)
  show "queues_ok ?s k w" using t(2) by (simp add: queues_ok_def)
  show "cache_max_model_len (kv ?s) = sc_max_model_len (cfg ?s)" using t(3) by simp
  show "request_fits ?s r'" if "r' \<in> set (running ?s @ k @ w)" for r' using t(4) [of r'] that by (simp add: request_fits_def ro_num_tokens_def)
  show "waits_ok ?s r'" if "r' \<in> set (k @ w)" for r' using t(5) [OF that] by (simp add: waits_ok_def)
  show "runs_ok ?s (adv (request_id r')) r'" if "r' \<in> set (running ?s)" for r'
    using t(6) [of r'] that wait_run_ids [OF t(2) _ r, of r'] by (simp add: runs_ok_def)
qed

text \<open>The request at the head of the queue starts to run.\<close>

lemma start_token_ok:
  assumes ok: "token_ok f seed adv s k (r # w)" and m: "kv_served f seed m (live_inputs s)" and o: "only_request (kv s) (request_id r) m"
    and c: "num_cached_block m (request_id r) = Some c" "c * cache_block_size m \<le> nc + n" "nc + n \<le> length (get_block_ids (request_id r) m) * cache_block_size m"
    and g: "\<And>q. ro_input (g q) = ro_input q" "\<And>q. ro_num_prompt_tokens (g q) = ro_num_prompt_tokens q" "\<And>q. ro_status (g q) = RUNNING"
      "\<And>q. ro_num_computed_tokens (g q) = nc"
  shows "token_ok f seed (adv(request_id r := n)) (set_obj r g (s\<lparr>kv := m, waiting := FCFSRequestQueue w, running := running s @ [r]\<rparr>)) k w"
proof (rule token_okI)
  note t = token_okD [OF ok] and o' = o [unfolded only_request_def same_frame_def same_setup_def] and q = queues_okD [OF token_okD(2) [OF ok]]
  let ?s = "set_obj r g (s\<lparr>kv := m, waiting := FCFSRequestQueue w, running := running s @ [r]\<rparr>)"
  have diff: "request_id r' \<noteq> request_id r" if "r' \<in> set (running s @ k @ w)" for r'
    using that q(3) by (intro other_id [of request_id "running s @ k" r w]) simp_all
  show "kv_served f seed (kv ?s) (live_inputs ?s)" using m g(1) by (simp add: live_inputs_set_obj)
  show "queues_ok ?s k w" using q(1,3,4) by (auto simp: queues_ok_def)
  show "cache_max_model_len (kv ?s) = sc_max_model_len (cfg ?s)" using t(3) o' by simp
  show "request_fits ?s r'" if "r' \<in> set (running ?s @ k @ w)" for r'
  proof -
    have "request_fits s r'" using t(4) [of r'] that by auto
    then show ?thesis using o' g by (simp add: request_fits_def ro_num_tokens_def)
  qed
  show "waits_ok ?s r'" if "r' \<in> set (k @ w)" for r'
    using t(5) [of r'] that diff [of r'] o' by (simp add: waits_ok_def)
  show "runs_ok ?s ((adv(request_id r := n)) (request_id r')) r'" if "r' \<in> set (running ?s)" for r'
  proof (cases "r' = r")
    case True
    then show ?thesis using c g o' by (simp add: runs_ok_def)
  next
    case False
    then have "r' \<in> set (running s)" using that by simp
    then show ?thesis using t(6) [of r'] diff [of r'] o' by (simp add: runs_ok_def)
  qed
qed

text \<open>What the pass over the waiting requests leaves alone.\<close>

definition wait_frame :: "token_scheduler \<Rightarrow> token_scheduler \<Rightarrow> bool" where
  "wait_frame s s' \<longleftrightarrow> cfg s' = cfg s \<and> requests s' = requests s \<and> live_inputs s' = live_inputs s \<and> finished_req_ids s' = finished_req_ids s \<and>
     same_frame (kv s) (kv s') \<and>
     (\<forall>r. ro_input (obj s' r) = ro_input (obj s r) \<and> ro_num_computed_tokens (obj s r) \<le> ro_num_computed_tokens (obj s' r))"

lemma wait_frame_trans: "wait_frame s s' \<Longrightarrow> wait_frame s' s'' \<Longrightarrow> wait_frame s s''"
  unfolding wait_frame_def using same_frame_trans [of "kv s" "kv s'" "kv s''"] by (metis order_trans)

lemma wait_frame_kv: "same_frame (kv s) m \<Longrightarrow> wait_frame s (s\<lparr>kv := m\<rparr>)"
  by (simp add: wait_frame_def)

lemma same_frame_refl [simp]: "same_frame m m"
  by (simp add: same_frame_def same_setup_def)

lemma lora_ids_iff: "lora_ids s rs = {i. \<exists>r \<in> set rs. lora_int_id (ro_input (obj s r)) = Some i \<and> 0 < i}"
  by (force simp: lora_ids_def List.map_filter_def)

text \<open>The adapters of the running requests are among those counted.\<close>

definition loras_ok :: "token_scheduler \<Rightarrow> int set \<Rightarrow> bool" where
  "loras_ok s loras \<longleftrightarrow> (\<forall>K. sc_max_loras (cfg s) = Some K \<longrightarrow> finite loras \<and> card loras \<le> K \<and> lora_ids s (running s) \<subseteq> loras)"

lemma loras_ok_frame:
  assumes "loras_ok s loras" "wait_frame s s'" "set (running s') \<subseteq> set (running s)"
  shows "loras_ok s' loras"
  using assms unfolding loras_ok_def wait_frame_def lora_ids_iff by fastforce

lemma loras_ok_start:
  assumes l: "loras_ok s loras" and e: "\<not> exceeds_loras (cfg s) loras (obj s r)" and f: "wait_frame s s'" and r: "running s' = running s @ [r]"
  shows "loras_ok s' (case (sc_max_loras (cfg s), lora_int_id (ro_input (obj s r))) of (Some _, Some i) \<Rightarrow> insert i loras | _ \<Rightarrow> loras)"
proof (cases "sc_max_loras (cfg s)")
  case None
  then show ?thesis using f by (simp add: loras_ok_def wait_frame_def)
next
  case (Some K)
  have i: "ro_input (obj s' x) = ro_input (obj s x)" and c: "cfg s' = cfg s" for x using f by (simp_all add: wait_frame_def)
  have l': "finite loras" "card loras \<le> K" "lora_ids s (running s) \<subseteq> loras" using l Some by (simp_all add: loras_ok_def)
  show ?thesis
  proof (cases "lora_int_id (ro_input (obj s r))")
    case None
    then have "lora_ids s' (running s') = lora_ids s (running s)" using r i by (auto simp: lora_ids_iff)
    then show ?thesis using l' c Some None by (simp add: loras_ok_def)
  next
    case j: (Some j)
    have "lora_ids s' (running s') \<subseteq> insert j (lora_ids s (running s))" using r i j by (auto simp: lora_ids_iff)
    moreover have "card (insert j loras) \<le> K" using e j Some l' by (auto simp: exceeds_loras_def card_insert_if)
    ultimately show ?thesis using l' c Some j by (auto simp: loras_ok_def)
  qed
qed

text \<open>Lookup and allocation for a waiting request.\<close>

definition admitted :: "kv_manager \<Rightarrow> string \<Rightarrow> nat \<Rightarrow> nat list option \<Rightarrow> kv_manager \<Rightarrow> bool" where
  "admitted m rid n res m' = (case res of None \<Rightarrow> num_cached_block m' rid = None
     | Some bl \<Rightarrow> (\<exists>c. num_cached_block m' rid = Some c \<and> c * cache_block_size m' \<le> n) \<and>
         min n (cache_max_model_len m) \<le> length (get_block_ids rid m') * cache_block_size m')"

lemma find_computed_ok:
  assumes ok: "token_ok f seed adv s k w" and f: "collision_free f seed" and r: "r \<in> set (k @ w)"
  shows "\<exists>hits m. find_computed f seed r s = Inr ((hits, length hits * cache_block_size (kv s), length hits * cache_block_size (kv s)), s\<lparr>kv := m\<rparr>) \<and>
    length hits * cache_block_size (kv s) < ro_num_tokens (obj s r) \<and> token_ok f seed adv (s\<lparr>kv := m\<rparr>) k w \<and> same_frame (kv s) m \<and>
    (\<forall>n. 0 < n \<longrightarrow> (\<exists>res m'. allocate_slots f seed (cache_view s r) n (length hits * cache_block_size (kv s)) (Some hits) 0 False m = Inr (res, m') \<and>
       kv_served f seed m' (live_inputs s) \<and> only_request m (request_id r) m' \<and>
       admitted m (request_id r) (length hits * cache_block_size (kv s) + n) res m' \<and> (res = None \<longrightarrow> running s = [] \<longrightarrow> \<not> roomy s)))"
proof -
  note t = token_okD [OF ok]
  let ?v = "cache_view s r" and ?bs = "cache_block_size (kv s)"
  obtain xs where mok: "manager_ok f seed (kv s) (live_inputs s) xs" using kv_served_ok [OF t(1) f] by blast
  have live: "live_inputs s (cr_id ?v) = Some (cr_input ?v)" using live_known [OF t(2), of r] r by simp
  have w: "ro_num_computed_tokens (obj s r) = 0" "num_cached_block (kv s) (cr_id ?v) = None" using t(5) [OF r] by (simp_all add: waits_ok_def)
  have v: "kv_servable (kv s) ?v n" if "0 < n" for n using kv_servable_view [OF t(4) that t(3)] r by auto
  note ad = admit_ok [OF mok f live w(2) v, where look = 0 and delay = False]
  obtain hits m where h: "get_computed_blocks f seed ?v (kv s) = Inr ((hits, length hits * ?bs), m)" "length hits * ?bs < ro_num_tokens (obj s r)"
    "same_blocks (kv s) m" using ad [of 1] by auto
  have sb: "num_cached_block m = num_cached_block (kv s)" "req_blocks m = req_blocks (kv s)" "same_frame (kv s) m"
    using h(3) same_blocks_frame [OF h(3)] by (simp_all add: same_blocks_def)
  have kvm: "kv_served f seed m (live_inputs s)" by (rule kv_served.lookup [OF t(1) live _ h(1)]) (use h(2) in simp)
  have tok: "token_ok f seed adv (s\<lparr>kv := m\<rparr>) k w"
    by (rule token_ok_kv_wait [OF ok kvm _ r]) (use sb w(2) in \<open>simp_all add: only_request_def get_block_ids_def\<close>)
  have "\<exists>res m'. allocate_slots f seed ?v n (length hits * ?bs) (Some hits) 0 False m = Inr (res, m') \<and>
       kv_served f seed m' (live_inputs s) \<and> only_request m (request_id r) m' \<and> admitted m (request_id r) (length hits * ?bs + n) res m' \<and>
       (res = None \<longrightarrow> running s = [] \<longrightarrow> \<not> roomy s)" if n: "0 < n" for n
  proof -
    obtain res m' where a: "allocate_slots f seed ?v n (length hits * ?bs) (Some hits) 0 False m = Inr (res, m')"
      "outcome m (request_id r) (slots ?v n (length hits * ?bs) 0 m) hits res m'" "advances m (request_id r) (length hits * ?bs + n) res m'"
      using ad [OF n] h(1) w(1) by auto
    have "kv_served f seed m' (live_inputs s)" by (rule kv_served.admit [OF t(1) live w(2) v [OF n] h(1) a(1)])
    moreover have "only_request m (request_id r) m'"
      using a(2,3) outcome_blocks [of m] by (cases res) (auto simp: only_request_def advances_def)
    moreover have "admitted m (request_id r) (length hits * ?bs + n) res m'"
    proof (cases res)
      case None
      then show ?thesis using a(2) w(2) sb(1) by (simp add: admitted_def outcome_def)
    next
      case (Some bl)
      have "slots ?v n (length hits * ?bs) 0 m \<le> length (get_block_ids (request_id r) m') * cache_block_size m"
        using a(2) unfolding Some by (rule outcome_room)
      moreover have "cache_block_size m' = cache_block_size m" using a(3) by (simp add: advances_def same_frame_def)
      ultimately show ?thesis using a(3) w(1) unfolding Some by (simp add: admitted_def advances_def slots_def)
    qed
    moreover have "\<not> roomy s" if "res = None" "running s = []"
    proof
      assume "roomy s"
      obtain ys where ym: "manager_ok f seed m (live_inputs s) ys" using kv_served_ok [OF kvm f] by blast
      have fr: "cache_max_model_len m = cache_max_model_len (kv s)" "cache_block_size m = ?bs" "num_gpu_blocks (pool m) = num_gpu_blocks (pool (kv s))"
        using sb(3) by (simp_all add: same_frame_def same_setup_def)
      have "req_blocks m rid = []" if "rid \<noteq> request_id r" for rid
        using others_hold_nothing [OF ok f _ that] \<open>running s = []\<close> sb(2) by simp
      moreover have "slots ?v n (length hits * ?bs) 0 m \<le> sc_max_model_len (cfg s)" using t(3) fr(1) by (simp add: slots_def)
      ultimately show False using alone_has_room [OF ym, of "request_id r" _ "sc_max_model_len (cfg s)" hits] a(2) \<open>roomy s\<close> fr unfolding \<open>res = None\<close>
        by (simp add: roomy_def outcome_def)
    qed
    ultimately show ?thesis using a(1) by blast
  qed
  moreover have "find_computed f seed r s = Inr ((hits, length hits * ?bs, length hits * ?bs), s\<lparr>kv := m\<rparr>)" using w(1) h(1) by (simp add: find_computed_def)
  ultimately show ?thesis using h(2) tok sb(3) by (intro exI [of _ hits] exI [of _ m] conjI allI impI)
qed

lemma cache_view_kv [simp]: "cache_view (s\<lparr>kv := m\<rparr>) r = cache_view s r"
  by (simp add: cache_view_def)

lemma start_request_ok:
  assumes pl: "planned B S a b adv s" and st: "ro_status (obj s r) \<in> {WAITING, PREEMPTED}" and r: "request_id r \<notin> request_id ` set S"
    and n: "0 < n" "n \<le> b" "nc + n \<le> ro_num_tokens (obj s r)"
  shows "\<exists>a' g. start_request r n nc s a = Inr (set_obj r g (s\<lparr>running := running s @ [r]\<rparr>), a') \<and>
    planned B (S @ [r]) a' (b - n) (adv(request_id r := n)) (set_obj r g (s\<lparr>running := running s @ [r]\<rparr>)) \<and> preempted_reqs a' = preempted_reqs a \<and>
    (\<forall>q. ro_input (g q) = ro_input q \<and> ro_num_prompt_tokens (g q) = ro_num_prompt_tokens q \<and> ro_status (g q) = RUNNING \<and> ro_num_computed_tokens (g q) = nc)"
proof -
  define g :: "req_object \<Rightarrow> req_object" where "g = (\<lambda>q. q\<lparr>ro_status := RUNNING, ro_num_computed_tokens := nc,
     ro_num_cached_tokens := (if ro_num_cached_tokens q < 0 then int nc else ro_num_cached_tokens q)\<rparr>)"
  let ?s = "set_obj r g (s\<lparr>running := running s @ [r]\<rparr>)"
  note d = plannedD [OF pl]
  have f: "request_id r \<notin> fst ` set (num_scheduled_tokens a)" "request_id r \<notin> fst ` set (scheduled_spec_decode_tokens a)"
    using r d(10) [OF r] by (auto simp: d(4) image_image)
  have cnt: "same_counts S s ?s" using fresh_id [OF r] by (simp add: same_counts_def)
  have "plan_ok (scheduled_spec_decode_tokens a) (nc + n) (request_id r) (obj ?s r)"
    using n(3) f(2) by (simp add: plan_ok_def g_def ro_num_tokens_def map_of_eq_None_iff [THEN iffD2])
  then have gen: "planned B (S @ [r]) a' (b - n) (adv(request_id r := n)) ?s"
    if "num_scheduled_tokens a' = num_scheduled_tokens a @ [(request_id r, n)]"
      "mset (scheduled_new_reqs a' @ scheduled_resumed_reqs a' @ scheduled_running_reqs a') =
         add_mset r (mset (scheduled_new_reqs a @ scheduled_resumed_reqs a @ scheduled_running_reqs a))"
      "fst ` set (req_to_new_block_ids a') = insert (request_id r) (fst ` set (req_to_new_block_ids a))"
      "scheduled_spec_decode_tokens a' = scheduled_spec_decode_tokens a" for a'
    using d(1) that(4) by (intro planned_add [OF pl _ cnt _ r n(1,2) that(1-3)]) (auto simp: g_def)
  have "\<exists>a'. start_request r n nc s a = Inr (?s, a') \<and> planned B (S @ [r]) a' (b - n) (adv(request_id r := n)) ?s \<and> preempted_reqs a' = preempted_reqs a"
  proof (cases "ro_status (obj s r) = WAITING")
    case True
    then show ?thesis using gen by (simp add: start_request_def g_def [symmetric] update_fresh [OF f(1)])
  next
    case False
    then have "ro_status (obj s r) = PREEMPTED" using st by simp
    then show ?thesis using gen by (simp add: start_request_def g_def [symmetric] update_fresh [OF f(1)])
  qed
  then show ?thesis by (fastforce simp: g_def)
qed

definition may_skip :: "(string \<Rightarrow> bool) \<Rightarrow> token_scheduler \<Rightarrow> request \<Rightarrow> bool" where
  "may_skip ready s r \<longleftrightarrow> ro_status (obj s r) = WAITING_FOR_FSM \<and> \<not> ready (request_id r) \<or> sc_max_loras (cfg s) \<noteq> None \<or> \<not> chunked_prefill_enabled (cfg s)"

text \<open>The outcome of the admission of the request at the head of the queue.\<close>

definition admit_result :: "hash_fn \<Rightarrow> int \<Rightarrow> (string \<Rightarrow> bool) \<Rightarrow> nat \<Rightarrow> request list \<Rightarrow> scheduled \<Rightarrow> nat \<Rightarrow> (string \<Rightarrow> nat) \<Rightarrow> request list \<Rightarrow> request \<Rightarrow>
    request list \<Rightarrow> token_scheduler \<Rightarrow> (nat \<times> int set \<times> scheduled) admission \<Rightarrow> token_scheduler \<Rightarrow> bool" where
  "admit_result f seed ready B S a b adv k r w s res s' \<longleftrightarrow> wait_frame s s' \<and> behind s' \<and> (\<forall>r'. request_id r' \<noteq> request_id r \<longrightarrow> obj s' r' = obj s r') \<and>
     (case res of
        Admit (b', loras', a') \<Rightarrow> running s' = running s @ [r] \<and> preempted_reqs a' = preempted_reqs a \<and> loras_ok s' loras' \<and>
          (\<exists>n. token_ok f seed (adv(request_id r := n)) s' k w \<and> planned B (S @ [r]) a' b' (adv(request_id r := n)) s')
      | _ \<Rightarrow> running s' = running s \<and> (res = Skip \<longrightarrow> may_skip ready s r) \<and> (res = Stop \<longrightarrow> running s = [] \<longrightarrow> \<not> roomy s) \<and> token_ok f seed adv s' k (r # w) \<and> planned B S a b adv s')"

lemma admit_result_frame:
  assumes "admit_result f seed ready B S a b adv k r w s1 res s'" "wait_frame s s1" "running s1 = running s"
    "\<And>r'. request_id r' \<noteq> request_id r \<Longrightarrow> obj s1 r' = obj s r'" "may_skip ready s1 r \<Longrightarrow> may_skip ready s r"
  shows "admit_result f seed ready B S a b adv k r w s res s'"
proof -
  have "roomy s1 \<longleftrightarrow> roomy s" using assms(2) by (intro roomy_frame) (simp_all add: wait_frame_def)
  then show ?thesis using assms(1,3-5) wait_frame_trans [OF assms(2), of s'] unfolding admit_result_def by (cases res) auto
qed

lemma planned_kv [simp]: "planned B S a b adv (s\<lparr>kv := m\<rparr>) \<longleftrightarrow> planned B S a b adv s" "behind (s\<lparr>kv := m\<rparr>) \<longleftrightarrow> behind s"
  "planned B S a b adv (s\<lparr>waiting := q\<rparr>) \<longleftrightarrow> planned B S a b adv s" "behind (s\<lparr>waiting := q\<rparr>) \<longleftrightarrow> behind s"
  by (simp_all add: planned_def behind_def)

lemma admit_ready_ok:
  assumes ok: "token_ok f seed adv s k (r # w)" and f: "collision_free f seed" and pl: "planned B S a b adv s" and beh: "behind s"
    and l: "loras_ok s loras" "\<not> exceeds_loras (cfg s) loras (obj s r)" and b: "0 < b" and st: "ro_status (obj s r) \<in> {WAITING, PREEMPTED}"
  shows "\<exists>res s'. admit_waiting f seed ready b loras a r s = Inr (res, s') \<and> admit_result f seed ready B S a b adv k r w s res s'"
proof -
  note t = token_okD [OF ok] and q = queues_okD [OF token_okD(2) [OF ok]]
  have w: "ro_num_computed_tokens (obj s r) = 0" using t(5) [of r] by (simp add: waits_ok_def)
  define nb where "nb = cache_block_size (kv s)"
  obtain hits m where h: "find_computed f seed r s = Inr ((hits, length hits * nb, length hits * nb), s\<lparr>kv := m\<rparr>)"
    "length hits * nb < ro_num_tokens (obj s r)" "token_ok f seed adv (s\<lparr>kv := m\<rparr>) k (r # w)" "same_frame (kv s) m"
    "\<And>n. 0 < n \<Longrightarrow> \<exists>res m'. allocate_slots f seed (cache_view s r) n (length hits * nb) (Some hits) 0 False m = Inr (res, m') \<and>
       kv_served f seed m' (live_inputs s) \<and> only_request m (request_id r) m' \<and> admitted m (request_id r) (length hits * nb + n) res m' \<and>
       (res = None \<longrightarrow> running s = [] \<longrightarrow> \<not> roomy s)"
    using find_computed_ok [OF ok f, of r] unfolding nb_def by auto
  define nc where "nc = length hits * nb"
  define n where "n = cap_prefill (cfg s) (int (ro_num_tokens (obj s r)) - int nc)"
  have n: "0 < n" "int nc + n \<le> int (ro_num_tokens (obj s r))" using h(2) [folded nc_def] by (auto simp: n_def cap_prefill_def)
  define n' where "n' = nat (min n (int b))"
  have n': "0 < n'" "n' \<le> b" "nc + n' \<le> ro_num_tokens (obj s r)" using n b by (auto simp: n'_def min_def)
  obtain res m' where al: "allocate_slots f seed (cache_view s r) n' nc (Some hits) 0 False m = Inr (res, m')"
    "kv_served f seed m' (live_inputs s)" "only_request m (request_id r) m'" "admitted m (request_id r) (nc + n') res m'"
    "res = None \<longrightarrow> running s = [] \<longrightarrow> \<not> roomy s"
    using h(5) [OF n'(1)] unfolding nc_def by blast
  have fr: "same_frame (kv s) m'" using same_frame_trans [OF h(4)] al(3) by (simp add: only_request_def)
  have cs: "ro_status (obj s r) \<noteq> WAITING_FOR_REMOTE_KVS" "ro_status (obj s r) \<noteq> WAITING_FOR_FSM" "\<not> min n (int b) \<le> 0" using st n(1) b by auto
  have eq: "admit_waiting f seed ready b loras a r s = (if \<not> chunked_prefill_enabled (cfg s) \<and> int b < n then Inr (Skip, s\<lparr>kv := m\<rparr>)
       else if res = None then Inr (Stop, s\<lparr>kv := m'\<rparr>)
       else bind_res (start_request r n' nc (s\<lparr>kv := m', waiting := FCFSRequestQueue w\<rparr>) a) (\<lambda>(s', a').
             Inr (Admit (b - n', (case (sc_max_loras (cfg s), lora_int_id (ro_input (obj s r))) of
               (Some _, Some i) \<Rightarrow> insert i loras | _ \<Rightarrow> loras), a'), s')))"
    using l(2) cs w h(1) al(1) [unfolded n'_def] q(2) unfolding admit_waiting_def Let_def n'_def
    by (simp add: nc_def [symmetric] n_def [symmetric] fcfs_pop_request_def split del: if_split cong del: if_weak_cong option.case_cong_weak)
  consider (skip) "\<not> chunked_prefill_enabled (cfg s) \<and> int b < n" | (stop) "\<not> (\<not> chunked_prefill_enabled (cfg s) \<and> int b < n)" "res = None"
    | (run) bl where "\<not> (\<not> chunked_prefill_enabled (cfg s) \<and> int b < n)" "res = Some bl" by blast
  then show ?thesis
  proof cases
    case skip
    then show ?thesis using eq h(3) pl beh wait_frame_kv [OF h(4)] by (simp add: admit_result_def may_skip_def)
  next
    case stop
    have "num_cached_block m' (request_id r) = None" using al(4) stop(2) by (simp add: admitted_def)
    then have "token_ok f seed adv (s\<lparr>kv := m'\<rparr>) k (r # w)"
      using token_ok_kv_wait [OF h(3), of m' r] al(2,3) by simp
    then show ?thesis using eq stop pl beh wait_frame_kv [OF fr] al(5) by (simp add: admit_result_def)
  next
    case run
    let ?s = "s\<lparr>kv := m', waiting := FCFSRequestQueue w\<rparr>"
    have rS: "request_id r \<notin> request_id ` set S" using wait_run_ids [OF t(2), of _ r] plannedD(1) [OF pl] by fastforce
    obtain a' g where sr: "start_request r n' nc ?s a = Inr (set_obj r g (?s\<lparr>running := running ?s @ [r]\<rparr>), a')"
      "planned B (S @ [r]) a' (b - n') (adv(request_id r := n')) (set_obj r g (?s\<lparr>running := running ?s @ [r]\<rparr>))" "preempted_reqs a' = preempted_reqs a"
      "\<And>q. ro_input (g q) = ro_input q" "\<And>q. ro_num_prompt_tokens (g q) = ro_num_prompt_tokens q" "\<And>q. ro_status (g q) = RUNNING"
      "\<And>q. ro_num_computed_tokens (g q) = nc"
      using start_request_ok [of B S a b adv ?s r n' nc] pl st rS n' by auto
    define s' where "s' = set_obj r g (?s\<lparr>running := running ?s @ [r]\<rparr>)"
    obtain c where c: "num_cached_block m' (request_id r) = Some c" "c * cache_block_size m' \<le> nc + n'"
      "min (nc + n') (cache_max_model_len m) \<le> length (get_block_ids (request_id r) m') * cache_block_size m'"
      using al(4) run(2) by (auto simp: admitted_def)
    have "nc + n' \<le> cache_max_model_len m"
      using n'(3) t(3) t(4) [of r] h(4) by (simp add: request_fits_def same_frame_def)
    then have c3: "nc + n' \<le> length (get_block_ids (request_id r) m') * cache_block_size m'" using c(3) by simp
    have tok: "token_ok f seed (adv(request_id r := n')) s' k w"
      using start_token_ok [OF h(3) _ _ c(1,2) c3 sr(4-7)] al(2,3) by (simp add: s'_def)
    have "ro_num_computed_tokens (obj s x) = 0" if "request_id x = request_id r" for x using w that by (simp add: obj_def)
    then have wf: "wait_frame s s'" using fr sr(4) by (simp add: wait_frame_def s'_def live_inputs_set_obj)
    have run': "running s' = running s @ [r]" by (simp add: s'_def)
    have "behind s'" using beh n' sr(4,7) wait_run_ids [OF t(2), of _ r] by (auto simp: behind_def s'_def ro_num_tokens_def)
    moreover note loras_ok_start [OF l wf run']
    ultimately show ?thesis
      using eq run sr(1-3) tok wf run' by (auto simp: admit_result_def s'_def [symmetric]) (auto simp: s'_def)
  qed
qed

lemma admit_waiting_ok:
  assumes ok: "token_ok f seed adv s k (r # w)" and f: "collision_free f seed" and pl: "planned B S a b adv s" and beh: "behind s"
    and l: "loras_ok s loras" and b: "0 < b"
  shows "\<exists>res s'. admit_waiting f seed ready b loras a r s = Inr (res, s') \<and> admit_result f seed ready B S a b adv k r w s res s'"
proof -
  have w: "ro_status (obj s r) \<in> {WAITING, WAITING_FOR_FSM, PREEMPTED}" using token_okD(5) [OF ok, of r] by (simp add: waits_ok_def)
  let ?s = "if ro_status (obj s r) = WAITING_FOR_FSM then set_obj r (ro_status_update (\<lambda>_. WAITING)) s else s"
  have ok1: "token_ok f seed adv ?s k (r # w)" using ok token_ok_unblock [OF ok, of r] by simp
  have s1: "wait_frame s ?s" "running ?s = running s" "cfg ?s = cfg s" "ro_input (obj ?s r) = ro_input (obj s r)"
    "\<And>r'. request_id r' \<noteq> request_id r \<Longrightarrow> obj ?s r' = obj s r'" "same_counts R s ?s" for R
    by (simp_all add: wait_frame_def live_inputs_set_obj same_counts_def ro_num_tokens_def)
  have pl1: "planned B S a b adv ?s" using planned_kept [OF pl _ s1(6), of "preempted_reqs a"] plannedD(1) [OF pl] s1(2) by simp
  have beh1: "behind ?s" by (rule behind_kept [OF beh _ s1(6)]) (simp only: s1(2) subset_refl)
  show ?thesis
  proof (cases "ro_status (obj s r) = WAITING_FOR_FSM \<and> \<not> ready (request_id r)")
    case True
    then have "admit_waiting f seed ready b loras a r s = Inr (Skip, s)" by (simp add: admit_waiting_def)
    then show ?thesis using True ok pl beh by (auto simp: admit_result_def may_skip_def wait_frame_def)
  next
    case ready: False
    have e: "admit_waiting f seed ready b loras a r s = admit_waiting f seed ready b loras a r ?s"
      using ready by (auto simp: admit_waiting_def)
    have x: "exceeds_loras (cfg ?s) loras (obj ?s r) = exceeds_loras (cfg s) loras (obj s r)" unfolding exceeds_loras_def s1(3,4) ..
    show ?thesis
    proof (cases "exceeds_loras (cfg s) loras (obj s r)")
      case True
      then have "admit_waiting f seed ready b loras a r s = Inr (Skip, ?s)" using ready w x by (auto simp: admit_waiting_def)
      moreover have "may_skip ready s r" using True by (auto simp: may_skip_def exceeds_loras_def split: option.splits)
      ultimately show ?thesis using s1(1,2,5) pl1 beh1 ok1 unfolding admit_result_def by force
    next
      case False
      then have x': "\<not> exceeds_loras (cfg ?s) loras (obj ?s r)" using x by simp
      have l1: "loras_ok ?s loras" by (rule loras_ok_frame [OF l s1(1)]) (simp only: s1(2) subset_refl)
      have st: "ro_status (obj ?s r) \<in> {WAITING, PREEMPTED}" using w by auto
      obtain res s' where a: "admit_waiting f seed ready b loras a r ?s = Inr (res, s')" "admit_result f seed ready B S a b adv k r w ?s res s'"
        using admit_ready_ok [OF ok1 f pl1 beh1 l1 x' b st] by blast
      have ms: "may_skip ready s r" if "may_skip ready ?s r" using that s1(3) by (auto simp: may_skip_def split: if_splits)
      have "admit_result f seed ready B S a b adv k r w s res s'" by (rule admit_result_frame [OF a(2) s1(1,2,5) ms])
      then show ?thesis using a(1) e by auto
    qed
  qed
qed

lemma token_ok_skip:
  assumes "token_ok f seed adv s k (r # w)"
  shows "token_ok f seed adv (s\<lparr>waiting := FCFSRequestQueue w\<rparr>) (r # k) w"
  using assms unfolding token_ok_def queues_ok_def request_fits_def waits_ok_def runs_ok_def by auto

text \<open>The state after the pass: as before, and without reasons to skip a request the order of arrival is kept.\<close>

definition wait_result :: "hash_fn \<Rightarrow> int \<Rightarrow> (string \<Rightarrow> bool) \<Rightarrow> nat \<Rightarrow> scheduled \<Rightarrow> request list \<Rightarrow> request list \<Rightarrow> token_scheduler \<Rightarrow>
    nat \<times> any_queue \<times> scheduled \<times> token_scheduler \<Rightarrow> bool" where
  "wait_result f seed ready B a k w s = (\<lambda>(b', skipped, a', s'). \<exists>adv' k' w' S' loras'. skipped = FCFSRequestQueue k' \<and> token_ok f seed adv' s' k' w' \<and>
     planned B S' a' b' adv' s' \<and> behind s' \<and> loras_ok s' loras' \<and> wait_frame s s' \<and> length (running s') \<le> max_num_running_reqs (cfg s) \<and>
     preempted_reqs a' = preempted_reqs a \<and> ((\<forall>r \<in> set w. \<not> may_skip ready s r) \<longrightarrow> k' = k \<and> running s' @ w' = running s @ w \<and>
       (0 < max_num_running_reqs (cfg s) \<longrightarrow> head_scheduled B s (running s @ w) a')))"

lemma wait_result_stop:
  assumes "token_ok f seed adv s' k w" "planned B S a b adv s'" "behind s'" "loras_ok s' loras" "wait_frame s s'" "running s' = running s"
    "length (running s) \<le> max_num_running_reqs (cfg s)" "0 < max_num_running_reqs (cfg s) \<Longrightarrow> head_scheduled B s (running s @ w) a"
  shows "wait_result f seed ready B a k w s (b, FCFSRequestQueue k, a, s')"
  unfolding wait_result_def prod.case using assms by (intro exI [of _ adv] exI [of _ k] exI [of _ w] exI [of _ S] exI [of _ loras]) simp

lemma wait_result_trans:
  assumes "wait_result f seed ready B a1 k1 w1 s1 res" "wait_frame s s1" "preempted_reqs a1 = preempted_reqs a"
    "\<And>r'. r' \<in> set w1 \<Longrightarrow> may_skip ready s1 r' \<Longrightarrow> may_skip ready s r'" "set w1 \<subseteq> set w"
    "(\<forall>r \<in> set w. \<not> may_skip ready s r) \<Longrightarrow> k1 = k \<and> running s1 @ w1 = running s @ w"
  shows "wait_result f seed ready B a k w s res"
proof -
  obtain b' skipped a' s' where res: "res = (b', skipped, a', s')" by (cases res)
  obtain adv' k' w' S' loras' where r: "skipped = FCFSRequestQueue k'" "token_ok f seed adv' s' k' w'" "planned B S' a' b' adv' s'" "behind s'"
    "loras_ok s' loras'" "wait_frame s1 s'" "length (running s') \<le> max_num_running_reqs (cfg s1)" "preempted_reqs a' = preempted_reqs a1"
    "(\<forall>r \<in> set w1. \<not> may_skip ready s1 r) \<longrightarrow> k' = k1 \<and> running s' @ w' = running s1 @ w1 \<and>
       (0 < max_num_running_reqs (cfg s1) \<longrightarrow> head_scheduled B s1 (running s1 @ w1) a')"
    using assms(1) unfolding wait_result_def res prod.case by (elim exE conjE) (rule that; assumption)
  have c: "cfg s1 = cfg s" using assms(2) by (simp add: wait_frame_def)
  moreover have "k' = k \<and> running s' @ w' = running s @ w \<and> (0 < max_num_running_reqs (cfg s) \<longrightarrow> head_scheduled B s (running s @ w) a')"
    if no: "\<forall>r \<in> set w. \<not> may_skip ready s r"
  proof -
    have "\<forall>r \<in> set w1. \<not> may_skip ready s1 r" using no assms(4,5) by blast
    moreover have "roomy s1 \<longleftrightarrow> roomy s" using assms(2) by (intro roomy_frame) (simp_all add: wait_frame_def)
    ultimately show ?thesis using r(9) assms(6) [OF no] c by (simp add: head_scheduled_def)
  qed
  ultimately show ?thesis unfolding wait_result_def res prod.case
    using r(1-5,7,8) assms(3) wait_frame_trans [OF assms(2) r(6)]
    by (intro exI [of _ adv'] exI [of _ k'] exI [of _ w'] exI [of _ S'] exI [of _ loras']) simp
qed

lemma head_stopped:
  assumes p: "planned B S a b adv s" and h: "head_scheduled B s (running s) a" and c: "running s = [] \<Longrightarrow> b = 0 \<or> \<not> roomy s \<or> w = []"
  shows "head_scheduled B s (running s @ w) a"
proof (cases "running s")
  case Nil
  then have "S = []" using plannedD(1) [OF p] by simp
  then have "b = B" using plannedD(4,5) [OF p] by simp
  then show ?thesis using c [OF Nil] Nil by (auto simp: head_scheduled_def)
qed (use h in \<open>simp add: head_scheduled_def\<close>)

lemma head_started:
  assumes p: "planned B S a b adv s" "planned B (S @ [r]) a' b' adv' s'" and h: "head_scheduled B s (running s) a"
    and r: "running s' = running s @ [r]" "roomy s' \<longleftrightarrow> roomy s"
  shows "head_scheduled B s' (running s') a'"
  using h r unfolding head_scheduled_def plannedD(4) [OF p(1)] plannedD(4) [OF p(2)] by (cases "running s") (auto simp: image_image)

lemma waiting_loop_ok:
  assumes "token_ok f seed adv s k w" "collision_free f seed" "planned B S a b adv s" "behind s" "loras_ok s loras"
    "length (running s) \<le> max_num_running_reqs (cfg s)" "head_scheduled B s (running s) a" "fuel = length w"
  shows "\<exists>res. waiting_loop f seed ready fuel b loras (FCFSRequestQueue k) a s = Inr res \<and> wait_result f seed ready B a k w s res"
  using assms
proof (induction fuel arbitrary: adv s k w S a b loras)
  case 0
  then show ?case using wait_result_stop [OF "0.prems"(1,3,4,5) _ refl "0.prems"(6)] by (auto simp: wait_frame_def)
next
  case (Suc fuel)
  note ok = Suc.prems(1) and f = Suc.prems(2) and pl = Suc.prems(3) and beh = Suc.prems(4) and l = Suc.prems(5) and n = Suc.prems(6) and hd = Suc.prems(7)
  note q = queues_okD [OF token_okD(2) [OF ok]]
  show ?case
  proof (cases "queue_length (waiting s) = 0 \<or> b = 0 \<or> length (running s) = max_num_running_reqs (cfg s)")
    case True
    then have "waiting_loop f seed ready (Suc fuel) b loras (FCFSRequestQueue k) a s = Inr (b, FCFSRequestQueue k, a, s)" by simp
    moreover have "head_scheduled B s (running s @ w) a" if "0 < max_num_running_reqs (cfg s)"
      by (rule head_stopped [OF pl hd]) (use True that q(2) in auto)
    ultimately show ?thesis using wait_result_stop [OF ok pl beh l _ refl n] by (auto simp: wait_frame_def)
  next
    case False
    obtain r w1 where w: "w = r # w1" using False q(2) by (cases w) auto
    note ok' = ok [unfolded w]
    obtain res s1 where a: "admit_waiting f seed ready b loras a r s = Inr (res, s1)" "admit_result f seed ready B S a b adv k r w1 s res s1"
      using admit_waiting_ok [OF ok' f pl beh l, of ready] False by auto
    have fr: "wait_frame s s1" "behind s1" "\<And>r'. request_id r' \<noteq> request_id r \<Longrightarrow> obj s1 r' = obj s r'"
      using a(2) unfolding admit_result_def by blast+
    have cf: "cfg s1 = cfg s" and ro: "roomy s1 \<longleftrightarrow> roomy s" using fr(1) roomy_frame [of s1 s] by (simp_all add: wait_frame_def)
    have fl: "fuel = length w1" using Suc.prems(8) w by simp
    have ne: "request_id r' \<noteq> request_id r" if "r' \<in> set w1" for r'
      using q(3) that unfolding w by (intro other_id [of request_id "running s @ k" r w1]) simp_all
    have ms: "may_skip ready s r'" if "r' \<in> set w1" "may_skip ready s1 r'" for r'
      using that(2) fr(3) [OF ne [OF that(1)]] cf by (simp add: may_skip_def)
    have st: "waiting_loop f seed ready (Suc fuel) b loras (FCFSRequestQueue k) a s = (case res of
        Stop \<Rightarrow> Inr (b, FCFSRequestQueue k, a, s1)
      | Admit (b', loras', a') \<Rightarrow> waiting_loop f seed ready fuel b' loras' (FCFSRequestQueue k) a' s1
      | Skip \<Rightarrow> bind_res (queue_pop (waiting s1)) (\<lambda>(r, w). bind_res (queue_prepend r (FCFSRequestQueue k)) (\<lambda>skipped'.
                  waiting_loop f seed ready fuel b loras skipped' a (s1\<lparr>waiting := w\<rparr>))))"
      using False a(1) q(2) w by (simp add: fcfs_peek_request_def)
    show ?thesis
    proof (cases res)
      case Stop
      have r: "running s1 = running s" "token_ok f seed adv s1 k (r # w1)" "planned B S a b adv s1" "running s = [] \<longrightarrow> \<not> roomy s"
        using a(2) unfolding admit_result_def Stop by simp_all
      have "head_scheduled B s (running s @ r # w1) a" by (rule head_stopped [OF pl hd]) (use r(4) in simp)
      moreover have "loras_ok s1 loras" by (rule loras_ok_frame [OF l fr(1)]) (simp add: r(1))
      ultimately show ?thesis using st Stop wait_result_stop [OF r(2,3) fr(2) _ fr(1) r(1) n] w by auto
    next
      case (Admit x)
      obtain b' loras' a' where x: "x = (b', loras', a')" by (cases x)
      obtain n' where r: "running s1 = running s @ [r]" "preempted_reqs a' = preempted_reqs a" "loras_ok s1 loras'"
        "token_ok f seed (adv(request_id r := n')) s1 k w1" "planned B (S @ [r]) a' b' (adv(request_id r := n')) s1"
        using a(2) unfolding admit_result_def Admit x by auto
      have "length (running s1) \<le> max_num_running_reqs (cfg s1)" using False n r(1) cf by simp
      from Suc.IH [OF r(4) f r(5) fr(2) r(3) this head_started [OF pl r(5) hd r(1) ro] fl] obtain res' where
        IH: "waiting_loop f seed ready fuel b' loras' (FCFSRequestQueue k) a' s1 = Inr res'" "wait_result f seed ready B a' k w1 s1 res'" by blast
      have "wait_result f seed ready B a k w s res'"
        by (rule wait_result_trans [OF IH(2) fr(1) r(2) ms]) (use w r(1) in auto)
      then show ?thesis using st Admit x IH(1) by simp
    next
      case Skip
      have r: "running s1 = running s" "may_skip ready s r" "token_ok f seed adv s1 k (r # w1)" "planned B S a b adv s1"
        using a(2) unfolding admit_result_def Skip by simp_all
      let ?s = "s1\<lparr>waiting := FCFSRequestQueue w1\<rparr>"
      have l1: "loras_ok ?s loras" by (rule loras_ok_frame [OF l]) (use fr(1) r(1) in \<open>simp_all add: wait_frame_def\<close>)
      have n1: "length (running ?s) \<le> max_num_running_reqs (cfg ?s)" using n r(1) cf by simp
      have "head_scheduled B ?s (running ?s) a" using hd ro r(1) by (simp add: head_scheduled_def roomy_def)
      from Suc.IH [OF token_ok_skip [OF r(3)] f _ _ l1 n1 this fl, of S b] obtain res' where
        IH: "waiting_loop f seed ready fuel b loras (FCFSRequestQueue (r # k)) a ?s = Inr res'" "wait_result f seed ready B a (r # k) w1 ?s res'"
        using r(4) fr(2) by auto
      have "wait_result f seed ready B a k w s res'"
        by (rule wait_result_trans [OF IH(2) _ refl]) (use fr(1) w r(2) ms in \<open>auto simp: wait_frame_def may_skip_def\<close>)
      moreover have "waiting s1 = FCFSRequestQueue (r # w1)" using queues_okD(2) [OF token_okD(2) [OF r(3)]] .
      ultimately show ?thesis using st Skip IH(1) by (simp add: fcfs_pop_request_def fcfs_prepend_request_def)
    qed
  qed
qed

end
