(* ===== verification/Token_Steps.thy ===== *)
theory Token_Steps
  imports Token_Scheduling
begin

text \<open>
  Steps of the autoregressive scheduler: a whole call of \<^verbatim>\<open>schedule\<close>, the update with the sampled tokens, aborts, and the states
  they lead to.
\<close>

section \<open>The end of a scheduling step\<close>

lemma token_ok_same_kv:
  assumes ok: "token_ok f seed adv s k w" and m: "kv_served f seed m (live_inputs s)" and fr: "same_frame (kv s) m"
    and b: "num_cached_block m = num_cached_block (kv s)" "req_blocks m = req_blocks (kv s)"
  shows "token_ok f seed adv (s\<lparr>kv := m\<rparr>) k w"
  using ok m fr b
  by (simp add: token_ok_def queues_ok_def request_fits_def waits_ok_def runs_ok_def get_block_ids_def same_frame_def same_setup_def)

lemma common_prefix_ok:
  assumes ok: "token_ok f seed adv s [] w"
  shows "\<exists>n m. common_prefix s = Inr (n, s\<lparr>kv := m\<rparr>) \<and> token_ok f seed adv (s\<lparr>kv := m\<rparr>) [] w \<and> same_frame (kv s) m"
proof (cases "running s")
  case Nil
  then show ?thesis using ok by (intro exI [of _ 0] exI [of _ "kv s"]) (simp add: common_prefix_def)
next
  case (Cons r rs)
  note t = token_okD [OF ok]
  have "ro_status (obj s r) = RUNNING" using t(6) [of r] Cons by (simp add: runs_ok_def)
  then obtain n m where c: "get_num_common_prefix_blocks (cache_view s r) (int (length (r # rs))) (kv s) = Inr (n, m)"
    by (cases "group_num_common_prefix_blocks (request_id r) (int (length (r # rs))) (kv s)") (auto simp: get_num_common_prefix_blocks_def)
  have m: "m = kv s \<or> m = set_req_blocks (request_id r) (req_blocks (kv s) (request_id r)) (kv s)"
    using c by (auto simp: get_num_common_prefix_blocks_def group_num_common_prefix_blocks_def split: if_splits)
  have fr: "same_frame (kv s) m" "num_cached_block m = num_cached_block (kv s)" "req_blocks m = req_blocks (kv s)"
    using m by (auto simp: same_frame_def same_setup_def fun_upd_idem)
  have "token_ok f seed adv (s\<lparr>kv := m\<rparr>) [] w" by (rule token_ok_same_kv [OF ok kv_served.common [OF t(1) c] fr])
  then show ?thesis using c Cons fr(1) by (intro exI [of _ n] exI [of _ m]) (simp add: common_prefix_def)
qed

lemma take_events_token_ok:
  assumes ok: "token_ok f seed adv s k w"
  shows "token_ok f seed adv (s\<lparr>kv := snd (manager_take_events (kv s))\<rparr>) k w" "same_frame (kv s) (snd (manager_take_events (kv s)))"
proof -
  let ?m = "snd (manager_take_events (kv s))"
  have m: "?m = (kv s)\<lparr>pool := snd (take_events (pool (kv s)))\<rparr>" by (simp add: manager_take_events_def split: prod.splits)
  show fr: "same_frame (kv s) ?m" unfolding m using take_events_ok(3) [of "pool (kv s)"] by (simp add: same_frame_def)
  show "token_ok f seed adv (s\<lparr>kv := ?m\<rparr>) k w"
    by (rule token_ok_same_kv [OF ok kv_served.drain [OF token_okD(1) [OF ok]] fr]) (simp_all add: m fun_eq_iff)
qed

lemma subscript_known: "k \<in> fst ` set xs \<Longrightarrow> \<exists>v. subscript xs k = Inr v"
  by (cases "map_of xs k") (simp_all add: subscript_def map_of_eq_None_iff)

lemma make_output_ok:
  assumes pl: "planned B S a b adv s"
  shows "\<exists>out. make_output a n s = Inr out \<and> out_num_scheduled_tokens out = num_scheduled_tokens a \<and>
    out_spec_decode_tokens out = scheduled_spec_decode_tokens a \<and> out_finished_req_ids out = finished_req_ids s \<and>
    out_total_num_scheduled_tokens out = sum_list (map snd (num_scheduled_tokens a)) \<and>
    map fst (out_new_reqs out) = scheduled_new_reqs a \<and>
    crd_req_ids (out_cached_reqs out) = map request_id (scheduled_running_reqs a @ scheduled_resumed_reqs a)"
proof -
  note d = plannedD [OF pl]
  have S: "set S = set (scheduled_new_reqs a) \<union> set (scheduled_resumed_reqs a) \<union> set (scheduled_running_reqs a)"
    using mset_eq_setD [OF d(3)] by auto
  have blk: "\<exists>v. subscript (req_to_new_block_ids a) (request_id r) = Inr v" if "r \<in> set S" for r using d(7) [OF that] by (rule subscript_known)
  have num: "\<exists>v. subscript (num_scheduled_tokens a) (request_id r) = Inr v" if "r \<in> set S" for r
    using that d(4) by (intro subscript_known) (simp add: image_image)
  have "\<exists>rs. foldM (\<lambda>r rs. bind_res (subscript (req_to_new_block_ids a) (request_id r)) (\<lambda>b. Inr (rs @ [(r, b)]))) xs acc = Inr rs \<and>
      map fst rs = map fst acc @ xs" if "set xs \<subseteq> set S" for xs acc
    using that
  proof (induction xs arbitrary: acc)
    case (Cons x xs)
    obtain v where "subscript (req_to_new_block_ids a) (request_id x) = Inr v" using blk [of x] Cons.prems by auto
    then show ?case using Cons.IH [of "acc @ [(x, v)]"] Cons.prems by simp
  qed simp
  from this [of "scheduled_new_reqs a" "[]"] S obtain rs where
    rs: "foldM (\<lambda>r rs. bind_res (subscript (req_to_new_block_ids a) (request_id r)) (\<lambda>b. Inr (rs @ [(r, b)]))) (scheduled_new_reqs a) [] = Inr rs"
      "map fst rs = scheduled_new_reqs a" by auto
  have "\<exists>bs. foldM (\<lambda>r bs. bind_res (subscript (num_scheduled_tokens a) (request_id r)) (\<lambda>_.
         bind_res (subscript (req_to_new_block_ids a) (request_id r)) (\<lambda>b. Inr (bs @ [b])))) (scheduled_running_reqs a @ scheduled_resumed_reqs a) [] = Inr bs"
  proof (rule foldM_no_raise)
    fix r bs
    assume "r \<in> set (scheduled_running_reqs a @ scheduled_resumed_reqs a)"
    then have "r \<in> set S" using S by auto
    then show "\<exists>u. bind_res (subscript (num_scheduled_tokens a) (request_id r)) (\<lambda>_.
         bind_res (subscript (req_to_new_block_ids a) (request_id r)) (\<lambda>b. Inr (bs @ [b]))) = Inr u" using num [of r] blk [of r] by auto
  qed
  then show ?thesis using rs by (auto simp: make_output_def make_cached_request_data_def)
qed

text \<open>The scheduled tokens count as computed from here on.\<close>

definition bump :: "nat \<Rightarrow> req_object \<Rightarrow> req_object" where
  "bump n q = q\<lparr>ro_num_computed_tokens := ro_num_computed_tokens q + n\<rparr>"

definition advanced :: "(string \<Rightarrow> nat) \<Rightarrow> token_scheduler \<Rightarrow> token_scheduler" where
  "advanced adv s = s\<lparr>objects := \<lambda>rid. bump (adv rid) (objects s rid), finished_req_ids := {}\<rparr>"

lemma bump_simps [simp]:
  "bump 0 q = q" "ro_input (bump n q) = ro_input q" "ro_num_tokens (bump n q) = ro_num_tokens q" "ro_status (bump n q) = ro_status q"
  "ro_num_prompt_tokens (bump n q) = ro_num_prompt_tokens q" "ro_num_computed_tokens (bump n q) = ro_num_computed_tokens q + n"
  by (simp_all add: bump_def ro_num_tokens_def)

lemma advanced_simps [simp]:
  "obj (advanced adv s) r = bump (adv (request_id r)) (obj s r)" "cfg (advanced adv s) = cfg s" "kv (advanced adv s) = kv s"
  "requests (advanced adv s) = requests s" "waiting (advanced adv s) = waiting s" "running (advanced adv s) = running s"
  "finished_req_ids (advanced adv s) = {}" "live_inputs (advanced adv s) = live_inputs s"
  by (simp_all add: advanced_def obj_def live_inputs_def fun_eq_iff split: option.splits)

lemma advance_fold:
  assumes "distinct (map fst xs)" "\<And>rid. rid \<in> fst ` set xs \<Longrightarrow> requests s rid \<noteq> None"
  shows "foldM (\<lambda>(rid, n) s. if requests s rid = None then Inl KeyError
          else Inr (s\<lparr>objects := (objects s)(rid := (objects s rid)\<lparr>ro_num_computed_tokens := ro_num_computed_tokens (objects s rid) + n\<rparr>)\<rparr>)) xs s =
    Inr (s\<lparr>objects := \<lambda>rid. bump (case map_of xs rid of None \<Rightarrow> 0 | Some n \<Rightarrow> n) (objects s rid)\<rparr>)"
  using assms
proof (induction xs arbitrary: s)
  case Nil
  then show ?case by simp
next
  case (Cons x xs)
  obtain rid n where x: "x = (rid, n)" by (cases x)
  let ?s = "s\<lparr>objects := (objects s)(rid := bump n (objects s rid))\<rparr>"
  have "map_of xs rid = None" using Cons.prems(1) by (simp add: x map_of_eq_None_iff)
  then have o: "bump (case map_of xs r of None \<Rightarrow> 0 | Some n \<Rightarrow> n) (objects ?s r) =
      bump (case map_of (x # xs) r of None \<Rightarrow> 0 | Some n \<Rightarrow> n) (objects s r)" for r by (simp add: x)
  show ?case using Cons.IH [of ?s] Cons.prems unfolding o by (simp add: x bump_def [symmetric])
qed

lemma planned_distinct:
  assumes pl: "planned B S a b adv s" and q: "queues_ok s [] w"
  shows "distinct (map fst (num_scheduled_tokens a))"
proof -
  note d = plannedD [OF pl]
  have "inj_on request_id (set (running s))" using queues_okD(3) [OF q] by (simp add: distinct_map)
  then have inj: "inj_on request_id (set S)" using d(1) by (rule inj_on_subset)
  have "map fst (num_scheduled_tokens a) = map request_id S" by (simp add: d(4))
  then show ?thesis using d(2) inj by (simp add: distinct_map)
qed

lemma update_after_schedule_ok:
  assumes pl: "planned B S a b adv s" and q: "queues_ok s [] w"
  shows "update_after_schedule (num_scheduled_tokens a) s = Inr (advanced adv s)"
proof -
  note d = plannedD [OF pl]
  have ids: "map fst (num_scheduled_tokens a) = map request_id S" by (simp add: d(4))
  note dist = planned_distinct [OF pl q]
  have "requests s rid \<noteq> None" if "rid \<in> fst ` set (num_scheduled_tokens a)" for rid
    using that d(1) queues_okD(4) [OF q, of rid] by (auto simp: d(4))
  note adv = advance_fold [OF dist this]
  have "(case map_of (num_scheduled_tokens a) rid of None \<Rightarrow> 0 | Some n \<Rightarrow> n) = adv rid" for rid
  proof (cases "rid \<in> request_id ` set S")
    case True
    then have "(rid, adv rid) \<in> set (num_scheduled_tokens a)" by (auto simp: d(4))
    then show ?thesis using dist by simp
  next
    case False
    then have "map_of (num_scheduled_tokens a) rid = None" using ids by (metis map_of_eq_None_iff set_map)
    then show ?thesis using d(9) [OF False] by simp
  qed
  then show ?thesis using adv by (simp add: update_after_schedule_def advanced_def)
qed

lemma advanced_token_ok:
  assumes ok: "token_ok f seed adv s [] w" and pl: "planned B S a b adv s"
  shows "token_ok f seed (\<lambda>_. 0) (advanced adv s) [] w"
proof -
  note t = token_okD [OF ok] and d = plannedD [OF pl]
  have "adv (request_id r) = 0" if "r \<in> set w" for r
    using d(9) [of "request_id r"] d(1) wait_run_ids [OF t(2), of _ r] that by fastforce
  then show ?thesis using ok by (simp add: token_ok_def queues_ok_def request_fits_def waits_ok_def runs_ok_def)
qed

section \<open>A scheduling step\<close>

text \<open>Between two calls of the scheduler: before a scheduling step, and while the model runs on the output \<open>so\<close>.\<close>

definition between :: "hash_fn \<Rightarrow> int \<Rightarrow> token_scheduler \<Rightarrow> request list \<Rightarrow> bool" where
  "between f seed s w \<longleftrightarrow> token_ok f seed (\<lambda>_. 0) s [] w \<and> length (running s) \<le> max_num_running_reqs (cfg s) \<and> loras_ok s (lora_ids s (running s))"

definition ready_ok :: "hash_fn \<Rightarrow> int \<Rightarrow> token_scheduler \<Rightarrow> request list \<Rightarrow> bool" where
  "ready_ok f seed s w \<longleftrightarrow> between f seed s w \<and> behind s"

definition flight_ok :: "hash_fn \<Rightarrow> int \<Rightarrow> sched_output \<Rightarrow> token_scheduler \<Rightarrow> request list \<Rightarrow> bool" where
  "flight_ok f seed so s w \<longleftrightarrow> between f seed s w \<and> distinct (map fst (out_num_scheduled_tokens so)) \<and> 0 \<notin> snd ` set (out_num_scheduled_tokens so) \<and>
     (\<forall>r \<in> set (running s). if request_id r \<in> fst ` set (out_num_scheduled_tokens so)
        then plan_ok (out_spec_decode_tokens so) (ro_num_computed_tokens (obj s r)) (request_id r) (obj s r)
        else ro_num_computed_tokens (obj s r) < ro_num_tokens (obj s r)) \<and>
     (\<forall>r \<in> set w. request_id r \<notin> fst ` set (out_num_scheduled_tokens so))"

lemma finite_lora_ids [simp]: "finite (lora_ids s rs)"
proof -
  have "lora_ids s rs \<subseteq> (\<lambda>r. the (lora_int_id (ro_input (obj s r)))) ` set rs" by (force simp: lora_ids_iff)
  then show ?thesis by (rule finite_subset) simp
qed

lemma loras_ok_own:
  assumes "loras_ok s loras"
  shows "loras_ok s (lora_ids s (running s))"
  using assms card_mono [of loras "lora_ids s (running s)"] by (fastforce simp: loras_ok_def)

lemma loras_ok_fewer:
  assumes "loras_ok s loras" "cfg s' = cfg s" "\<And>r. r \<in> set (running s') \<Longrightarrow> r \<in> set (running s) \<and> ro_input (obj s' r) = ro_input (obj s r)"
  shows "loras_ok s' loras"
proof -
  have "lora_ids s' (running s') \<subseteq> lora_ids s (running s)" using assms(3) unfolding lora_ids_iff by fastforce
  then show ?thesis using assms(1,2) by (auto simp: loras_ok_def)
qed

lemma waiting_loop_no_budget: "waiting_loop f seed ready fuel 0 loras k a s = Inr (0, k, a, s)"
  by (cases fuel) simp_all

lemma put_back_skipped:
  assumes "token_ok f seed adv s k w"
  shows "\<exists>q. (if queue_length (FCFSRequestQueue k) = 0 then Inr (waiting s) else queue_prepend_all (FCFSRequestQueue k) (waiting s)) = Inr q \<and>
    token_ok f seed adv (s\<lparr>waiting := q\<rparr>) [] (k @ w)"
proof -
  have w: "waiting s = FCFSRequestQueue w" using queues_okD(2) [OF token_okD(2) [OF assms]] .
  have "token_ok f seed adv (s\<lparr>waiting := FCFSRequestQueue (k @ w)\<rparr>) [] (k @ w)"
    using assms by (simp add: token_ok_def queues_ok_def request_fits_def waits_ok_def runs_ok_def)
  then show ?thesis using w by (intro exI [of _ "FCFSRequestQueue (k @ w)"]) (simp add: fcfs_prepend_requests_eq)
qed

lemma check_constraints_ok:
  assumes pl: "planned (max_num_scheduled_tokens (cfg s)) S a b adv s" and n: "length (running s) \<le> max_num_running_reqs (cfg s)"
  shows "check_constraints b a s = Inr ()"
proof -
  note d = plannedD [OF pl]
  have "length (scheduled_new_reqs a) + length (scheduled_resumed_reqs a) + length (scheduled_running_reqs a) = length S"
    using mset_eq_length [OF d(3)] by simp
  also have "length S = card (set S)" using distinct_card [OF d(2)] by simp
  also have "\<dots> \<le> length (running s)" using card_mono [OF _ d(1)] card_length [of "running s"] by simp
  finally show ?thesis using d(5) n by (simp add: check_constraints_def)
qed

lemma planned_flight:
  assumes ok: "token_ok f seed adv s [] w" and pl: "planned B S a b adv s" and beh: "behind s"
    and n: "length (running s) \<le> max_num_running_reqs (cfg s)" "loras_ok s loras"
    and so: "out_num_scheduled_tokens so = num_scheduled_tokens a" "out_spec_decode_tokens so = scheduled_spec_decode_tokens a"
  shows "flight_ok f seed so (advanced adv s) w"
proof -
  note d = plannedD [OF pl] and t = token_okD [OF ok]
  have l: "loras_ok (advanced adv s) loras" by (rule loras_ok_fewer [OF n(2)]) simp_all
  have bt: "between f seed (advanced adv s) w" unfolding between_def using advanced_token_ok [OF ok pl] n(1) loras_ok_own [OF l] by simp
  have ids: "fst ` set (num_scheduled_tokens a) = request_id ` set S" by (simp add: d(4) image_image)
  have dist: "distinct (map fst (num_scheduled_tokens a))" by (rule planned_distinct [OF pl t(2)])
  have "r \<in> set S" if r: "r \<in> set (running s)" "request_id r \<in> request_id ` set S" for r
  proof -
    obtain r' where r': "r' \<in> set S" "request_id r = request_id r'" using r(2) by blast
    then have "r = r'" using same_id [OF t(2) _ _ r'(2)] r(1) subsetD [OF d(1)] by simp
    then show ?thesis using r'(1) by simp
  qed
  moreover have "request_id r \<notin> request_id ` set S" if "r \<in> set w" for r using wait_run_ids [OF t(2), of _ r] that d(1) by fastforce
  moreover have "0 \<notin> snd ` set (num_scheduled_tokens a)" using d(6) by (force simp: d(4))
  moreover have "ro_num_computed_tokens (obj s r) + adv (request_id r) < ro_num_tokens (obj s r)"
    if "r \<in> set (running s)" "request_id r \<notin> request_id ` set S" for r using d(9) [OF that(2)] beh that(1) by (simp add: behind_def)
  moreover have "plan_ok sp n rid (bump i q) = plan_ok sp n rid q" for sp n rid i q by (rule plan_ok_cong) simp_all
  ultimately show ?thesis unfolding flight_ok_def so ids using bt dist d(8) by simp
qed

text \<open>Requests that run after a step have kept what was computed.\<close>

definition forward :: "token_scheduler \<Rightarrow> token_scheduler \<Rightarrow> bool" where
  "forward s s' \<longleftrightarrow> (\<forall>r \<in> set (running s'). ro_num_computed_tokens (obj s r) \<le> ro_num_computed_tokens (obj s' r))"

text \<open>The state after both passes.\<close>

definition passed :: "hash_fn \<Rightarrow> int \<Rightarrow> (string \<Rightarrow> bool) \<Rightarrow> request list \<Rightarrow> token_scheduler \<Rightarrow> nat \<times> any_queue \<times> scheduled \<times> token_scheduler \<Rightarrow> bool" where
  "passed f seed ready w s = (\<lambda>(b', skipped, a', s'). \<exists>adv' k' w' S' loras'. skipped = FCFSRequestQueue k' \<and> token_ok f seed adv' s' k' w' \<and>
     planned (max_num_scheduled_tokens (cfg s)) S' a' b' adv' s' \<and> behind s' \<and> loras_ok s' loras' \<and> cfg s' = cfg s \<and> requests s' = requests s \<and>
     live_inputs s' = live_inputs s \<and> finished_req_ids s' = finished_req_ids s \<and> same_frame (kv s) (kv s') \<and>
     length (running s') \<le> max_num_running_reqs (cfg s) \<and> forward s s' \<and>
     ((\<forall>r \<in> set w. \<not> may_skip ready s r) \<longrightarrow> running s' @ k' @ w' = running s @ w \<and>
       (0 < max_num_running_reqs (cfg s) \<longrightarrow> head_scheduled (max_num_scheduled_tokens (cfg s)) s (running s @ w) a')))"

lemma passed_waiting:
  assumes "wait_result f seed ready (max_num_scheduled_tokens (cfg s)) a [] w1 s1 res" "same_run s s1" "running s1 @ w1 = running s @ w"
    "\<forall>x \<in> set w. \<not> may_skip ready s x \<Longrightarrow> \<forall>x \<in> set w1. \<not> may_skip ready s1 x"
    "\<And>x. x \<in> set (running s @ w) \<Longrightarrow> ro_num_computed_tokens (obj s1 x) = ro_num_computed_tokens (obj s x)"
    and known: "\<And>x. requests s (request_id x) = Some x \<Longrightarrow> x \<in> set (running s @ w)"
  shows "passed f seed ready w s res"
proof -
  obtain b' skipped a' s' where res: "res = (b', skipped, a', s')" by (cases res)
  obtain adv' k' w' S' loras' where r: "skipped = FCFSRequestQueue k'" "token_ok f seed adv' s' k' w'"
    "planned (max_num_scheduled_tokens (cfg s)) S' a' b' adv' s'" "behind s'" "loras_ok s' loras'" "wait_frame s1 s'"
    "length (running s') \<le> max_num_running_reqs (cfg s1)" "(\<forall>r \<in> set w1. \<not> may_skip ready s1 r) \<longrightarrow> k' = [] \<and> running s' @ w' = running s1 @ w1 \<and>
      (0 < max_num_running_reqs (cfg s1) \<longrightarrow> head_scheduled (max_num_scheduled_tokens (cfg s)) s1 (running s1 @ w1) a')"
    using assms(1) unfolding wait_result_def res prod.case by (elim exE conjE) (rule that; assumption)
  note sr = same_runD [OF assms(2)] and wf = r(6) [unfolded wait_frame_def]
  have "running s' @ k' @ w' = running s @ w \<and> (0 < max_num_running_reqs (cfg s) \<longrightarrow> head_scheduled (max_num_scheduled_tokens (cfg s)) s (running s @ w) a')"
    if "\<forall>r \<in> set w. \<not> may_skip ready s r" using r(8) assms(4) [OF that] assms(3) sr(1) roomy_frame [OF sr(1,5)] by (simp add: head_scheduled_def)
  moreover have "forward s s'"
  proof -
    have "ro_num_computed_tokens (obj s x) \<le> ro_num_computed_tokens (obj s' x)" if "x \<in> set (running s')" for x
    proof -
      have "requests s' (request_id x) = Some x" using queues_okD(4) [OF token_okD(2) [OF r(2)], of "request_id x" x] that by simp
      then have "x \<in> set (running s @ w)" using wf sr(2) known by simp
      then show ?thesis using assms(5) [of x] wf by metis
    qed
    then show ?thesis by (simp add: forward_def)
  qed
  moreover have "same_frame (kv s) (kv s')" using same_frame_trans [OF sr(5)] wf by blast
  ultimately show ?thesis unfolding passed_def res prod.case using r(1-5,7) sr(1-4) wf
    by (intro exI [of _ adv'] exI [of _ k'] exI [of _ w'] exI [of _ S'] exI [of _ loras']) simp
qed

lemma passes_ok:
  assumes rd: "ready_ok f seed s w" and f: "collision_free f seed"
  shows "\<exists>res. schedule_passes f seed ready s = Inr res \<and> passed f seed ready w s res"
proof -
  let ?B = "max_num_scheduled_tokens (cfg s)"
  have s: "token_ok f seed (\<lambda>_. 0) s [] w" "length (running s) \<le> max_num_running_reqs (cfg s)" "loras_ok s (lora_ids s (running s))" "behind s"
    using rd by (simp_all add: ready_ok_def between_def)
  have "planned ?B (take 0 (running s)) nothing_scheduled ?B (\<lambda>_. 0) s" by (simp add: planned_def nothing_scheduled_def)
  from running_loop_ok [OF s(1) f this s(4)] obtain b a s1 where
    rl: "running_loop f seed 0 ?B nothing_scheduled s = Inr (b, a, s1)" "run_result f seed ?B w nothing_scheduled s (b, a, s1)" by auto
  obtain adv w1 i where r: "token_ok f seed adv s1 [] w1" "planned ?B (take i (running s1)) a b adv s1" "behind s1" "scheduled_new_reqs a = []"
    "scheduled_resumed_reqs a = []" "running s1 @ w1 = running s @ w" "length (running s1) \<le> length (running s)" "same_run s s1"
    "preempted_reqs a = rev (drop (length (running s1)) (running s))" "running s1 = running s \<longrightarrow> b = 0 \<or> length (running s1) \<le> i"
    "same_counts (running s1) s s1" "head_scheduled ?B s (running s) a"
    using rl(2) unfolding run_result_def prod.case nothing_scheduled_def by auto
  note sr = same_runD [OF r(8)] and t = token_okD [OF s(1)] and t1 = token_okD [OF r(1)]
  have inp: "ro_input (obj s1 x) = ro_input (obj s x)" if "x \<in> set (running s1)" for x
    using live_known [OF t(2), of x] live_known [OF t1(2), of x] sr(3,6) that by auto
  have l1: "loras_ok s1 (lora_ids s1 (running s1))"
    by (rule loras_ok_own, rule loras_ok_fewer [OF s(3) sr(1)]) (use inp sr(6) in blast)
  have reqs: "set (scheduled_running_reqs a) = set (take i (running s1))" using mset_eq_setD [OF plannedD(3) [OF r(2)]] r(4,5) by simp
  then have sub: "lora_ids s1 (scheduled_running_reqs a) \<subseteq> lora_ids s1 (running s1)"
    using set_take_subset [of i "running s1"] by (auto simp: lora_ids_iff)
  define loras where "loras = (if sc_max_loras (cfg s1) = None then {} else lora_ids s1 (scheduled_running_reqs a))"
  have card: "\<not> (case sc_max_loras (cfg s1) of None \<Rightarrow> False | Some K \<Rightarrow> K < card loras)"
    using l1 card_mono [OF _ sub] by (fastforce simp: loras_ok_def loras_def split: option.splits)
  have q1: "waiting s1 = FCFSRequestQueue w1" "sc_policy (cfg s1) = FCFS" using queues_okD(2,1) [OF t1(2)] .
  let ?k = "FCFSRequestQueue []"
  have eq: "schedule_passes f seed ready s = (if preempted_reqs a = [] then waiting_loop f seed ready (length w1) b loras ?k a s1 else Inr (b, ?k, a, s1))"
    unfolding schedule_passes_def rl(1) bind_res_Inr prod.case Let_def loras_def [symmetric] if_not_P [OF card] q1 by simp
  have n1: "length (running s1) \<le> max_num_running_reqs (cfg s1)" using s(2) r(7) sr(1) by simp
  show ?thesis
  proof (cases "preempted_reqs a = [] \<and> 0 < b")
    case False
    then have res: "schedule_passes f seed ready s = Inr (b, ?k, a, s1)" using eq waiting_loop_no_budget by (cases "preempted_reqs a = []") auto
    have "head_scheduled ?B s (running s @ w) a" if "0 < max_num_running_reqs (cfg s)"
    proof (cases "running s")
      case Nil
      then have "running s1 = []" using r(7) by simp
      then have "preempted_reqs a = []" "b = ?B" using r(9) Nil plannedD(4,5) [OF r(2)] by simp_all
      then show ?thesis using False by (simp add: head_scheduled_def)
    qed (use r(12) in \<open>simp add: head_scheduled_def\<close>)
    moreover have "forward s s1" using r(11) by (simp add: forward_def same_counts_def)
    ultimately have "passed f seed ready w s (b, ?k, a, s1)"
      unfolding passed_def prod.case using r(1-3,6) l1 n1 sr(1-5)
      by (intro exI [of _ adv] exI [of _ "[]"] exI [of _ w1] exI [of _ "take i (running s1)"] exI [of _ "lora_ids s1 (running s1)"]) simp
    then show ?thesis using res by blast
  next
    case True
    then have "length (running s) \<le> length (running s1)" using r(9) by simp
    then have len: "length (running s1) = length (running s)" using r(7) by (rule le_antisym [rotated])
    have same: "running s1 = running s" "w1 = w" using append_eq_append_conv [THEN iffD1, OF disjI1 [OF len] r(6)] by blast+
    then have "take i (running s1) = running s1" using r(10) True by simp
    then have "lora_ids s1 (scheduled_running_reqs a) = lora_ids s1 (running s1)" using reqs by (simp add: lora_ids_iff)
    then have "loras_ok s1 loras" using l1 by (simp add: loras_def loras_ok_def)
    moreover have "head_scheduled ?B s1 (running s1) a" using r(12) same(1) roomy_frame [OF sr(1,5)] by (simp add: head_scheduled_def)
    ultimately obtain res where
      res: "schedule_passes f seed ready s = Inr res" "wait_result f seed ready ?B a [] w1 s1 res"
      using waiting_loop_ok [OF r(1) f r(2,3) _ n1 _ refl, of loras ready] eq True by auto
    have wo: "obj s1 x = obj s x" if "x \<in> set w" for x using that by (intro sr(7) fresh_idI wait_run_ids [OF t(2)]) simp_all
    then have ns: "\<forall>x \<in> set w1. \<not> may_skip ready s1 x" if "\<forall>x \<in> set w. \<not> may_skip ready s x" using that same(2) sr(1) by (simp add: may_skip_def)
    have "ro_num_computed_tokens (obj s1 x) = ro_num_computed_tokens (obj s x)" if "x \<in> set (running s @ w)" for x
      using that wo [of x] r(11) same(1) by (auto simp: same_counts_def)
    moreover have "x \<in> set (running s @ w)" if "requests s (request_id x) = Some x" for x using queues_okD(4) [OF t(2), of "request_id x" x] that by simp
    ultimately show ?thesis using res(1) passed_waiting [OF res(2) r(8) r(6) ns] by blast
  qed
qed

lemma token_schedule_ok:
  assumes rd: "ready_ok f seed s w" and f: "collision_free f seed"
  shows "\<exists>so s' w'. token_schedule f seed ready s = Inr (so, s') \<and> flight_ok f seed so s' w' \<and> cfg s' = cfg s \<and> requests s' = requests s \<and>
    live_inputs s' = live_inputs s \<and> out_total_num_scheduled_tokens so \<le> max_num_scheduled_tokens (cfg s) \<and>
    out_total_num_scheduled_tokens so = sum_list (map snd (out_num_scheduled_tokens so)) \<and> out_finished_req_ids so = finished_req_ids s \<and>
    finished_req_ids s' = {} \<and> fst ` set (out_num_scheduled_tokens so) \<subseteq> request_id ` set (running s') \<and> same_frame (kv s) (kv s') \<and>
    (\<forall>r \<in> set (running s'). request_id r \<in> fst ` set (out_num_scheduled_tokens so) \<longrightarrow> ro_num_computed_tokens (obj s r) < ro_num_computed_tokens (obj s' r)) \<and>
    ((\<forall>r \<in> set w. \<not> may_skip ready s r) \<longrightarrow> running s' @ w' = running s @ w \<and>
      (roomy s \<and> 0 < max_num_scheduled_tokens (cfg s) \<and> 0 < max_num_running_reqs (cfg s) \<and> running s @ w \<noteq> [] \<longrightarrow>
        request_id (hd (running s @ w)) \<in> fst ` set (out_num_scheduled_tokens so)))"
proof -
  let ?B = "max_num_scheduled_tokens (cfg s)"
  obtain b skipped a s1 where p: "schedule_passes f seed ready s = Inr (b, skipped, a, s1)" "passed f seed ready w s (b, skipped, a, s1)"
    using passes_ok [OF rd f, of ready] by auto
  obtain adv k w1 S loras where r: "skipped = FCFSRequestQueue k" "token_ok f seed adv s1 k w1" "planned ?B S a b adv s1" "behind s1" "loras_ok s1 loras"
    "cfg s1 = cfg s" "requests s1 = requests s" "live_inputs s1 = live_inputs s" "finished_req_ids s1 = finished_req_ids s"
    "length (running s1) \<le> max_num_running_reqs (cfg s)" "same_frame (kv s) (kv s1)" "forward s s1"
    "(\<forall>r \<in> set w. \<not> may_skip ready s r) \<longrightarrow> running s1 @ k @ w1 = running s @ w \<and> (0 < max_num_running_reqs (cfg s) \<longrightarrow> head_scheduled ?B s (running s @ w) a)"
    using p(2) unfolding passed_def prod.case by (elim exE conjE) (rule that; assumption)
  obtain q where q: "(if queue_length skipped = 0 then Inr (waiting s1) else queue_prepend_all skipped (waiting s1)) = Inr q"
    "token_ok f seed adv (s1\<lparr>waiting := q\<rparr>) [] (k @ w1)" using put_back_skipped [OF r(2)] r(1) by auto
  let ?s2 = "s1\<lparr>waiting := q\<rparr>"
  have c: "check_constraints b a ?s2 = Inr ()" using check_constraints_ok [of ?s2 S a b adv] r(3,6,10) by simp
  obtain n m where m: "common_prefix ?s2 = Inr (n, ?s2\<lparr>kv := m\<rparr>)" "token_ok f seed adv (?s2\<lparr>kv := m\<rparr>) [] (k @ w1)" "same_frame (kv ?s2) m"
    using common_prefix_ok [OF q(2)] by blast
  let ?s3 = "?s2\<lparr>kv := m\<rparr>"
  have pl3: "planned ?B S a b adv ?s3" using r(3) by simp
  obtain so where so: "make_output a n ?s3 = Inr so" "out_num_scheduled_tokens so = num_scheduled_tokens a"
    "out_spec_decode_tokens so = scheduled_spec_decode_tokens a" "out_finished_req_ids so = finished_req_ids s1"
    "out_total_num_scheduled_tokens so = sum_list (map snd (num_scheduled_tokens a))" using make_output_ok [OF pl3, of n] by auto
  let ?s4 = "?s3\<lparr>kv := snd (manager_take_events (kv ?s3))\<rparr>"
  have ok4: "token_ok f seed adv ?s4 [] (k @ w1)" by (rule take_events_token_ok(1) [OF m(2)])
  have fr: "same_frame (kv s) (kv ?s4)" using same_frame_trans [OF r(11) same_frame_trans [OF m(3) [simplified]]] take_events_token_ok(2) [OF m(2)] by simp
  have pl4: "planned ?B S a b adv ?s4" using r(3) by simp
  have u: "update_after_schedule (num_scheduled_tokens a) ?s4 = Inr (advanced adv ?s4)" by (rule update_after_schedule_ok [OF pl4 token_okD(2) [OF ok4]])
  have l4: "loras_ok ?s4 loras" by (rule loras_ok_fewer [OF r(5)]) simp_all
  have fl: "flight_ok f seed so (advanced adv ?s4) (k @ w1)"
    by (rule planned_flight [OF ok4 pl4 _ _ l4 so(2,3)]) (use r(4,6,10) in simp_all)
  have "token_schedule f seed ready s = Inr (so, advanced adv ?s4)"
    unfolding token_schedule_def p(1) bind_res_Inr prod.case q(1) c m(1) so(1) u ..
  moreover have "fst ` set (num_scheduled_tokens a) \<subseteq> request_id ` set (running s1)" using plannedD(1,4) [OF r(3)] by (auto simp: image_image)
  moreover have "ro_num_computed_tokens (obj s x) < ro_num_computed_tokens (obj (advanced adv ?s4) x)"
    if x: "x \<in> set (running s1)" "request_id x \<in> fst ` set (num_scheduled_tokens a)" for x
  proof -
    obtain y where "y \<in> set S" "request_id x = request_id y" using x(2) plannedD(4) [OF r(3)] by auto
    then have "0 < adv (request_id x)" using plannedD(6) [OF r(3)] by simp
    moreover have "ro_num_computed_tokens (obj s x) \<le> ro_num_computed_tokens (obj s1 x)" using r(12) x(1) by (simp add: forward_def)
    ultimately show ?thesis by simp
  qed
  moreover have "running s1 @ k @ w1 = running s @ w \<and> (roomy s \<and> 0 < ?B \<and> 0 < max_num_running_reqs (cfg s) \<and> running s @ w \<noteq> [] \<longrightarrow>
      request_id (hd (running s @ w)) \<in> fst ` set (num_scheduled_tokens a))" if "\<forall>r \<in> set w. \<not> may_skip ready s r"
    using r(13) that by (simp add: head_scheduled_def)
  ultimately show ?thesis using fl fr r(6-9) so(2,4,5) plannedD(5) [OF r(3)]
    by (intro exI [of _ so] exI [of _ "advanced adv ?s4"] exI [of _ "k @ w1"]) auto
qed

end
