(* ===== verification/Token_Updates.thy ===== *)
theory Token_Updates
  imports Token_Steps
begin

text \<open>
  Sampled tokens and aborts: the update of a request with its tokens, the removal of finished requests, and the calls
  \<^verbatim>\<open>update_from_output\<close> and \<^verbatim>\<open>finish_requests\<close>.
\<close>

section \<open>Tokens of one request\<close>

lemma check_stop_ok:
  assumes "0 < ro_num_output_tokens q"
  shows "\<exists>stopped q'. check_stop n q = Inr (stopped, q') \<and> (if stopped then \<exists>st. is_finished st \<and> q' = q\<lparr>ro_status := st\<rparr> else q' = q \<and> ro_num_tokens q < n)"
proof -
  have s: "is_finished FINISHED_STOPPED" "is_finished FINISHED_LENGTH_CAPPED" by simp_all
  show ?thesis
  proof (cases "n \<le> ro_num_tokens q \<or> ro_max_tokens q \<le> ro_num_output_tokens q")
    case True
    then have "check_stop n q = Inr (True, q\<lparr>ro_status := FINISHED_LENGTH_CAPPED\<rparr>)" by (simp add: check_stop_def)
    then show ?thesis using s(2) by (metis (full_types))
  next
    case False
    then have "check_stop n q = Inr (True, q\<lparr>ro_status := FINISHED_STOPPED\<rparr>) \<or> check_stop n q = Inr (False, q)"
      using assms by (simp add: check_stop_def Let_def)
    then show ?thesis
    proof
      assume "check_stop n q = Inr (True, q\<lparr>ro_status := FINISHED_STOPPED\<rparr>)"
      then show ?thesis using s(1) by (metis (full_types))
    next
      assume "check_stop n q = Inr (False, q)"
      then show ?thesis using False by (intro exI [of _ False]) auto
    qed
  qed
qed

definition with_tokens :: "int list \<Rightarrow> req_object \<Rightarrow> req_object" where
  "with_tokens ts q = q\<lparr>ro_input := (ro_input q)\<lparr>all_token_ids := all_token_ids (ro_input q) @ ts\<rparr>\<rparr>"

lemma with_tokens_simps [simp]:
  "with_tokens [] q = q" "with_tokens ts (with_tokens us q) = with_tokens (us @ ts) q" "append_token t q = with_tokens [t] q"
  "ro_num_tokens (with_tokens ts q) = ro_num_tokens q + length ts" "ro_num_prompt_tokens (with_tokens ts q) = ro_num_prompt_tokens q"
  "ro_status (with_tokens ts q) = ro_status q" "ro_num_computed_tokens (with_tokens ts q) = ro_num_computed_tokens q"
  "ro_input (with_tokens ts q) = (ro_input q)\<lparr>all_token_ids := all_token_ids (ro_input q) @ ts\<rparr>"
  by (simp_all add: with_tokens_def append_token_def ro_num_tokens_def)

text \<open>The generated tokens are taken over up to the one that stops the request.\<close>

lemma update_request_ok:
  assumes "ro_num_prompt_tokens q \<le> ro_num_tokens q"
  shows "\<exists>new stopped q'. update_request_with_output n ts q = Inr (new, stopped, q') \<and> (\<exists>rest. ts = new @ rest) \<and>
    (if stopped then new \<noteq> [] \<and> (\<exists>st. is_finished st \<and> q' = (with_tokens new q)\<lparr>ro_status := st\<rparr>)
     else new = ts \<and> q' = with_tokens ts q \<and> (ts \<noteq> [] \<longrightarrow> ro_num_tokens q' < n))"
  using assms
proof (induction ts arbitrary: q)
  case Nil
  then show ?case by (intro exI [of _ "[]"] exI [of _ False]) simp
next
  case (Cons t ts)
  let ?q = "with_tokens [t] q"
  have "0 < ro_num_output_tokens ?q" using Cons.prems by (simp add: ro_num_output_tokens_def)
  from check_stop_ok [OF this, of n] obtain stopped q1 where c: "check_stop n ?q = Inr (stopped, q1)"
    "if stopped then \<exists>st. is_finished st \<and> q1 = ?q\<lparr>ro_status := st\<rparr> else q1 = ?q \<and> ro_num_tokens ?q < n" by blast
  show ?case
  proof (cases stopped)
    case True
    then show ?thesis using c by auto
  next
    case False
    then have q1: "q1 = ?q" "ro_num_tokens ?q < n" using c(2) by simp_all
    have "ro_num_prompt_tokens ?q \<le> ro_num_tokens ?q" using Cons.prems by simp
    from Cons.IH [OF this] obtain new st q' where u: "update_request_with_output n ts ?q = Inr (new, st, q')" "\<exists>rest. ts = new @ rest"
      "if st then new \<noteq> [] \<and> (\<exists>x. is_finished x \<and> q' = (with_tokens new ?q)\<lparr>ro_status := x\<rparr>)
       else new = ts \<and> q' = with_tokens ts ?q \<and> (ts \<noteq> [] \<longrightarrow> ro_num_tokens q' < n)" by blast
    have "update_request_with_output n (t # ts) q = Inr (t # new, st, q')" using c(1) False q1(1) u(1) by simp
    moreover have "ro_num_tokens q' < n" if "\<not> st" using u(3) q1(2) that by (cases "ts = []") auto
    ultimately show ?thesis using u(2,3) by (intro exI [of _ "t # new"] exI [of _ st] exI [of _ q']) auto
  qed
qed

section \<open>Requests that get tokens or end\<close>

lemma token_ok_obj:
  assumes ok: "token_ok f seed (\<lambda>_. 0) s [] w" and r: "r \<in> set (running s)"
    and g: "ro_input (g (obj s r)) = (ro_input (obj s r))\<lparr>all_token_ids := all_token_ids (ro_input (obj s r)) @ ts\<rparr>"
      "ro_num_prompt_tokens (g (obj s r)) = ro_num_prompt_tokens (obj s r)" "ro_status (g (obj s r)) = RUNNING"
      "ro_num_tokens (g (obj s r)) < sc_max_model_len (cfg s)" "runs_ok (set_obj r g s) 0 r"
  shows "token_ok f seed (\<lambda>_. 0) (set_obj r g s) [] w"
proof (rule token_okI)
  note t = token_okD [OF ok]
  let ?s = "set_obj r g s"
  have diff: "request_id x \<noteq> request_id r" if "x \<in> set (running s @ w)" "x \<noteq> r" for x using same_id [OF t(2), of x r] that r by auto
  have "live_inputs ?s = (live_inputs s)(request_id r \<mapsto> (ro_input (obj s r))\<lparr>all_token_ids := all_token_ids (ro_input (obj s r)) @ ts\<rparr>)"
    using g(1) live_known [OF t(2), of r] r by (auto simp: fun_eq_iff live_inputs_def set_obj_def obj_def split: option.splits)
  then show "kv_served f seed (kv ?s) (live_inputs ?s)" using kv_served.generate [OF t(1) live_known [OF t(2)]] r by simp
  show "queues_ok ?s [] w" using t(2) by (simp add: queues_ok_def)
  show "cache_max_model_len (kv ?s) = sc_max_model_len (cfg ?s)" using t(3) by simp
  show "request_fits ?s x" if "x \<in> set (running ?s @ [] @ w)" for x
  proof (cases "x = r")
    case True
    then show ?thesis using t(4) [of r] r g(1,2,4) by (auto simp: request_fits_def ro_num_tokens_def)
  next
    case False
    then show ?thesis using t(4) [of x] diff [of x] that by (simp add: request_fits_def)
  qed
  show "waits_ok ?s x" if "x \<in> set ([] @ w)" for x
    using t(5) [of x] that wait_run_ids [OF t(2) r, of x] by (simp add: waits_ok_def)
  show "runs_ok ?s 0 x" if "x \<in> set (running ?s)" for x
  proof (cases "x = r")
    case False
    then show ?thesis using t(6) [of x] diff [of x] that by (simp add: runs_ok_def)
  qed (use g(5) in simp)
qed

text \<open>A finished request leaves. The queues are those the request is removed from before or after the call.\<close>

definition without :: "request \<Rightarrow> request list \<Rightarrow> request list" where
  "without r rs = filter (\<lambda>x. x \<noteq> r) rs"

definition freed :: "request \<Rightarrow> kv_manager \<Rightarrow> token_scheduler \<Rightarrow> token_scheduler" where
  "freed r m s = s\<lparr>kv := m, requests := (requests s)(request_id r := None), finished_req_ids := insert (request_id r) (finished_req_ids s)\<rparr>"

lemma freed_token_ok:
  assumes ok: "token_ok f seed adv (s\<lparr>running := R, waiting := FCFSRequestQueue W\<rparr>) [] W" and r: "r \<in> set (R @ W)"
    and m: "kv_served f seed m ((live_inputs s)(request_id r := None))" "same_frame (kv s) m"
      "\<And>x. x \<noteq> request_id r \<Longrightarrow> num_cached_block m x = num_cached_block (kv s) x \<and> get_block_ids x m = get_block_ids x (kv s)"
  shows "token_ok f seed adv ((freed r m (set_obj r g s))\<lparr>running := without r R, waiting := FCFSRequestQueue (without r W)\<rparr>) [] (without r W)"
proof -
  note t = token_okD [OF ok] and q = queues_okD [OF token_okD(2) [OF ok]]
  let ?s = "(freed r m (set_obj r g s))\<lparr>running := without r R, waiting := FCFSRequestQueue (without r W)\<rparr>"
  have ob: "obj ?s x = obj s x" if "request_id x \<noteq> request_id r" for x using that by (simp add: obj_def freed_def set_obj_def)
  have flds: "cfg ?s = cfg s" "kv ?s = m" "requests ?s = (requests s)(request_id r := None)" "running ?s = without r R" by (simp_all add: freed_def)
  have diff: "x \<in> set (R @ W)" "request_id x \<noteq> request_id r" if "x \<in> set (without r R @ without r W)" for x
    using that same_id [OF t(2), of x r] r by (auto simp: without_def)
  have li: "live_inputs ?s = (live_inputs s)(request_id r := None)"
    by (auto simp: fun_eq_iff live_inputs_def freed_def set_obj_def split: option.splits)
  have fr: "cache_max_model_len m = cache_max_model_len (kv s)" "cache_block_size m = cache_block_size (kv s)"
    "enable_kv_cache_events (pool m) = enable_kv_cache_events (pool (kv s))" using m(2) by (simp_all add: same_frame_def same_setup_def)
  show ?thesis
  proof (rule token_okI)
    show "kv_served f seed (kv ?s) (live_inputs ?s)" unfolding li flds by (rule m(1))
    have "distinct (map request_id (R @ W))" using q(3) by simp
    then have "distinct (map request_id (without r (R @ W)))" unfolding without_def by (rule distinct_map_filter)
    moreover have "requests ?s rid = Some x \<longleftrightarrow> x \<in> set (without r R @ without r W) \<and> request_id x = rid" for rid x
    proof (cases "rid = request_id r")
      case True
      then show ?thesis using diff(2) [of x] unfolding flds by auto
    next
      case False
      then have "requests s rid = Some x \<longleftrightarrow> x \<in> set (R @ W) \<and> request_id x = rid" using q(4) [of rid x] by simp
      moreover have "x \<in> set (without r R @ without r W) \<longleftrightarrow> x \<in> set (R @ W)" if "request_id x = rid" using False that by (auto simp: without_def)
      ultimately show ?thesis using False unfolding flds by auto
    qed
    ultimately show "queues_ok ?s [] (without r W)" using q(1) by (simp add: queues_ok_def flds without_def) (simp add: freed_def)
    show "cache_max_model_len (kv ?s) = sc_max_model_len (cfg ?s)" using t(3) fr by (simp add: flds)
    show "request_fits ?s x" if "x \<in> set (running ?s @ [] @ without r W)" for x
    proof -
      have "x \<in> set (without r R @ without r W)" using that by (simp add: flds)
      note x = diff [OF this]
      show ?thesis using t(4) [of x] x(1) fr unfolding request_fits_def flds ob [OF x(2)] by simp
    qed
    show "waits_ok ?s x" if "x \<in> set ([] @ without r W)" for x
    proof -
      have "x \<in> set (without r R @ without r W)" using that by simp
      note x = diff [OF this]
      have x1: "x \<in> set ([] @ W)" using that by (simp add: without_def)
      show ?thesis using t(5) [OF x1] m(3) [OF x(2)] unfolding waits_ok_def flds ob [OF x(2)] by simp
    qed
    show "runs_ok ?s (adv (request_id x)) x" if "x \<in> set (running ?s)" for x
    proof -
      have "x \<in> set (without r R @ without r W)" using that by (simp add: flds)
      note x = diff [OF this]
      have "x \<in> set (running (s\<lparr>running := R, waiting := FCFSRequestQueue W\<rparr>))" using that by (simp add: flds without_def)
      then show ?thesis using t(6) [of x] m(3) [OF x(2)] fr unfolding runs_ok_def flds ob [OF x(2)] by simp
    qed
  qed
qed

lemma token_free_ok:
  assumes ok: "token_ok f seed adv (s\<lparr>running := R, waiting := FCFSRequestQueue W\<rparr>) [] W" and f: "collision_free f seed"
    and r: "r \<in> set (R @ W)"
  shows "\<exists>m. same_frame (kv s) m \<and> (\<forall>g. is_finished (ro_status (g (obj s r))) \<longrightarrow>
    token_free_request r (set_obj r g s) = Inr (freed r m (set_obj r g s)) \<and>
    token_ok f seed adv ((freed r m (set_obj r g s))\<lparr>running := without r R, waiting := FCFSRequestQueue (without r W)\<rparr>) [] (without r W))"
proof -
  note t = token_okD [OF ok] and q = queues_okD [OF token_okD(2) [OF ok]]
  let ?v = "cache_view s r"
  have kv: "kv_served f seed (kv s) (live_inputs s)" using t(1) by simp
  obtain m1 where m1: "free_request ?v (kv s) = Inr m1" "only_request (kv s) (request_id r) m1"
    using free_request_ok [OF kv f, of ?v] by auto
  define m where "m = free_block_hashes ?v m1"
  have o: "same_frame (kv s) m" "\<And>x. x \<noteq> request_id r \<Longrightarrow> num_cached_block m x = num_cached_block (kv s) x \<and> get_block_ids x m = get_block_ids x (kv s)"
    using m1(2) by (simp_all add: m_def free_block_hashes_def only_request_def same_frame_def get_block_ids_def req_blocks_def)
  have known: "requests s (request_id r) = Some r" using q(4) [of "request_id r" r] r by simp
  have eq: "token_free_request r (set_obj r g s) = Inr (freed r m (set_obj r g s))" if "is_finished (ro_status (g (obj s r)))" for g
    using that m1(1) known by (simp add: token_free_request_def freed_def m_def free_request_def free_block_hashes_def)
  have "kv_served f seed m ((live_inputs s)(request_id r := None))" using kv_served.finish [OF kv m1(1)] by (simp add: m_def)
  from freed_token_ok [OF ok r this o] show ?thesis using eq o(1) by blast
qed

section \<open>The output of a step\<close>

text \<open>What the model runner returns for a request: nothing while the request is being prefilled, otherwise one token, and more where
  drafts were accepted.\<close>

definition generated :: "runner_output \<Rightarrow> nat \<Rightarrow> int list" where
  "generated out i = (if sampled_token_ids out = [] then [] else sampled_token_ids out ! i)"

definition samples_ok :: "(string \<times> int list) list \<Rightarrow> string \<Rightarrow> req_object \<Rightarrow> int list \<Rightarrow> bool" where
  "samples_ok spec rid q ts \<longleftrightarrow> (if ro_num_computed_tokens q < ro_num_tokens q then ts = []
     else ts \<noteq> [] \<and> length ts \<le> Suc (case map_of spec rid of None \<Rightarrow> 0 | Some ds \<Rightarrow> length ds))"

definition answer_ok :: "(string \<times> int list) list \<Rightarrow> runner_output \<Rightarrow> string \<Rightarrow> req_object \<Rightarrow> bool" where
  "answer_ok spec out rid q \<longleftrightarrow> (case map_of (req_id_to_index out) rid of None \<Rightarrow> False
     | Some i \<Rightarrow> (sampled_token_ids out \<noteq> [] \<longrightarrow> i < length (sampled_token_ids out)) \<and>
         (case runner_spec_token_ids out of None \<Rightarrow> True | Some sp \<Rightarrow> i < length sp) \<and> samples_ok spec rid q (generated out i))"

lemma reject_drafts_ok:
  assumes "plan_ok spec (ro_num_computed_tokens q) rid q" "samples_ok spec rid q ts" "ds = (case map_of spec rid of None \<Rightarrow> [] | Some ds \<Rightarrow> ds)"
  shows "\<exists>c. reject_drafts ds ts q = q\<lparr>ro_num_computed_tokens := c\<rparr> \<and> c \<le> ro_num_computed_tokens q \<and>
    (if ts = [] then c = ro_num_computed_tokens q \<and> c < ro_num_tokens q else c + 1 = ro_num_tokens q + length ts)"
proof (cases "map_of spec rid")
  case None
  then have "reject_drafts ds ts q = q\<lparr>ro_num_computed_tokens := ro_num_computed_tokens q\<rparr>" using assms(3) by (simp add: reject_drafts_def)
  moreover have "length ts = 1" if "ts \<noteq> []" using assms(2) None that by (cases ts) (auto simp: samples_ok_def split: if_splits)
  ultimately show ?thesis using assms(1,2) None
    by (intro exI [of _ "ro_num_computed_tokens q"]) (auto simp: plan_ok_def samples_ok_def split: if_splits)
next
  case (Some ts')
  then have p: "ds = ts'" "ds \<noteq> []" "ro_num_computed_tokens q = ro_num_tokens q + length ds" using assms(1,3) by (auto simp: plan_ok_def)
  then have t: "ts \<noteq> []" "length ts \<le> Suc (length ds)" using assms(2) Some by (auto simp: samples_ok_def)
  let ?c = "nat (int (ro_num_computed_tokens q) - (int (length ds) + 1 - int (length ts)))"
  have "0 < length ts" using t(1) by simp
  then have "?c \<le> ro_num_computed_tokens q" "?c + 1 = ro_num_tokens q + length ts" using t(2) p(3) by linarith+
  then show ?thesis using p(2) t(1) by (intro exI [of _ ?c]) (simp add: reject_drafts_def)
qed

lemma set_obj_set_obj [simp]: "set_obj r g (set_obj r h s) = set_obj r (\<lambda>q. g (h q)) s"
  by (simp add: set_obj_def obj_def)

lemma freed_simps [simp]:
  "obj (freed r m s) = obj s" "cfg (freed r m s) = cfg s" "running (freed r m s) = running s" "waiting (freed r m s) = waiting s"
  "requests (freed r m s) = (requests s)(request_id r := None)" "kv (freed r m s) = m"
  by (simp_all add: freed_def obj_def fun_eq_iff)

lemma set_obj_freed: "set_obj r g (freed r m s) = freed r m (set_obj r g s)"
  by (simp add: set_obj_def obj_def freed_def)

text \<open>The drafts for the next step.\<close>

definition next_drafts :: "runner_output \<Rightarrow> nat \<Rightarrow> req_object \<Rightarrow> req_object" where
  "next_drafts out i q = (case runner_spec_token_ids out of None \<Rightarrow> q | Some sp \<Rightarrow> q\<lparr>ro_spec_token_ids := sp ! i\<rparr>)"

lemma next_drafts_simps [simp]:
  "ro_input (next_drafts out i q) = ro_input q" "ro_num_tokens (next_drafts out i q) = ro_num_tokens q" "ro_status (next_drafts out i q) = ro_status q"
  "ro_num_prompt_tokens (next_drafts out i q) = ro_num_prompt_tokens q" "ro_num_computed_tokens (next_drafts out i q) = ro_num_computed_tokens q"
  by (simp_all add: next_drafts_def ro_num_tokens_def split: option.splits)

lemma set_drafts_eq:
  assumes "case runner_spec_token_ids out of None \<Rightarrow> True | Some sp \<Rightarrow> i < length sp"
  shows "set_drafts (runner_spec_token_ids out) i r s = Inr (if runner_spec_token_ids out = None then s else set_obj r (next_drafts out i) s)"
  using assms by (auto simp: set_drafts_def next_drafts_def nth_res_def set_obj_def split: option.splits)

lemma update_one_eq:
  assumes r: "requests s rid = Some r" "request_id r = rid" "0 < n" and i: "map_of (req_id_to_index out) rid = Some i"
    "sampled_token_ids out \<noteq> [] \<longrightarrow> i < length (sampled_token_ids out)" "case runner_spec_token_ids out of None \<Rightarrow> True | Some sp \<Rightarrow> i < length sp"
    and c: "reject_drafts (case map_of spec rid of None \<Rightarrow> [] | Some ds \<Rightarrow> ds) (generated out i) (obj s r) = q1" and st: "ro_status q1 = RUNNING"
    and u: "update_request_with_output (sc_max_model_len (cfg s)) (generated out i) q1 = Inr (new, stopped, q)"
    and fr: "stopped \<Longrightarrow> token_free_request r (set_obj r (\<lambda>_. q) s) = Inr (freed r m (set_obj r (\<lambda>_. q) s))"
  shows "update_one spec out (rid, n) (acc, s) = Inr
    (let acc' = (if stopped then acc\<lparr>stopped_running_reqs := stopped_running_reqs acc @ [r]\<rparr> else acc)
     in if new = [] then acc' else acc'\<lparr>sr_outputs := sr_outputs acc' @ [\<lparr>to_request_id = rid, to_new_token_ids = new, to_status = ro_status q\<rparr>]\<rparr>,
     if stopped then freed r m (set_obj r (\<lambda>_. next_drafts out i q) s) else set_obj r (\<lambda>_. next_drafts out i q) s)"
proof -
  have nd: "next_drafts out i = id" if "runner_spec_token_ids out = None" using that by (simp add: next_drafts_def fun_eq_iff)
  have gen: "(if sampled_token_ids out = [] then Inr [] else nth_res (sampled_token_ids out) i) = Inr (generated out i)"
    using i(2) by (simp add: generated_def nth_res_def)
  have f1: "(if stopped then token_free_request r (set_obj r (\<lambda>_. q) s) else Inr (set_obj r (\<lambda>_. q) s)) =
      Inr (if stopped then freed r m (set_obj r (\<lambda>_. q) s) else set_obj r (\<lambda>_. q) s)" using fr by simp
  have f2: "set_drafts (runner_spec_token_ids out) i r (if stopped then freed r m (set_obj r (\<lambda>_. q) s) else set_obj r (\<lambda>_. q) s) =
      Inr (if stopped then freed r m (set_obj r (\<lambda>_. next_drafts out i q) s) else set_obj r (\<lambda>_. next_drafts out i q) s)"
    using nd by (simp add: set_drafts_eq [OF i(3)] set_obj_freed)
  have "subscript (req_id_to_index out) rid = Inr i" using i(1) by (simp add: subscript_def)
  then show ?thesis using r c st u unfolding update_one_def prod.case
    by (simp add: gen Let_def set_obj_simps f1 f2 cong: if_cong)
qed

lemma cached_within:
  assumes ok: "token_ok f seed adv s k w" and f: "collision_free f seed" and r: "r \<in> set (running s)" and c: "num_cached_block (kv s) (request_id r) = Some c"
  shows "c * cache_block_size (kv s) \<le> ro_num_tokens (obj s r)"
proof -
  note t = token_okD [OF ok]
  obtain xs where m: "manager_ok f seed (kv s) (live_inputs s) xs" using kv_served_ok [OF t(1) f] by blast
  have "live_inputs s (request_id r) = Some (ro_input (obj s r))" using live_known [OF t(2)] r by simp
  then have h: "hashes_of f seed (cache_block_size (kv s)) (ro_input (obj s r)) (req_hashes (kv s) (request_id r))"
    using manager_okD(7) [OF m, of "request_id r"] by (simp add: input_hashed_def)
  have "c \<le> length (req_hashes (kv s) (request_id r))" using manager_okD(6) [OF m, of "request_id r"] c by (simp add: held_ok_def tagged_def)
  then show ?thesis using hashes_of_length [OF h] unfolding ro_num_tokens_def by (meson mult_le_mono1 order_trans)
qed

text \<open>A request that goes on has tokens left to compute, and only rejected drafts are taken back.\<close>

definition keeps_up :: "req_object \<Rightarrow> req_object \<Rightarrow> bool" where
  "keeps_up q q' \<longleftrightarrow> min (ro_num_computed_tokens q) (ro_num_tokens q) \<le> ro_num_computed_tokens q' \<and> ro_num_computed_tokens q' < ro_num_tokens q'"

text \<open>One request of the output: the tokens it gets, whether it stops, and the state without it if it does.\<close>

definition taken_over :: "hash_fn \<Rightarrow> int \<Rightarrow> request list \<Rightarrow> request list \<Rightarrow> request \<Rightarrow> int list \<Rightarrow> step_result \<times> token_scheduler \<Rightarrow>
    step_result \<times> token_scheduler \<Rightarrow> bool" where
  "taken_over f seed R W r ts = (\<lambda>(acc, s) (acc', s'). \<exists>new rest stopped.
     ts = new @ rest \<and> (if stopped then new \<noteq> [] else rest = []) \<and>
     ro_input (obj s' r) = (ro_input (obj s r))\<lparr>all_token_ids := all_token_ids (ro_input (obj s r)) @ new\<rparr> \<and>
     (if stopped then is_finished (ro_status (obj s' r)) else keeps_up (obj s r) (obj s' r)) \<and>
     sr_outputs acc' = sr_outputs acc @ (if new = [] then [] else [\<lparr>to_request_id = request_id r, to_new_token_ids = new, to_status = ro_status (obj s' r)\<rparr>]) \<and>
     stopped_running_reqs acc' = stopped_running_reqs acc @ (if stopped then [r] else []) \<and>
     stopped_preempted_reqs acc' = stopped_preempted_reqs acc \<and>
     (\<forall>x. request_id x \<noteq> request_id r \<longrightarrow> obj s' x = obj s x) \<and> cfg s' = cfg s \<and> running s' = running s \<and> waiting s' = waiting s \<and> same_frame (kv s) (kv s') \<and>
     requests s' = (if stopped then (requests s)(request_id r := None) else requests s) \<and>
     (let R' = if stopped then without r R else R
      in token_ok f seed (\<lambda>_. 0) (s'\<lparr>running := R', waiting := FCFSRequestQueue W\<rparr>) [] W))"

lemma set_obj_queues: "(set_obj r g s)\<lparr>running := R, waiting := W\<rparr> = set_obj r g (s\<lparr>running := R, waiting := W\<rparr>)"
  by (simp add: set_obj_def obj_def)

lemma update_one_ok:
  assumes ok: "token_ok f seed (\<lambda>_. 0) (s\<lparr>running := R, waiting := FCFSRequestQueue W\<rparr>) [] W" and f: "collision_free f seed"
    and r: "r \<in> set R" and n: "0 < n" and p: "plan_ok spec (ro_num_computed_tokens (obj s r)) (request_id r) (obj s r)"
    and a: "answer_ok spec out (request_id r) (obj s r)"
  shows "\<exists>res. update_one spec out (request_id r, n) (acc, s) = Inr res \<and>
    taken_over f seed R W r (generated out (the (map_of (req_id_to_index out) (request_id r)))) (acc, s) res"
proof -
  let ?s = "s\<lparr>running := R, waiting := FCFSRequestQueue W\<rparr>"
  note t = token_okD [OF ok]
  have known: "requests s (request_id r) = Some r" using queues_okD(4) [OF t(2), of "request_id r" r] r by simp
  have fits: "ro_num_prompt_tokens (obj s r) \<le> ro_num_tokens (obj s r)" "ro_num_tokens (obj s r) < sc_max_model_len (cfg s)"
    using t(4) [of r] r by (simp_all add: request_fits_def)
  have runs: "runs_ok ?s 0 r" using t(6) [of r] r by simp
  obtain i where i: "map_of (req_id_to_index out) (request_id r) = Some i" "sampled_token_ids out \<noteq> [] \<longrightarrow> i < length (sampled_token_ids out)"
    "case runner_spec_token_ids out of None \<Rightarrow> True | Some sp \<Rightarrow> i < length sp" "samples_ok spec (request_id r) (obj s r) (generated out i)"
    using a by (auto simp: answer_ok_def split: option.splits)
  define ts where "ts = generated out i"
  obtain c where c: "reject_drafts (case map_of spec (request_id r) of None \<Rightarrow> [] | Some ds \<Rightarrow> ds) ts (obj s r) = (obj s r)\<lparr>ro_num_computed_tokens := c\<rparr>"
    "c \<le> ro_num_computed_tokens (obj s r)"
    "if ts = [] then c = ro_num_computed_tokens (obj s r) \<and> c < ro_num_tokens (obj s r) else c + 1 = ro_num_tokens (obj s r) + length ts"
    using reject_drafts_ok [OF p i(4) refl] unfolding ts_def by blast
  let ?q = "(obj s r)\<lparr>ro_num_computed_tokens := c\<rparr>"
  have q: "ro_num_tokens ?q = ro_num_tokens (obj s r)" "ro_status ?q = RUNNING" using runs by (simp_all add: ro_num_tokens_def runs_ok_def)
  have "ro_num_prompt_tokens ?q \<le> ro_num_tokens ?q" using fits(1) q(1) by simp
  from update_request_ok [OF this, of "sc_max_model_len (cfg s)" ts] obtain new stopped q' where u: "update_request_with_output (sc_max_model_len (cfg s)) ts ?q = Inr (new, stopped, q')" "\<exists>rest. ts = new @ rest"
    "if stopped then new \<noteq> [] \<and> (\<exists>st. is_finished st \<and> q' = (with_tokens new ?q)\<lparr>ro_status := st\<rparr>)
     else new = ts \<and> q' = with_tokens ts ?q \<and> (ts \<noteq> [] \<longrightarrow> ro_num_tokens q' < sc_max_model_len (cfg s))"
    by blast
  obtain rest where rest: "ts = new @ rest" using u(2) by blast
  obtain m where fm: "same_frame (kv s) m" and m: "\<And>g. is_finished (ro_status (g (obj s r))) \<Longrightarrow> token_free_request r (set_obj r g s) = Inr (freed r m (set_obj r g s)) \<and>
    token_ok f seed (\<lambda>_. 0) ((freed r m (set_obj r g s))\<lparr>running := without r R, waiting := FCFSRequestQueue (without r W)\<rparr>) [] (without r W)"
    using token_free_ok [OF ok f, of r] r by auto
  have fin: "is_finished (ro_status q')" if stopped using u(3) that by auto
  note eq = update_one_eq [OF known refl n i(1-3) c(1) [unfolded ts_def] q(2) u(1) [unfolded ts_def] conjunct1 [OF m], of acc]
  have wW: "without r W = W" using queues_okD(3) [OF t(2)] r by (auto simp: without_def filter_id_conv)
  let ?o = "next_drafts out i q'"
  show ?thesis
  proof (cases stopped)
    case True
    obtain st where st: "is_finished st" "q' = (with_tokens new ?q)\<lparr>ro_status := st\<rparr>" "new \<noteq> []" using u(3) True by auto
    have "token_ok f seed (\<lambda>_. 0) ((freed r m (set_obj r (\<lambda>_. ?o) s))\<lparr>running := without r R, waiting := FCFSRequestQueue W\<rparr>) [] W"
      using m [of "\<lambda>_. ?o"] fin [OF True] wW by simp
    then have "taken_over f seed R W r ts (acc, s) (let acc' = acc\<lparr>stopped_running_reqs := stopped_running_reqs acc @ [r]\<rparr>
       in if new = [] then acc' else acc'\<lparr>sr_outputs := sr_outputs acc' @ [\<lparr>to_request_id = request_id r, to_new_token_ids = new, to_status = ro_status q'\<rparr>]\<rparr>,
       freed r m (set_obj r (\<lambda>_. ?o) s))"
      unfolding taken_over_def prod.case using rest st fm by (intro exI [of _ new] exI [of _ rest] exI [of _ True]) (simp add: Let_def)
    then show ?thesis using eq [OF fin] True i(1) ts_def by auto
  next
    case False
    have q': "new = ts" "q' = with_tokens ts ?q" "ts \<noteq> [] \<Longrightarrow> ro_num_tokens q' < sc_max_model_len (cfg s)"
      using u(3) unfolding if_not_P [OF False] by blast+
    have "ro_num_tokens ?o < sc_max_model_len (cfg ?s)" using q'(2,3) fits(2) q(1) by (cases "ts = []") simp_all
    moreover have "runs_ok (set_obj r (\<lambda>_. ?o) ?s) 0 r"
    proof -
      obtain b where b: "num_cached_block (kv s) (request_id r) = Some b" "b * cache_block_size (kv s) \<le> ro_num_computed_tokens (obj s r)"
        "ro_num_computed_tokens (obj s r) \<le> length (get_block_ids (request_id r) (kv s)) * cache_block_size (kv s)"
        using runs by (auto simp: runs_ok_def)
      have "b * cache_block_size (kv s) \<le> ro_num_tokens (obj s r)" using cached_within [OF ok f, of r b] b(1) r by simp
      then have "b * cache_block_size (kv s) \<le> c" using c(3) b(2) by (cases ts) simp_all
      then show ?thesis using b(1,3) c(2) q(2) q'(2) by (simp add: runs_ok_def)
    qed
    ultimately have tok: "token_ok f seed (\<lambda>_. 0) (set_obj r (\<lambda>_. ?o) ?s) [] W"
      using q(2) q'(2) r by (intro token_ok_obj [OF ok]) simp_all
    have "keeps_up (obj s r) ?o" using c(3) q'(2) q(1) by (cases ts) (simp_all add: keeps_up_def)
    then have "taken_over f seed R W r ts (acc, s)
       (if new = [] then acc else acc\<lparr>sr_outputs := sr_outputs acc @ [\<lparr>to_request_id = request_id r, to_new_token_ids = new, to_status = ro_status q'\<rparr>]\<rparr>,
        set_obj r (\<lambda>_. ?o) s)"
      unfolding taken_over_def prod.case using q'(1,2) tok by (intro exI [of _ new] exI [of _ "[]"] exI [of _ False]) (simp add: Let_def set_obj_queues)
    then show ?thesis using eq [OF fin] False i(1) ts_def by auto
  qed
qed

text \<open>The state in the middle of the update, after the requests \<open>ps\<close>.\<close>

definition grew :: "token_scheduler \<Rightarrow> token_scheduler \<Rightarrow> request \<Rightarrow> bool" where
  "grew s t r \<longleftrightarrow> ro_num_tokens (obj s r) < ro_num_tokens (obj t r)"

definition report :: "token_scheduler \<Rightarrow> token_scheduler \<Rightarrow> request \<Rightarrow> token_output" where
  "report s t r = \<lparr>to_request_id = request_id r, to_new_token_ids = drop (ro_num_tokens (obj s r)) (all_token_ids (ro_input (obj t r))),
     to_status = ro_status (obj t r)\<rparr>"

definition live_of :: "token_scheduler \<Rightarrow> (string \<times> nat) list \<Rightarrow> request list" where
  "live_of s ps = List.map_filter (\<lambda>p. requests s (fst p)) ps"

definition answer :: "runner_output \<Rightarrow> request \<Rightarrow> int list" where
  "answer out r = generated out (the (map_of (req_id_to_index out) (request_id r)))"

definition took :: "runner_output \<Rightarrow> token_scheduler \<Rightarrow> request list \<Rightarrow> token_scheduler \<Rightarrow> request \<Rightarrow> bool" where
  "took out s D t r \<longleftrightarrow> (\<exists>new rest. answer out r = new @ rest \<and> (if r \<in> set D then new \<noteq> [] else rest = []) \<and>
     ro_input (obj t r) = (ro_input (obj s r))\<lparr>all_token_ids := all_token_ids (ro_input (obj s r)) @ new\<rparr>) \<and>
     (if r \<in> set D then is_finished (ro_status (obj t r)) else keeps_up (obj s r) (obj t r))"

definition still :: "request list \<Rightarrow> token_scheduler \<Rightarrow> request list" where
  "still D s = filter (\<lambda>x. x \<notin> set D) (running s)"

definition mid_update :: "hash_fn \<Rightarrow> int \<Rightarrow> runner_output \<Rightarrow> token_scheduler \<Rightarrow> request list \<Rightarrow> (string \<times> nat) list \<Rightarrow> step_result \<times> token_scheduler \<Rightarrow> bool" where
  "mid_update f seed out s w ps = (\<lambda>(acc, t). running t = running s \<and> waiting t = waiting s \<and> cfg t = cfg s \<and> stopped_preempted_reqs acc = [] \<and> same_frame (kv s) (kv t) \<and>
     token_ok f seed (\<lambda>_. 0) (t\<lparr>running := still (stopped_running_reqs acc) s, waiting := FCFSRequestQueue w\<rparr>) [] w \<and>
     (\<forall>rid. rid \<notin> fst ` set ps \<longrightarrow> requests t rid = requests s rid) \<and>
     (\<forall>r. request_id r \<notin> fst ` set ps \<longrightarrow> obj t r = obj s r) \<and>
     set (stopped_running_reqs acc) \<subseteq> set (live_of s ps) \<and> (\<forall>r \<in> set (live_of s ps). took out s (stopped_running_reqs acc) t r) \<and>
     sr_outputs acc = map (report s t) (filter (grew s t) (live_of s ps)))"

lemma mid_updateD:
  assumes "mid_update f seed out s w ps (acc, t)"
  shows "running t = running s" "waiting t = waiting s" "cfg t = cfg s" "stopped_preempted_reqs acc = []"
    "token_ok f seed (\<lambda>_. 0) (t\<lparr>running := still (stopped_running_reqs acc) s, waiting := FCFSRequestQueue w\<rparr>) [] w"
    "\<And>rid. rid \<notin> fst ` set ps \<Longrightarrow> requests t rid = requests s rid" "\<And>r. request_id r \<notin> fst ` set ps \<Longrightarrow> obj t r = obj s r"
    "set (stopped_running_reqs acc) \<subseteq> set (live_of s ps)" "\<And>r. r \<in> set (live_of s ps) \<Longrightarrow> took out s (stopped_running_reqs acc) t r"
    "sr_outputs acc = map (report s t) (filter (grew s t) (live_of s ps))" "same_frame (kv s) (kv t)"
  using assms unfolding mid_update_def prod.case by blast+

lemma live_of_snoc: "live_of s (ps @ [(rid, n)]) = live_of s ps @ (case requests s rid of None \<Rightarrow> [] | Some r \<Rightarrow> [r])"
  by (simp add: live_of_def List.map_filter_def split: option.splits)

lemma live_of_ids:
  assumes "queues_ok s [] w" "r \<in> set (live_of s ps)"
  shows "request_id r \<in> fst ` set ps"
proof -
  obtain p where p: "p \<in> set ps" "requests s (fst p) = Some r" using assms(2) by (force simp: live_of_def List.map_filter_def)
  then have "request_id r = fst p" using queues_okD(4) [OF assms(1), of "fst p" r] by simp
  then show ?thesis using p(1) by simp
qed

lemma took_cong:
  assumes "obj t' r = obj t r" "r \<in> set D' \<longleftrightarrow> r \<in> set D"
  shows "took out s D' t' r = took out s D t r"
  unfolding took_def assms ..

lemma mid_update_taken:
  assumes q: "queues_ok s [] w" and mid: "mid_update f seed out s w ps (acc, t)" and r: "requests s rid = Some r" "request_id r = rid" "rid \<notin> fst ` set ps"
    and u: "taken_over f seed (still (stopped_running_reqs acc) s) w r (answer out r) (acc, t) (acc', t')"
  shows "mid_update f seed out s w (ps @ [(rid, n)]) (acc', t')"
proof -
  note m = mid_updateD [OF mid]
  let ?D = "stopped_running_reqs acc" and ?D' = "stopped_running_reqs acc'" and ?ps = "ps @ [(rid, n)]"
  obtain new rest stopped where v: "answer out r = new @ rest" "if stopped then new \<noteq> [] else rest = []"
    "ro_input (obj t' r) = (ro_input (obj t r))\<lparr>all_token_ids := all_token_ids (ro_input (obj t r)) @ new\<rparr>"
    "if stopped then is_finished (ro_status (obj t' r)) else keeps_up (obj t r) (obj t' r)"
    "sr_outputs acc' = sr_outputs acc @ (if new = [] then [] else [\<lparr>to_request_id = request_id r, to_new_token_ids = new, to_status = ro_status (obj t' r)\<rparr>])"
    "?D' = ?D @ (if stopped then [r] else [])" "stopped_preempted_reqs acc' = stopped_preempted_reqs acc"
    "\<forall>x. request_id x \<noteq> request_id r \<longrightarrow> obj t' x = obj t x" "cfg t' = cfg t" "running t' = running t" "waiting t' = waiting t"
    "requests t' = (if stopped then (requests t)(request_id r := None) else requests t)"
    "token_ok f seed (\<lambda>_. 0) (t'\<lparr>running := if stopped then without r (still ?D s) else still ?D s, waiting := FCFSRequestQueue w\<rparr>) [] w"
    "same_frame (kv t) (kv t')" using u unfolding taken_over_def prod.case Let_def by blast
  have live: "live_of s ?ps = live_of s ps @ [r]" by (simp add: live_of_snoc r(1))
  have ob: "obj t r = obj s r" using m(7) [of r] r(2,3) by simp
  have ne: "request_id x \<noteq> request_id r" if "x \<in> set (live_of s ps)" for x using live_of_ids [OF q that] r(2,3) by metis
  then have rD: "r \<notin> set ?D" using m(8) by blast
  have st: "still ?D' s = (if stopped then without r (still ?D s) else still ?D s)" using v(6) by (auto simp: still_def without_def intro: filter_cong)
  have tok: "took out s ?D' t' x" if "x \<in> set (live_of s ps)" for x
  proof -
    have "obj t' x = obj t x" using v(8) ne [OF that] by blast
    moreover have "x \<in> set ?D' \<longleftrightarrow> x \<in> set ?D" using v(6) ne [OF that] by auto
    ultimately show ?thesis using took_cong m(9) [OF that] by blast
  qed
  have "r \<in> set ?D' \<longleftrightarrow> stopped" using v(6) rD by simp
  then have "took out s ?D' t' r" unfolding took_def using v(1-4) ob by auto
  then have "\<forall>x \<in> set (live_of s ?ps). took out s ?D' t' x" using tok by (simp add: live)
  moreover have "sr_outputs acc' = map (report s t') (filter (grew s t') (live_of s ?ps))"
  proof -
    have e: "obj t' x = obj t x" if "x \<in> set (live_of s ps)" for x using v(8) ne [OF that] by blast
    have "filter (grew s t') (live_of s ps) = filter (grew s t) (live_of s ps)" by (rule filter_cong [OF refl]) (simp add: grew_def e)
    then have "map (report s t') (filter (grew s t') (live_of s ps)) = map (report s t) (filter (grew s t) (live_of s ps))"
      by (simp add: report_def e)
    moreover have "grew s t' r \<longleftrightarrow> new \<noteq> []" "report s t' r = \<lparr>to_request_id = request_id r, to_new_token_ids = new, to_status = ro_status (obj t' r)\<rparr>"
      using v(3) ob by (simp_all add: grew_def report_def ro_num_tokens_def)
    ultimately show ?thesis using v(5) m(10) by (simp add: live)
  qed
  moreover have "set ?D' \<subseteq> set (live_of s ?ps)" using m(8) v(6) by (auto simp: live)
  moreover have "requests t' x = requests s x" if "x \<notin> fst ` set ?ps" for x using that m(6) [of x] v(12) r(2) by auto
  moreover have "obj t' x = obj s x" if "request_id x \<notin> fst ` set ?ps" for x using that m(7) [of x] v(8) r(2) by auto
  ultimately show ?thesis unfolding mid_update_def prod.case using m(1-4) v(7,9-11) v(13) [folded st] same_frame_trans [OF m(11) v(14)] by simp
qed

lemma mid_update_step:
  assumes fl: "flight_ok f seed so s w" and f: "collision_free f seed" and mid: "mid_update f seed out s w ps (acc, t)"
    and x: "out_num_scheduled_tokens so = ps @ (rid, n) # qs"
    and a: "\<And>r. r \<in> set (running s) \<Longrightarrow> request_id r \<in> fst ` set (out_num_scheduled_tokens so) \<Longrightarrow> answer_ok (out_spec_decode_tokens so) out (request_id r) (obj s r)"
  shows "\<exists>res. update_one (out_spec_decode_tokens so) out (rid, n) (acc, t) = Inr res \<and> mid_update f seed out s w (ps @ [(rid, n)]) res"
proof -
  note m = mid_updateD [OF mid]
  let ?D = "stopped_running_reqs acc"
  have fl': "token_ok f seed (\<lambda>_. 0) s [] w" "distinct (map fst (out_num_scheduled_tokens so))" "0 \<notin> snd ` set (out_num_scheduled_tokens so)"
    using fl by (simp_all add: flight_ok_def between_def)
  have fresh: "rid \<notin> fst ` set ps" "0 < n" using fl'(2,3) by (auto simp: x)
  note q = token_okD(2) [OF fl'(1)]
  show ?thesis
  proof (cases "requests s rid")
    case None
    then have "update_one (out_spec_decode_tokens so) out (rid, n) (acc, t) = Inr (acc, t)" using m(6) [OF fresh(1)] fresh(2) by (simp add: update_one_def)
    moreover have "mid_update f seed out s w (ps @ [(rid, n)]) (acc, t)"
      unfolding mid_update_def prod.case live_of_snoc None using m by simp
    ultimately show ?thesis by blast
  next
    case (Some r)
    have r: "request_id r = rid" "r \<in> set (running s @ w)" using queues_okD(4) [OF q, of rid r] Some by simp_all
    have sch: "request_id r \<in> fst ` set (out_num_scheduled_tokens so)" by (simp add: x r(1))
    have "r \<notin> set w" using fl sch by (auto simp: flight_ok_def)
    then have run: "r \<in> set (running s)" using r(2) by simp
    have "requests t rid = Some r" using m(6) [OF fresh(1)] Some by simp
    then have R: "r \<in> set (still ?D s)" using queues_okD(4) [OF token_okD(2) [OF m(5)], of rid r] \<open>r \<notin> set w\<close> by simp
    have ob: "obj t r = obj s r" using m(7) [of r] fresh(1) r(1) by simp
    have pl: "plan_ok (out_spec_decode_tokens so) (ro_num_computed_tokens (obj t r)) (request_id r) (obj t r)" using fl run sch by (simp add: flight_ok_def ob)
    have an: "answer_ok (out_spec_decode_tokens so) out (request_id r) (obj t r)" using a [OF run sch] by (simp add: ob)
    obtain acc' t' where u: "update_one (out_spec_decode_tokens so) out (rid, n) (acc, t) = Inr (acc', t')"
      "taken_over f seed (still ?D s) w r (answer out r) (acc, t) (acc', t')"
      using update_one_ok [OF m(5) f R fresh(2) pl an, of acc] r(1) unfolding answer_def by auto
    show ?thesis using u(1) mid_update_taken [OF q mid Some r(1) fresh(1) u(2)] by blast
  qed
qed

text \<open>The whole update: nothing raises, the requests that stay have tokens left to compute, each scheduled request got a prefix of its
  generated tokens, all of them unless it stopped, and the outputs report exactly these tokens.\<close>

definition updated :: "runner_output \<Rightarrow> sched_output \<Rightarrow> token_scheduler \<Rightarrow> token_output list \<Rightarrow> token_scheduler \<Rightarrow> bool" where
  "updated out so s outs s' \<longleftrightarrow> cfg s' = cfg s \<and> waiting s' = waiting s \<and>
     (let L = live_of s (out_num_scheduled_tokens so)
      in (\<exists>D. set D \<subseteq> set L \<and> running s' = still D s \<and> (\<forall>r \<in> set L. took out s D s' r)) \<and> outs = map (report s s') (filter (grew s s') L))"

lemma update_from_output_ok:
  assumes fl: "flight_ok f seed so s w" and f: "collision_free f seed"
    and a: "\<And>r. r \<in> set (running s) \<Longrightarrow> request_id r \<in> fst ` set (out_num_scheduled_tokens so) \<Longrightarrow> answer_ok (out_spec_decode_tokens so) out (request_id r) (obj s r)"
  shows "\<exists>outs s'. update_from_output so out s = Inr (outs, s') \<and> ready_ok f seed s' w \<and> updated out so s outs s' \<and> same_frame (kv s) (kv s')"
proof -
  let ?xs = "out_num_scheduled_tokens so"
  let ?a0 = "\<lparr>sr_outputs = [], stopped_running_reqs = [], stopped_preempted_reqs = []\<rparr>"
  have fl': "token_ok f seed (\<lambda>_. 0) s [] w" "length (running s) \<le> max_num_running_reqs (cfg s)" "loras_ok s (lora_ids s (running s))"
    using fl by (simp_all add: flight_ok_def between_def)
  note q = token_okD(2) [OF fl'(1)]
  have w: "waiting s = FCFSRequestQueue w" using queues_okD(2) [OF q] .
  have "s\<lparr>running := still [] s, waiting := FCFSRequestQueue w\<rparr> = s" using w by (simp add: still_def)
  then have "mid_update f seed out s w [] (?a0, s)" using fl'(1) by (simp add: mid_update_def live_of_def List.map_filter_def)
  then have "\<exists>res. foldM (update_one (out_spec_decode_tokens so) out) ?xs (?a0, s) = Inr res \<and> mid_update f seed out s w ?xs res"
  proof (rule foldM_total_invariant)
    fix ps x qs res
    assume "?xs = ps @ x # qs" "mid_update f seed out s w ps res"
    then show "\<exists>res'. update_one (out_spec_decode_tokens so) out x res = Inr res' \<and> mid_update f seed out s w (ps @ [x]) res'"
      using mid_update_step [OF fl f _ _ a] by (cases x, cases res) blast
  qed
  then obtain acc t where r: "foldM (update_one (out_spec_decode_tokens so) out) ?xs (?a0, s) = Inr (acc, t)" "mid_update f seed out s w ?xs (acc, t)" by auto
  note m = mid_updateD [OF r(2)]
  let ?D = "stopped_running_reqs acc"
  let ?t = "t\<lparr>running := still ?D s\<rparr>"
  have t: "t\<lparr>running := filter (\<lambda>r. r \<notin> set ?D) (running t)\<rparr> = ?t" "?t\<lparr>waiting := waiting ?t\<rparr> = ?t" using m(1) by (simp_all add: still_def)
  have eq: "update_from_output so out s = Inr (sr_outputs acc, ?t)"
    unfolding update_from_output_def r(1) bind_res_Inr prod.case Let_def t(1) using m(4) t(2) by simp
  have tok: "token_ok f seed (\<lambda>_. 0) ?t [] w" using m(2,5) w by (simp add: token_ok_def queues_ok_def request_fits_def waits_ok_def runs_ok_def)
  have R: "x \<in> set (running s)" if "x \<in> set (still ?D s)" for x using that by (simp add: still_def)
  have bh: "(lora_int_id (ro_input (obj t x)) = lora_int_id (ro_input (obj s x))) \<and> ro_num_computed_tokens (obj t x) < ro_num_tokens (obj t x)"
    if x: "x \<in> set (still ?D s)" for x
  proof (cases "request_id x \<in> fst ` set ?xs")
    case True
    then have "x \<in> set (live_of s ?xs)"
      using queues_okD(4) [OF q, of "request_id x" x] R [OF x] by (force simp: live_of_def List.map_filter_def)
    then have "took out s ?D t x" by (rule m(9))
    moreover have "x \<notin> set ?D" using x by (simp add: still_def)
    ultimately show ?thesis by (auto simp: took_def keeps_up_def)
  next
    case False
    then show ?thesis using m(7) [OF False] fl R [OF x] by (simp add: flight_ok_def)
  qed
  then have "behind ?t" by (simp add: behind_def)
  moreover have "loras_ok ?t (lora_ids ?t (running ?t))"
  proof -
    have "lora_ids ?t (running ?t) \<subseteq> lora_ids s (running s)" using bh R by (fastforce simp: lora_ids_iff)
    then have "loras_ok ?t (lora_ids s (running s))" using fl'(3) m(3) by (auto simp: loras_ok_def)
    then show ?thesis by (rule loras_ok_own)
  qed
  moreover have "length (running ?t) \<le> max_num_running_reqs (cfg ?t)"
    using fl'(2) m(3) order_trans [OF length_filter_le] by (simp add: still_def)
  ultimately have "ready_ok f seed ?t w" using tok by (simp add: ready_ok_def between_def)
  moreover have "updated out so s (sr_outputs acc) ?t"
  proof -
    have c: "took out s ?D ?t x = took out s ?D t x" for x by (rule took_cong) simp_all
    have "report s ?t = report s t" "grew s ?t = grew s t" by (simp_all add: fun_eq_iff report_def grew_def)
    then show ?thesis unfolding updated_def Let_def using m(2,3,8-10) by (intro conjI exI [of _ ?D]) (simp_all add: c)
  qed
  moreover have "same_frame (kv s) (kv ?t)" using m(11) by simp
  ultimately show ?thesis using eq by blast
qed

section \<open>Finish signals\<close>

definition unlisted :: "request list \<Rightarrow> request list \<Rightarrow> request list" where
  "unlisted V rs = filter (\<lambda>x. x \<notin> set V) rs"

lemma map_filter_iff: "y \<in> set (List.map_filter h xs) \<longleftrightarrow> (\<exists>x \<in> set xs. h x = Some y)"
  by (force simp: List.map_filter_def)

lemma distinct_map_filter_key:
  assumes "\<And>x y. h x = Some y \<Longrightarrow> g y = x" "distinct xs"
  shows "distinct (List.map_filter h xs)"
  using assms(2)
proof (induction xs)
  case (Cons x xs)
  have "y \<notin> set (List.map_filter h xs)" if "h x = Some y" for y
    using assms(1) [OF that] assms(1) Cons.prems by (auto simp: map_filter_iff)
  then show ?case using Cons by (simp add: List.map_filter_def split: option.splits)
qed (simp add: List.map_filter_def)

lemma unlisted_snoc: "unlisted (V @ [r]) rs = without r (unlisted V rs)"
  by (auto simp: unlisted_def without_def intro: filter_cong)

lemma remove_fold:
  assumes "distinct V" "set V \<subseteq> set rs" "distinct rs"
  shows "foldM (\<lambda>r rs. if r \<in> set rs then Inr (remove1 r rs) else Inl ValueError) V rs = Inr (unlisted V rs)"
  using assms
proof (induction V arbitrary: rs)
  case Nil
  then show ?case by (simp add: unlisted_def)
next
  case (Cons v V)
  then have "unlisted V (remove1 v rs) = unlisted (v # V) rs" by (auto simp: unlisted_def distinct_remove1_removeAll removeAll_filter_not_eq intro!: filter_cong)
  moreover have "set V \<subseteq> set (remove1 v rs)" using Cons.prems by (auto simp: set_remove1_eq)
  ultimately show ?case using Cons.IH [of "remove1 v rs"] Cons.prems by simp
qed

lemma free_fold:
  assumes ok: "token_ok f seed (\<lambda>_. 0) s [] w" and f: "collision_free f seed" and V: "distinct V" "set V \<subseteq> set (running s @ w)" and st: "is_finished st"
  shows "\<exists>s'. foldM (\<lambda>r s. token_free_request r (set_obj r (ro_status_update (\<lambda>_. st)) s)) V (s\<lparr>running := rs, waiting := q\<rparr>) = Inr s' \<and>
    token_ok f seed (\<lambda>_. 0) (s'\<lparr>running := unlisted V (running s), waiting := FCFSRequestQueue (unlisted V w)\<rparr>) [] (unlisted V w) \<and>
    running s' = rs \<and> waiting s' = q \<and> cfg s' = cfg s \<and> (\<forall>x. request_id x \<notin> request_id ` set V \<longrightarrow> obj s' x = obj s x)"
    (is "\<exists>s'. foldM ?F V ?s = Inr s' \<and> _")
proof -
  let ?P = "\<lambda>ps t. token_ok f seed (\<lambda>_. 0) (t\<lparr>running := unlisted ps (running s), waiting := FCFSRequestQueue (unlisted ps w)\<rparr>) [] (unlisted ps w) \<and>
    running t = rs \<and> waiting t = q \<and> cfg t = cfg s \<and> (\<forall>x. request_id x \<notin> request_id ` set ps \<longrightarrow> obj t x = obj s x)"
  have w: "waiting s = FCFSRequestQueue w" using queues_okD(2) [OF token_okD(2) [OF ok]] .
  have "s\<lparr>running := running s, waiting := FCFSRequestQueue w\<rparr> = s" using w by simp
  then have "?P [] ?s" using ok by (simp add: unlisted_def)
  then show ?thesis
  proof (rule foldM_total_invariant)
    fix ps r qs t
    assume e: "V = ps @ r # qs" and P: "?P ps t"
    have r: "r \<in> set (unlisted ps (running s) @ unlisted ps w)" using V by (auto simp: e unlisted_def)
    obtain m where "\<forall>g. is_finished (ro_status (g (obj t r))) \<longrightarrow> token_free_request r (set_obj r g t) = Inr (freed r m (set_obj r g t)) \<and>
        token_ok f seed (\<lambda>_. 0) ((freed r m (set_obj r g t))\<lparr>running := without r (unlisted ps (running s)),
          waiting := FCFSRequestQueue (without r (unlisted ps w))\<rparr>) [] (without r (unlisted ps w))"
      using token_free_ok [OF conjunct1 [OF P] f r] by blast
    from this [rule_format, of "ro_status_update (\<lambda>_. st)"] st have
      "token_free_request r (set_obj r (ro_status_update (\<lambda>_. st)) t) = Inr (freed r m (set_obj r (ro_status_update (\<lambda>_. st)) t))"
      "token_ok f seed (\<lambda>_. 0) ((freed r m (set_obj r (ro_status_update (\<lambda>_. st)) t))\<lparr>running := unlisted (ps @ [r]) (running s),
          waiting := FCFSRequestQueue (unlisted (ps @ [r]) w)\<rparr>) [] (unlisted (ps @ [r]) w)" by (simp_all add: unlisted_snoc)
    then show "\<exists>t'. ?F r t = Inr t' \<and> ?P (ps @ [r]) t'" using P by auto
  qed
qed

lemma finish_requests_ok:
  assumes bt: "between f seed s w" and f: "collision_free f seed" and st: "is_finished st"
  shows "\<exists>s' V. finish_requests ids st s = Inr s' \<and> between f seed s' (unlisted V w) \<and> running s' = unlisted V (running s) \<and> cfg s' = cfg s \<and>
    (\<forall>x \<in> set (running s @ w). x \<in> set V \<longleftrightarrow> request_id x \<in> set ids) \<and> (\<forall>x \<in> set (running s'). obj s' x = obj s x)"
proof -
  define V where "V = List.map_filter (requests s) (remdups ids)"
  have b: "token_ok f seed (\<lambda>_. 0) s [] w" "length (running s) \<le> max_num_running_reqs (cfg s)" "loras_ok s (lora_ids s (running s))"
    using bt by (simp_all add: between_def)
  note t = token_okD [OF b(1)] and q = queues_okD [OF token_okD(2) [OF b(1)]]
  have V: "x \<in> set V \<longleftrightarrow> x \<in> set (running s @ w) \<and> request_id x \<in> set ids" for x
    unfolding V_def map_filter_iff using q(4) [of _ x] by auto
  have dV: "distinct V" unfolding V_def
  proof (rule distinct_map_filter_key)
    show "request_id x = rid" if "requests s rid = Some x" for rid x using q(4) [of rid x] that by simp
  qed simp
  let ?run = "filter (\<lambda>r. ro_status (obj s r) = RUNNING) V" and ?wait = "filter (\<lambda>r. ro_status (obj s r) \<noteq> RUNNING) V"
  have run: "x \<in> set ?run \<longleftrightarrow> x \<in> set (running s) \<and> x \<in> set V" and wait: "x \<in> set ?wait \<longleftrightarrow> x \<in> set w \<and> x \<in> set V" for x
    using V [of x] t(5) [of x] t(6) [of x] by (auto simp: waits_ok_def runs_ok_def)
  have e1: "unlisted ?run (running s) = unlisted V (running s)" and e2: "unlisted ?wait w = unlisted V w"
    unfolding unlisted_def using run wait by (auto intro!: filter_cong)
  have r1: "foldM (\<lambda>r rs. if r \<in> set rs then Inr (remove1 r rs) else Inl ValueError) ?run (running s) = Inr (unlisted V (running s))"
    using remove_fold [of ?run "running s"] dV run q(3) e1 by (simp add: distinct_map subset_iff)
  have r2: "(if ?wait = [] then Inr (waiting s) else queue_remove_all ?wait (waiting s)) = Inr (FCFSRequestQueue (unlisted V w))"
  proof (cases "?wait = []")
    case True
    have "unlisted [] w = w" by (simp add: unlisted_def)
    then show ?thesis using q(2) e2 [unfolded True] True by simp
  next
    case False
    then show ?thesis using q(2) e2 [unfolded unlisted_def] by (simp add: fcfs_remove_requests_def unlisted_def)
  qed
  obtain s' where s': "foldM (\<lambda>r s. token_free_request r (set_obj r (ro_status_update (\<lambda>_. st)) s)) V
      (s\<lparr>running := unlisted V (running s), waiting := FCFSRequestQueue (unlisted V w)\<rparr>) = Inr s'"
    "token_ok f seed (\<lambda>_. 0) (s'\<lparr>running := unlisted V (running s), waiting := FCFSRequestQueue (unlisted V w)\<rparr>) [] (unlisted V w)"
    "running s' = unlisted V (running s)" "waiting s' = FCFSRequestQueue (unlisted V w)" "cfg s' = cfg s"
    "\<forall>x. request_id x \<notin> request_id ` set V \<longrightarrow> obj s' x = obj s x"
    using free_fold [OF b(1) f dV _ st, where rs = "unlisted V (running s)" and q = "FCFSRequestQueue (unlisted V w)"] V by auto
  have eq: "finish_requests ids st s = Inr s'"
    unfolding finish_requests_def Let_def V_def [symmetric] r1 r2 bind_res_Inr s'(1) using st by simp
  have sh: "s'\<lparr>running := unlisted V (running s), waiting := FCFSRequestQueue (unlisted V w)\<rparr> = s'" using s'(3,4) by simp
  have ob: "obj s' x = obj s x" if "x \<in> set (running s')" for x
  proof -
    have x: "x \<in> set (running s)" "x \<notin> set V" using that s'(3) by (simp_all add: unlisted_def)
    have "request_id x \<notin> request_id ` set V" using x V same_id [OF t(2), of x] by fastforce
    then show ?thesis using s'(6) by blast
  qed
  have "loras_ok s' (lora_ids s (running s))" by (rule loras_ok_fewer [OF b(3) s'(5)]) (use ob s'(3) in \<open>auto simp: unlisted_def\<close>)
  then have "loras_ok s' (lora_ids s' (running s'))" by (rule loras_ok_own)
  moreover have "length (running s') \<le> max_num_running_reqs (cfg s')" unfolding s'(3,5) unlisted_def by (rule order_trans [OF length_filter_le b(2)])
  ultimately have "between f seed s' (unlisted V w)" unfolding between_def using s'(2) [unfolded sh] by blast
  then show ?thesis using eq s'(3,5) V ob by blast
qed

end
