(* ===== verification/Token_Serving.thy ===== *)
theory Token_Serving
  imports Token_Updates
begin

text \<open>
  The autoregressive scheduler over time, under the first-come-first-served policy: the states that arrivals, scheduling steps, outputs of
  the model runner, aborts and cache resets lead to, and what holds in all of them.
\<close>

section \<open>Reachable states\<close>

text \<open>Between two steps, or while the model runs on an output of the scheduler.\<close>

datatype phase = Ready | Flight sched_output

fun in_flight :: "phase \<Rightarrow> string set" where
  "in_flight Ready = {}"
| "in_flight (Flight so) = fst ` set (out_num_scheduled_tokens so)"

text \<open>A request as the engine accepts it: its prompt is not empty, is shorter than the model allows, and is not used with adapters where
  cache events are on (which would raise in the block pool).\<close>

definition acceptable :: "token_scheduler \<Rightarrow> req_object \<Rightarrow> bool" where
  "acceptable s q \<longleftrightarrow> ro_status q \<in> {WAITING, WAITING_FOR_FSM} \<and> ro_num_computed_tokens q = 0 \<and> 0 < ro_num_prompt_tokens q \<and>
     ro_num_prompt_tokens q = ro_num_tokens q \<and> ro_num_tokens q < sc_max_model_len (cfg s) \<and> inputs_ok (ro_input q) \<and>
     (enable_kv_cache_events (pool (kv s)) \<longrightarrow> lora_int_id (ro_input q) = None)"

text \<open>The contract of the model runner.\<close>

definition runner_ok :: "sched_output \<Rightarrow> token_scheduler \<Rightarrow> runner_output \<Rightarrow> bool" where
  "runner_ok so s out \<longleftrightarrow> (\<forall>r \<in> set (running s). request_id r \<in> fst ` set (out_num_scheduled_tokens so) \<longrightarrow>
     answer_ok (out_spec_decode_tokens so) out (request_id r) (obj s r))"

inductive token_served :: "hash_fn \<Rightarrow> int \<Rightarrow> phase \<Rightarrow> token_scheduler \<Rightarrow> bool" for f seed where
  start: "KVCacheManager n bs (sc_max_model_len c) enable_cache eagle log_stats events = Inr m \<Longrightarrow> 0 < bs \<Longrightarrow> sc_policy c = FCFS \<Longrightarrow>
    token_served f seed Ready (TokenScheduler c m os)"
| arrive: "token_served f seed ph s \<Longrightarrow> requests s (request_id r) = None \<Longrightarrow> request_id r \<notin> in_flight ph \<Longrightarrow> acceptable s q \<Longrightarrow>
    token_add_request r q s = Inr s' \<Longrightarrow> token_served f seed ph s'"
| schedule: "token_served f seed Ready s \<Longrightarrow> token_schedule f seed grammar_ready s = Inr (so, s') \<Longrightarrow> token_served f seed (Flight so) s'"
| update: "token_served f seed (Flight so) s \<Longrightarrow> runner_ok so s out \<Longrightarrow> update_from_output so out s = Inr (outs, s') \<Longrightarrow> token_served f seed Ready s'"
| finish: "token_served f seed ph s \<Longrightarrow> is_finished st \<Longrightarrow> finish_requests ids st s = Inr s' \<Longrightarrow> token_served f seed ph s'"
| reset: "token_served f seed ph s \<Longrightarrow> token_served f seed ph (snd (token_reset_prefix_cache s))"

fun phase_ok :: "hash_fn \<Rightarrow> int \<Rightarrow> phase \<Rightarrow> token_scheduler \<Rightarrow> request list \<Rightarrow> bool" where
  "phase_ok f seed Ready s w = ready_ok f seed s w"
| "phase_ok f seed (Flight so) s w = flight_ok f seed so s w"

lemma phase_okD: "phase_ok f seed ph s w \<Longrightarrow> between f seed s w"
  by (cases ph) (simp_all add: ready_ok_def flight_ok_def)

text \<open>Steps that do not touch the counts of the running requests keep the phase.\<close>

lemma phase_ok_kept:
  assumes ph: "phase_ok f seed ph s w" and b: "between f seed s' w'"
    and R: "\<And>x. x \<in> set (running s') \<Longrightarrow> x \<in> set (running s) \<and> ro_num_computed_tokens (obj s' x) = ro_num_computed_tokens (obj s x) \<and>
      ro_num_tokens (obj s' x) = ro_num_tokens (obj s x)"
    and W: "\<And>x. x \<in> set w' \<Longrightarrow> x \<in> set w \<or> request_id x \<notin> in_flight ph"
  shows "phase_ok f seed ph s' w'"
proof (cases ph)
  case Ready
  then show ?thesis using ph b R by (simp add: ready_ok_def behind_def)
next
  case (Flight so)
  have "plan_ok spec n rid (obj s' x) = plan_ok spec n rid (obj s x)" if "x \<in> set (running s')" for spec n rid x
    using R [OF that] by (intro plan_ok_cong) simp_all
  moreover have "request_id x \<notin> fst ` set (out_num_scheduled_tokens so)" if "x \<in> set w'" for x
    using W [OF that] ph unfolding Flight in_flight.simps phase_ok.simps flight_ok_def by blast
  ultimately show ?thesis using ph b R unfolding Flight by (simp add: flight_ok_def)
qed

lemma started_ok:
  assumes m: "KVCacheManager n bs (sc_max_model_len c) enable_cache eagle log_stats events = Inr m" "0 < bs" and c: "sc_policy c = FCFS"
  shows "ready_ok f seed (TokenScheduler c m os) []"
proof -
  let ?s = "TokenScheduler c m os"
  have l: "cache_max_model_len m = sc_max_model_len c" using m(1) by (auto simp: KVCacheManager_def bind_res_eq_Inr)
  have "live_inputs ?s = Map.empty" by (simp add: live_inputs_def TokenScheduler_def fun_eq_iff)
  then have "token_ok f seed (\<lambda>_. 0) ?s [] []"
    using kv_served.start [OF m] c l by (simp add: token_ok_def queues_ok_def TokenScheduler_def)
  then show ?thesis by (simp add: ready_ok_def between_def behind_def loras_ok_def lora_ids_iff TokenScheduler_def)
qed

lemma arrival_ok:
  assumes b: "between f seed s w" and f: "collision_free f seed" and r: "requests s (request_id r) = None" and q: "acceptable s q"
    and a: "token_add_request r q s = Inr s'"
  shows "between f seed s' (w @ [r])" "running s' = running s" "\<And>x. x \<in> set (running s @ w) \<Longrightarrow> obj s' x = obj s x"
    "kv s' = kv s" "cfg s' = cfg s" "requests s' = (requests s)(request_id r \<mapsto> r)"
proof -
  have ok: "token_ok f seed (\<lambda>_. 0) s [] w" using b by (simp add: between_def)
  note t = token_okD [OF ok] and qs = queues_okD [OF token_okD(2) [OF ok]]
  have s': "s' = s\<lparr>waiting := FCFSRequestQueue (w @ [r]), requests := (requests s)(request_id r \<mapsto> r), objects := (objects s)(request_id r := q)\<rparr>"
    using a qs(2) by (simp add: token_add_request_def fcfs_add_request_def)
  have ids: "request_id r \<notin> request_id ` set (running s @ w)"
  proof
    assume "request_id r \<in> request_id ` set (running s @ w)"
    then obtain x where x: "x \<in> set (running s @ w)" "request_id x = request_id r" by (metis imageE)
    then show False using qs(4) [of "request_id r" x] r by simp
  qed
  have ob: "obj s' x = obj s x" if "x \<in> set (running s @ w)" for x using fresh_id [OF ids that] by (simp add: s' obj_def)
  have obr: "obj s' r = q" by (simp add: s' obj_def)
  have fl: "kv s' = kv s" "cfg s' = cfg s" "running s' = running s" by (simp_all add: s')
  obtain xs where m: "manager_ok f seed (kv s) (live_inputs s) xs" using kv_served_ok [OF t(1) f] by blast
  have none: "live_inputs s (request_id r) = None" using r by (simp add: live_inputs_def)
  have "num_cached_block (kv s) (request_id r) = None" using manager_okD(7) [OF m, of "request_id r"] none by (simp add: input_hashed_def)
  then have wr: "waits_ok s' r" using q by (auto simp: waits_ok_def obr fl acceptable_def)
  have "live_inputs s' = (live_inputs s)(request_id r \<mapsto> ro_input q)" by (simp add: fun_eq_iff live_inputs_def s' split: option.splits)
  then have kvs: "kv_served f seed (kv s') (live_inputs s')" using kv_served.arrive [OF t(1) none, of "ro_input q"] q by (simp add: fl acceptable_def)
  have "token_ok f seed (\<lambda>_. 0) s' [] (w @ [r])"
  proof (rule token_okI)
    have "distinct (map request_id (running s @ w @ [r]))" using qs(3) ids by auto
    moreover have "requests s' rid = Some x \<longleftrightarrow> x \<in> set (running s @ w @ [r]) \<and> request_id x = rid" for rid x
    proof (cases "rid = request_id r")
      case True
      then show ?thesis using fresh_id [OF ids, of x] by (auto simp: s')
    next
      case False
      then show ?thesis using qs(4) [of rid x] by (auto simp: s')
    qed
    ultimately show "queues_ok s' [] (w @ [r])" using qs(1) by (simp add: queues_ok_def fl) (simp add: s')
    show "request_fits s' x" if "x \<in> set (running s' @ [] @ w @ [r])" for x
      using that t(4) [of x] ob [of x] q by (cases "x = r") (auto simp: request_fits_def fl obr acceptable_def)
    show "waits_ok s' x" if "x \<in> set ([] @ w @ [r])" for x
      using that t(5) [of x] ob [of x] wr by (cases "x = r") (auto simp: waits_ok_def fl)
    show "runs_ok s' 0 x" if "x \<in> set (running s')" for x
      using that t(6) [of x] ob [of x] by (simp add: runs_ok_def fl)
  qed (use kvs t(3) in \<open>simp_all add: fl\<close>)
  moreover have "loras_ok s' (lora_ids s' (running s'))"
    by (rule loras_ok_own, rule loras_ok_fewer [of s "lora_ids s (running s)"]) (use b ob in \<open>simp_all add: between_def fl\<close>)
  ultimately show "between f seed s' (w @ [r])" using b by (simp add: between_def fl)
  show "running s' = running s" by (rule fl)
  show "obj s' x = obj s x" if "x \<in> set (running s @ w)" for x by (rule ob [OF that])
  show "kv s' = kv s" "cfg s' = cfg s" by (rule fl)+
  show "requests s' = (requests s)(request_id r \<mapsto> r)" by (simp add: s')
qed

lemma reset_ok:
  assumes b: "between f seed s w" and f: "collision_free f seed"
  shows "between f seed (snd (token_reset_prefix_cache s)) w" "running (snd (token_reset_prefix_cache s)) = running s"
    "obj (snd (token_reset_prefix_cache s)) = obj s"
proof -
  let ?m = "snd (manager_reset_prefix_cache (kv s))"
  have s: "snd (token_reset_prefix_cache s) = s\<lparr>kv := ?m\<rparr>" by (simp add: token_reset_prefix_cache_def split: prod.splits)
  have ok: "token_ok f seed (\<lambda>_. 0) s [] w" using b by (simp add: between_def)
  obtain xs where "manager_ok f seed (kv s) (live_inputs s) xs" using kv_served_ok [OF token_okD(1) [OF ok] f] by blast
  then have p: "same_setup (pool (kv s)) (snd (reset_prefix_cache (pool (kv s))))" using reset_prefix_cache_ok(3) manager_okD(1) by blast
  obtain d p' where rp: "reset_prefix_cache (pool (kv s)) = (d, p')" by (cases "reset_prefix_cache (pool (kv s))")
  have fr: "same_frame (kv s) ?m" "num_cached_block ?m = num_cached_block (kv s)" "req_blocks ?m = req_blocks (kv s)"
    using p rp by (simp_all add: same_frame_def manager_reset_prefix_cache_def Let_def req_blocks_def fun_eq_iff)
  have "token_ok f seed (\<lambda>_. 0) (s\<lparr>kv := ?m\<rparr>) [] w"
    by (rule token_ok_same_kv [OF ok kv_served.reset [OF token_okD(1) [OF ok]] fr])
  then show "between f seed (snd (token_reset_prefix_cache s)) w"
    using b unfolding s by (simp add: between_def loras_ok_def lora_ids_iff)
  show "running (snd (token_reset_prefix_cache s)) = running s" "obj (snd (token_reset_prefix_cache s)) = obj s" by (simp_all add: s)
qed

lemma token_served_ok:
  assumes "token_served f seed ph s" and f: "collision_free f seed"
  shows "\<exists>w. phase_ok f seed ph s w"
  using assms(1)
proof induction
  case (start n bs c enable_cache eagle log_stats events m os)
  then show ?case using started_ok [of n bs c] by (intro exI [of _ "[]"]) simp
next
  case (arrive ph s r q s')
  then obtain w where w: "phase_ok f seed ph s w" by blast
  note a = arrival_ok [OF phase_okD [OF w] f arrive.hyps(2,4,5)]
  have "phase_ok f seed ph s' (w @ [r])" by (rule phase_ok_kept [OF w a(1)]) (use a(2,3) arrive.hyps(3) in auto)
  then show ?case by blast
next
  case (schedule s grammar_ready so s')
  then obtain w where "ready_ok f seed s w" by auto
  from token_schedule_ok [OF this f, of grammar_ready] show ?case using schedule.hyps(2) by auto
next
  case (update so s out outs s')
  then obtain w where "flight_ok f seed so s w" by auto
  from update_from_output_ok [OF this f, of out] show ?case using update.hyps(2,3) by (auto simp: runner_ok_def)
next
  case (finish ph s st ids s')
  then obtain w where w: "phase_ok f seed ph s w" by blast
  obtain V where V: "between f seed s' (unlisted V w)" "running s' = unlisted V (running s)" "\<forall>x \<in> set (running s'). obj s' x = obj s x"
    using finish_requests_ok [OF phase_okD [OF w] f finish.hyps(2), of ids] finish.hyps(3) by auto
  have "phase_ok f seed ph s' (unlisted V w)" by (rule phase_ok_kept [OF w V(1)]) (use V(2,3) in \<open>auto simp: unlisted_def\<close>)
  then show ?case by blast
next
  case (reset ph s)
  then obtain w where w: "phase_ok f seed ph s w" by blast
  have "phase_ok f seed ph (snd (token_reset_prefix_cache s)) w"
    by (rule phase_ok_kept [OF w reset_ok(1) [OF phase_okD [OF w] f]]) (use reset_ok(2,3) [OF phase_okD [OF w] f] in simp_all)
  then show ?case by blast
qed

section \<open>Examples\<close>

definition demo_object :: "int list \<Rightarrow> req_object" where
  "demo_object toks = \<lparr>ro_input = demo_kv_request toks None, ro_num_prompt_tokens = length toks, ro_num_computed_tokens = 0, ro_status = WAITING,
     ro_spec_token_ids = [], ro_num_cached_tokens = - 1, ro_max_tokens = 5, ro_eos_token_id = None, ro_ignore_eos = False, ro_stop_token_ids = [],
     ro_prompt_logprobs = False\<rparr>"

definition demo_queued :: "string \<Rightarrow> int \<Rightarrow> request" where
  "demo_queued rid p = \<lparr>request_id = rid, priority = p, arrival_time = 0\<rparr>"

definition demo_config :: "nat \<Rightarrow> scheduling_policy \<Rightarrow> nat \<Rightarrow> sched_config" where
  "demo_config tokens pol len = \<lparr>max_num_running_reqs = 4, max_num_scheduled_tokens = tokens, sc_max_model_len = len, long_prefill_token_threshold = 0,
     chunked_prefill_enabled = True, sc_policy = pol, sc_max_loras = None, num_lookahead_tokens = 0\<rparr>"

text \<open>A cache with blocks of two tokens, without prefix caching.\<close>

definition demo_start :: "nat \<Rightarrow> sched_config \<Rightarrow> token_scheduler result" where
  "demo_start n c = bind_res (KVCacheManager (int n) 2 (sc_max_model_len c) False False False False) (\<lambda>m. Inr (TokenScheduler c m (\<lambda>_. demo_object [])))"

definition demo_add :: "string \<Rightarrow> int \<Rightarrow> int list \<Rightarrow> token_scheduler result \<Rightarrow> token_scheduler result" where
  "demo_add rid p toks s0 = bind_res s0 (token_add_request (demo_queued rid p) (demo_object toks))"

text \<open>A runner that returns the token 5 for every request whose tokens are all computed.\<close>

definition demo_answers :: "sched_output \<Rightarrow> token_scheduler \<Rightarrow> runner_output" where
  "demo_answers so s =
     \<lparr>sampled_token_ids = map (\<lambda>(rid, _). if ro_num_computed_tokens (objects s rid) < ro_num_tokens (objects s rid) then [] else [5]) (out_num_scheduled_tokens so),
      runner_spec_token_ids = None,
      req_id_to_index = zip (map fst (out_num_scheduled_tokens so)) [0..<length (out_num_scheduled_tokens so)]\<rparr>"

definition demo_schedule :: "token_scheduler result \<Rightarrow> (sched_output \<times> token_scheduler) result" where
  "demo_schedule s0 = bind_res s0 (token_schedule demo_prefix_hash 1 (\<lambda>_. True))"

definition demo_step :: "token_scheduler result \<Rightarrow> token_scheduler result" where
  "demo_step s0 = bind_res (demo_schedule s0) (\<lambda>(so, s). bind_res (update_from_output so (demo_answers so s) s) (\<lambda>(outs, s'). Inr s'))"

definition demo_waiting :: "token_scheduler result" where
  "demo_waiting = demo_add ''b'' 0 [3, 4, 5] (demo_add ''a'' 1 [1, 2, 3] (demo_start 6 (demo_config 5 FCFS 20)))"

lemma demo_start_served:
  assumes "sc_policy c = FCFS" "0 < n"
  shows "\<exists>s. demo_start n c = Inr s \<and> token_served f seed Ready s \<and> cfg s = c \<and> requests s = Map.empty \<and> \<not> enable_kv_cache_events (pool (kv s))"
proof -
  obtain m where m: "KVCacheManager (int n) 2 (sc_max_model_len c) False False False False = Inr m" "\<not> enable_kv_cache_events (pool m)"
    using BlockPool_ok [OF assms(2), of False False] by (auto simp: KVCacheManager_def)
  then show ?thesis using token_served.start [OF m(1) _ assms(1)] by (simp add: demo_start_def TokenScheduler_def)
qed

lemma demo_add_served:
  assumes s: "s0 = Inr s" "token_served f seed ph s" and f: "collision_free f seed" and r: "requests s rid = None" "rid \<notin> in_flight ph"
    and q: "toks \<noteq> []" "length toks < sc_max_model_len (cfg s)" "\<not> enable_kv_cache_events (pool (kv s))"
  shows "\<exists>s'. demo_add rid p toks s0 = Inr s' \<and> token_served f seed ph s' \<and> cfg s' = cfg s \<and> requests s' = (requests s)(rid \<mapsto> demo_queued rid p) \<and>
    kv s' = kv s"
proof -
  obtain w where "phase_ok f seed ph s w" using token_served_ok [OF s(2) f] by blast
  then have "waiting s = FCFSRequestQueue w" using queues_okD(2) token_okD(2) phase_okD unfolding between_def by blast
  then obtain s' where a: "token_add_request (demo_queued rid p) (demo_object toks) s = Inr s'" "cfg s' = cfg s"
    "requests s' = (requests s)(rid \<mapsto> demo_queued rid p)" "kv s' = kv s" by (simp add: token_add_request_def demo_queued_def)
  have "acceptable s (demo_object toks)"
    using q by (simp add: acceptable_def demo_object_def ro_num_tokens_def demo_kv_request_def inputs_ok_def)
  then have "token_served f seed ph s'" using token_served.arrive [OF s(2) _ _ _ a(1)] r by (simp add: demo_queued_def)
  then show ?thesis using a s(1) by (simp add: demo_add_def)
qed

lemma demo_served:
  assumes "0 < n"
  shows "\<exists>s. demo_add ''b'' 0 [3, 4, 5] (demo_add ''a'' 1 [1, 2, 3] (demo_start n (demo_config 5 FCFS 20))) = Inr s \<and>
    token_served demo_prefix_hash 1 Ready s \<and> cfg s = demo_config 5 FCFS 20"
proof -
  note add = demo_add_served [OF _ _ demo_prefix_hash_ok]
  let ?c = "demo_config 5 FCFS 20"
  have c: "sc_policy ?c = FCFS" "sc_max_model_len ?c = 20" by (simp_all add: demo_config_def)
  obtain s0 where s0: "demo_start n ?c = Inr s0" "token_served demo_prefix_hash 1 Ready s0" "cfg s0 = ?c" "requests s0 = Map.empty"
    "\<not> enable_kv_cache_events (pool (kv s0))" using demo_start_served [OF c(1) assms, of demo_prefix_hash 1] by auto
  obtain s1 where s1: "demo_add ''a'' 1 [1, 2, 3] (demo_start n ?c) = Inr s1" "token_served demo_prefix_hash 1 Ready s1" "cfg s1 = ?c"
    "requests s1 = [''a'' \<mapsto> demo_queued ''a'' 1]" "kv s1 = kv s0"
    using add [OF s0(1,2), of "''a''" "[1, 2, 3]" 1] s0(3-5) c by auto
  show ?thesis using add [OF s1(1,2), of "''b''" "[3, 4, 5]" 0] s1(3-5) s0(5) c by auto
qed

lemma demo_waiting_served:
  obtains s where "demo_waiting = Inr s" "token_served demo_prefix_hash 1 Ready s" "cfg s = demo_config 5 FCFS 20"
  using demo_served [of 6] unfolding demo_waiting_def by auto

lemma demo_flight:
  "case demo_schedule demo_waiting of Inl _ \<Rightarrow> False
   | Inr (so, s) \<Rightarrow> runner_ok so s (demo_answers so s) \<and> out_num_scheduled_tokens so = [(''a'', 3), (''b'', 2)] \<and>
       map request_id (running s) = [''a'', ''b''] \<and> waiting s = FCFSRequestQueue []"
  by code_simp

lemma demo_flight_served:
  obtains so s where "demo_schedule demo_waiting = Inr (so, s)" "token_served demo_prefix_hash 1 (Flight so) s" "runner_ok so s (demo_answers so s)"
    "out_num_scheduled_tokens so = [(''a'', 3), (''b'', 2)]" "map request_id (running s) = [''a'', ''b'']"
proof -
  obtain s0 where s0: "demo_waiting = Inr s0" "token_served demo_prefix_hash 1 Ready s0" by (rule demo_waiting_served)
  obtain so s where s: "demo_schedule demo_waiting = Inr (so, s)" using demo_flight by (auto split: sum.splits)
  then have "token_schedule demo_prefix_hash 1 (\<lambda>_. True) s0 = Inr (so, s)" unfolding demo_schedule_def s0(1) bind_res_Inr .
  then have "token_served demo_prefix_hash 1 (Flight so) s" using token_served.schedule [OF s0(2)] by blast
  then show thesis using that [OF s] demo_flight s by simp
qed

section \<open>Properties\<close>









end
