(* ===== verification/Token_Progress.thy ===== *)
theory Token_Progress
  imports Token_Serving
begin

text \<open>
  Progress of the autoregressive path under the first-come-first-served policy: the engine takes in arrivals and makes a step, over and
  over, and every request is answered. The oldest request is never preempted and gets tokens in every step, so the number of its computed
  tokens grows with every step and is bounded by the length of the model.
\<close>

section \<open>Rounds of the engine\<close>

text \<open>A round takes in the requests that have arrived and makes a step. What arrives and what the model answers are parameters.\<close>

fun serve_rounds :: "hash_fn \<Rightarrow> int \<Rightarrow> (string \<Rightarrow> bool) \<Rightarrow> (token_scheduler \<Rightarrow> (request \<times> req_object) list) \<Rightarrow>
    (token_scheduler \<Rightarrow> sched_output \<Rightarrow> runner_output) \<Rightarrow> nat \<Rightarrow> token_scheduler \<Rightarrow> (token_output list \<times> token_scheduler) result" where
  "serve_rounds f seed grammar_ready arrivals execute_model 0 s = Inr ([], s)"
| "serve_rounds f seed grammar_ready arrivals execute_model (Suc k) s =
     bind_res (foldM (\<lambda>(r, q). token_add_request r q) (arrivals s) s) (\<lambda>s.
     bind_res (token_step f seed grammar_ready (execute_model s) s) (\<lambda>(outs, _, s).
     bind_res (serve_rounds f seed grammar_ready arrivals execute_model k s) (\<lambda>(outs', s). Inr (outs @ outs', s))))"

definition arrivals_ok :: "token_scheduler \<Rightarrow> (request \<times> req_object) list \<Rightarrow> bool" where
  "arrivals_ok s as \<longleftrightarrow> distinct (map (\<lambda>(r, q). request_id r) as) \<and> (\<forall>(r, q) \<in> set as. requests s (request_id r) = None \<and> acceptable s q)"

text \<open>The environment in all reachable states: new requests are acceptable and have fresh ids, and the model runner keeps its contract.\<close>

definition environment_ok :: "hash_fn \<Rightarrow> int \<Rightarrow> (string \<Rightarrow> bool) \<Rightarrow> (token_scheduler \<Rightarrow> (request \<times> req_object) list) \<Rightarrow>
    (token_scheduler \<Rightarrow> sched_output \<Rightarrow> runner_output) \<Rightarrow> bool" where
  "environment_ok f seed grammar_ready arrivals execute_model \<longleftrightarrow> (\<forall>s. token_served f seed Ready s \<longrightarrow> arrivals_ok s (arrivals s) \<and>
     (\<forall>so s'. token_schedule f seed grammar_ready s = Inr (so, s') \<longrightarrow> runner_ok so s' (execute_model s so)))"

text \<open>Nothing keeps a request from being scheduled: grammars are compiled, prompts may be chunked, adapters are not limited, there is a budget,
  and the cache holds a request of maximal length.\<close>

definition unhindered :: "(string \<Rightarrow> bool) \<Rightarrow> token_scheduler \<Rightarrow> bool" where
  "unhindered grammar_ready s \<longleftrightarrow> (\<forall>rid. grammar_ready rid) \<and> chunked_prefill_enabled (cfg s) \<and> sc_max_loras (cfg s) = None \<and>
     0 < max_num_scheduled_tokens (cfg s) \<and> 0 < max_num_running_reqs (cfg s) \<and> roomy s"

lemma unhindered_frame: "unhindered ready s \<Longrightarrow> cfg s' = cfg s \<Longrightarrow> same_frame (kv s) (kv s') \<Longrightarrow> unhindered ready s'"
  using roomy_frame [of s' s] by (simp add: unhindered_def)

lemma arrivals_taken_in:
  assumes "token_served f seed Ready s" "ready_ok f seed s w" and f: "collision_free f seed" and "arrivals_ok s as"
  shows "\<exists>s'. foldM (\<lambda>(r, q). token_add_request r q) as s = Inr s' \<and> token_served f seed Ready s' \<and> ready_ok f seed s' (w @ map fst as) \<and>
    running s' = running s \<and> cfg s' = cfg s \<and> kv s' = kv s \<and> (\<forall>x \<in> set (running s @ w). obj s' x = obj s x)"
  using assms(1,2,4)
proof (induction as arbitrary: s w)
  case (Cons a as)
  obtain r q where a: "a = (r, q)" by (cases a)
  have r: "requests s (request_id r) = None" "acceptable s q" "request_id r \<notin> (\<lambda>(r, q). request_id r) ` set as" using Cons.prems(3) a by (auto simp: arrivals_ok_def)
  have b: "between f seed s w" using Cons.prems(2) by (simp add: ready_ok_def)
  have "waiting s = FCFSRequestQueue w" using b queues_okD(2) token_okD(2) unfolding between_def by blast
  then obtain s1 where s1: "token_add_request r q s = Inr s1" by (simp add: token_add_request_def)
  note ar = arrival_ok [OF b f r(1,2) s1]
  have sv: "token_served f seed Ready s1" by (rule token_served.arrive [OF Cons.prems(1) r(1) _ r(2) s1]) simp
  have "behind s1" using Cons.prems(2) ar(2,3) by (simp add: ready_ok_def behind_def)
  then have rd: "ready_ok f seed s1 (w @ [r])" using ar(1) by (simp add: ready_ok_def)
  have "arrivals_ok s1 as" unfolding arrivals_ok_def
  proof (intro conjI ballI, goal_cases)
    case 1
    then show ?case using Cons.prems(3) by (simp add: arrivals_ok_def)
  next
    case (2 x)
    obtain y z where x: "x = (y, z)" by (cases x)
    then have "requests s (request_id y) = None" "acceptable s z" using Cons.prems(3) 2 by (auto simp: arrivals_ok_def)
    moreover have "request_id y \<noteq> request_id r" using r(3) 2 x by force
    ultimately show ?case using x ar(4-6) by (simp add: acceptable_def)
  qed
  from Cons.IH [OF sv rd this] obtain s' where s': "foldM (\<lambda>(r, q). token_add_request r q) as s1 = Inr s'" "token_served f seed Ready s'"
    "ready_ok f seed s' ((w @ [r]) @ map fst as)" "running s' = running s1" "cfg s' = cfg s1" "kv s' = kv s1"
    "\<forall>x \<in> set (running s1 @ w @ [r]). obj s' x = obj s1 x" by blast
  have "foldM (\<lambda>(r, q). token_add_request r q) (a # as) s = Inr s'" using s'(1) s1 a by simp
  moreover have "\<forall>x \<in> set (running s @ w). obj s' x = obj s x" using s'(7) ar(2,3) by simp
  moreover have "w @ map fst (a # as) = (w @ [r]) @ map fst as" using a by simp
  ultimately show ?case using s'(2-6) ar(2,4,5) by metis
qed simp

section \<open>One step\<close>

definition answered :: "token_output list \<Rightarrow> request \<Rightarrow> bool" where
  "answered outs r \<longleftrightarrow> (\<exists>x \<in> set outs. to_request_id x = request_id r \<and> is_finished (to_status x))"

text \<open>The requests that a step ends are answered; the oldest request ends or has more computed tokens.\<close>

lemma step_progress:
  assumes s: "token_served f seed Ready s" "ready_ok f seed s w" and f: "collision_free f seed" and u: "unhindered ready s"
    and run: "\<forall>so s'. token_schedule f seed ready s = Inr (so, s') \<longrightarrow> runner_ok so s' (run so)"
  shows "\<exists>outs ran s' w' D. token_step f seed ready run s = Inr (outs, ran, s') \<and> token_served f seed Ready s' \<and> ready_ok f seed s' w' \<and>
    cfg s' = cfg s \<and> same_frame (kv s) (kv s') \<and> running s' @ w' = filter (\<lambda>x. x \<notin> set D) (running s @ w) \<and> (\<forall>x \<in> set D. answered outs x) \<and>
    (\<forall>x xs. running s @ w = x # xs \<longrightarrow> x \<notin> set D \<longrightarrow> ro_num_computed_tokens (obj s x) < ro_num_computed_tokens (obj s' x))"
proof (cases "has_requests s")
  case False
  have "waiting s = FCFSRequestQueue w" using s(2) queues_okD(2) token_okD(2) unfolding ready_ok_def between_def by blast
  then have "running s @ w = []" using False by (simp add: has_requests_def get_num_unfinished_requests_def)
  moreover have "token_step f seed ready run s = Inr ([], False, s)" using False by (simp add: token_step_def)
  ultimately show ?thesis using s by (intro exI [of _ "[]"] exI [of _ False] exI [of _ s] exI [of _ w]) simp
next
  case True
  have skip: "\<forall>r \<in> set w. \<not> may_skip ready s r" using u by (simp add: unhindered_def may_skip_def)
  obtain so s1 w1 where c: "token_schedule f seed ready s = Inr (so, s1)" "flight_ok f seed so s1 w1" "cfg s1 = cfg s" "requests s1 = requests s"
    "live_inputs s1 = live_inputs s" "same_frame (kv s) (kv s1)"
    "\<forall>r \<in> set (running s1). request_id r \<in> fst ` set (out_num_scheduled_tokens so) \<longrightarrow> ro_num_computed_tokens (obj s r) < ro_num_computed_tokens (obj s1 r)"
    "(\<forall>r \<in> set w. \<not> may_skip ready s r) \<longrightarrow> running s1 @ w1 = running s @ w \<and>
      (roomy s \<and> 0 < max_num_scheduled_tokens (cfg s) \<and> 0 < max_num_running_reqs (cfg s) \<and> running s @ w \<noteq> [] \<longrightarrow>
        request_id (hd (running s @ w)) \<in> fst ` set (out_num_scheduled_tokens so))"
    using token_schedule_ok [OF s(2) f, of ready] by (elim exE conjE) (rule that; assumption)
  have order: "running s1 @ w1 = running s @ w" "running s @ w \<noteq> [] \<Longrightarrow> request_id (hd (running s @ w)) \<in> fst ` set (out_num_scheduled_tokens so)"
    using c(8) skip u unfolding unhindered_def by blast+
  have ro: "runner_ok so s1 (run so)" using run c(1) by blast
  obtain outs s2 where d: "update_from_output so (run so) s1 = Inr (outs, s2)" "ready_ok f seed s2 w1" "updated (run so) so s1 outs s2" "same_frame (kv s1) (kv s2)"
    using update_from_output_ok [OF c(2) f, of "run so"] ro unfolding runner_ok_def by blast
  let ?L = "live_of s1 (out_num_scheduled_tokens so)"
  obtain D where D: "cfg s2 = cfg s1" "set D \<subseteq> set ?L" "running s2 = still D s1" "\<forall>r \<in> set ?L. took (run so) s1 D s2 r"
    "outs = map (report s1 s2) (filter (grew s1 s2) ?L)" using d(3) unfolding updated_def Let_def by blast
  have q1: "queues_ok s1 [] w1" using c(2) by (simp add: flight_ok_def between_def token_ok_def)
  have ids: "request_id x \<in> fst ` set (out_num_scheduled_tokens so)" "x \<notin> set w1" if "x \<in> set ?L" for x
    using live_of_ids [OF q1 that] c(2) by (auto simp: flight_ok_def)
  have "filter (\<lambda>x. x \<notin> set D) w1 = w1" using ids(2) D(2) by (intro filter_True) blast
  then have left: "running s2 @ w1 = filter (\<lambda>x. x \<notin> set D) (running s @ w)" using D(3) by (simp add: still_def order(1) [symmetric])
  have ans: "answered outs x" if x: "x \<in> set D" for x
  proof -
    have xL: "x \<in> set ?L" using D(2) x by blast
    then have "took (run so) s1 D s2 x" using D(4) by blast
    then have "grew s1 s2 x" "is_finished (ro_status (obj s2 x))" using x by (auto simp: took_def grew_def ro_num_tokens_def)
    then have "report s1 s2 x \<in> set outs" "is_finished (to_status (report s1 s2 x))" using xL D(5) by (simp_all add: report_def)
    then show ?thesis unfolding answered_def by (intro bexI [of _ "report s1 s2 x"]) (simp_all add: report_def)
  qed
  have up: "ro_num_computed_tokens (obj s x) < ro_num_computed_tokens (obj s2 x)" if x: "running s @ w = x # xs" "x \<notin> set D" for x xs
  proof -
    have sch: "request_id x \<in> fst ` set (out_num_scheduled_tokens so)" using order(2) x(1) by simp
    have x1: "x \<in> set (running s1 @ w1)" using order(1) x(1) by simp
    then have rq: "requests s1 (request_id x) = Some x" using queues_okD(4) [OF q1, of "request_id x" x] by simp
    have "x \<in> set ?L" using rq sch by (force simp: live_of_def List.map_filter_def)
    then have k: "keeps_up (obj s1 x) (obj s2 x)" and xr: "x \<in> set (running s1)" using D(4) x(2) ids(2) x1 by (auto simp: took_def)
    have tok: "token_ok f seed (\<lambda>_. 0) s [] w" "behind s" using s(2) by (simp_all add: ready_ok_def between_def)
    have xs: "x \<in> set (running s @ w)" using x(1) by simp
    have "ro_num_computed_tokens (obj s x) < ro_num_tokens (obj s x)"
      using xs tok token_okD(4,5) [OF tok(1), of x] by (auto simp: behind_def waits_ok_def request_fits_def)
    moreover have "ro_num_tokens (obj s1 x) = ro_num_tokens (obj s x)"
      using live_known [OF token_okD(2) [OF tok(1)], of x] live_known [OF q1, of x] xs x1 c(5) by (simp add: ro_num_tokens_def)
    moreover have "ro_num_computed_tokens (obj s x) < ro_num_computed_tokens (obj s1 x)" using c(7) xr sch by blast
    ultimately show ?thesis using k unfolding keeps_up_def by linarith
  qed
  have "token_step f seed ready run s = Inr (outs, 0 < out_total_num_scheduled_tokens so, s2)" using True c(1) d(1) by (simp add: token_step_def)
  moreover have "token_served f seed Ready s2" by (rule token_served.update [OF token_served.schedule [OF s(1) c(1)] ro d(1)])
  ultimately show ?thesis using d(2) c(3) D(1) same_frame_trans [OF c(6) d(4)] left ans up by metis
qed

section \<open>Many rounds\<close>

text \<open>How many steps the requests \<open>xs\<close>, the oldest ones, need at most.\<close>

fun steps_left :: "token_scheduler \<Rightarrow> request list \<Rightarrow> nat" where
  "steps_left s [] = 0"
| "steps_left s (x # xs) = (sc_max_model_len (cfg s) - ro_num_computed_tokens (obj s x)) + length xs * sc_max_model_len (cfg s)"

lemma steps_left_le: "steps_left s xs \<le> length xs * sc_max_model_len (cfg s)"
  by (cases xs) simp_all

lemma steps_left_pos:
  assumes "ready_ok f seed s w" "running s @ w = (x # xs) @ ys"
  shows "ro_num_computed_tokens (obj s x) < sc_max_model_len (cfg s)"
proof -
  have tok: "token_ok f seed (\<lambda>_. 0) s [] w" "behind s" using assms(1) by (simp_all add: ready_ok_def between_def)
  have "x \<in> set (running s @ w)" using assms(2) by simp
  then show ?thesis using tok token_okD(4,5) [OF tok(1), of x] by (auto simp: behind_def waits_ok_def request_fits_def)
qed

lemma steps_left_step:
  assumes s': "cfg s' = cfg s" "x \<notin> set D \<Longrightarrow> ro_num_computed_tokens (obj s x) < ro_num_computed_tokens (obj s' x)"
    and x: "ro_num_computed_tokens (obj s x) < sc_max_model_len (cfg s)"
  shows "steps_left s' (filter (\<lambda>x. x \<notin> set D) (x # xs)) < steps_left s (x # xs)"
proof -
  let ?n = "sc_max_model_len (cfg s)" and ?ys = "filter (\<lambda>x. x \<notin> set D) xs"
  have len: "length ?ys * ?n \<le> length xs * ?n" by (simp only: mult_le_mono1 length_filter_le)
  show ?thesis
  proof (cases "x \<in> set D")
    case True
    have "steps_left s' ?ys \<le> length ?ys * ?n" using steps_left_le [of s' ?ys] s'(1) by simp
    then have "steps_left s' ?ys < ?n - ro_num_computed_tokens (obj s x) + length xs * ?n" using len x by linarith
    then show ?thesis using True by simp
  next
    case False
    have "?n - ro_num_computed_tokens (obj s' x) + length ?ys * ?n < ?n - ro_num_computed_tokens (obj s x) + length xs * ?n"
      using len x s'(2) [OF False] by linarith
    then show ?thesis using False s'(1) by simp
  qed
qed

lemma serve_rounds_ok:
  assumes f: "collision_free f seed" and env: "environment_ok f seed ready arrivals execute_model"
    and s: "token_served f seed Ready s" "ready_ok f seed s w" "unhindered ready s" and xs: "running s @ w = xs @ ys" "steps_left s xs \<le> k"
  shows "\<exists>outs s'. serve_rounds f seed ready arrivals execute_model k s = Inr (outs, s') \<and> token_served f seed Ready s' \<and> (\<forall>x \<in> set xs. answered outs x)"
  using s xs
proof (induction k arbitrary: s w xs ys)
  case 0
  have "xs = []"
  proof (cases xs)
    case (Cons x zs)
    then show ?thesis using steps_left_pos [OF "0.prems"(2), of x zs ys] "0.prems"(4,5) by simp
  qed
  then show ?case using "0.prems"(1) by simp
next
  case (Suc k)
  have "arrivals_ok s (arrivals s)" using env Suc.prems(1) by (simp add: environment_ok_def)
  from arrivals_taken_in [OF Suc.prems(1,2) f this] obtain s1 where a: "foldM (\<lambda>(r, q). token_add_request r q) (arrivals s) s = Inr s1"
    "token_served f seed Ready s1" "ready_ok f seed s1 (w @ map fst (arrivals s))" "running s1 = running s" "cfg s1 = cfg s" "kv s1 = kv s"
    "\<forall>x \<in> set (running s @ w). obj s1 x = obj s x" by blast
  define zs where "zs = ys @ map fst (arrivals s)"
  have q: "running s1 @ w @ map fst (arrivals s) = xs @ zs" using a(4) Suc.prems(4) by (simp add: zs_def)
  have u: "unhindered ready s1" by (rule unhindered_frame [OF Suc.prems(3) a(5)]) (simp add: a(6))
  have run: "\<forall>so s'. token_schedule f seed ready s1 = Inr (so, s') \<longrightarrow> runner_ok so s' (execute_model s1 so)"
    using env a(2) by (simp add: environment_ok_def)
  obtain outs ran s2 w2 D where st: "token_step f seed ready (execute_model s1) s1 = Inr (outs, ran, s2)" "token_served f seed Ready s2"
    "ready_ok f seed s2 w2" "cfg s2 = cfg s1" "same_frame (kv s1) (kv s2)" "running s2 @ w2 = filter (\<lambda>x. x \<notin> set D) (running s1 @ w @ map fst (arrivals s))"
    "\<forall>x \<in> set D. answered outs x"
    "\<forall>x zs. running s1 @ w @ map fst (arrivals s) = x # zs \<longrightarrow> x \<notin> set D \<longrightarrow> ro_num_computed_tokens (obj s1 x) < ro_num_computed_tokens (obj s2 x)"
    using step_progress [OF a(2,3) f u run] by (elim exE conjE) (rule that; assumption)
  let ?xs = "filter (\<lambda>x. x \<notin> set D) xs"
  have left: "steps_left s2 ?xs \<le> k"
  proof (cases xs)
    case (Cons x us)
    have x: "x \<in> set (running s @ w)" using Suc.prems(4) Cons by simp
    have "steps_left s2 ?xs < steps_left s1 xs" unfolding Cons
      by (rule steps_left_step [OF st(4)]) (use st(8) q Cons steps_left_pos [OF a(3), of x us zs] in auto)
    moreover have "steps_left s1 xs = steps_left s xs" using a(5,7) x Cons by simp
    ultimately show ?thesis using Suc.prems(5) by simp
  qed simp
  have "running s2 @ w2 = ?xs @ filter (\<lambda>x. x \<notin> set D) zs" using st(6) q by simp
  from Suc.IH [OF st(2,3) unhindered_frame [OF u st(4,5)] this left] obtain outs' s' where
    r: "serve_rounds f seed ready arrivals execute_model k s2 = Inr (outs', s')" "token_served f seed Ready s'" "\<forall>x \<in> set ?xs. answered outs' x" by blast
  have "answered (outs @ outs') x" if "x \<in> set xs" for x
    using that st(7) r(3) by (cases "x \<in> set D") (auto simp: answered_def)
  moreover have "serve_rounds f seed ready arrivals execute_model (Suc k) s = Inr (outs @ outs', s')" using a(1) st(1) r(1) by simp
  ultimately show ?case using r(2) by blast
qed


section \<open>Example\<close>

lemma demo_answers_ok:
  assumes "distinct (map fst (out_num_scheduled_tokens so))"
  shows "runner_ok so s (demo_answers so s)"
proof -
  let ?xs = "out_num_scheduled_tokens so" and ?out = "demo_answers so s"
  have "answer_ok (out_spec_decode_tokens so) ?out (request_id r) (obj s r)" if r: "request_id r \<in> fst ` set ?xs" for r
  proof -
    obtain i where i: "i < length ?xs" "map fst ?xs ! i = request_id r" using r by (force simp: in_set_conv_nth image_iff)
    have "map_of (req_id_to_index ?out) (request_id r) = Some i"
      using i assms map_of_zip_nth [of "map fst ?xs" "[0..<length ?xs]" i] by (simp add: demo_answers_def)
    moreover have "generated ?out i = (if ro_num_computed_tokens (obj s r) < ro_num_tokens (obj s r) then [] else [5])"
      using i by (auto simp: demo_answers_def generated_def obj_def split: prod.splits)
    ultimately show ?thesis using i by (simp add: answer_ok_def samples_ok_def) (simp add: demo_answers_def)
  qed
  then show ?thesis by (simp add: runner_ok_def)
qed

text \<open>A model runner that follows the scheduler, without further arrivals.\<close>

definition demo_model :: "token_scheduler \<Rightarrow> sched_output \<Rightarrow> runner_output" where
  "demo_model s so = (case token_schedule demo_prefix_hash 1 (\<lambda>_. True) s of Inl _ \<Rightarrow> demo_answers so s | Inr (_, s') \<Rightarrow> demo_answers so s')"

lemma demo_environment_ok: "environment_ok demo_prefix_hash 1 (\<lambda>_. True) (\<lambda>_. []) demo_model"
proof -
  have "runner_ok so s' (demo_model s so)" if s: "token_served demo_prefix_hash 1 Ready s" and e: "token_schedule demo_prefix_hash 1 (\<lambda>_. True) s = Inr (so, s')" for s so s'
  proof -
    obtain w where "phase_ok demo_prefix_hash 1 (Flight so) s' w" using token_served_ok [OF token_served.schedule [OF s e] demo_prefix_hash_ok] by blast
    then have "distinct (map fst (out_num_scheduled_tokens so))" by (simp add: flight_ok_def)
    then show ?thesis using demo_answers_ok e by (simp add: demo_model_def)
  qed
  then show ?thesis by (simp add: environment_ok_def arrivals_ok_def)
qed

definition demo_two_waiting :: "token_scheduler result" where
  "demo_two_waiting = demo_add ''b'' 0 [3, 4, 5] (demo_add ''a'' 1 [1, 2, 3] (demo_start 12 (demo_config 5 FCFS 20)))"


end
