(* ===== verification/Token_Faults.thy ===== *)
theory Token_Faults
  imports Token_Serving
begin

text \<open>
  Two situations in which the autoregressive scheduler does not do what it means to: preemption under the priority policy hits a request
  that has already been scheduled in the same step, and a prompt of the maximal length that is computed in chunks is never completed.
\<close>

section \<open>Preemption of a scheduled request\<close>

lemma outcome_cases:
  "(case x of (Some _, m) \<Rightarrow> P m | _ \<Rightarrow> False) \<longleftrightarrow> (\<exists>b m. x = (Some b, m) \<and> P m)"
  "(case x of (None, m) \<Rightarrow> P m | _ \<Rightarrow> False) \<longleftrightarrow> (\<exists>m. x = (None, m) \<and> P m)"
  "(case y of Inr z \<Rightarrow> Q z | _ \<Rightarrow> False) \<longleftrightarrow> (\<exists>z. y = Inr z \<and> Q z)" "is_ok y \<longleftrightarrow> (\<exists>z. y = Inr z)"
  by (auto simp: is_ok_def split: sum.splits option.splits prod.splits)

text \<open>Two requests run, the less urgent one first. It gets its tokens; there is no room for the tokens of the second one until the first one
  has been preempted.\<close>

definition scheduled_then_preempted :: "hash_fn \<Rightarrow> int \<Rightarrow> token_scheduler \<Rightarrow> request \<Rightarrow> request \<Rightarrow> bool" where
  "scheduled_then_preempted f seed s r1 r2 \<longleftrightarrow>
     (let c = cfg s; B = max_num_scheduled_tokens c;
          n1 = num_new_running c B (obj s r1); n2 = num_new_running c (B - nat n1) (obj s r2)
      in running s = [r1, r2] \<and> sc_policy c = PRIORITY \<and> sc_max_loras c = None \<and> request_id r1 \<noteq> request_id r2 \<and>
         (priority r2, arrival_time r2) < (priority r1, arrival_time r1) \<and>
         0 < n1 \<and> 0 < n2 \<and> nat n1 < B \<and> ro_spec_token_ids (obj s r1) = [] \<and> ro_spec_token_ids (obj s r2) = [] \<and>
         is_ok (queue_prepend r1 (waiting s)) \<and>
         (case allocate_slots f seed (cache_view s r1) (nat n1) 0 None (num_lookahead_tokens c) False (kv s) of Inr (Some _, m1) \<Rightarrow>
           (case allocate_slots f seed (cache_view s r2) (nat n2) 0 None (num_lookahead_tokens c) False m1 of Inr (None, m2) \<Rightarrow>
             (case free_request (cache_view s r1) m2 of Inr m3 \<Rightarrow>
               (case allocate_slots f seed (cache_view s r2) (nat n2) 0 None (num_lookahead_tokens c) False m3 of Inr (Some _, _) \<Rightarrow> True | _ \<Rightarrow> False) | _ \<Rightarrow> False) | _ \<Rightarrow> False) | _ \<Rightarrow> False))"

lemma record_spec_none: "ro_spec_token_ids (obj s r) = [] \<Longrightarrow> record_spec r n s a = (s, a)"
  by (simp add: record_spec_def)

text \<open>The pass over the running requests ends with two scheduled requests and one running.\<close>

lemma priority_pass:
  assumes "scheduled_then_preempted f seed s r1 r2"
  shows "\<exists>b a s'. running_loop f seed 0 (max_num_scheduled_tokens (cfg s)) nothing_scheduled s = Inr (b, a, s') \<and> scheduled_running_reqs a = [r1, r2] \<and>
    scheduled_new_reqs a = [] \<and> scheduled_resumed_reqs a = [] \<and> preempted_reqs a = [r1] \<and> running s' = [r2] \<and> cfg s' = cfg s"
proof -
  define B where "B = max_num_scheduled_tokens (cfg s)"
  define n1 where "n1 = num_new_running (cfg s) B (obj s r1)"
  define n2 where "n2 = num_new_running (cfg s) (B - nat n1) (obj s r2)"
  note d = assms [unfolded scheduled_then_preempted_def Let_def B_def [symmetric] n1_def [symmetric] n2_def [symmetric]]
  have h: "running s = [r1, r2]" "sc_policy (cfg s) = PRIORITY" "request_id r1 \<noteq> request_id r2"
    "(priority r2, arrival_time r2) < (priority r1, arrival_time r1)" "0 < n1" "0 < n2" "nat n1 < B" "ro_spec_token_ids (obj s r1) = []" "ro_spec_token_ids (obj s r2) = []"
    using d by blast+
  obtain q where q: "queue_prepend r1 (waiting s) = Inr q" using d unfolding outcome_cases by blast
  obtain b1 m1 m2 m3 b2 m4 where m:
    "allocate_slots f seed (cache_view s r1) (nat n1) 0 None (num_lookahead_tokens (cfg s)) False (kv s) = Inr (Some b1, m1)"
    "allocate_slots f seed (cache_view s r2) (nat n2) 0 None (num_lookahead_tokens (cfg s)) False m1 = Inr (None, m2)"
    "free_request (cache_view s r1) m2 = Inr m3"
    "allocate_slots f seed (cache_view s r2) (nat n2) 0 None (num_lookahead_tokens (cfg s)) False m3 = Inr (Some b2, m4)"
    using d unfolding outcome_cases by blast
  let ?a1 = "record_running r1 (nat n1) b1 [] nothing_scheduled"
  let ?s1 = "s\<lparr>kv := m1\<rparr>"
  have l1: "running_loop f seed 0 B nothing_scheduled s = running_loop f seed 1 (B - nat n1) ?a1 ?s1"
  proof -
    have "allocate_running f seed r1 (nat n1) s [] = Inr (Some b1, ?s1, [])" by (subst allocate_running.simps) (simp add: m(1))
    moreover have "0 < B" using h(7) by simp
    ultimately show ?thesis using h(5,8)
      by (subst running_loop.simps) (simp add: h(1) n1_def [symmetric] nothing_scheduled_def record_spec_none)
  qed
  let ?s2 = "set_obj r1 (\<lambda>q. q\<lparr>ro_status := PREEMPTED, ro_num_computed_tokens := 0\<rparr>) (s\<lparr>kv := m3, running := [r2], waiting := q\<rparr>)"
  have v: "cache_view ?s2 r2 = cache_view s r2" using h(3) by (simp add: cache_view_def)
  have al: "allocate_running f seed r2 (nat n2) ?s1 [] = Inr (Some b2, ?s2\<lparr>kv := m4\<rparr>, [r1])"
  proof -
    have cv: "choose_victim ?s1 = Inr (r1, [r2])" using h(1,2,4) by (auto simp: choose_victim_def Let_def)
    have pr: "preempt r1 [r2] (s\<lparr>kv := m2\<rparr>) = Inr ?s2" using m(3) q by (simp add: preempt_def)
    have "r1 \<noteq> r2" using h(3) by blast
    then have "allocate_running f seed r2 (nat n2) ?s1 [] = allocate_running f seed r2 (nat n2) ?s2 [r1]"
      by (subst allocate_running.simps) (simp add: m(2) cv pr)
    also have "\<dots> = Inr (Some b2, ?s2\<lparr>kv := m4\<rparr>, [r1])" by (subst allocate_running.simps) (simp add: v m(4))
    finally show ?thesis .
  qed
  let ?a2 = "record_running r2 (nat n2) b2 [r1] ?a1" and ?s3 = "?s2\<lparr>kv := m4\<rparr>"
  have "running_loop f seed 1 (B - nat n1) ?a1 ?s1 = running_loop f seed 2 (B - nat n1 - nat n2) ?a2 ?s3"
  proof -
    have p: "preempted_reqs ?a1 = []" by (simp add: record_running_def)
    have "obj ?s3 r2 = obj s r2" using h(3) by simp
    then have "record_spec r2 (nat n2) ?s3 ?a2 = (?s3, ?a2)" using h(9) by (intro record_spec_none) simp
    then show ?thesis using h(6,7) al p by (subst running_loop.simps) (simp add: h(1) n2_def [symmetric] numeral_2_eq_2)
  qed
  also have "\<dots> = Inr (B - nat n1 - nat n2, ?a2, ?s3)" by (subst running_loop.simps) simp
  finally show ?thesis using l1 unfolding B_def by (simp add: record_running_def nothing_scheduled_def)
qed


text \<open>The less urgent request \<open>a\<close> holds one block and still has a free slot in it; \<open>b\<close> has filled the other block.\<close>

definition token_demo_running :: "int list \<Rightarrow> nat \<Rightarrow> req_object" where
  "token_demo_running toks n = (demo_object toks)\<lparr>ro_status := RUNNING, ro_num_computed_tokens := n\<rparr>"

definition demo_full_cache :: "token_scheduler result" where
  "demo_full_cache = bind_res (KVCacheManager 3 2 20 False False False False) (\<lambda>m.
     bind_res (allocate_slots demo_prefix_hash 1 (demo_cached_request ''a'' [1] 0) 1 0 (Some []) 0 False m) (\<lambda>(_, m).
     bind_res (allocate_slots demo_prefix_hash 1 (demo_cached_request ''b'' [5, 6] 0) 2 0 (Some []) 0 False m) (\<lambda>(_, m).
       Inr \<lparr>cfg = demo_config 10 PRIORITY 20, kv = m, objects = (\<lambda>rid. if rid = ''a'' then token_demo_running [1, 2] 1 else token_demo_running [5, 6, 7] 2),
         requests = [''a'' \<mapsto> demo_queued ''a'' 1, ''b'' \<mapsto> demo_queued ''b'' 0], waiting = PriorityRequestQueue [],
         running = [demo_queued ''a'' 1, demo_queued ''b'' 0], finished_req_ids = {}\<rparr>)))"


section \<open>A prompt of maximal length\<close>

text \<open>The only request runs; all but the last token of its prompt, which is as long as the model allows, have been computed.\<close>

definition stalled :: "token_scheduler \<Rightarrow> request \<Rightarrow> bool" where
  "stalled s r \<longleftrightarrow> running s = [r] \<and> waiting s = FCFSRequestQueue [] \<and> sc_policy (cfg s) = FCFS \<and> sc_max_loras (cfg s) = None \<and>
     0 < max_num_running_reqs (cfg s) \<and> ro_status (obj s r) = RUNNING \<and> ro_num_tokens (obj s r) = sc_max_model_len (cfg s) \<and>
     ro_num_computed_tokens (obj s r) + 1 = sc_max_model_len (cfg s)"

text \<open>Any number of steps of the engine, with any answers of the executor.\<close>

fun token_steps :: "hash_fn \<Rightarrow> int \<Rightarrow> (string \<Rightarrow> bool) \<Rightarrow> (sched_output \<Rightarrow> runner_output) list \<Rightarrow> token_scheduler \<Rightarrow> (token_output list \<times> token_scheduler) result" where
  "token_steps f seed ready [] s = Inr ([], s)"
| "token_steps f seed ready (e # es) s =
     bind_res (token_step f seed ready e s) (\<lambda>(outs, _, s'). bind_res (token_steps f seed ready es s') (\<lambda>(outs', s''). Inr (outs @ outs', s'')))"

lemma stalled_pass:
  assumes "stalled s r"
  shows "running_loop f seed 0 b a s = Inr (b, a, s)"
proof (cases "b = 0")
  case True
  then show ?thesis by (subst running_loop.simps) simp
next
  case False
  have s: "running s = [r]" "ro_num_tokens (obj s r) = sc_max_model_len (cfg s)" "ro_num_computed_tokens (obj s r) + 1 = sc_max_model_len (cfg s)"
    using assms by (simp_all add: stalled_def)
  have "num_new_running (cfg s) b (obj s r) = 0" using s(2,3) False by (auto simp: num_new_running_def cap_prefill_def Let_def min_def)
  then have "running_loop f seed 0 b a s = running_loop f seed 1 b a s" using s(1) False by (subst running_loop.simps) simp
  also have "\<dots> = Inr (b, a, s)" using s(1) by (subst running_loop.simps) simp
  finally show ?thesis .
qed

lemma stalled_schedule:
  assumes st: "stalled s r"
  shows "\<exists>so m. token_schedule f seed ready s = Inr (so, s\<lparr>kv := m, finished_req_ids := {}\<rparr>) \<and> out_num_scheduled_tokens so = [] \<and> out_total_num_scheduled_tokens so = 0"
proof -
  have s: "running s = [r]" "waiting s = FCFSRequestQueue []" "sc_policy (cfg s) = FCFS" "sc_max_loras (cfg s) = None" "0 < max_num_running_reqs (cfg s)"
    "ro_status (obj s r) = RUNNING" using st by (simp_all add: stalled_def)
  let ?B = "max_num_scheduled_tokens (cfg s)" and ?a = nothing_scheduled
  have p: "schedule_passes f seed ready s = Inr (?B, FCFSRequestQueue [], ?a, s)"
    using s by (simp add: schedule_passes_def stalled_pass [OF st] nothing_scheduled_def)
  have c: "check_constraints ?B ?a (s\<lparr>waiting := waiting s\<rparr>) = Inr ()" using s(1,5) by (simp add: check_constraints_def nothing_scheduled_def)
  obtain n m where g: "common_prefix s = Inr (n, s\<lparr>kv := m\<rparr>)"
    using s(1,6) by (cases "group_num_common_prefix_blocks (request_id r) 1 (kv s)") (auto simp: common_prefix_def get_num_common_prefix_blocks_def)
  obtain so where so: "make_output ?a n (s\<lparr>kv := m\<rparr>) = Inr so" "out_num_scheduled_tokens so = []" "out_total_num_scheduled_tokens so = 0"
    by (simp add: make_output_def make_cached_request_data_def nothing_scheduled_def)
  have "token_schedule f seed ready s = Inr (so, s\<lparr>kv := snd (manager_take_events m), finished_req_ids := {}\<rparr>)"
    using p c g so(1) by (simp add: token_schedule_def update_after_schedule_def nothing_scheduled_def)
  then show ?thesis using so(2,3) by blast
qed

lemma stalled_step:
  assumes st: "stalled s r"
  shows "\<exists>s'. token_step f seed ready e s = Inr ([], False, s') \<and> stalled s' r \<and> obj s' r = obj s r"
proof -
  obtain so m where s: "token_schedule f seed ready s = Inr (so, s\<lparr>kv := m, finished_req_ids := {}\<rparr>)" "out_num_scheduled_tokens so = []"
    "out_total_num_scheduled_tokens so = 0" using stalled_schedule [OF st] by blast
  let ?s = "s\<lparr>kv := m, finished_req_ids := {}\<rparr>"
  have "update_from_output so (e so) ?s = Inr ([], ?s)" using s(2) by (simp add: update_from_output_def)
  moreover have "has_requests s" using st by (simp add: has_requests_def get_num_unfinished_requests_def stalled_def)
  ultimately have "token_step f seed ready e s = Inr ([], False, ?s)" using s(1,3) by (simp add: token_step_def)
  moreover have "stalled ?s r" "obj ?s r = obj s r" using st by (simp_all add: stalled_def)
  ultimately show ?thesis by blast
qed


text \<open>Three tokens at most, two tokens per step: the prompt of three tokens stalls after the first step.\<close>

definition demo_long_prompt :: "token_scheduler result" where
  "demo_long_prompt = demo_step (demo_add ''a'' 0 [1, 2, 3] (demo_start 4 (demo_config 2 FCFS 3)))"


end
