(* ===== verification/Spec2Isabelle.thy ===== *)
theory Spec2Isabelle
  imports Serving Token_Progress Token_Faults
begin

text \<open>
  A verification development for Mosaic, a serving system for diffusion language models built on
  vLLM. The repository's own part is modelled and proved; the code inherited from upstream vLLM is
  modelled where that part calls it.

  \<^bold>\<open>The program and its parts.\<close> A request arrives at the engine core
  (\<^verbatim>\<open>vllm/v1/engine/core.py\<close>), which maps it to a diffusion request and hands it to the diffusion
  scheduler (\<^verbatim>\<open>vllm/v1/diffusion/\<close>). Every engine step asks the scheduler for a batch, lets the model
  runner (\<^verbatim>\<open>execute_diffusion_once\<close> in \<^verbatim>\<open>vllm/v1/worker/gpu_model_runner.py\<close>) denoise it once, and feeds
  the updates back. The runner calls the model (\<^verbatim>\<open>vllm_add_llada\<close>, \<^verbatim>\<open>vllm_add_dream\<close>,
  \<^verbatim>\<open>vllm_add_llada_moe\<close>), whose forward pass takes all its intermediate tensors from one activation pool
  (\<^verbatim>\<open>vllm/v1/worker/activation_memory_pool.py\<close>, on the virtual memory allocator \<^verbatim>\<open>vmm_allocator/\<close>). Which
  tensor lies where is decided by a planner: \<^verbatim>\<open>vllm/v1/worker/graph_builder.py\<close> builds the computation
  graph of a block, analyses lifetimes and assigns byte offsets; \<^verbatim>\<open>diffusion_tools/online_searcher.py\<close>
  looks for a chunked variant of the block when the whole one does not fit. The logits of the masked
  positions are computed by the Triton kernel of \<^verbatim>\<open>gather_gemm/\<close>, the experts of LLaDA-MoE by the fused kernel of
  \<^verbatim>\<open>vllm/model_executor/layers/fused_moe/\<close>. Beside the diffusion path the engine keeps the key-value cache of
  vLLM (\<^verbatim>\<open>vllm/v1/core/\<close>) for autoregressive models: a manager gives blocks of a pool to requests, shares
  blocks between requests with a common prefix, and takes them back in the order in which they may be evicted. The scheduler of
  that path (\<^verbatim>\<open>vllm/v1/core/sched/scheduler.py\<close>) shares out a budget of tokens in every step, asks the manager for blocks, preempts
  requests when there are none, and takes over the tokens that the model runner samples.

  \<^bold>\<open>Theories.\<close> Each theory models the code its introduction names and proves the component's lemmas.
  \<^item> \<open>Mosaic_Prelude\<close>: exceptions as values, results, 64-bit wrap-around, intervals, shared lemmas.
  \<^item> \<open>Compute_Graph\<close>, \<open>Memory_Analyzer\<close>, \<open>Block_Graphs\<close>: the three parts of
    \<^verbatim>\<open>graph_builder.py\<close>, with the six block graphs and their arena sizes in closed form.
  \<^item> \<open>Plan_Safety\<close>, \<open>Arena_Semantics\<close>, \<open>Peak_Analysis\<close>: correctness of the planner. The locale
    \<open>gap_allocator\<close> is the contract between the planning loop and the scan for a gap. A plan keeps
    tensors with overlapping lifetimes apart, so running a graph inside the arena refines running it with
    separate storage; liveness, peak and timeline are exact.
  \<^item> \<open>Online_Searcher\<close>: the search for a chunk configuration. The locales \<open>block_search\<close> and
    \<open>shrinking_search\<close> state what the search needs to know about a family of graphs; they are
    interpreted for LLaDA, Dream and LLaDA-MoE. Accepted configurations fit; the search ends from a
    minimum number of tokens on, and runs forever below it when nothing fits.
  \<^item> \<open>Activation_Pool\<close>: the pool over the allocator. Buffers are backed by mapped memory and stay so.
  \<^item> \<open>Activation_Tensors\<close>: from a request to the tensors of its block, through search, planner and pool.
  \<^item> \<open>Request_Queue\<close>: the queues of \<^verbatim>\<open>vllm/v1/core/sched/request_queue.py\<close> with Python's heap
    algorithms; both implement the locale \<open>request_queue\<close>.
  \<^item> \<open>Diffusion_Scheduler\<close>: the iteration-level scheduler, its invariant and its countdown.
  \<^item> \<open>Diffusion_Step\<close>: one denoising step: which positions it fills in and with what.
  \<^item> \<open>Engine_Core\<close>: the diffusion path of the engine; the locale \<open>job_service\<close> carries the proof that a
    stepping service returns the result of its job.
  \<^item> \<open>Gather_Gemm\<close>: the fused kernel, program by program.
  \<^item> \<open>Model_Forward\<close>: the forward passes of LLaDA and Dream with chunk-wise feed-forward and logits; chunking
    changes nothing, and the forward passes meet the engine's contract. The locale \<open>layer_stack\<close> carries
    a refinement of one layer to the whole stack.
  \<^item> \<open>Moe_Align\<close>, \<open>Fused_Experts\<close>: the fused experts. The first sorts token-expert pairs into blocks of one
    expert each, the second multiplies block by block; together they compute the weighted sum of the
    selected experts.
  \<^item> \<open>Moe_Forward\<close>: the forward pass of LLaDA-MoE with chunk-wise experts.
  \<^item> \<open>Serving\<close>: the assembled system, end to end.
  \<^item> \<open>Free_Block_Queue\<close>: the doubly linked queue of free cache blocks, in an explicit store; it implements the
    locale \<open>block_queue\<close>, a list of distinct blocks.
  \<^item> \<open>Block_Hash\<close>: the hash chain over the full blocks of a request; a hash stands for the whole prefix.
  \<^item> \<open>Block_Pool\<close>: reference counts, cache and eviction over the queue. The locale \<open>counted_pool\<close> is what cache
    managers rely on, with the argument that the count they check before sharing and allocating is enough.
  \<^item> \<open>Kv_Cache_Manager\<close>: lookup, allocation, caching and freeing for requests. The inductive predicate \<open>kv_served\<close>
    describes the states that arrivals, admissions, extensions, preemptions, completions and resets lead to; its invariant
    ties the request tables to the pool, the hashes and the tokens of the requests.
  \<^item> \<open>Token_Scheduler\<close>: the autoregressive scheduler with the engine step around it, for both queueing policies.
  \<^item> \<open>Token_Scheduling\<close>, \<open>Token_Steps\<close>, \<open>Token_Updates\<close>: its invariant under the first-come-first-served policy, kept by the pass over the
    running requests, the pass over the waiting ones, the whole scheduling step, the update with sampled tokens, and aborts. Every
    scheduling step is a step of the cache manager, so that \<open>kv_served\<close> carries over.
  \<^item> \<open>Token_Serving\<close>: the inductive predicate \<open>token_served\<close> describes the states that arrivals, steps, outputs of the runner, aborts and
    resets lead to, between steps and while the model runs; in all of them scheduling and updating return and the books are in order.
  \<^item> \<open>Token_Progress\<close>: the engine takes in arrivals and makes a step, over and over; the oldest request gets tokens in every step and is
    never preempted, so every request is answered.
  \<^item> \<open>Token_Faults\<close>: two failures of the code: preemption of a scheduled request under the priority policy, and prompts of
    maximal length that are never completed.

  \<^bold>\<open>How the code is represented.\<close> Python integers are \<open>int\<close>, the sizes of the C++ allocator are 64-bit words,
  and sizes that pass through a \<^verbatim>\<open>torch\<close> integer tensor wrap at 64 bits. Dictionaries are maps, deques
  and heaps are lists. A raised exception is the left value of a sum, an exception that the source
  swallows is handled where the source handles it. Floating-point numbers are exact rationals: the
  properties do not speak about rounding. Matrices are lists of rows.

  \<^bold>\<open>Parameters and contracts.\<close> Code outside the repository is a parameter: the CUDA driver and
  \<^verbatim>\<open>torch.empty\<close> (\<open>gpu\<close>, with \<open>gpu_ok\<close>), \<^verbatim>\<open>torch.topk\<close> (\<open>topk_ok\<close>), norms and attention kernels (\<open>layer_ok\<close>,
  \<open>model_ok\<close>, \<open>moe_layer_ok\<close>: they keep the number of rows), the sampling kernels (\<open>rowwise\<close>) and the
  selection of experts (\<open>topk_softmax_ok\<close>). In which order the programs of a kernel run is a parameter
  too (\<open>orders_ok\<close>, \<open>sched_ok\<close>). The hash function of the cache blocks is a parameter, assumed to be free of
  collisions (\<open>collision_free\<close>) where equal hashes must mean equal prefixes. The scheduler,
  the step and the engine are proved for every forward pass with \<open>forward_ok\<close>, which \<open>Model_Forward\<close>,
  \<open>Moe_Forward\<close> and \<open>Serving\<close> prove for the models. The meaning of the operations of a graph is a parameter of the
  arena semantics. The model runner of
  the autoregressive path is a parameter as well: \<open>runner_ok\<close> says that it answers every scheduled request, with no token while the
  request is being prefilled and otherwise with one token and at most one more per draft. Every contract is shown satisfiable by a concrete instance.

  \<^bold>\<open>Bounds and fuel.\<close> The loop of the search has fuel; \<open>search_terminates\<close> shows that as many turns as
  there are tokens and logits rows are enough. Token counts are below \<open>2 ^ 40\<close>, so that no tensor size
  wraps. Engine steps are counted: a diffusion request needs as many as it has
  denoising steps, and the requests in an autoregressive engine are answered within their number times the maximal length of the model. The walk over the
  free queue may run forever on a broken list, so it is a partial function, shown to return on every reachable queue. The loop over
  the waiting requests has the length of their queue as fuel; every turn takes a request out of the queue or ends the loop. All other
  functions are total.

  \<^bold>\<open>Not modelled.\<close> Logging, timing, garbage collection and CUDA synchronisation; quantised
  variants of the expert kernel; rotary embedding, attention and sampling kernels; the one-shot
  \<^verbatim>\<open>execute_diffusion\<close> and the warm-up of the runner, which the engine does not call; the earlier planner
  variants kept beside \<^verbatim>\<open>graph_builder.py\<close>; process management, sockets and the rest of upstream vLLM
  (KV connectors, encoder inputs, pooling and asynchronous scheduling in the autoregressive scheduler,
  cache groups other than full attention, tokenisation, entry points, other models, quantisation,
  kernels and bindings). The forward pass is relied on for one sequence at a time: a step updates only
  the first request of its batch, as the source does.
\<close>

end
